(* ===== verification/Prelude.thy ===== *)
theory Prelude
  imports Main "HOL-Library.Word"
begin

text \<open>
  Shared ground of the development: the machine types of \<^verbatim>\<open>include/type.h\<close>, the
  unsigned division of the RISC-V instruction set, and generic lemmas on words, lists,
  maps and function updates that the component theories use.
\<close>

unbundle bit_operations_syntax

section \<open>Machine types (include/type.h)\<close>

text \<open>
  \<^verbatim>\<open>ptr_t\<close>, \<^verbatim>\<open>reg_t\<close>, \<^verbatim>\<open>uint64_t\<close> and \<^verbatim>\<open>size_t\<close> are 64-bit words, \<^verbatim>\<open>uint32_t\<close>, \<^verbatim>\<open>pid_t\<close>
  and \<^verbatim>\<open>int\<close> are 32-bit words (the signed ones are read with \<open>sint\<close>), \<^verbatim>\<open>uint8_t\<close> and
  the (unsigned, on RISC-V) \<^verbatim>\<open>char\<close> are 8-bit words.
\<close>

type_synonym ptr = "64 word"
type_synonym reg = "64 word"
type_synonym u64 = "64 word"
type_synonym u32 = "32 word"
type_synonym cint = "32 word"
type_synonym byte = "8 word"

abbreviation (input) NULL :: ptr where
  "NULL \<equiv> 0"

text \<open>Register and offset literals stay numerals.\<close>

declare One_nat_def [simp del]

section \<open>Hint collections\<close>

named_theorems footprint \<open>what a store operation leaves unchanged\<close>
named_theorems field_simps_k \<open>reading back a field of the kernel state after an update\<close>

section \<open>Division\<close>

text \<open>
  The compiler emits \<^verbatim>\<open>divu\<close> for an unsigned C division; \<^verbatim>\<open>divu\<close> by zero returns all ones.
\<close>

definition divu :: "u64 \<Rightarrow> u64 \<Rightarrow> u64" where
  "divu a b = (if b = 0 then - 1 else a div b)"

lemma divu_nonzero [simp]: "b \<noteq> 0 \<Longrightarrow> divu a b = a div b"
  by (simp add: divu_def)

section \<open>Small numbers as addresses and offsets\<close>

lemma unat_of_nat_u64: "n < 2 ^ 64 \<Longrightarrow> unat (of_nat n :: u64) = n"
  by (simp add: unat_of_nat take_bit_nat_eq_self)

lemma of_nat_u64_eq_iff:
  "m < 2 ^ 64 \<Longrightarrow> n < 2 ^ 64 \<Longrightarrow> (of_nat m :: u64) = of_nat n \<longleftrightarrow> m = n"
  using unat_of_nat_u64 by metis

lemma sint_small: "unat (w :: u32) < 2 ^ 31 \<Longrightarrow> sint w = int (unat w)"
proof -
  assume "unat w < 2 ^ 31"
  then have lt: "uint w < 2 ^ 31" unfolding uint_nat by (simp del: of_nat_unat)
  have ge: "- (2 ^ 31) \<le> uint w" by (rule order_trans [OF _ uint_ge_0]) simp
  have "signed_take_bit 31 (uint w) = uint w"
    using ge lt by (rule signed_take_bit_int_eq_self)
  then show ?thesis by (simp add: sint_uint)
qed

text \<open>A non-negative \<^verbatim>\<open>int\<close> keeps its value when it is converted to a 64-bit type.\<close>

lemma scast_small:
  assumes "unat (w :: u32) < 2 ^ 31"
  shows "(scast w :: u64) = of_nat (unat w)"
proof -
  have "(scast w :: u64) = word_of_int (sint w)" by (rule scast_eq)
  also have "\<dots> = of_nat (unat w)" by (simp add: sint_small [OF assms])
  finally show ?thesis .
qed

lemma unat_scast_small: "unat (w :: u32) < 2 ^ 31 \<Longrightarrow> unat (scast w :: u64) = unat w"
  by (simp only: scast_small) (rule unat_of_nat_u64, simp)

section \<open>Words of 32 bits\<close>

lemma unat_of_nat_u32: "n < 2 ^ 32 \<Longrightarrow> unat (of_nat n :: u32) = n"
  by (simp add: unat_of_nat take_bit_nat_eq_self)

lemma unat_lt_u32: "unat (x :: u32) < 2 ^ 32"
proof -
  have "unat x < 2 ^ LENGTH(32)" by (rule unsigned_less)
  then show ?thesis by simp
qed

lemma unat_ucast_u64: "unat (ucast (w :: u32) :: u64) = unat w"
proof -
  have "unat w < 2 ^ LENGTH(32)" by (rule unsigned_less)
  then show ?thesis by (simp add: unsigned_ucast_eq take_bit_nat_eq_self)
qed

lemma sint_of_nat_u32: "k < 2 ^ 31 \<Longrightarrow> sint (of_nat k :: cint) = int k"
  using sint_small [of "of_nat k"] unat_of_nat_u32 [of k] by simp

section \<open>Lists\<close>

lemma removeAll_notin [simp]: "x \<notin> set xs \<Longrightarrow> removeAll x xs = xs"
  by (simp add: removeAll_id)

lemma removeAll_split:
  "distinct (ys @ x # zs) \<Longrightarrow> removeAll x (ys @ x # zs) = ys @ zs"
  by (simp add: removeAll_id)

lemma set_butlast_last: "xs \<noteq> [] \<Longrightarrow> set xs = insert (last xs) (set (butlast xs))"
  by (induction xs) auto

section \<open>Maps of lists\<close>

text \<open>
  A family of disjoint sequences indexed by their root, the abstract value of a store of
  linked lists: the nodes it covers, and the two ways it changes.
\<close>

definition nodes :: "('p \<rightharpoonup> 'p list) \<Rightarrow> 'p set" where
  "nodes Q = {p. \<exists>r xs. Q r = Some xs \<and> (p = r \<or> p \<in> set xs)}"

definition unlink :: "'p \<Rightarrow> ('p \<rightharpoonup> 'p list) \<Rightarrow> ('p \<rightharpoonup> 'p list)" where
  "unlink n Q = (\<lambda>r. if r = n then None else map_option (removeAll n) (Q r))"

definition isolate :: "'p \<Rightarrow> ('p \<rightharpoonup> 'p list) \<Rightarrow> ('p \<rightharpoonup> 'p list)" where
  "isolate n Q = (unlink n Q)(n \<mapsto> [])"

definition enqueue :: "'p \<Rightarrow> 'p \<Rightarrow> ('p \<rightharpoonup> 'p list) \<Rightarrow> ('p \<rightharpoonup> 'p list)" where
  "enqueue n r Q = Q(r \<mapsto> (case Q r of None \<Rightarrow> [] | Some xs \<Rightarrow> xs) @ [n])"

definition pushfront :: "'p \<Rightarrow> 'p \<Rightarrow> ('p \<rightharpoonup> 'p list) \<Rightarrow> ('p \<rightharpoonup> 'p list)" where
  "pushfront n r Q = Q(r \<mapsto> n # (case Q r of None \<Rightarrow> [] | Some xs \<Rightarrow> xs))"

lemma nodes_root [intro]: "Q r = Some xs \<Longrightarrow> r \<in> nodes Q"
  by (auto simp: nodes_def)

lemma nodes_member [intro]: "Q r = Some xs \<Longrightarrow> x \<in> set xs \<Longrightarrow> x \<in> nodes Q"
  by (auto simp: nodes_def)

lemma nodesE:
  assumes "p \<in> nodes Q"
  obtains (root) xs where "Q p = Some xs"
  | (member) r xs where "Q r = Some xs" and "p \<in> set xs"
  using assms by (auto simp: nodes_def)

lemma unlink_notin_nodes [simp]: "n \<notin> nodes (unlink n Q)"
  by (auto simp: nodes_def unlink_def split: if_splits)

lemma nodes_unlink_subset: "nodes (unlink n Q) \<subseteq> nodes Q - {n}"
proof
  fix p assume "p \<in> nodes (unlink n Q)"
  then show "p \<in> nodes Q - {n}"
    by (cases rule: nodesE) (auto simp: unlink_def split: if_splits)
qed

lemma unlink_root [simp]: "unlink n Q n = None"
  by (simp add: unlink_def)

lemma unlink_other: "r \<noteq> n \<Longrightarrow> unlink n Q r = map_option (removeAll n) (Q r)"
  by (simp add: unlink_def)

lemma isolate_self [simp]: "isolate n Q n = Some []"
  by (simp add: isolate_def)

lemma isolate_other: "r \<noteq> n \<Longrightarrow> isolate n Q r = map_option (removeAll n) (Q r)"
  by (simp add: isolate_def unlink_def)

lemma enqueue_self [simp]: "Q r = Some xs \<Longrightarrow> enqueue n r Q r = Some (xs @ [n])"
  by (simp add: enqueue_def)

lemma enqueue_other [simp]: "k \<noteq> r \<Longrightarrow> enqueue n r Q k = Q k"
  by (simp add: enqueue_def)

definition attach :: "'p \<Rightarrow> 'p \<Rightarrow> ('p \<rightharpoonup> 'p list) \<Rightarrow> ('p \<rightharpoonup> 'p list)" where
  "attach n r Q = enqueue n r (unlink n Q)"

text \<open>A node that may be taken off its ring: on some queue, or alone.\<close>

definition loose :: "'p \<Rightarrow> ('p \<rightharpoonup> 'p list) \<Rightarrow> bool" where
  "loose n Q \<longleftrightarrow> n \<in> nodes Q \<and> (Q n = None \<or> Q n = Some [])"

lemma attach_self: "Q r = Some xs \<Longrightarrow> n \<noteq> r \<Longrightarrow> attach n r Q r = Some (removeAll n xs @ [n])"
  by (simp add: attach_def enqueue_def unlink_other)

lemma attach_node: "n \<noteq> r \<Longrightarrow> attach n r Q n = None"
  by (simp add: attach_def)

lemma attach_other:
  "k \<noteq> r \<Longrightarrow> k \<noteq> n \<Longrightarrow> attach n r Q k = map_option (removeAll n) (Q k)"
  by (simp add: attach_def unlink_other)

lemma loose_alone: "Q n = Some [] \<Longrightarrow> loose n Q"
  by (auto simp: loose_def)

lemma loose_member: "Q r = Some xs \<Longrightarrow> n \<in> set xs \<Longrightarrow> Q n = None \<Longrightarrow> loose n Q"
  by (auto simp: loose_def)

lemma looseE:
  assumes "loose n Q"
  obtains (alone) "Q n = Some []"
  | (member) r xs where "Q n = None" and "Q r = Some xs" and "n \<in> set xs"
  using assms by (auto simp: loose_def elim: nodesE)

end
