(* ===== verification/Queue_Interface.thy ===== *)
theory Queue_Interface
  imports Prelude
begin

text \<open>
  The interface between the list component and its clients (the scheduler, the locks, the
  sleep queue, the thread groups): what the clients call, and what they rely on. A store
  holds a family of disjoint queues \<open>Q\<close>; a node is on at most one of them, and a node that
  is on none is the root of an empty ring of its own.
\<close>

locale queue_store =
  fixes holds :: "'h \<Rightarrow> ('p \<rightharpoonup> 'p list) \<Rightarrow> bool"
    and is_empty :: "'h \<Rightarrow> 'p \<Rightarrow> bool"
    and first :: "'h \<Rightarrow> 'p \<Rightarrow> 'p"
    and add_tail :: "'p \<Rightarrow> 'p \<Rightarrow> 'h \<Rightarrow> 'h"
    and del_init :: "'p \<Rightarrow> 'h \<Rightarrow> 'h"
    and move_tail :: "'p \<Rightarrow> 'p \<Rightarrow> 'h \<Rightarrow> 'h"
  assumes holds_distinct: "holds h Q \<Longrightarrow> Q r = Some xs \<Longrightarrow> distinct (r # xs)"
    and holds_disjoint: "holds h Q \<Longrightarrow> Q r = Some xs \<Longrightarrow> Q k = Some ys \<Longrightarrow> r \<noteq> k \<Longrightarrow>
      set (r # xs) \<inter> set (k # ys) = {}"
    and empty_iff: "holds h Q \<Longrightarrow> Q r = Some xs \<Longrightarrow> is_empty h r \<longleftrightarrow> xs = []"
    and first_eq: "holds h Q \<Longrightarrow> Q r = Some (x # xs) \<Longrightarrow> first h r = x"
    and add_tail_law: "holds h Q \<Longrightarrow> Q r = Some xs \<Longrightarrow> Q n = Some [] \<Longrightarrow> n \<noteq> r \<Longrightarrow>
      holds (add_tail n r h) (attach n r Q)"
    and del_init_law: "holds h Q \<Longrightarrow> loose n Q \<Longrightarrow> holds (del_init n h) (isolate n Q)"
    and move_tail_law: "holds h Q \<Longrightarrow> Q r = Some xs \<Longrightarrow> loose n Q \<Longrightarrow> n \<noteq> r \<Longrightarrow>
      holds (move_tail n r h) (attach n r Q)"
begin

lemma member_not_root:
  assumes "holds h Q" and "Q r = Some xs" and "n \<in> set xs"
  shows "Q n = None"
proof (rule ccontr)
  assume "Q n \<noteq> None"
  then obtain ys where "Q n = Some ys" by blast
  moreover have "n \<noteq> r" using holds_distinct [OF assms(1,2)] assms(3) by auto
  ultimately show False
    using holds_disjoint [OF assms(1,2), of n ys] assms(3) by auto
qed

lemma member_loose: "holds h Q \<Longrightarrow> Q r = Some xs \<Longrightarrow> n \<in> set xs \<Longrightarrow> loose n Q"
  by (blast intro: loose_member member_not_root)

lemma member_unique:
  assumes "holds h Q" and "Q r = Some xs" and "Q k = Some ys" and "n \<in> set xs" and "n \<in> set ys"
  shows "r = k"
  using holds_disjoint [OF assms(1-3)] assms(4,5) by auto

lemma isolate_keeps:
  assumes "holds h Q" and "Q r = Some xs" and "n \<in> set xs" and "Q k = Some ys" and "k \<noteq> r"
  shows "isolate n Q k = Some ys"
proof -
  have "n \<notin> set (k # ys)"
    using holds_disjoint [OF assms(1,2,4)] assms(3,5) by auto
  then show ?thesis using assms(4) by (auto simp: isolate_other)
qed

lemma attach_keeps:
  assumes h: "holds h Q" and k: "Q k = Some ys" and n: "n \<notin> set (k # ys)" and "k \<noteq> r"
  shows "attach n r Q k = Some ys"
  using assms by (auto simp: attach_other)

text \<open>The two changes of a family written out, for a node on a queue and for one on none.\<close>

lemma unlink_from:
  assumes h: "holds h Q" and a: "Q a = Some (ys @ n # zs)"
  shows "unlink n Q = Q(a \<mapsto> ys @ zs)"
proof
  fix k
  have n: "Q n = None" using member_not_root [OF h a] by simp
  have d: "distinct (a # ys @ n # zs)" by (rule holds_distinct [OF h a])
  show "unlink n Q k = (Q(a \<mapsto> ys @ zs)) k"
  proof (cases "k = a \<or> Q k = None")
    case True
    with a d n show ?thesis by (auto simp: unlink_def)
  next
    case False
    then obtain xs where k: "Q k = Some xs" and "k \<noteq> a" by blast
    with holds_disjoint [OF h a k] have "n \<notin> set (k # xs)" by auto
    with k \<open>k \<noteq> a\<close> show ?thesis by (auto simp: unlink_def)
  qed
qed

lemma unlink_single:
  assumes h: "holds h Q" and n: "Q n = Some xs"
  shows "unlink n Q = Q(n := None)"
proof
  fix k
  show "unlink n Q k = (Q(n := None)) k"
  proof (cases "k = n \<or> Q k = None")
    case True
    then show ?thesis by (auto simp: unlink_def)
  next
    case False
    then obtain ys where k: "Q k = Some ys" and "k \<noteq> n" by blast
    with holds_disjoint [OF h n k] have "n \<notin> set ys" by auto
    with k \<open>k \<noteq> n\<close> show ?thesis by (simp add: unlink_def)
  qed
qed

lemma attach_from:
  assumes "holds h Q" and "Q a = Some (ys @ n # zs)" and "Q b = Some xs" and "a \<noteq> b"
  shows "attach n b Q = Q(a \<mapsto> ys @ zs, b \<mapsto> xs @ [n])"
  using assms by (simp add: attach_def unlink_from enqueue_def)

lemma attach_same:
  assumes "holds h Q" and "Q a = Some (ys @ n # zs)"
  shows "attach n a Q = Q(a \<mapsto> ys @ zs @ [n])"
  using assms by (simp add: attach_def unlink_from enqueue_def)

lemma attach_alone:
  assumes "holds h Q" and "Q n = Some []" and "Q b = Some xs" and "n \<noteq> b"
  shows "attach n b Q = Q(n := None, b \<mapsto> xs @ [n])"
  using assms by (simp add: attach_def unlink_single enqueue_def)

lemma isolate_from:
  assumes "holds h Q" and "Q a = Some (ys @ n # zs)"
  shows "isolate n Q = Q(a \<mapsto> ys @ zs, n \<mapsto> [])"
  using assms by (simp add: isolate_def unlink_from)

lemma isolate_alone:
  assumes "holds h Q" and "Q n = Some []"
  shows "isolate n Q = Q"
  using assms by (auto simp: isolate_def unlink_single)

text \<open>
  The rotation of a round-robin scheduler: a node that is on no queue goes to the tail of a
  non-empty queue, and the first element is taken off.
\<close>

lemma rotate:
  assumes h: "holds h Q" and r: "Q r = Some (x # xs)" and c: "Q c = Some []" and cr: "c \<noteq> r"
  shows "first (add_tail c r h) r = x"
    and "holds (del_init x (add_tail c r h)) (Q(c := None, r \<mapsto> xs @ [c], x \<mapsto> []))"
proof -
  have h1: "holds (add_tail c r h) (Q(c := None, r \<mapsto> (x # xs) @ [c]))"
    using add_tail_law [OF h r c cr] by (simp add: attach_alone [OF h c r cr])
  show x: "first (add_tail c r h) r = x"
    by (rule first_eq [OF h1]) simp
  have "loose x (Q(c := None, r \<mapsto> (x # xs) @ [c]))"
    by (rule member_loose [OF h1, of r "(x # xs) @ [c]"]) simp_all
  from del_init_law [OF h1 this]
  show "holds (del_init x (add_tail c r h)) (Q(c := None, r \<mapsto> xs @ [c], x \<mapsto> []))"
    using isolate_from [OF h1, of r "[]" x "xs @ [c]"] by simp
qed

lemma take_first:
  assumes h: "holds h Q" and r: "Q r = Some (x # xs)"
  shows "first h r = x" and "holds (del_init x h) (Q(r \<mapsto> xs, x \<mapsto> []))"
proof -
  show "first h r = x" by (rule first_eq [OF h r])
  have "loose x Q" using member_loose [OF h r] by simp
  from del_init_law [OF h this] show "holds (del_init x h) (Q(r \<mapsto> xs, x \<mapsto> []))"
    using isolate_from [OF h, of r "[]" x xs] r by simp
qed

end

end
