(* ===== verification/Kernel_List.thy ===== *)
theory Kernel_List
  imports Queue_Interface
begin

text \<open>
  The kernel's circular doubly linked lists: \<^verbatim>\<open>include/os/list.h\<close> and
  \<^verbatim>\<open>kernel/list/list.c\<close>. The two pointer fields of a \<^verbatim>\<open>list_node_t\<close> are kept in an explicit
  store, so that aliasing (a node on two lists, a node that is its own neighbour) is the
  store's, as in the C code. The operations are assignments in the order the code has them.
\<close>

section \<open>The store of list nodes\<close>

record list_store =
  nxt :: "ptr \<Rightarrow> ptr"
  prv :: "ptr \<Rightarrow> ptr"

definition set_next :: "ptr \<Rightarrow> ptr \<Rightarrow> list_store \<Rightarrow> list_store" where
  "set_next p v h = h\<lparr>nxt := (nxt h)(p := v)\<rparr>"

definition set_prev :: "ptr \<Rightarrow> ptr \<Rightarrow> list_store \<Rightarrow> list_store" where
  "set_prev p v h = h\<lparr>prv := (prv h)(p := v)\<rparr>"

section \<open>Operations (kernel/list/list.c)\<close>

definition init_list_head :: "ptr \<Rightarrow> list_store \<Rightarrow> list_store" where
  "init_list_head p h =
     (let h1 = set_next p p h in
      set_prev p p h1)"

definition list_add :: "ptr \<Rightarrow> ptr \<Rightarrow> list_store \<Rightarrow> list_store" where
  "list_add new head h =
     (let h1 = set_next new (nxt h head) h;
          h2 = set_prev new head h1;
          h3 = set_prev (nxt h2 head) new h2
      in set_next head new h3)"

definition list_add_tail :: "ptr \<Rightarrow> ptr \<Rightarrow> list_store \<Rightarrow> list_store" where
  "list_add_tail new head h =
     (let h1 = set_next new head h;
          h2 = set_prev new (prv h1 head) h1;
          h3 = set_next (prv h2 head) new h2
      in set_prev head new h3)"

definition list_del :: "ptr \<Rightarrow> list_store \<Rightarrow> list_store" where
  "list_del entry h =
     (let h1 = set_next (prv h entry) (nxt h entry) h
      in set_prev (nxt h1 entry) (prv h1 entry) h1)"

definition list_del_init :: "ptr \<Rightarrow> list_store \<Rightarrow> list_store" where
  "list_del_init entry h = init_list_head entry (list_del entry h)"

definition list_replace :: "ptr \<Rightarrow> ptr \<Rightarrow> list_store \<Rightarrow> list_store" where
  "list_replace old new h =
     (let h1 = set_next new (nxt h old) h;
          h2 = set_prev new (prv h1 old) h1;
          h3 = set_prev (nxt h2 new) new h2
      in set_next (prv h3 new) new h3)"

definition list_replace_init :: "ptr \<Rightarrow> ptr \<Rightarrow> list_store \<Rightarrow> list_store" where
  "list_replace_init old new h = init_list_head old (list_replace old new h)"

definition list_move :: "ptr \<Rightarrow> ptr \<Rightarrow> list_store \<Rightarrow> list_store" where
  "list_move l head h = list_add l head (list_del l h)"

definition list_move_tail :: "ptr \<Rightarrow> ptr \<Rightarrow> list_store \<Rightarrow> list_store" where
  "list_move_tail l head h = list_add_tail l head (list_del l h)"

section \<open>Macros (include/os/list.h)\<close>

definition list_empty :: "list_store \<Rightarrow> ptr \<Rightarrow> bool" where
  "list_empty h l \<longleftrightarrow> nxt h l = l"

definition list_is_singular :: "list_store \<Rightarrow> ptr \<Rightarrow> bool" where
  "list_is_singular h l \<longleftrightarrow> nxt h l \<noteq> l \<and> nxt h l = prv h l"

text \<open>
  The iteration macros, over a loop body that changes a state \<open>'s\<close> in which the node store
  is \<open>st s\<close>. A traversal of a corrupt list may never come back to its head, so a loop
  returns an option. \<open>list_for_each_safe\<close> reads the successor before the body runs.
\<close>

partial_function (option) for_each_loop ::
    "('s \<Rightarrow> list_store) \<Rightarrow> (ptr \<Rightarrow> 's \<Rightarrow> 's) \<Rightarrow> ptr \<Rightarrow> ptr \<Rightarrow> 's \<Rightarrow> 's option" where
  "for_each_loop st body head pos s =
     (if pos = head then Some s
      else for_each_loop st body head (nxt (st (body pos s)) pos) (body pos s))"

definition list_for_each ::
    "('s \<Rightarrow> list_store) \<Rightarrow> (ptr \<Rightarrow> 's \<Rightarrow> 's) \<Rightarrow> ptr \<Rightarrow> 's \<Rightarrow> 's option" where
  "list_for_each st body head s = for_each_loop st body head (nxt (st s) head) s"

partial_function (option) for_each_safe_loop ::
    "('s \<Rightarrow> list_store) \<Rightarrow> (ptr \<Rightarrow> 's \<Rightarrow> 's) \<Rightarrow> ptr \<Rightarrow> ptr \<Rightarrow> ptr \<Rightarrow> 's \<Rightarrow> 's option" where
  "for_each_safe_loop st body head pos n s =
     (if pos = head then Some s
      else for_each_safe_loop st body head n (nxt (st (body pos s)) n) (body pos s))"

definition list_for_each_safe ::
    "('s \<Rightarrow> list_store) \<Rightarrow> (ptr \<Rightarrow> 's \<Rightarrow> 's) \<Rightarrow> ptr \<Rightarrow> 's \<Rightarrow> 's option" where
  "list_for_each_safe st body head s =
     for_each_safe_loop st body head (nxt (st s) head) (nxt (st s) (nxt (st s) head)) s"

partial_function (option) for_each_prev_loop ::
    "('s \<Rightarrow> list_store) \<Rightarrow> (ptr \<Rightarrow> 's \<Rightarrow> 's) \<Rightarrow> ptr \<Rightarrow> ptr \<Rightarrow> 's \<Rightarrow> 's option" where
  "for_each_prev_loop st body head pos s =
     (if pos = head then Some s
      else for_each_prev_loop st body head (prv (st (body pos s)) pos) (body pos s))"

definition list_for_each_prev ::
    "('s \<Rightarrow> list_store) \<Rightarrow> (ptr \<Rightarrow> 's \<Rightarrow> 's) \<Rightarrow> ptr \<Rightarrow> 's \<Rightarrow> 's option" where
  "list_for_each_prev st body head s = for_each_prev_loop st body head (prv (st s) head) s"

section \<open>Reading the store after a write\<close>

lemma nxt_set_next [simp]: "nxt (set_next p v h) q = (if q = p then v else nxt h q)"
  by (simp add: set_next_def)

lemma nxt_set_prev [simp]: "nxt (set_prev p v h) q = nxt h q"
  by (simp add: set_prev_def)

lemma prv_set_prev [simp]: "prv (set_prev p v h) q = (if q = p then v else prv h q)"
  by (simp add: set_prev_def)

lemma prv_set_next [simp]: "prv (set_next p v h) q = prv h q"
  by (simp add: set_next_def)

lemmas list_op_defs = init_list_head_def list_add_def list_add_tail_def list_del_def
  list_del_init_def list_replace_def list_replace_init_def list_move_def list_move_tail_def

section \<open>Segments and rings\<close>

text \<open>
  \<open>dseg h a xs b\<close>: following \<open>nxt\<close> from \<open>a\<close> visits exactly \<open>xs\<close> and then \<open>b\<close>, and every
  \<open>prv\<close> on the way points back.
\<close>

fun dseg :: "list_store \<Rightarrow> ptr \<Rightarrow> ptr list \<Rightarrow> ptr \<Rightarrow> bool" where
  "dseg h a [] b = (nxt h a = b \<and> prv h b = a)"
| "dseg h a (x # xs) b = (nxt h a = x \<and> prv h x = a \<and> dseg h x xs b)"

definition queue_at :: "list_store \<Rightarrow> ptr \<Rightarrow> ptr list \<Rightarrow> bool" where
  "queue_at h r xs \<longleftrightarrow> dseg h r xs r \<and> distinct (r # xs)"

lemma dseg_append [simp]:
  "dseg h a (xs @ y # ys) b \<longleftrightarrow> dseg h a xs y \<and> dseg h y ys b"
  by (induction xs arbitrary: a) auto

lemma dseg_nxt: "dseg h a xs b \<Longrightarrow> nxt h a = hd (xs @ [b])"
  by (cases xs) auto

lemma dseg_prv: "dseg h a xs b \<Longrightarrow> prv h b = last (a # xs)"
  by (induction xs arbitrary: a) auto

lemma dseg_cong:
  assumes "dseg h a xs b"
    and "\<And>p. p \<in> set (a # xs) \<Longrightarrow> nxt h' p = nxt h p"
    and "\<And>p. p \<in> set (xs @ [b]) \<Longrightarrow> prv h' p = prv h p"
  shows "dseg h' a xs b"
  using assms by (induction xs arbitrary: a) auto

lemma dseg_set_next [footprint, simp]:
  "p \<notin> set (a # xs) \<Longrightarrow> dseg (set_next p v h) a xs b = dseg h a xs b"
  by (induction xs arbitrary: a) auto

lemma dseg_set_prev [footprint, simp]:
  "p \<notin> set (xs @ [b]) \<Longrightarrow> dseg (set_prev p v h) a xs b = dseg h a xs b"
  by (induction xs arbitrary: a) auto

lemma queue_at_empty: "queue_at h r xs \<Longrightarrow> list_empty h r \<longleftrightarrow> xs = []"
  by (cases xs) (auto simp: queue_at_def list_empty_def)

lemma queue_at_first: "queue_at h r (x # xs) \<Longrightarrow> nxt h r = x"
  by (simp add: queue_at_def)

lemma queue_at_last: "queue_at h r xs \<Longrightarrow> prv h r = last (r # xs)"
  by (auto simp: queue_at_def dest: dseg_prv)

lemma queue_at_unique: "queue_at h r xs \<Longrightarrow> queue_at h r ys \<Longrightarrow> xs = ys"
proof -
  have "dseg h a xs r \<Longrightarrow> dseg h a ys r \<Longrightarrow> r \<notin> set xs \<Longrightarrow> r \<notin> set ys \<Longrightarrow> xs = ys" for a
  proof (induction xs arbitrary: a ys)
    case Nil
    then show ?case by (cases ys) auto
  next
    case (Cons x xs)
    then show ?case by (cases ys) auto
  qed
  then show "queue_at h r xs \<Longrightarrow> queue_at h r ys \<Longrightarrow> xs = ys"
    by (auto simp: queue_at_def)
qed

section \<open>Each operation on one ring\<close>

lemma queue_at_add:
  assumes q: "queue_at h r xs" and n: "n \<notin> set (r # xs)"
  shows "queue_at (list_add n r h) r (n # xs)"
  using assms by (cases xs) (auto simp: queue_at_def list_add_def Let_def)

lemma queue_at_add_tail:
  assumes q: "queue_at h r xs" and n: "n \<notin> set (r # xs)"
  shows "queue_at (list_add_tail n r h) r (xs @ [n])"
  using assms by (cases xs rule: rev_cases) (auto simp: queue_at_def list_add_tail_def Let_def)

lemma queue_at_del:
  assumes q: "queue_at h r (ys @ n # zs)"
  shows "queue_at (list_del n h) r (ys @ zs)"
  using assms
  by (cases ys rule: rev_cases; cases zs) (auto simp: queue_at_def list_del_def Let_def)

lemma queue_at_init: "queue_at (init_list_head p h) p []"
  by (simp add: queue_at_def init_list_head_def Let_def)

lemma queue_at_replace:
  assumes q: "queue_at h r (ys @ old # zs)" and n: "new \<notin> set (r # ys @ old # zs)"
  shows "queue_at (list_replace old new h) r (ys @ new # zs)"
  using assms
  by (cases ys rule: rev_cases; cases zs) (auto simp: queue_at_def list_replace_def Let_def)

text \<open>Replacing the root of a ring moves the whole ring to the new root.\<close>

lemma queue_at_replace_root:
  assumes q: "queue_at h r xs" and ne: "xs \<noteq> []" and n: "new \<notin> set (r # xs)"
  shows "queue_at (list_replace r new h) new xs"
proof (cases xs rule: rev_cases)
  case (snoc ys y)
  with assms show ?thesis
    by (cases ys) (auto simp: queue_at_def list_replace_def Let_def)
qed (use ne in simp)

section \<open>Footprints\<close>

text \<open>
  Every operation writes only the nodes it is given and their neighbours. A ring that
  contains none of the nodes written is unchanged.
\<close>

definition same_on :: "ptr set \<Rightarrow> list_store \<Rightarrow> list_store \<Rightarrow> bool" where
  "same_on A h h' \<longleftrightarrow> (\<forall>p \<in> A. nxt h' p = nxt h p \<and> prv h' p = prv h p)"

lemma queue_at_same_on:
  "queue_at h r xs \<Longrightarrow> same_on (set (r # xs)) h h' \<Longrightarrow> queue_at h' r xs"
  unfolding queue_at_def same_on_def by (metis dseg_cong list.set_intros(1) rotate1.simps(2) set_rotate1)

lemma same_on_mono: "same_on A h h' \<Longrightarrow> B \<subseteq> A \<Longrightarrow> same_on B h h'"
  by (auto simp: same_on_def)

lemma queue_at_nxt_in: "queue_at h r xs \<Longrightarrow> p \<in> set (r # xs) \<Longrightarrow> nxt h p \<in> set (r # xs)"
proof -
  assume q: "queue_at h r xs" and p: "p \<in> set (r # xs)"
  show ?thesis
  proof (cases "p = r")
    case True
    with q show ?thesis by (cases xs) (auto simp: queue_at_def)
  next
    case False
    with p obtain ys zs where xs: "xs = ys @ p # zs"
      by (auto dest: split_list)
    with q show ?thesis by (cases zs) (auto simp: queue_at_def)
  qed
qed

lemma queue_at_prv_in: "queue_at h r xs \<Longrightarrow> p \<in> set (r # xs) \<Longrightarrow> prv h p \<in> set (r # xs)"
proof -
  assume q: "queue_at h r xs" and p: "p \<in> set (r # xs)"
  show ?thesis
  proof (cases "p = r")
    case True
    with q show ?thesis by (cases xs rule: rev_cases) (auto simp: queue_at_def)
  next
    case False
    with p obtain ys zs where xs: "xs = ys @ p # zs"
      by (auto dest: split_list)
    with q show ?thesis by (cases ys rule: rev_cases) (auto simp: queue_at_def)
  qed
qed

lemma same_on_init [footprint]: "p \<notin> A \<Longrightarrow> same_on A h (init_list_head p h)"
  by (auto simp: same_on_def init_list_head_def Let_def)

lemma same_on_add_nodes:
  assumes "n \<notin> A" and "r \<notin> A" and "nxt h r \<notin> A"
  shows "same_on A h (list_add n r h)"
  unfolding same_on_def
proof
  fix p assume "p \<in> A"
  with assms have "p \<noteq> n" "p \<noteq> r" "p \<noteq> nxt h r" by auto
  then show "nxt (list_add n r h) p = nxt h p \<and> prv (list_add n r h) p = prv h p"
    by (simp add: list_add_def Let_def)
qed

lemma same_on_add_tail_nodes:
  assumes "n \<notin> A" and "r \<notin> A" and "prv h r \<notin> A"
  shows "same_on A h (list_add_tail n r h)"
  unfolding same_on_def
proof
  fix p assume "p \<in> A"
  with assms have "p \<noteq> n" "p \<noteq> r" "p \<noteq> prv h r" by auto
  then show "nxt (list_add_tail n r h) p = nxt h p \<and> prv (list_add_tail n r h) p = prv h p"
    by (simp add: list_add_tail_def Let_def)
qed

lemma same_on_del_nodes:
  assumes "nxt h n \<notin> A" and "prv h n \<notin> A"
  shows "same_on A h (list_del n h)"
  unfolding same_on_def
proof
  fix p assume "p \<in> A"
  with assms have "p \<noteq> nxt h n" "p \<noteq> prv h n" by auto
  then show "nxt (list_del n h) p = nxt h p \<and> prv (list_del n h) p = prv h p"
    by (simp add: list_del_def Let_def)
qed

lemma same_on_add [footprint]:
  assumes q: "queue_at h r xs" and "n \<notin> A" and d: "A \<inter> set (r # xs) = {}"
  shows "same_on A h (list_add n r h)"
proof (rule same_on_add_nodes)
  show "n \<notin> A" by fact
  show "r \<notin> A" using d by auto
  show "nxt h r \<notin> A" using d queue_at_nxt_in [OF q, of r] by auto
qed

lemma same_on_add_tail [footprint]:
  assumes q: "queue_at h r xs" and "n \<notin> A" and d: "A \<inter> set (r # xs) = {}"
  shows "same_on A h (list_add_tail n r h)"
proof (rule same_on_add_tail_nodes)
  show "n \<notin> A" by fact
  show "r \<notin> A" using d by auto
  show "prv h r \<notin> A" using d queue_at_prv_in [OF q, of r] by auto
qed

lemma same_on_del [footprint]:
  assumes q: "queue_at h r xs" and n: "n \<in> set (r # xs)" and d: "A \<inter> set (r # xs) = {}"
  shows "same_on A h (list_del n h)"
proof (rule same_on_del_nodes)
  show "nxt h n \<notin> A" using d queue_at_nxt_in [OF q n] by auto
  show "prv h n \<notin> A" using d queue_at_prv_in [OF q n] by auto
qed

section \<open>A family of disjoint rings\<close>

text \<open>
  \<open>rep h Q\<close>: the store holds, for every root \<open>r\<close> with \<open>Q r = Some xs\<close>, the ring of \<open>xs\<close> at
  \<open>r\<close>, and no node is on two rings. A queue head is a root, and so is a node that is on no
  queue and points to itself (its ring is empty).
\<close>

definition disjoint_rings :: "(ptr \<rightharpoonup> ptr list) \<Rightarrow> bool" where
  "disjoint_rings Q \<longleftrightarrow>
     (\<forall>r xs r' xs'. Q r = Some xs \<and> Q r' = Some xs' \<and> r \<noteq> r' \<longrightarrow>
        set (r # xs) \<inter> set (r' # xs') = {})"

definition rep :: "list_store \<Rightarrow> (ptr \<rightharpoonup> ptr list) \<Rightarrow> bool" where
  "rep h Q \<longleftrightarrow> (\<forall>r xs. Q r = Some xs \<longrightarrow> queue_at h r xs) \<and> disjoint_rings Q"

lemma disjoint_ringsD:
  assumes "disjoint_rings Q" and "Q r = Some xs" and "Q r' = Some xs'" and "r \<noteq> r'"
  shows "set (r # xs) \<inter> set (r' # xs') = {}"
  using assms(1) [unfolded disjoint_rings_def, rule_format, of r xs r' xs'] assms(2-4) by simp

lemma rep_queue_at: "rep h Q \<Longrightarrow> Q r = Some xs \<Longrightarrow> queue_at h r xs"
  by (simp add: rep_def)

lemma rep_disjoint:
  "rep h Q \<Longrightarrow> Q r = Some xs \<Longrightarrow> Q r' = Some xs' \<Longrightarrow> r \<noteq> r' \<Longrightarrow>
   set (r # xs) \<inter> set (r' # xs') = {}"
  using disjoint_ringsD [of Q r xs r' xs'] by (simp add: rep_def)

lemma rep_distinct: "rep h Q \<Longrightarrow> Q r = Some xs \<Longrightarrow> distinct (r # xs)"
  using rep_queue_at queue_at_def by blast

lemma repI:
  assumes "\<And>r xs. Q r = Some xs \<Longrightarrow> queue_at h r xs"
    and "\<And>r xs r' xs'. Q r = Some xs \<Longrightarrow> Q r' = Some xs' \<Longrightarrow> r \<noteq> r' \<Longrightarrow>
           set (r # xs) \<inter> set (r' # xs') = {}"
  shows "rep h Q"
  unfolding rep_def disjoint_rings_def
proof (intro conjI allI impI)
  show "queue_at h r xs" if "Q r = Some xs" for r xs
    using that by (rule assms(1))
  show "set (r # xs) \<inter> set (r' # xs') = {}"
    if "Q r = Some xs \<and> Q r' = Some xs' \<and> r \<noteq> r'" for r xs r' xs'
    using that assms(2) by (elim conjE)
qed

text \<open>
  One step of a family: the ring of one root is rewritten by an operation whose footprint
  lies within that ring and a set of fresh nodes, the other rings are left as they are.
\<close>

lemma rep_update:
  assumes rep: "rep h Q"
    and ring: "queue_at h' r ys"
    and fresh: "\<And>k zs. Q k = Some zs \<Longrightarrow> k \<noteq> r \<Longrightarrow> set (r # ys) \<inter> set (k # zs) = {}"
    and frame: "\<And>k zs. Q k = Some zs \<Longrightarrow> k \<noteq> r \<Longrightarrow> same_on (set (k # zs)) h h'"
  shows "rep h' (Q(r \<mapsto> ys))"
proof (rule repI)
  fix k zs assume k: "(Q(r \<mapsto> ys)) k = Some zs"
  show "queue_at h' k zs"
  proof (cases "k = r")
    case True
    with k ring show ?thesis by simp
  next
    case False
    with k have "Q k = Some zs" by simp
    with False rep frame show ?thesis by (blast intro: queue_at_same_on rep_queue_at)
  qed
next
  fix k zs k' zs'
  assume *: "(Q(r \<mapsto> ys)) k = Some zs" "(Q(r \<mapsto> ys)) k' = Some zs'" "k \<noteq> k'"
  consider "k = r" "k' \<noteq> r" | "k \<noteq> r" "k' = r" | "k \<noteq> r" "k' \<noteq> r"
    using \<open>k \<noteq> k'\<close> by blast
  then show "set (k # zs) \<inter> set (k' # zs') = {}"
  proof cases
    case 1
    with * fresh [of k' zs'] show ?thesis by simp
  next
    case 2
    with * fresh [of k zs] show ?thesis by auto
  next
    case 3
    with * rep_disjoint [OF rep, of k zs k' zs'] show ?thesis by simp
  qed
qed

lemma rep_restrict: "rep h Q \<Longrightarrow> rep h (Q(r := None))"
proof (rule repI)
  fix k xs assume "rep h Q" and "(Q(r := None)) k = Some xs"
  then show "queue_at h k xs" by (auto split: if_splits intro: rep_queue_at)
next
  fix k xs k' xs'
  assume "rep h Q" and "(Q(r := None)) k = Some xs" and "(Q(r := None)) k' = Some xs'"
    and "k \<noteq> k'"
  then show "set (k # xs) \<inter> set (k' # xs') = {}"
    using rep_disjoint [of h Q k xs k' xs'] by (simp split: if_splits)
qed

section \<open>The operations on a family of rings\<close>

lemma rep_member_not_root:
  assumes "rep h Q" and "Q r = Some xs" and "n \<in> set xs"
  shows "Q n = None"
proof (rule ccontr)
  assume "Q n \<noteq> None"
  then obtain ys where ys: "Q n = Some ys" by blast
  have "n \<noteq> r" using rep_distinct [OF assms(1,2)] assms(3) by auto
  then show False using rep_disjoint [OF assms(1,2) ys] assms(3) by auto
qed

lemma unlink_member:
  assumes "rep h Q" and "Q k = Some xs" and "n \<in> set xs"
  shows "unlink n Q = Q(k \<mapsto> removeAll n xs)"
proof
  fix r
  have "n \<noteq> k" using rep_distinct [OF assms(1,2)] assms(3) by auto
  show "unlink n Q r = (Q(k \<mapsto> removeAll n xs)) r"
  proof (cases "r = k \<or> r = n")
    case True
    with assms rep_member_not_root [OF assms] \<open>n \<noteq> k\<close> show ?thesis
      by (auto simp: unlink_def)
  next
    case False
    show ?thesis
    proof (cases "Q r")
      case None
      with False show ?thesis by (simp add: unlink_def)
    next
      case (Some ys)
      with False rep_disjoint [OF assms(1) Some assms(2)] assms(3) have "n \<notin> set ys" by auto
      with False Some show ?thesis by (simp add: unlink_def)
    qed
  qed
qed

lemma unlink_alone:
  assumes "rep h Q" and "Q n = Some xs"
  shows "unlink n Q = Q(n := None)"
proof
  fix r
  show "unlink n Q r = (Q(n := None)) r"
  proof (cases "r = n \<or> Q r = None")
    case True
    then show ?thesis by (auto simp: unlink_def)
  next
    case False
    then obtain ys where ys: "Q r = Some ys" by blast
    with False rep_disjoint [OF assms(1) ys assms(2)] have "n \<notin> set ys" by auto
    with False ys show ?thesis by (simp add: unlink_def)
  qed
qed

lemma notin_nodesD: "n \<notin> nodes Q \<Longrightarrow> Q k = Some zs \<Longrightarrow> n \<notin> set (k # zs)"
  by (auto simp: nodes_def)

lemma rep_add_tail:
  assumes rep: "rep h Q" and r: "Q r = Some xs" and n: "n \<notin> nodes Q"
  shows "rep (list_add_tail n r h) (enqueue n r Q)"
proof -
  note q = rep_queue_at [OF rep r]
  have "rep (list_add_tail n r h) (Q(r \<mapsto> xs @ [n]))"
  proof (rule rep_update [OF rep])
    show "queue_at (list_add_tail n r h) r (xs @ [n])"
      using q notin_nodesD [OF n r] by (rule queue_at_add_tail)
  next
    fix k zs assume k: "Q k = Some zs" "k \<noteq> r"
    note d = rep_disjoint [OF rep k(1) r k(2)] and f = notin_nodesD [OF n k(1)]
    from d f show "set (r # xs @ [n]) \<inter> set (k # zs) = {}" by auto
    from q f d show "same_on (set (k # zs)) h (list_add_tail n r h)" by (rule same_on_add_tail)
  qed
  then show ?thesis by (simp add: enqueue_def r)
qed

lemma rep_add:
  assumes rep: "rep h Q" and r: "Q r = Some xs" and n: "n \<notin> nodes Q"
  shows "rep (list_add n r h) (pushfront n r Q)"
proof -
  note q = rep_queue_at [OF rep r]
  have "rep (list_add n r h) (Q(r \<mapsto> n # xs))"
  proof (rule rep_update [OF rep])
    show "queue_at (list_add n r h) r (n # xs)"
      using q notin_nodesD [OF n r] by (rule queue_at_add)
  next
    fix k zs assume k: "Q k = Some zs" "k \<noteq> r"
    note d = rep_disjoint [OF rep k(1) r k(2)] and f = notin_nodesD [OF n k(1)]
    from d f show "set (r # n # xs) \<inter> set (k # zs) = {}" by auto
    from q f d show "same_on (set (k # zs)) h (list_add n r h)" by (rule same_on_add)
  qed
  then show ?thesis by (simp add: pushfront_def r)
qed

lemma rep_init:
  assumes rep: "rep h Q" and n: "n \<notin> nodes Q"
  shows "rep (init_list_head n h) (Q(n \<mapsto> []))"
proof (rule rep_update [OF rep queue_at_init])
  fix k zs assume k: "Q k = Some zs" "k \<noteq> n"
  note f = notin_nodesD [OF n k(1)]
  from f show "set [n] \<inter> set (k # zs) = {}" by auto
  from f show "same_on (set (k # zs)) h (init_list_head n h)" by (rule same_on_init)
qed

lemma rep_del:
  assumes rep: "rep h Q" and n: "loose n Q"
  shows "rep (list_del n h) (unlink n Q)"
  using n
proof (cases rule: looseE)
  case alone
  note q = rep_queue_at [OF rep alone]
  have "rep (list_del n h) (Q(n \<mapsto> []))"
  proof (rule rep_update [OF rep])
    show "queue_at (list_del n h) n []"
      using q by (simp add: queue_at_def list_del_def Let_def)
  next
    fix k zs assume k: "Q k = Some zs" "k \<noteq> n"
    note d = rep_disjoint [OF rep k(1) alone k(2)]
    then show "set [n] \<inter> set (k # zs) = {}" by auto
    show "same_on (set (k # zs)) h (list_del n h)"
      by (rule same_on_del [OF q _ d]) simp
  qed
  then have "rep (list_del n h) (Q(n := None))"
    using rep_restrict [of _ _ n] by fastforce
  then show ?thesis by (simp add: unlink_alone [OF rep alone])
next
  case (member r xs)
  note q = rep_queue_at [OF rep member(2)]
  obtain ys zs where xs: "xs = ys @ n # zs" using member(3) by (auto dest: split_list)
  have dist: "distinct (ys @ n # zs)" using rep_distinct [OF rep member(2)] xs by simp
  have "rep (list_del n h) (Q(r \<mapsto> removeAll n xs))"
  proof (rule rep_update [OF rep])
    show "queue_at (list_del n h) r (removeAll n xs)"
      using queue_at_del [of h r ys n zs] q xs removeAll_split [OF dist] by simp
  next
    fix k zs assume k: "Q k = Some zs" "k \<noteq> r"
    note d = rep_disjoint [OF rep k(1) member(2) k(2)]
    then show "set (r # removeAll n xs) \<inter> set (k # zs) = {}" by auto
    show "same_on (set (k # zs)) h (list_del n h)"
      by (rule same_on_del [OF q _ d]) (simp add: member(3))
  qed
  then show ?thesis by (simp add: unlink_member [OF rep member(2,3)])
qed

lemma rep_del_init:
  "rep h Q \<Longrightarrow> loose n Q \<Longrightarrow> rep (list_del_init n h) (isolate n Q)"
  unfolding list_del_init_def isolate_def by (intro rep_init rep_del unlink_notin_nodes)

lemma rep_move_tail:
  assumes "rep h Q" and "Q r = Some xs" and "loose n Q" and "n \<noteq> r"
  shows "rep (list_move_tail n r h) (attach n r Q)"
  unfolding list_move_tail_def attach_def
  by (rule rep_add_tail [OF rep_del [OF assms(1,3)] _ unlink_notin_nodes])
     (simp add: unlink_other assms(2) assms(4) [symmetric])

lemma rep_add_tail_alone:
  assumes "rep h Q" and "Q r = Some xs" and n: "Q n = Some []" and "n \<noteq> r"
  shows "rep (list_add_tail n r h) (attach n r Q)"
proof -
  have "rep h (unlink n Q)"
    using rep_restrict [OF assms(1), of n] by (simp add: unlink_alone [OF assms(1) n])
  then show ?thesis
    unfolding attach_def
    by (rule rep_add_tail [OF _ _ unlink_notin_nodes])
       (simp add: unlink_other assms(2) assms(4) [symmetric])
qed

interpretation kq: queue_store rep list_empty nxt list_add_tail list_del_init list_move_tail
proof
  fix h Q r xs k ys n x
  show "rep h Q \<Longrightarrow> Q r = Some xs \<Longrightarrow> distinct (r # xs)" by (rule rep_distinct)
  show "rep h Q \<Longrightarrow> Q r = Some xs \<Longrightarrow> Q k = Some ys \<Longrightarrow> r \<noteq> k \<Longrightarrow>
    set (r # xs) \<inter> set (k # ys) = {}" by (rule rep_disjoint)
  show "rep h Q \<Longrightarrow> Q r = Some xs \<Longrightarrow> list_empty h r \<longleftrightarrow> xs = []"
    by (blast dest: rep_queue_at queue_at_empty)
  show "rep h Q \<Longrightarrow> Q r = Some (x # xs) \<Longrightarrow> nxt h r = x"
    by (blast dest: rep_queue_at queue_at_first)
  show "rep h Q \<Longrightarrow> Q r = Some xs \<Longrightarrow> Q n = Some [] \<Longrightarrow> n \<noteq> r \<Longrightarrow>
    rep (list_add_tail n r h) (attach n r Q)" by (rule rep_add_tail_alone)
  show "rep h Q \<Longrightarrow> loose n Q \<Longrightarrow> rep (list_del_init n h) (isolate n Q)" by (rule rep_del_init)
  show "rep h Q \<Longrightarrow> Q r = Some xs \<Longrightarrow> loose n Q \<Longrightarrow> n \<noteq> r \<Longrightarrow>
    rep (list_move_tail n r h) (attach n r Q)" by (rule rep_move_tail)
qed

section \<open>Traversals\<close>

text \<open>
  A body that does not touch the lists is run once on every element, in order, and the loop
  ends. \<open>list_for_each_prev\<close> runs it in the reverse order.
\<close>

lemma for_each_loop_visits:
  assumes "\<And>p s. st (body p s) = st s"
    and "dseg (st s) a xs head" and "head \<notin> set xs"
  shows "for_each_loop st body head (nxt (st s) a) s = Some (fold body xs s)"
  using assms(2,3)
proof (induction xs arbitrary: a s)
  case Nil
  then show ?case by (simp add: for_each_loop.simps)
next
  case (Cons x xs)
  have "for_each_loop st body head (nxt (st (body x s)) x) (body x s) = Some (fold body xs (body x s))"
    using Cons.prems by (intro Cons.IH) (simp_all add: assms(1))
  with Cons.prems show ?case by (subst for_each_loop.simps) auto
qed

lemma for_each_visits:
  assumes "\<And>p s. st (body p s) = st s" and "queue_at (st s) head xs"
  shows "list_for_each st body head s = Some (fold body xs s)"
  unfolding list_for_each_def
  by (rule for_each_loop_visits) (use assms in \<open>auto simp: queue_at_def\<close>)

lemma for_each_prev_loop_visits:
  assumes "\<And>p s. st (body p s) = st s"
    and "dseg (st s) head xs b" and "head \<notin> set xs"
  shows "for_each_prev_loop st body head (prv (st s) b) s = Some (fold body (rev xs) s)"
  using assms(2,3)
proof (induction xs arbitrary: b s rule: rev_induct)
  case Nil
  then show ?case by (simp add: for_each_prev_loop.simps)
next
  case (snoc x xs)
  have "for_each_prev_loop st body head (prv (st (body x s)) x) (body x s) =
      Some (fold body (rev xs) (body x s))"
    using snoc.prems by (intro snoc.IH) (simp_all add: assms(1))
  with snoc.prems show ?case by (subst for_each_prev_loop.simps) auto
qed

lemma for_each_prev_visits:
  assumes "\<And>p s. st (body p s) = st s" and "queue_at (st s) head xs"
  shows "list_for_each_prev st body head s = Some (fold body (rev xs) s)"
  unfolding list_for_each_prev_def
  by (rule for_each_prev_loop_visits) (use assms in \<open>auto simp: queue_at_def\<close>)

text \<open>
  The safe traversal with a body that may take the current node off the list: \<open>I ps s\<close> says
  that \<open>ps\<close> is what remains of the list, linked up to the head.
\<close>

lemma for_each_safe_loop_inv:
  assumes step: "\<And>p ps s. I (p # ps) s \<Longrightarrow> I ps (body p s)"
    and link: "\<And>p ps s. I (p # ps) s \<Longrightarrow> p \<noteq> head \<and> nxt (st s) p = hd (ps @ [head])"
    and "I ps s" and "n = nxt (st s) (hd (ps @ [head]))"
  shows "for_each_safe_loop st body head (hd (ps @ [head])) n s = Some (fold body ps s)"
  using assms(3,4)
proof (induction ps arbitrary: n s)
  case Nil
  then show ?case by (simp add: for_each_safe_loop.simps)
next
  case (Cons p ps)
  have n: "n = hd (ps @ [head])" and p: "p \<noteq> head"
    using Cons.prems link [OF Cons.prems(1)] by simp_all
  have "for_each_safe_loop st body head (hd (ps @ [head]))
      (nxt (st (body p s)) (hd (ps @ [head]))) (body p s) = Some (fold body ps (body p s))"
    by (rule Cons.IH [OF step [OF Cons.prems(1)] refl])
  then show ?case by (subst for_each_safe_loop.simps) (simp add: n p)
qed

lemma for_each_safe_inv:
  assumes "\<And>p ps s. I (p # ps) s \<Longrightarrow> I ps (body p s)"
    and "\<And>p ps s. I (p # ps) s \<Longrightarrow> p \<noteq> head \<and> nxt (st s) p = hd (ps @ [head])"
    and "I xs s" and "queue_at (st s) head xs"
  shows "list_for_each_safe st body head s = Some (fold body xs s)"
proof -
  have "nxt (st s) head = hd (xs @ [head])"
    using assms(4) by (auto simp: queue_at_def dest: dseg_nxt)
  then show ?thesis
    unfolding list_for_each_safe_def
    using for_each_safe_loop_inv [where I = I and body = body and head = head and st = st,
        OF assms(1,2,3) refl] by simp
qed

lemma queue_at_nxt_mid: "queue_at h r (ys @ n # zs) \<Longrightarrow> nxt h n = hd (zs @ [r])"
  by (auto simp: queue_at_def dest: dseg_nxt)

section \<open>Moving between lists\<close>

text \<open>\<^verbatim>\<open>list_move_tail\<close> on a store of any number of disjoint rings: an element of some list, or
  a lone node, leaves where it is and becomes the last element of the list of \<open>r\<close>; every other
  list keeps its elements and their order.\<close>

lemma list_move_tail_refines:
  assumes "rep h Q" and "Q r = Some xs" and "loose n Q" and "n \<noteq> r"
  shows "\<exists>Q'. rep (list_move_tail n r h) Q' \<and> Q' r = Some (removeAll n xs @ [n]) \<and>
     (\<forall>k ys. k \<noteq> r \<longrightarrow> k \<noteq> n \<longrightarrow> Q k = Some ys \<longrightarrow> Q' k = Some (removeAll n ys))"
  using rep_move_tail [OF assms] attach_self [of Q r xs n, OF assms(2,4)]
  by (intro exI [of _ "attach n r Q"]) (simp add: attach_other)

lemma list_move_tail_refines_witness:
  "\<exists>Q'. rep (list_move_tail 2 1 (init_list_head 2 (init_list_head 1 \<lparr>nxt = (\<lambda>p. 0), prv = (\<lambda>p. 0)\<rparr>))) Q' \<and>
     Q' 1 = Some [2]"
proof -
  have "rep \<lparr>nxt = (\<lambda>p. 0), prv = (\<lambda>p. 0)\<rparr> (\<lambda>p. None)"
    by (simp add: rep_def disjoint_rings_def)
  from rep_init [OF this, of 1]
  have "rep (init_list_head 1 \<lparr>nxt = (\<lambda>p. 0), prv = (\<lambda>p. 0)\<rparr>) [1 \<mapsto> []]"
    by (simp add: nodes_def)
  from rep_init [OF this, of 2]
  have "rep (init_list_head 2 (init_list_head 1 \<lparr>nxt = (\<lambda>p. 0), prv = (\<lambda>p. 0)\<rparr>)) [1 \<mapsto> [], 2 \<mapsto> []]"
    by (simp add: nodes_def)
  from list_move_tail_refines [OF this, of 1 "[]" 2] show ?thesis
    by (auto simp: loose_alone)
qed

end
