(* ===== verification/Machine.thy ===== *)
theory Machine
  imports Prelude
begin

text \<open>
  The part of the RISC-V machine that the kernel programs directly: the general purpose
  registers, the supervisor CSRs, the privilege mode and the doublewords of memory that the
  assembly of \<^verbatim>\<open>arch/riscv/kernel/entry.S\<close> and \<^verbatim>\<open>trap.S\<close> loads and stores (the trap frames,
  the switch frames, and the \<^verbatim>\<open>kernel_sp\<close> and \<^verbatim>\<open>user_sp\<close> fields of a PCB). The assembly
  routines are lists of instructions in the order of the source, run by \<open>exec\<close>.
\<close>

section \<open>Registers and machine state\<close>

datatype csr = SSTATUS | SIE | STVEC | SSCRATCH | SEPC | SCAUSE | STVAL | SIP

record machine =
  gpr :: "nat \<Rightarrow> reg"
  csrs :: "csr \<Rightarrow> reg"
  pc :: ptr
  user_mode :: bool
  dmem :: "ptr \<Rightarrow> reg"

text \<open>Register numbers of the ABI names.\<close>

abbreviation (input) ZERO :: nat where "ZERO \<equiv> 0"
abbreviation (input) RA :: nat where "RA \<equiv> 1"
abbreviation (input) SP :: nat where "SP \<equiv> 2"
abbreviation (input) GP :: nat where "GP \<equiv> 3"
abbreviation (input) TP :: nat where "TP \<equiv> 4"
abbreviation (input) T0 :: nat where "T0 \<equiv> 5"
abbreviation (input) T1 :: nat where "T1 \<equiv> 6"
abbreviation (input) T2 :: nat where "T2 \<equiv> 7"
abbreviation (input) S0 :: nat where "S0 \<equiv> 8"
abbreviation (input) S1 :: nat where "S1 \<equiv> 9"
abbreviation (input) A0 :: nat where "A0 \<equiv> 10"
abbreviation (input) A1 :: nat where "A1 \<equiv> 11"
abbreviation (input) A2 :: nat where "A2 \<equiv> 12"
abbreviation (input) A3 :: nat where "A3 \<equiv> 13"
abbreviation (input) A4 :: nat where "A4 \<equiv> 14"
abbreviation (input) A5 :: nat where "A5 \<equiv> 15"
abbreviation (input) A6 :: nat where "A6 \<equiv> 16"
abbreviation (input) A7 :: nat where "A7 \<equiv> 17"
abbreviation (input) S2 :: nat where "S2 \<equiv> 18"
abbreviation (input) S3 :: nat where "S3 \<equiv> 19"
abbreviation (input) S4 :: nat where "S4 \<equiv> 20"
abbreviation (input) S5 :: nat where "S5 \<equiv> 21"
abbreviation (input) S6 :: nat where "S6 \<equiv> 22"
abbreviation (input) S7 :: nat where "S7 \<equiv> 23"
abbreviation (input) S8 :: nat where "S8 \<equiv> 24"
abbreviation (input) S9 :: nat where "S9 \<equiv> 25"
abbreviation (input) S10 :: nat where "S10 \<equiv> 26"
abbreviation (input) S11 :: nat where "S11 \<equiv> 27"
abbreviation (input) T3 :: nat where "T3 \<equiv> 28"
abbreviation (input) T4 :: nat where "T4 \<equiv> 29"
abbreviation (input) T5 :: nat where "T5 \<equiv> 30"
abbreviation (input) T6 :: nat where "T6 \<equiv> 31"

section \<open>Frame layout (arch/riscv/include/asm/regs.h, csr.h)\<close>

text \<open>
  \<^verbatim>\<open>OFFSET_REG_<r>\<close> is eight times the register number for every general purpose register;
  the saved CSRs follow the 32 registers.
\<close>

definition OFFSET_REG :: "nat \<Rightarrow> u64" where
  "OFFSET_REG r = 8 * of_nat r"

abbreviation (input) OFFSET_REG_SSTATUS :: u64 where "OFFSET_REG_SSTATUS \<equiv> 256"
abbreviation (input) OFFSET_REG_SEPC :: u64 where "OFFSET_REG_SEPC \<equiv> 264"
abbreviation (input) OFFSET_SIZE :: u64 where "OFFSET_SIZE \<equiv> 288"
abbreviation (input) PCB_KERNEL_SP :: u64 where "PCB_KERNEL_SP \<equiv> 0"
abbreviation (input) PCB_USER_SP :: u64 where "PCB_USER_SP \<equiv> 8"
abbreviation (input) SWITCH_TO_RA :: u64 where "SWITCH_TO_RA \<equiv> 0"
abbreviation (input) SWITCH_TO_SP :: u64 where "SWITCH_TO_SP \<equiv> 8"
abbreviation (input) SWITCH_TO_SIZE :: u64 where "SWITCH_TO_SIZE \<equiv> 112"

abbreviation (input) SR_SIE :: u64 where "SR_SIE \<equiv> 0x00000002"
abbreviation (input) SR_SPIE :: u64 where "SR_SPIE \<equiv> 0x00000020"
abbreviation (input) SR_SPP :: u64 where "SR_SPP \<equiv> 0x00000100"
abbreviation (input) SR_SUM :: u64 where "SR_SUM \<equiv> 0x00040000"
abbreviation (input) SR_FS :: u64 where "SR_FS \<equiv> 0x00006000"

section \<open>Instructions\<close>

datatype instr =
    Sd nat u64 nat      \<comment> \<open>\<open>sd rs, off(rb)\<close>\<close>
  | Ld nat u64 nat      \<comment> \<open>\<open>ld rd, off(rb)\<close>\<close>
  | Addi nat nat u64    \<comment> \<open>\<open>addi rd, rs, imm\<close>\<close>
  | Li nat u64          \<comment> \<open>\<open>li rd, imm\<close> and \<open>la rd, symbol\<close>\<close>
  | Mv nat nat          \<comment> \<open>\<open>mv rd, rs\<close>\<close>
  | Not nat nat         \<comment> \<open>\<open>not rd, rs\<close>\<close>
  | Csrr nat csr        \<comment> \<open>\<open>csrr rd, csr\<close>\<close>
  | Csrw csr nat        \<comment> \<open>\<open>csrw csr, rs\<close>\<close>
  | Csrs csr nat        \<comment> \<open>\<open>csrs csr, rs\<close>: set bits\<close>
  | Csrc csr nat        \<comment> \<open>\<open>csrc csr, rs\<close>: clear bits\<close>
  | Jr nat              \<comment> \<open>\<open>jr rs\<close>\<close>
  | Jump u64            \<comment> \<open>\<open>j symbol\<close>\<close>
  | Jal u64 u64         \<comment> \<open>\<open>jal symbol\<close>, with the address of the next instruction\<close>
  | Sret

definition rd :: "machine \<Rightarrow> nat \<Rightarrow> reg" where
  "rd m r = (if r = ZERO then 0 else gpr m r)"

definition wr :: "nat \<Rightarrow> reg \<Rightarrow> machine \<Rightarrow> machine" where
  "wr r v m = (if r = ZERO then m else m\<lparr>gpr := (gpr m)(r := v)\<rparr>)"

definition st64 :: "ptr \<Rightarrow> reg \<Rightarrow> machine \<Rightarrow> machine" where
  "st64 a v m = m\<lparr>dmem := (dmem m)(a := v)\<rparr>"

definition wcsr :: "csr \<Rightarrow> reg \<Rightarrow> machine \<Rightarrow> machine" where
  "wcsr c v m = m\<lparr>csrs := (csrs m)(c := v)\<rparr>"

text \<open>
  \<^verbatim>\<open>sret\<close>: return to \<^verbatim>\<open>sepc\<close>, in the mode \<^verbatim>\<open>SPP\<close> names, with \<^verbatim>\<open>SIE\<close> taken from \<^verbatim>\<open>SPIE\<close>;
  \<^verbatim>\<open>SPIE\<close> becomes 1 and \<^verbatim>\<open>SPP\<close> becomes user.
\<close>

definition do_sret :: "machine \<Rightarrow> machine" where
  "do_sret m =
     (let ss = csrs m SSTATUS;
          ss1 = (if ss AND SR_SPIE \<noteq> 0 then ss OR SR_SIE else ss AND NOT SR_SIE);
          ss2 = (ss1 OR SR_SPIE) AND NOT SR_SPP
      in m\<lparr>csrs := (csrs m)(SSTATUS := ss2), pc := csrs m SEPC,
           user_mode := (ss AND SR_SPP = 0)\<rparr>)"

fun exec1 :: "instr \<Rightarrow> machine \<Rightarrow> machine" where
  "exec1 (Sd rs off rb) m = st64 (rd m rb + off) (rd m rs) m"
| "exec1 (Ld d off rb) m = wr d (dmem m (rd m rb + off)) m"
| "exec1 (Addi d rs imm) m = wr d (rd m rs + imm) m"
| "exec1 (Li d imm) m = wr d imm m"
| "exec1 (Mv d rs) m = wr d (rd m rs) m"
| "exec1 (Not d rs) m = wr d (NOT (rd m rs)) m"
| "exec1 (Csrr d c) m = wr d (csrs m c) m"
| "exec1 (Csrw c rs) m = wcsr c (rd m rs) m"
| "exec1 (Csrs c rs) m = wcsr c (csrs m c OR rd m rs) m"
| "exec1 (Csrc c rs) m = wcsr c (csrs m c AND NOT (rd m rs)) m"
| "exec1 (Jr rs) m = m\<lparr>pc := rd m rs\<rparr>"
| "exec1 (Jump a) m = m\<lparr>pc := a\<rparr>"
| "exec1 (Jal a ret) m = (wr RA ret m)\<lparr>pc := a\<rparr>"
| "exec1 Sret m = do_sret m"

fun exec :: "instr list \<Rightarrow> machine \<Rightarrow> machine" where
  "exec [] m = m"
| "exec (i # is) m = exec is (exec1 i m)"

lemma exec_append [simp]: "exec (is @ js) m = exec js (exec is m)"
  by (induction "is" arbitrary: m) auto

section \<open>The routines of entry.S and trap.S\<close>

definition sd_reg :: "nat \<Rightarrow> instr" where
  "sd_reg r = Sd r (OFFSET_REG r) SP"

definition ld_reg :: "nat \<Rightarrow> instr" where
  "ld_reg r = Ld r (OFFSET_REG r) SP"

text \<open>\<^verbatim>\<open>SAVE_CONTEXT\<close>: registers, then the user \<^verbatim>\<open>sp\<close>, \<^verbatim>\<open>sepc\<close> and \<^verbatim>\<open>sstatus\<close>.\<close>

definition SAVE_CONTEXT :: "instr list" where
  "SAVE_CONTEXT =
     [Csrw SSCRATCH SP, Ld SP PCB_KERNEL_SP TP] @
     map sd_reg [RA, GP, TP, T0, T1, T2, S0, S1, A0, A1, A2, A3, A4, A5, A6, A7,
                 S2, S3, S4, S5, S6, S7, S8, S9, S10, S11, T3, T4, T5, T6] @
     [Li T0 (SR_SUM OR SR_FS),
      Csrr T1 SSCRATCH, Sd T1 (OFFSET_REG SP) SP,
      Csrr T1 SEPC, Sd T1 OFFSET_REG_SEPC SP,
      Csrr T1 SSTATUS, Sd T1 OFFSET_REG_SSTATUS SP,
      Csrw SSTATUS T0]"

definition RESTORE_CONTEXT :: "instr list" where
  "RESTORE_CONTEXT =
     map ld_reg [RA, GP, TP, T0, T2, S0, S1, A0, A1, A2, A3, A4, A5, A6, A7,
                 S2, S3, S4, S5, S6, S7, S8, S9, S10, S11, T3, T4, T5, T6] @
     [Ld T1 OFFSET_REG_SEPC SP, Csrw SEPC T1,
      Ld T1 OFFSET_REG_SSTATUS SP, Csrw SSTATUS T1,
      Ld T1 (OFFSET_REG T1) SP,
      Sd SP PCB_KERNEL_SP TP,
      Ld SP (OFFSET_REG SP) SP]"

definition ret_from_exception :: "instr list" where
  "ret_from_exception = RESTORE_CONTEXT @ [Sret]"

definition exception_handler_entry :: "u64 \<Rightarrow> u64 \<Rightarrow> instr list" where
  "exception_handler_entry ret_from_exception_at interrupt_helper_at =
     SAVE_CONTEXT @
     [Li RA ret_from_exception_at, Mv A0 SP, Csrr A1 STVAL, Csrr A2 SCAUSE,
      Jump interrupt_helper_at]"

definition enable_preempt :: "instr list" where
  "enable_preempt = [Not T0 ZERO, Csrs SIE T0, Jr RA]"

definition disable_preempt :: "instr list" where
  "disable_preempt = [Csrw SIE ZERO, Jr RA]"

definition enable_interrupt :: "instr list" where
  "enable_interrupt = [Li T0 SR_SIE, Csrs SSTATUS T0, Jr RA]"

definition disable_interrupt :: "instr list" where
  "disable_interrupt = [Li T0 SR_SIE, Csrc SSTATUS T0, Jr RA]"

text \<open>
  \<^verbatim>\<open>switch_to\<close>: the previous PCB in \<^verbatim>\<open>a0\<close>, the next one in \<^verbatim>\<open>a1\<close>. The frame slot of \<^verbatim>\<open>s<i>\<close>
  is \<^verbatim>\<open>SWITCH_TO_S<i>\<close> \<open>= 16 + 8 i\<close>.
\<close>

definition SWITCH_TO_S :: "nat \<Rightarrow> u64" where
  "SWITCH_TO_S i = 16 + 8 * of_nat i"

definition saved_regs :: "nat list" where
  "saved_regs = [S0, S1, S2, S3, S4, S5, S6, S7, S8, S9, S10, S11]"

definition switch_to_code :: "instr list" where
  "switch_to_code =
     [Addi SP SP (- SWITCH_TO_SIZE),
      Sd SP PCB_KERNEL_SP A0,
      Sd RA SWITCH_TO_RA SP,
      Sd SP SWITCH_TO_SP SP] @
     map (\<lambda>i. Sd (saved_regs ! i) (SWITCH_TO_S i) SP) [0, 1, 2, 3, 4, 5, 6, 7, 8, 9, 10, 11] @
     [Ld SP PCB_KERNEL_SP A1,
      Ld RA SWITCH_TO_RA SP,
      Ld SP SWITCH_TO_SP SP] @
     map (\<lambda>i. Ld (saved_regs ! i) (SWITCH_TO_S i) SP) [0, 1, 2, 3, 4, 5, 6, 7, 8, 9, 10, 11] @
     [Addi SP SP SWITCH_TO_SIZE,
      Jr RA]"

text \<open>\<^verbatim>\<open>setup_exception\<close> (trap.S), with its call of \<^verbatim>\<open>enable_interrupt\<close> inlined where it runs.\<close>

definition setup_exception :: "u64 \<Rightarrow> u64 \<Rightarrow> u64 \<Rightarrow> instr list" where
  "setup_exception exception_handler_entry_at enable_interrupt_at ret =
     [Li T1 exception_handler_entry_at, Csrw STVEC T1,
      Addi SP SP (- 8), Sd RA 0 SP, Jal enable_interrupt_at ret] @
     enable_interrupt @
     [Ld RA 0 SP, Addi SP SP 8, Jr RA]"

text \<open>
  Trap entry by the hardware: the cause, the faulting value and the interrupted \<^verbatim>\<open>pc\<close> go to
  their CSRs, \<^verbatim>\<open>SPIE\<close> gets \<^verbatim>\<open>SIE\<close>, \<^verbatim>\<open>SPP\<close> the interrupted mode, \<^verbatim>\<open>SIE\<close> is cleared, and the
  machine continues at \<^verbatim>\<open>stvec\<close> in supervisor mode.
\<close>

definition hw_trap :: "u64 \<Rightarrow> u64 \<Rightarrow> machine \<Rightarrow> machine" where
  "hw_trap cause tval m =
     (let ss = csrs m SSTATUS;
          ss1 = (if ss AND SR_SIE \<noteq> 0 then ss OR SR_SPIE else ss AND NOT SR_SPIE);
          ss2 = (if user_mode m then ss1 AND NOT SR_SPP else ss1 OR SR_SPP);
          ss3 = ss2 AND NOT SR_SIE
      in m\<lparr>csrs := (csrs m)(SSTATUS := ss3, SCAUSE := cause, STVAL := tval, SEPC := pc m),
           pc := csrs m STVEC, user_mode := False\<rparr>)"

text \<open>The call \<^verbatim>\<open>switch_to(prev, next)\<close> from C: the arguments go to \<^verbatim>\<open>a0\<close> and \<^verbatim>\<open>a1\<close>.\<close>

definition switch_to :: "ptr \<Rightarrow> ptr \<Rightarrow> machine \<Rightarrow> machine" where
  "switch_to prev next_pcb m = exec switch_to_code (wr A1 next_pcb (wr A0 prev m))"

section \<open>Reading the machine after an instruction\<close>

lemma gpr_wr [simp]: "gpr (wr r v m) q = (if q = r \<and> r \<noteq> 0 then v else gpr m q)"
  by (simp add: wr_def)

lemma wr_other [simp]:
  "dmem (wr r v m) = dmem m" "csrs (wr r v m) = csrs m" "pc (wr r v m) = pc m"
  "user_mode (wr r v m) = user_mode m"
  by (simp_all add: wr_def)

lemma st64_simps [simp]:
  "dmem (st64 a v m) = (dmem m)(a := v)" "gpr (st64 a v m) = gpr m"
  "csrs (st64 a v m) = csrs m" "pc (st64 a v m) = pc m"
  "user_mode (st64 a v m) = user_mode m"
  by (simp_all add: st64_def)

lemma wcsr_simps [simp]:
  "csrs (wcsr c v m) = (csrs m)(c := v)" "gpr (wcsr c v m) = gpr m" "dmem (wcsr c v m) = dmem m"
  "pc (wcsr c v m) = pc m" "user_mode (wcsr c v m) = user_mode m"
  by (simp_all add: wcsr_def)

lemma rd_simps: "r \<noteq> 0 \<Longrightarrow> rd m r = gpr m r" "rd m 0 = 0"
  by (simp_all add: rd_def)

lemma exec_stores:
  fixes f :: "'a \<Rightarrow> nat" and off :: "'a \<Rightarrow> u64"
  defines "code xs \<equiv> map (\<lambda>x. Sd (f x) (off x) SP) xs"
  shows "gpr (exec (code xs) m) = gpr m" and "csrs (exec (code xs) m) = csrs m"
    and "pc (exec (code xs) m) = pc m" and "user_mode (exec (code xs) m) = user_mode m"
    and "\<forall>x \<in> set xs. p \<noteq> gpr m SP + off x \<Longrightarrow> dmem (exec (code xs) m) p = dmem m p"
    and "inj_on off (set xs) \<Longrightarrow> x \<in> set xs \<Longrightarrow> dmem (exec (code xs) m) (gpr m SP + off x) = rd m (f x)"
proof -
  show "gpr (exec (code xs) m) = gpr m" "csrs (exec (code xs) m) = csrs m"
    "pc (exec (code xs) m) = pc m" "user_mode (exec (code xs) m) = user_mode m"
    unfolding code_def by (induction xs arbitrary: m) auto
  show frame: "\<forall>x \<in> set xs. p \<noteq> gpr m SP + off x \<Longrightarrow> dmem (exec (code xs) m) p = dmem m p" for xs m p
    unfolding code_def by (induction xs arbitrary: m) (auto simp: rd_simps)
  show "inj_on off (set xs) \<Longrightarrow> x \<in> set xs \<Longrightarrow> dmem (exec (code xs) m) (gpr m SP + off x) = rd m (f x)"
  proof (induction xs arbitrary: m)
    case (Cons y ys)
    let ?m = "st64 (gpr m SP + off y) (rd m (f y)) m"
    have step: "exec (code (y # ys)) m = exec (code ys) ?m"
      by (simp add: code_def rd_simps)
    have rd: "rd ?m r = rd m r" for r by (simp add: rd_def)
    show ?case
    proof (cases "x \<in> set ys")
      case True
      with Cons.IH [of ?m] Cons.prems show ?thesis by (simp add: step rd)
    next
      case False
      with Cons.prems have "x = y" and "\<forall>z \<in> set ys. off y \<noteq> off z"
        by (auto simp: inj_on_def)
      with frame [of ys "gpr m SP + off y" ?m] show ?thesis by (simp add: step)
    qed
  qed simp
qed

lemma exec_loads:
  fixes f :: "'a \<Rightarrow> nat" and off :: "'a \<Rightarrow> u64"
  defines "code xs \<equiv> map (\<lambda>x. Ld (f x) (off x) SP) xs"
  assumes "SP \<notin> f ` set xs"
  shows "dmem (exec (code xs) m) = dmem m" and "csrs (exec (code xs) m) = csrs m"
    and "pc (exec (code xs) m) = pc m" and "user_mode (exec (code xs) m) = user_mode m"
    and "q \<notin> f ` set xs \<Longrightarrow> gpr (exec (code xs) m) q = gpr m q"
    and "inj_on f (set xs) \<Longrightarrow> x \<in> set xs \<Longrightarrow> f x \<noteq> 0 \<Longrightarrow>
         gpr (exec (code xs) m) (f x) = dmem m (gpr m SP + off x)"
proof -
  show "dmem (exec (code xs) m) = dmem m" "csrs (exec (code xs) m) = csrs m"
    "pc (exec (code xs) m) = pc m" "user_mode (exec (code xs) m) = user_mode m"
    unfolding code_def by (induction xs arbitrary: m) auto
  show frame: "q \<notin> f ` set xs \<Longrightarrow> gpr (exec (code xs) m) q = gpr m q" for xs m q
    unfolding code_def by (induction xs arbitrary: m) (auto simp: rd_simps)
  show "inj_on f (set xs) \<Longrightarrow> x \<in> set xs \<Longrightarrow> f x \<noteq> 0 \<Longrightarrow>
         gpr (exec (code xs) m) (f x) = dmem m (gpr m SP + off x)"
    using assms(2)
  proof (induction xs arbitrary: m)
    case (Cons y ys)
    let ?m = "wr (f y) (dmem m (gpr m SP + off y)) m"
    have step: "exec (code (y # ys)) m = exec (code ys) ?m"
      by (simp add: code_def rd_simps)
    have sp: "gpr ?m SP = gpr m SP" using Cons.prems(4) by auto
    show ?case
    proof (cases "x \<in> set ys")
      case True
      with Cons.IH [of ?m] Cons.prems sp show ?thesis by (simp add: step)
    next
      case False
      with Cons.prems have "x = y" and "f y \<notin> f ` set ys"
        by (auto simp: inj_on_def)
      with frame [of "f y" ys ?m] Cons.prems(3) show ?thesis by (simp add: step)
    qed
  qed simp
qed

section \<open>Frames\<close>

lemma OFFSET_REG_inj: "r < 64 \<Longrightarrow> q < 64 \<Longrightarrow> OFFSET_REG r = OFFSET_REG q \<longleftrightarrow> r = q"
  using of_nat_u64_eq_iff [of "8 * r" "8 * q"] by (simp add: OFFSET_REG_def)

definition switch_frame :: "ptr \<Rightarrow> ptr set" where
  "switch_frame f = (\<lambda>k. f + 8 * of_nat k) ` {..<14}"

lemma switch_frame_code:
  "switch_frame f = {f, f + 8} \<union> (\<lambda>i. f + SWITCH_TO_S i) ` {..<12}"
proof -
  have "{..<14::nat} = {0, 1} \<union> (\<lambda>i. i + 2) ` {..<12}"
  proof (intro set_eqI iffI)
    fix x :: nat assume "x \<in> {..<14}"
    then have "x = 0 \<or> x = 1 \<or> x = (x - 2) + 2 \<and> x - 2 \<in> {..<12}" by auto
    then show "x \<in> {0, 1} \<union> (\<lambda>i. i + 2) ` {..<12}" by blast
  qed auto
  then show ?thesis
    by (simp add: switch_frame_def SWITCH_TO_S_def image_Un image_image algebra_simps)
qed

lemma SWITCH_TO_S_nat: "SWITCH_TO_S i = of_nat (16 + 8 * i)"
  by (simp add: SWITCH_TO_S_def)

lemma SWITCH_TO_S_inj: "i < 12 \<Longrightarrow> j < 12 \<Longrightarrow> SWITCH_TO_S i = SWITCH_TO_S j \<longleftrightarrow> i = j"
  unfolding SWITCH_TO_S_nat by (subst of_nat_u64_eq_iff) auto

lemma SWITCH_TO_S_ge: "i < 12 \<Longrightarrow> SWITCH_TO_S i \<noteq> 0 \<and> SWITCH_TO_S i \<noteq> 8"
  using of_nat_u64_eq_iff [of "16 + 8 * i" 0] of_nat_u64_eq_iff [of "16 + 8 * i" 8]
  unfolding SWITCH_TO_S_nat by simp

lemma upto12: "[0, 1, 2, 3, 4, 5, 6, 7, 8, 9, 10, 11] = [0..<12]"
  by (simp add: upt_conv_Cons)

lemma saved_regs_nth: "i < 12 \<Longrightarrow> saved_regs ! i = (if i < 2 then 8 + i else 16 + i)"
  by (auto simp: saved_regs_def nth_Cons' )

text \<open>The two halves of \<open>switch_to_code\<close>.\<close>

definition switch_save :: "ptr \<Rightarrow> ptr \<Rightarrow> machine \<Rightarrow> machine" where
  "switch_save a b m =
     (let m0 = wr A1 b (wr A0 a m); f = gpr m SP - SWITCH_TO_SIZE;
          m1 = st64 (f + 8) f (st64 f (gpr m RA) (st64 a f (wr SP f m0)))
      in exec (map (\<lambda>i. Sd (saved_regs ! i) (SWITCH_TO_S i) SP) [0..<12]) m1)"

definition switch_load :: "machine \<Rightarrow> machine" where
  "switch_load m =
     (let n = dmem m (gpr m A1); s = dmem m (n + 8);
          m1 = exec (map (\<lambda>i. Ld (saved_regs ! i) (SWITCH_TO_S i) SP) [0..<12])
                 (wr SP s (wr RA (dmem m n) (wr SP n m)))
      in (wr SP (gpr m1 SP + SWITCH_TO_SIZE) m1)\<lparr>pc := gpr m1 RA\<rparr>)"

lemma switch_to_split: "switch_to a b m = switch_load (switch_save a b m)"
  unfolding switch_to_def switch_to_code_def upto12
  by (simp add: switch_save_def switch_load_def Let_def rd_simps)

lemma switch_save_regs:
  "gpr (switch_save a b m) = (gpr m)(A0 := a, A1 := b, SP := gpr m SP - SWITCH_TO_SIZE)"
  "csrs (switch_save a b m) = csrs m" "pc (switch_save a b m) = pc m"
  "user_mode (switch_save a b m) = user_mode m"
  by (auto simp: switch_save_def Let_def exec_stores fun_eq_iff)

lemma switch_save_other:
  assumes "p \<notin> switch_frame (gpr m SP - SWITCH_TO_SIZE)" and "p \<noteq> a"
  shows "dmem (switch_save a b m) p = dmem m p"
  using assms
  by (simp add: switch_save_def Let_def switch_frame_code exec_stores(5) image_iff)

lemma switch_save_mem:
  fixes a b m
  assumes "a \<notin> switch_frame (gpr m SP - SWITCH_TO_SIZE)"
  defines "f \<equiv> gpr m SP - SWITCH_TO_SIZE" and "d \<equiv> dmem (switch_save a b m)"
  shows "d a = f" and "d f = gpr m RA" and "d (f + 8) = f"
    and "i < 12 \<Longrightarrow> d (f + SWITCH_TO_S i) = gpr m (saved_regs ! i)"
proof -
  have a: "\<forall>i \<in> set [0..<12]. a \<noteq> f + SWITCH_TO_S i" "a \<noteq> f" "a \<noteq> f + 8"
    using assms(1) by (auto simp: switch_frame_code f_def)
  then show "d a = f" unfolding d_def f_def
    by (simp add: switch_save_def Let_def exec_stores(5))
  have f: "\<forall>i \<in> set [0..<12]. f \<noteq> f + SWITCH_TO_S i" "\<forall>i \<in> set [0..<12]. f + 8 \<noteq> f + SWITCH_TO_S i"
    using SWITCH_TO_S_ge by force+
  show "d f = gpr m RA" "d (f + 8) = f" using f unfolding d_def f_def
    by (simp_all add: switch_save_def Let_def exec_stores(5))
  have inj: "inj_on SWITCH_TO_S (set [0..<12])" by (auto simp: inj_on_def SWITCH_TO_S_inj)
  let ?m = "st64 (f + 8) f (st64 f (gpr m RA) (st64 a f (wr SP f (wr A1 b (wr A0 a m)))))"
  assume i: "i < 12"
  then have "dmem (exec (map (\<lambda>i. Sd (saved_regs ! i) (SWITCH_TO_S i) SP) [0..<12]) ?m)
      (gpr ?m SP + SWITCH_TO_S i) = rd ?m (saved_regs ! i)"
    using inj by (intro exec_stores(6)) auto
  with i show "d (f + SWITCH_TO_S i) = gpr m (saved_regs ! i)"
    unfolding d_def f_def by (simp add: switch_save_def Let_def rd_simps saved_regs_nth)
qed

lemma saved_regs_image: "(!) saved_regs ` {0..<12} = {8, 9} \<union> {18..27}"
proof
  show "(!) saved_regs ` {0..<12} \<subseteq> {8, 9} \<union> {18..27}"
    by (auto simp: saved_regs_nth)
  show "{8, 9} \<union> {18..27} \<subseteq> (!) saved_regs ` {0..<12}"
  proof
    fix x :: nat assume "x \<in> {8, 9} \<union> {18..27}"
    then have "x = saved_regs ! (if x < 10 then x - 8 else x - 16)"
      and "(if x < 10 then x - 8 else x - 16) \<in> {0..<12}"
      by (auto simp: saved_regs_nth)
    then show "x \<in> (!) saved_regs ` {0..<12}" by (rule image_eqI)
  qed
qed

lemma switch_load_simps:
  fixes m
  defines "n \<equiv> dmem m (gpr m A1)"
  defines "s \<equiv> dmem m (n + 8)"
  shows "dmem (switch_load m) = dmem m" "csrs (switch_load m) = csrs m"
    "user_mode (switch_load m) = user_mode m"
    "pc (switch_load m) = dmem m n"
    "gpr (switch_load m) SP = s + SWITCH_TO_SIZE"
    "gpr (switch_load m) RA = dmem m n"
    "i < 12 \<Longrightarrow> gpr (switch_load m) (saved_regs ! i) = dmem m (s + SWITCH_TO_S i)"
    "r \<notin> {RA, SP, 8, 9} \<union> {18..27} \<Longrightarrow> gpr (switch_load m) r = gpr m r"
proof -
  let ?m = "wr SP s (wr RA (dmem m n) (wr SP n m))"
  let ?f = "\<lambda>i. saved_regs ! i"
  have sp: "SP \<notin> ?f ` set [0..<12]" by (simp add: saved_regs_image)
  note L = exec_loads [where f = ?f and off = SWITCH_TO_S, OF sp]
  have inj: "inj_on ?f (set [0..<12])" by (auto simp: inj_on_def saved_regs_nth split: if_splits)
  show "dmem (switch_load m) = dmem m" "csrs (switch_load m) = csrs m"
    "user_mode (switch_load m) = user_mode m"
    by (simp_all add: switch_load_def Let_def L)
  show "pc (switch_load m) = dmem m n" "gpr (switch_load m) SP = s + SWITCH_TO_SIZE"
     "gpr (switch_load m) RA = dmem m n"
    using L(5)[of SP ?m] L(5)[of RA ?m] unfolding n_def s_def
    by (simp_all add: switch_load_def Let_def saved_regs_image)
  show "r \<notin> {RA, SP, 8, 9} \<union> {18..27} \<Longrightarrow> gpr (switch_load m) r = gpr m r"
    using L(5)[of r ?m] unfolding n_def s_def
    by (simp add: switch_load_def Let_def saved_regs_image)
  assume i: "i < 12"
  then show "gpr (switch_load m) (saved_regs ! i) = dmem m (s + SWITCH_TO_S i)"
    using L(6)[OF inj, of i ?m] unfolding n_def s_def
    by (simp add: switch_load_def Let_def saved_regs_nth)
qed

text \<open>
  What \<^verbatim>\<open>switch_to\<close> preserves: a context saved by it is the one it restores, as long as the
  previous PCB's stack frame and \<^verbatim>\<open>kernel_sp\<close> field are left alone in between.
\<close>

lemma switch_to_restores:
  fixes a b c m m'
  defines "f \<equiv> gpr m SP - SWITCH_TO_SIZE"
  assumes a: "a \<notin> switch_frame f"
    and kept: "\<And>p. p \<in> insert a (switch_frame f) \<Longrightarrow> dmem m' p = dmem (switch_to a b m) p"
    and c: "insert c (switch_frame (gpr m' SP - SWITCH_TO_SIZE)) \<inter> insert a (switch_frame f) = {}"
  shows "pc (switch_to c a m') = gpr m RA" and "gpr (switch_to c a m') SP = gpr m SP"
    and "gpr (switch_to c a m') RA = gpr m RA"
    and "r \<in> {8, 9} \<union> {18..27} \<Longrightarrow> gpr (switch_to c a m') r = gpr m r"
proof -
  let ?s = "switch_save c a m'"
  have load: "dmem (switch_to a b m) = dmem (switch_save a b m)"
    by (simp add: switch_to_split switch_load_simps)
  have keep: "dmem ?s p = dmem (switch_save a b m) p" if "p \<in> insert a (switch_frame f)" for p
  proof -
    have "p \<notin> switch_frame (gpr m' SP - SWITCH_TO_SIZE)" "p \<noteq> c" using c that by blast+
    then show ?thesis using kept [OF that] by (simp add: switch_save_other load)
  qed
  note mem = switch_save_mem [OF a [unfolded f_def], folded f_def, where b = b]
  have f_in: "f \<in> switch_frame f" "f + 8 \<in> switch_frame f"
    "i < 12 \<Longrightarrow> f + SWITCH_TO_S i \<in> switch_frame f" for i
    by (simp_all add: switch_frame_code)
  have A: "gpr ?s A1 = a" by (simp add: switch_save_regs)
  have sp: "gpr m SP = f + SWITCH_TO_SIZE" by (simp add: f_def)
  have d: "dmem ?s a = f" "dmem ?s f = gpr m RA" "dmem ?s (f + 8) = f"
    using keep mem(1-3) f_in by simp_all
  have ds: "dmem ?s (f + SWITCH_TO_S i) = gpr m (saved_regs ! i)" if "i < 12" for i
    using keep [OF insertI2, OF f_in(3) [OF that]] mem(4) [OF that] by simp
  show "pc (switch_to c a m') = gpr m RA" "gpr (switch_to c a m') SP = gpr m SP"
    "gpr (switch_to c a m') RA = gpr m RA"
    using sp by (simp_all add: switch_to_split switch_load_simps(4-6) A d)
  assume "r \<in> {8, 9} \<union> {18..27}"
  then obtain i where i: "i < 12" and r: "r = saved_regs ! i"
    using saved_regs_image by (metis atLeastLessThan_iff imageE)
  show "gpr (switch_to c a m') r = gpr m r"
    using switch_load_simps(7) [OF i, of ?s] ds [OF i] by (simp add: switch_to_split r A d)
qed

section \<open>The trap frame\<close>

definition trap_frame :: "ptr \<Rightarrow> ptr set" where
  "trap_frame k = (\<lambda>r. k + OFFSET_REG r) ` {..<36}"

definition save_regs :: "nat list" where
  "save_regs = [RA, GP, TP, T0, T1, T2, S0, S1, A0, A1, A2, A3, A4, A5, A6, A7,
                 S2, S3, S4, S5, S6, S7, S8, S9, S10, S11, T3, T4, T5, T6]"

definition restore_regs :: "nat list" where
  "restore_regs = [RA, GP, TP, T0, T2, S0, S1, A0, A1, A2, A3, A4, A5, A6, A7,
                 S2, S3, S4, S5, S6, S7, S8, S9, S10, S11, T3, T4, T5, T6]"

lemma save_regs_set: "r \<in> set save_regs \<longleftrightarrow> r = 1 \<or> 3 \<le> r \<and> r < 32"
  by (simp add: save_regs_def) presburger

lemma restore_regs_set: "r \<in> set restore_regs \<longleftrightarrow> r \<noteq> 6 \<and> (r = 1 \<or> 3 \<le> r \<and> r < 32)"
  by (simp add: restore_regs_def) presburger

lemma OFFSET_REG_csr: "OFFSET_REG_SSTATUS = OFFSET_REG 32" "OFFSET_REG_SEPC = OFFSET_REG 33"
  by (simp_all add: OFFSET_REG_def)

lemma SAVE_CONTEXT_mem:
  fixes m
  defines "k \<equiv> dmem m (gpr m TP)"
  shows "gpr (exec SAVE_CONTEXT m) SP = k"
    and "1 \<le> r \<Longrightarrow> r < 32 \<Longrightarrow> dmem (exec SAVE_CONTEXT m) (k + OFFSET_REG r) = gpr m r"
    and "dmem (exec SAVE_CONTEXT m) (k + OFFSET_REG_SEPC) = csrs m SEPC"
    and "dmem (exec SAVE_CONTEXT m) (k + OFFSET_REG_SSTATUS) = csrs m SSTATUS"
    and "p \<notin> trap_frame k \<Longrightarrow> dmem (exec SAVE_CONTEXT m) p = dmem m p"
proof -
  let ?m0 = "wr SP k (wcsr SSCRATCH (gpr m SP) m)"
  let ?m1 = "exec (map (\<lambda>r. Sd r (OFFSET_REG r) SP) save_regs) ?m0"
  have code: "exec SAVE_CONTEXT m =
    exec [Li T0 (SR_SUM OR SR_FS), Csrr T1 SSCRATCH, Sd T1 (OFFSET_REG SP) SP,
      Csrr T1 SEPC, Sd T1 OFFSET_REG_SEPC SP, Csrr T1 SSTATUS, Sd T1 OFFSET_REG_SSTATUS SP,
      Csrw SSTATUS T0] ?m1"
    unfolding SAVE_CONTEXT_def exec_append save_regs_def sd_reg_def by (simp add: k_def rd_simps)
  note S = exec_stores [where f = "\<lambda>r. r" and off = OFFSET_REG and xs = save_regs and m = ?m0]
  have g: "gpr ?m1 = (gpr m)(SP := k)" "csrs ?m1 = (csrs m)(SSCRATCH := gpr m SP)"
    by (simp_all add: S fun_eq_iff)
  have inj: "inj_on OFFSET_REG {..<64}" by (auto simp: inj_on_def OFFSET_REG_inj)
  have ne: "OFFSET_REG i \<noteq> OFFSET_REG j" if "i < 64" "j < 64" "i \<noteq> j" for i j
    using that by (simp add: OFFSET_REG_inj)
  have final: "dmem (exec SAVE_CONTEXT m) = (dmem ?m1)(k + OFFSET_REG 2 := gpr m SP,
      k + OFFSET_REG 33 := csrs m SEPC, k + OFFSET_REG 32 := csrs m SSTATUS)"
    unfolding code OFFSET_REG_csr by (simp add: g rd_simps)
  show "gpr (exec SAVE_CONTEXT m) SP = k" unfolding code by (simp add: g rd_simps)
  show "dmem (exec SAVE_CONTEXT m) (k + OFFSET_REG_SEPC) = csrs m SEPC"
    "dmem (exec SAVE_CONTEXT m) (k + OFFSET_REG_SSTATUS) = csrs m SSTATUS"
    unfolding final OFFSET_REG_csr by (simp_all add: ne)
  show "dmem (exec SAVE_CONTEXT m) (k + OFFSET_REG r) = gpr m r" if "1 \<le> r" "r < 32"
  proof (cases "r = 2")
    case True
    then show ?thesis unfolding final by (simp add: ne)
  next
    case False
    with that have "r \<in> set save_regs" "inj_on OFFSET_REG (set save_regs)"
      using inj by (auto simp: save_regs_set inj_on_def)
    from S(6) [OF this(2,1)] that False show ?thesis unfolding final by (simp add: ne rd_simps)
  qed
  show "dmem (exec SAVE_CONTEXT m) p = dmem m p" if "p \<notin> trap_frame k"
  proof -
    have p: "p \<noteq> k + OFFSET_REG i" if "i < 36" for i
      using \<open>p \<notin> trap_frame k\<close> that by (auto simp: trap_frame_def)
    have "\<forall>i \<in> set save_regs. p \<noteq> gpr ?m0 SP + OFFSET_REG i"
    proof
      fix i assume "i \<in> set save_regs"
      then have "i < 36" by (auto simp: save_regs_set)
      then show "p \<noteq> gpr ?m0 SP + OFFSET_REG i" using p by simp
    qed
    from S(5) [OF this] p show ?thesis unfolding final by simp
  qed
qed

lemma ret_from_exception_regs:
  fixes m
  defines "k \<equiv> gpr m SP"
  defines "d \<equiv> dmem m" and "m' \<equiv> exec ret_from_exception m"
  defines "tp \<equiv> d (k + OFFSET_REG TP)"
  assumes tp: "tp \<noteq> k + OFFSET_REG SP"
  shows "1 \<le> r \<Longrightarrow> r < 32 \<Longrightarrow> gpr m' r = d (k + OFFSET_REG r)"
    and "pc m' = d (k + OFFSET_REG_SEPC)"
    and "user_mode m' \<longleftrightarrow> d (k + OFFSET_REG_SSTATUS) AND SR_SPP = 0"
    and "dmem m' = d(tp := k)"
proof -
  let ?m1 = "exec (map (\<lambda>r. Ld r (OFFSET_REG r) SP) restore_regs) m"
  have ret: "ret_from_exception = map (\<lambda>r. Ld r (OFFSET_REG r) SP) restore_regs @
    [Ld T1 OFFSET_REG_SEPC SP, Csrw SEPC T1, Ld T1 OFFSET_REG_SSTATUS SP, Csrw SSTATUS T1,
      Ld T1 (OFFSET_REG T1) SP, Sd SP PCB_KERNEL_SP TP, Ld SP (OFFSET_REG SP) SP, Sret]"
    by (simp add: ret_from_exception_def RESTORE_CONTEXT_def restore_regs_def ld_reg_def)
  have code: "m' =
    exec [Ld T1 OFFSET_REG_SEPC SP, Csrw SEPC T1, Ld T1 OFFSET_REG_SSTATUS SP, Csrw SSTATUS T1,
      Ld T1 (OFFSET_REG T1) SP, Sd SP PCB_KERNEL_SP TP, Ld SP (OFFSET_REG SP) SP, Sret] ?m1"
    unfolding m'_def ret by (rule exec_append)
  have sp: "SP \<notin> (\<lambda>r. r) ` set restore_regs" by (simp add: restore_regs_set)
  note L = exec_loads [where f = "\<lambda>r. r" and off = OFFSET_REG, OF sp]
  have sp1: "gpr ?m1 SP = k" using L(5) [of SP m] by (simp add: restore_regs_set k_def)
  have g: "gpr ?m1 r = d (k + OFFSET_REG r)" if "r \<in> set restore_regs" for r
    using L(6) [of r m] that by (auto simp: restore_regs_set k_def d_def)
  have tp1: "gpr ?m1 TP = tp" using g [of TP] by (simp add: restore_regs_set tp_def)
  have d1: "dmem ?m1 = d" by (simp add: L d_def)
  show "dmem m' = d(tp := k)" "pc m' = d (k + OFFSET_REG_SEPC)"
    "user_mode m' \<longleftrightarrow> d (k + OFFSET_REG_SSTATUS) AND SR_SPP = 0"
    unfolding code by (simp_all add: rd_simps sp1 tp1 d1 do_sret_def Let_def)
  show "gpr m' r = d (k + OFFSET_REG r)" if "1 \<le> r" "r < 32"
  proof (cases "r \<in> set restore_regs")
    case True
    then have "r \<noteq> 2" "r \<noteq> 6" by (auto simp: restore_regs_set)
    with g [OF True] show ?thesis
      unfolding code by (simp add: rd_simps do_sret_def Let_def)
  next
    case False
    with that have "r = 2 \<or> r = 6" by (auto simp: restore_regs_set)
    with tp show ?thesis
      unfolding code by (auto simp: rd_simps sp1 tp1 d1 do_sret_def Let_def)
  qed
qed

section \<open>Round trips\<close>

text \<open>C6. \<^verbatim>\<open>switch_to\<close> restores what it saves: when the task \<open>a\<close>, switched away from by
  \<^verbatim>\<open>switch_to(a, b)\<close>, is switched back to by \<^verbatim>\<open>switch_to(c, a)\<close>, it continues at its own return
  address with its own stack pointer and callee-saved registers, provided its \<^verbatim>\<open>kernel_sp\<close> and the
  frame on its stack were left alone meanwhile and the task \<open>c\<close> uses another stack.\<close>

theorem switch_to_round_trip:
  fixes a b c m m'
  defines "f \<equiv> gpr m SP - SWITCH_TO_SIZE"
  assumes "a \<notin> switch_frame f"
    and "\<And>p. p \<in> insert a (switch_frame f) \<Longrightarrow> dmem m' p = dmem (switch_to a b m) p"
    and "insert c (switch_frame (gpr m' SP - SWITCH_TO_SIZE)) \<inter> insert a (switch_frame f) = {}"
    and "r \<in> {RA, SP, S0, S1, S2, S3, S4, S5, S6, S7, S8, S9, S10, S11}"
  shows "pc (switch_to c a m') = gpr m RA \<and> gpr (switch_to c a m') r = gpr m r"
  using switch_to_restores [OF assms(2-4) [unfolded f_def]] assms(5) by auto

text \<open>A machine with three stacks' worth of distinct addresses.\<close>

definition demo_machine :: machine where
  "demo_machine = \<lparr>gpr = (\<lambda>r. if r = SP then 0x1000 else of_nat r), csrs = (\<lambda>c. 0), pc = 0,
     user_mode = False, dmem = (\<lambda>a. 0)\<rparr>"

lemma switch_to_round_trip_witness:
  "gpr (switch_to 0x200 0x100 (wr SP 0x2000 (switch_to 0x100 0x200 demo_machine))) S11 = 27"
proof -
  have "set (0x200 # map (\<lambda>k. (0x2000 :: u64) - SWITCH_TO_SIZE + 8 * of_nat k) [0..<14]) \<inter>
      set (0x100 # map (\<lambda>k. (0x1000 :: u64) - SWITCH_TO_SIZE + 8 * of_nat k) [0..<14]) = {}"
    and "(0x100 :: u64) \<notin> set (map (\<lambda>k. 0x1000 - SWITCH_TO_SIZE + 8 * of_nat k) [0..<14])"
    by code_simp+
  then have d: "insert 0x200 (switch_frame (0x2000 - SWITCH_TO_SIZE)) \<inter>
      insert 0x100 (switch_frame (0x1000 - SWITCH_TO_SIZE)) = {}"
    and n: "0x100 \<notin> switch_frame (0x1000 - SWITCH_TO_SIZE)"
    by (simp_all only: switch_frame_def set_map set_upt list.set atLeast0LessThan not_False_eq_True)
  have sp: "gpr demo_machine SP = 0x1000" "gpr demo_machine S11 = 27"
    by (simp_all add: demo_machine_def)
  show ?thesis
    using switch_to_round_trip [where a = "0x100" and m = demo_machine and b = "0x200" and c = "0x200"
        and m' = "wr SP 0x2000 (switch_to 0x100 0x200 demo_machine)" and r = S11] d n sp by simp
qed

text \<open>C7. A trap is transparent: from any state, the trap entry saves every general purpose
  register, \<^verbatim>\<open>sepc\<close> and \<^verbatim>\<open>sstatus\<close> in the frame that the current PCB's \<^verbatim>\<open>kernel_sp\<close> points to, and
  \<^verbatim>\<open>ret_from_exception\<close> on an unchanged frame continues at \<^verbatim>\<open>sepc\<close> with all of them as they were,
  in user mode if the trap came from there, and with \<^verbatim>\<open>kernel_sp\<close> pointing to the frame again.\<close>

theorem trap_round_trip:
  fixes m m' h rfe
  defines "k \<equiv> dmem m (gpr m TP)"
  defines "e \<equiv> exec (exception_handler_entry rfe h) m"
  assumes sp: "gpr m' SP = k"
    and kept: "\<And>p. p \<in> trap_frame k \<Longrightarrow> dmem m' p = dmem e p"
    and tp: "gpr m TP \<noteq> k + OFFSET_REG SP"
    and r: "1 \<le> r" "r < 32"
  shows "gpr e A0 = k \<and> gpr e RA = rfe \<and> pc e = h \<and>
     gpr (exec ret_from_exception m') r = gpr m r \<and>
     pc (exec ret_from_exception m') = csrs m SEPC \<and>
     (user_mode (exec ret_from_exception m') \<longleftrightarrow> csrs m SSTATUS AND SR_SPP = 0) \<and>
     dmem (exec ret_from_exception m') (gpr m TP) = k"
proof -
  note S = SAVE_CONTEXT_mem [where m = m, folded k_def]
  have e: "dmem e = dmem (exec SAVE_CONTEXT m)" "gpr e A0 = k" "gpr e RA = rfe" "pc e = h"
    using S(1) by (simp_all add: e_def exception_handler_entry_def rd_simps)
  have inf: "i < 36 \<Longrightarrow> k + OFFSET_REG i \<in> trap_frame k" for i
    by (simp add: trap_frame_def)
  have d: "dmem m' (k + OFFSET_REG i) = gpr m i" if "1 \<le> i" "i < 32" for i
    using kept [OF inf, of i] S(2) [OF that] that by (simp add: e)
  have d2: "dmem m' (k + OFFSET_REG_SEPC) = csrs m SEPC"
    "dmem m' (k + OFFSET_REG_SSTATUS) = csrs m SSTATUS"
    using kept [OF inf [of 33]] kept [OF inf [of 32]] S(3,4) by (simp_all add: e OFFSET_REG_csr)
  have tp': "dmem m' (k + OFFSET_REG TP) = gpr m TP" by (rule d) simp_all
  have ne: "dmem m' (gpr m' SP + OFFSET_REG TP) \<noteq> gpr m' SP + OFFSET_REG SP"
    unfolding sp tp' by (rule tp)
  note R = ret_from_exception_regs [OF ne, unfolded sp tp' d2]
  show ?thesis using e R(1) [OF r] R(2-4) d [OF r] by simp
qed

text \<open>The trap entered and left at once.\<close>

lemma trap_round_trip_witness:
  "gpr (exec ret_from_exception (exec (exception_handler_entry 0x50 0x60) demo_machine)) A7 = 17"
proof -
  have "gpr (exec (exception_handler_entry 0x50 0x60) demo_machine) SP = dmem demo_machine (gpr demo_machine TP)"
    using SAVE_CONTEXT_mem(1) [where m = demo_machine]
    by (simp add: exception_handler_entry_def rd_simps)
  from trap_round_trip [OF this, where r = A7] show ?thesis
    by (simp add: demo_machine_def OFFSET_REG_def)
qed

end
