(* ===== verification/Memory_Alloc.thy ===== *)
theory Memory_Alloc
  imports Prelude
begin

text \<open>
  The page allocators of \<^verbatim>\<open>kernel/mm/mm.c\<close> and \<^verbatim>\<open>include/os/mm.h\<close>: two bump pointers, one for
  kernel pages and one for user pages, that are never returned.
\<close>

section \<open>Layout constants and rounding (include/os/mm.h)\<close>

definition PAGE_SIZE :: cint where
  "PAGE_SIZE = 4096"

definition INIT_KERNEL_STACK :: u64 where
  "INIT_KERNEL_STACK = 0x50500000"

definition INIT_USER_STACK :: u64 where
  "INIT_USER_STACK = 0x52500000"

definition FREEMEM_KERNEL :: u64 where
  "FREEMEM_KERNEL = INIT_KERNEL_STACK + scast PAGE_SIZE"

definition FREEMEM_USER :: u64 where
  "FREEMEM_USER = INIT_USER_STACK"

text \<open>\<^verbatim>\<open>ROUND\<close> and \<^verbatim>\<open>ROUNDDOWN\<close>; the mask is computed on \<^verbatim>\<open>int\<close> and then sign-extended.\<close>

definition ROUND :: "u64 \<Rightarrow> cint \<Rightarrow> u64" where
  "ROUND a n = (a + scast n - 1) AND scast (NOT (n - 1))"

definition ROUNDDOWN :: "u64 \<Rightarrow> cint \<Rightarrow> u64" where
  "ROUNDDOWN a n = a AND scast (NOT (n - 1))"

section \<open>The allocators (kernel/mm/mm.c)\<close>

record mm_state =
  kernMemCurr :: u64
  userMemCurr :: u64

definition mm_init :: mm_state where
  "mm_init = \<lparr>kernMemCurr = FREEMEM_KERNEL, userMemCurr = FREEMEM_USER\<rparr>"

definition allocKernelPage :: "cint \<Rightarrow> mm_state \<Rightarrow> mm_state \<times> ptr" where
  "allocKernelPage numPage s =
     (let ret = ROUND (kernMemCurr s) PAGE_SIZE
      in (s\<lparr>kernMemCurr := ret + scast (numPage * PAGE_SIZE)\<rparr>, ret))"

definition allocUserPage :: "cint \<Rightarrow> mm_state \<Rightarrow> mm_state \<times> ptr" where
  "allocUserPage numPage s =
     (let ret = ROUND (userMemCurr s) PAGE_SIZE
      in (s\<lparr>userMemCurr := ret + scast (numPage * PAGE_SIZE)\<rparr>, ret))"

text \<open>A run of allocations, with the pages each one returned.\<close>

fun alloc_seq :: "(cint \<Rightarrow> 's \<Rightarrow> 's \<times> ptr) \<Rightarrow> cint list \<Rightarrow> 's \<Rightarrow> 's \<times> (ptr \<times> cint) list" where
  "alloc_seq alloc [] s = (s, [])"
| "alloc_seq alloc (n # ns) s =
     (let (s1, p) = alloc n s; (s2, ps) = alloc_seq alloc ns s1 in (s2, (p, n) # ps))"

section \<open>Rounding\<close>

lemma page_mask: "(scast (NOT (PAGE_SIZE - 1)) :: u64) = NOT (mask 12)"
  by (simp add: PAGE_SIZE_def mask_eq_exp_minus_1)

lemma ROUND_page_eq: "ROUND a PAGE_SIZE = (a + 4095) AND NOT (mask 12)"
  unfolding ROUND_def page_mask by (simp add: PAGE_SIZE_def algebra_simps)

lemma and_not_mask_sub: "(a :: u64) AND NOT (mask n) = a - (a AND mask n)"
proof -
  have "NOT a AND (a AND mask n) = 0"
    by (auto simp: bit_eq_iff bit_simps)
  then have "a - (a AND mask n) = a AND NOT (a AND mask n)"
    by (rule disjunctive_diff_eq_and_not)
  also have "\<dots> = a AND NOT (mask n)"
    by (auto simp: bit_eq_iff bit_simps)
  finally show ?thesis by simp
qed

lemma unat_and_mask12: "unat ((a :: u64) AND mask 12) = unat a mod 4096"
  by (simp add: take_bit_eq_mask [symmetric] unsigned_take_bit_eq take_bit_eq_mod unat_mod)

lemma unat_and_not_mask: "unat ((a :: u64) AND NOT (mask 12)) = unat a - unat a mod 4096"
proof -
  have "a AND mask 12 \<le> a"
    by (simp add: word_le_nat_alt unat_and_mask12)
  then show ?thesis
    by (simp add: and_not_mask_sub unat_sub unat_and_mask12)
qed

lemma unat_ROUND_page:
  assumes "unat a + 4095 < 2 ^ 64"
  shows "unat (ROUND a PAGE_SIZE) = (unat a + 4095) - (unat a + 4095) mod 4096"
proof -
  have "unat (a + 4095) = unat a + 4095"
    using assms by (subst unat_add_lem [THEN iffD1]) simp_all
  then show ?thesis by (simp add: ROUND_page_eq unat_and_not_mask)
qed

lemma ROUND_page_bounds:
  assumes "unat a + 4095 < 2 ^ 64"
  shows "unat a \<le> unat (ROUND a PAGE_SIZE)" and "unat (ROUND a PAGE_SIZE) \<le> unat a + 4095"
    and "4096 dvd unat (ROUND a PAGE_SIZE)"
proof -
  note e = unat_ROUND_page [OF assms]
  have "(unat a + 4095) mod 4096 < 4096" by simp
  then show "unat a \<le> unat (ROUND a PAGE_SIZE)" unfolding e by linarith
  show "unat (ROUND a PAGE_SIZE) \<le> unat a + 4095" unfolding e by (rule diff_le_self)
  show "4096 dvd unat (ROUND a PAGE_SIZE)" unfolding e by (rule dvd_minus_mod)
qed

lemma pages_size:
  assumes "unat n < 2 ^ 19"
  shows "unat (scast (n * PAGE_SIZE) :: u64) = 4096 * unat n"
proof -
  have n: "unat (n * PAGE_SIZE) = 4096 * unat n"
    using assms by (simp add: PAGE_SIZE_def unat_word_ariths)
  then show ?thesis using assms by (subst unat_scast_small) simp_all
qed

section \<open>The contract of a page allocator\<close>

text \<open>
  What a client relies on: a request of \<open>n\<close> pages that the address space can hold returns a
  page-aligned block at or after the cursor, and the cursor moves to its end.
\<close>

definition blocks_within :: "nat \<Rightarrow> nat \<Rightarrow> (ptr \<times> cint) list \<Rightarrow> bool" where
  "blocks_within lo hi ps \<longleftrightarrow>
     lo \<le> hi \<and>
     (\<forall>(p, n) \<in> set ps. 4096 dvd unat p \<and> lo \<le> unat p \<and> unat p + 4096 * unat n \<le> hi) \<and>
     sorted_wrt (\<lambda>(p, n) (q, k). unat p + 4096 * unat n \<le> unat q) ps"

locale page_allocator =
  fixes cursor :: "'s \<Rightarrow> u64"
    and alloc :: "cint \<Rightarrow> 's \<Rightarrow> 's \<times> ptr"
  assumes block: "alloc n s = (s', p) \<Longrightarrow> unat n < 2 ^ 19 \<Longrightarrow>
      unat (cursor s) + 4095 + 4096 * unat n < 2 ^ 64 \<Longrightarrow>
      4096 dvd unat p \<and> unat (cursor s) \<le> unat p \<and>
      unat p \<le> unat (cursor s) + 4095 \<and>
      unat (cursor s') = unat p + 4096 * unat n"
begin

lemma alloc_seq_blocks:
  assumes "alloc_seq alloc ns s = (s', ps)"
    and "\<forall>n \<in> set ns. unat n < 2 ^ 19"
    and "unat (cursor s) + (\<Sum>n \<leftarrow> ns. 4095 + 4096 * unat n) < 2 ^ 64"
  shows "map snd ps = ns \<and> blocks_within (unat (cursor s)) (unat (cursor s')) ps"
  using assms
proof (induction ns arbitrary: s ps)
  case Nil
  then show ?case by (simp add: blocks_within_def)
next
  case (Cons n ns)
  obtain s1 p qs where a: "alloc n s = (s1, p)" and r: "alloc_seq alloc ns s1 = (s', qs)"
    and ps: "ps = (p, n) # qs"
    using Cons.prems(1) by (auto split: prod.splits)
  from block [OF a] Cons.prems(2,3) have b: "4096 dvd unat p" "unat (cursor s) \<le> unat p"
    "unat p \<le> unat (cursor s) + 4095" "unat (cursor s1) = unat p + 4096 * unat n"
    by simp_all
  have "\<forall>n \<in> set ns. unat n < 2 ^ 19" using Cons.prems(2) by simp
  moreover have "unat (cursor s1) + (\<Sum>n \<leftarrow> ns. 4095 + 4096 * unat n) < 2 ^ 64"
    using Cons.prems(3) b by simp
  ultimately have "map snd qs = ns" and "blocks_within (unat (cursor s1)) (unat (cursor s')) qs"
    using Cons.IH [OF r] by simp_all
  then show ?case using b by (auto simp: ps blocks_within_def)
qed

end

lemma bump_block:
  assumes p: "p = ROUND c PAGE_SIZE" and c': "c' = p + scast (n * PAGE_SIZE)"
    and n: "unat n < 2 ^ 19" and room: "unat c + 4095 + 4096 * unat n < 2 ^ 64"
  shows "4096 dvd unat p \<and> unat c \<le> unat p \<and> unat p \<le> unat c + 4095 \<and>
         unat c' = unat p + 4096 * unat n"
proof -
  have c: "unat c + 4095 < 2 ^ 64" using room by simp
  note b = ROUND_page_bounds [OF c]
  have "unat p + unat (scast (n * PAGE_SIZE) :: u64) < 2 ^ 64"
    using b(2) room by (simp add: p pages_size [OF n])
  then have "unat c' = unat p + 4096 * unat n"
    by (simp add: c' unat_add_lem [THEN iffD1] pages_size [OF n])
  with b show ?thesis by (simp add: p)
qed

interpretation kernel_pages: page_allocator kernMemCurr allocKernelPage
  by unfold_locales (rule bump_block, auto simp: allocKernelPage_def Let_def)

interpretation user_pages: page_allocator userMemCurr allocUserPage
  by unfold_locales (rule bump_block, auto simp: allocUserPage_def Let_def)

text \<open>C14. Kernel pages never overlap: a sequence of requests that the address space can hold gets
  page-aligned blocks of the sizes asked for, each one above the one before it, all above
  where the allocator stood.\<close>

theorem kernel_pages_disjoint:
  assumes "alloc_seq allocKernelPage ns s = (s', ps)"
    and "\<forall>n \<in> set ns. unat n < 2 ^ 19"
    and "unat (kernMemCurr s) + (\<Sum>n \<leftarrow> ns. 4095 + 4096 * unat n) < 2 ^ 64"
  shows "map snd ps = ns \<and> userMemCurr s' = userMemCurr s \<and>
     (\<forall>(p, n) \<in> set ps. 4096 dvd unat p \<and> kernMemCurr s \<le> p) \<and>
     sorted_wrt (\<lambda>(p, n) (q, k). unat p + 4096 * unat n \<le> unat q) ps"
proof -
  have "userMemCurr s' = userMemCurr s"
    using assms(1) by (induction ns arbitrary: s ps)
      (auto simp: allocKernelPage_def Let_def split: prod.splits)
  moreover note kernel_pages.alloc_seq_blocks [OF assms]
  ultimately show ?thesis by (auto simp: blocks_within_def word_le_nat_alt)
qed

lemma kernel_pages_disjoint_witness:
  "alloc_seq allocKernelPage [1, 2] mm_init =
     (\<lparr>kernMemCurr = 0x50504000, userMemCurr = 0x52500000\<rparr>, [(0x50501000, 1), (0x50502000, 2)]) \<and>
   sorted_wrt (\<lambda>(p, n) (q, k). unat p + 4096 * unat n \<le> unat q)
     [(0x50501000 :: ptr, 1 :: cint), (0x50502000, 2)]"
proof -
  have a: "alloc_seq allocKernelPage [1, 2] mm_init =
     (\<lparr>kernMemCurr = 0x50504000, userMemCurr = 0x52500000\<rparr>, [(0x50501000, 1), (0x50502000, 2)])"
    by code_simp
  have b: "unat (kernMemCurr mm_init) + (\<Sum>n \<leftarrow> [1, 2 :: cint]. 4095 + 4096 * unat n) < 2 ^ 64"
    by (simp add: mm_init_def FREEMEM_KERNEL_def INIT_KERNEL_STACK_def PAGE_SIZE_def)
  from kernel_pages_disjoint [OF a _ b] a show ?thesis by simp
qed

end
