(* ===== verification/Kernel_State.thy ===== *)
theory Kernel_State
  imports Kernel_List Machine Memory_Alloc
begin

text \<open>
  The state the kernel components share: the process control blocks of
  \<^verbatim>\<open>include/os/sched.h\<close>, the mutex table of \<^verbatim>\<open>include/os/lock.h\<close>, the queues, the clock and
  the machine. Memory is kept field by field: the field \<open>f\<close> of every structure of a kind is
  one function of the structure's address, so two fields never alias and two structures do
  when their addresses are equal. The fields that the assembly reads (\<^verbatim>\<open>kernel_sp\<close>,
  \<^verbatim>\<open>user_sp\<close>, the frames on the kernel stacks) are doublewords of the machine's memory.
\<close>

section \<open>Structures (include/os/sched.h, include/os/lock.h)\<close>

datatype task_status = TASK_BLOCKED | TASK_RUNNING | TASK_READY | TASK_EXITED

datatype lock_status = UNLOCKED | LOCKED

text \<open>
  \<^verbatim>\<open>mutex_lock_t\<close>: the lock word and the key; the embedded \<^verbatim>\<open>block_queue\<close> is a node of the list
  store at an address given by \<open>block_queue\<close> below.
\<close>

record mutex_lock =
  lock :: lock_status
  key :: cint

definition LOCK_NUM :: nat where "LOCK_NUM = 16"
definition NUM_MAX_TASK :: nat where "NUM_MAX_TASK = 16"

text \<open>
  Offsets in \<^verbatim>\<open>pcb_t\<close>: two registers, the list node, \<^verbatim>\<open>pid\<close>, \<^verbatim>\<open>status\<close>, two cursor fields of
  four bytes each, the wake-up time and the thread-group node: 72 bytes in all.
\<close>

definition OFFSETOF_LIST :: u64 where "OFFSETOF_LIST = 16"
definition OFFSETOF_THREAD_GROUP :: u64 where "OFFSETOF_THREAD_GROUP = 56"
definition SIZEOF_PCB :: u64 where "SIZEOF_PCB = 72"
definition SIZEOF_MUTEX :: u64 where "SIZEOF_MUTEX = 32"
definition OFFSETOF_BLOCK_QUEUE :: u64 where "OFFSETOF_BLOCK_QUEUE = 8"

definition pcb_list :: "ptr \<Rightarrow> ptr" where
  "pcb_list p = p + OFFSETOF_LIST"

definition pcb_thread_group :: "ptr \<Rightarrow> ptr" where
  "pcb_thread_group p = p + OFFSETOF_THREAD_GROUP"

text \<open>\<^verbatim>\<open>list_entry(ptr, pcb_t, list)\<close> and \<^verbatim>\<open>list_entry(ptr, tcb_t, thread_group)\<close>.\<close>

definition list_entry_list :: "ptr \<Rightarrow> ptr" where
  "list_entry_list n = n - OFFSETOF_LIST"

definition list_entry_group :: "ptr \<Rightarrow> ptr" where
  "list_entry_group n = n - OFFSETOF_THREAD_GROUP"

lemma list_entry_list_node [simp]: "list_entry_list (pcb_list p) = p"
  by (simp add: list_entry_list_def pcb_list_def)

lemma pcb_list_entry [simp]: "pcb_list (list_entry_list n) = n"
  by (simp add: list_entry_list_def pcb_list_def)

lemma list_entry_group_node [simp]: "list_entry_group (pcb_thread_group p) = p"
  by (simp add: list_entry_group_def pcb_thread_group_def)

lemma pcb_group_entry [simp]: "pcb_thread_group (list_entry_group n) = n"
  by (simp add: list_entry_group_def pcb_thread_group_def)

lemma pcb_list_inj [simp]: "pcb_list p = pcb_list q \<longleftrightarrow> p = q"
  by (simp add: pcb_list_def)

lemma pcb_list_eq_iff: "pcb_list p = n \<longleftrightarrow> p = list_entry_list n"
  by (auto simp: list_entry_list_def pcb_list_def)

lemma list_entry_list_inj [simp]: "list_entry_list p = list_entry_list q \<longleftrightarrow> p = q"
  by (simp add: list_entry_list_def)

lemma pcb_group_inj [simp]: "pcb_thread_group p = pcb_thread_group q \<longleftrightarrow> p = q"
  by (simp add: pcb_thread_group_def)

section \<open>Addresses of the globals\<close>

text \<open>
  The linker places the globals and the routines; the model takes their addresses as a
  parameter. \<open>after_switch\<close> is the return address of the calls of \<^verbatim>\<open>switch_to\<close>, \<open>after_enable_interrupt\<close> that
  of the call in \<^verbatim>\<open>setup_exception\<close>.
\<close>

record layout =
  ready_queue :: ptr
  sleep_queue :: ptr
  mlocks_base :: ptr
  pcb_base :: ptr
  pid0_pcb :: ptr
  ret_from_exception_at :: ptr
  exception_handler_entry_at :: ptr
  interrupt_helper_at :: ptr
  enable_interrupt_at :: ptr
  after_switch :: ptr
  after_enable_interrupt :: ptr
  tasks_base :: ptr

definition pcb :: "layout \<Rightarrow> nat \<Rightarrow> ptr" where
  "pcb L i = pcb_base L + SIZEOF_PCB * of_nat i"

definition block_queue :: "layout \<Rightarrow> nat \<Rightarrow> ptr" where
  "block_queue L i = mlocks_base L + SIZEOF_MUTEX * of_nat i + OFFSETOF_BLOCK_QUEUE"

section \<open>Routines in tables, and the firmware\<close>

text \<open>
  The tables of the kernel hold addresses of routines; a model entry names the routine. The
  first eight entries of the jump table are the firmware's services (\<^verbatim>\<open>arch/riscv/bios/common.c\<close>),
  the others and the system call table hold kernel calls, the interrupt and exception tables
  the three handlers.
\<close>

datatype bios_fn = Port_write | Port_write_ch | Port_read_ch | Sd_read | Sd_write
  | Qemu_logging | Set_timer | Read_fdt

datatype sys_fn = Sys_sleep | Sys_yield | Sys_write | Sys_cursor | Sys_reflush
  | Sys_get_timebase | Sys_get_tick | Sys_lock_init | Sys_lock_acq | Sys_lock_release
  | Sys_exit | Sys_thread_create | Sys_thread_yield | Sys_printk

datatype handler = Handle_syscall | Handle_irq_timer | Handle_other

datatype kfun = Bios_fn bios_fn | Kernel_fn sys_fn

text \<open>
  A call of the firmware: the service number and its five arguments; where an argument points
  to a string, the event also has the string it points to at the time of the call.
\<close>

datatype bios_event = Bios u64 "u64 list" | Bios_str u64 "byte list"

section \<open>The kernel state\<close>

text \<open>
  \<open>rdtime\<close> is the sequence of values the \<^verbatim>\<open>rdtime\<close> instruction returns and \<open>rd_pos\<close> the number
  of readings so far. \<open>void_ret\<close> is what a \<^verbatim>\<open>void\<close> function leaves in the return register,
  which the source does not determine. \<open>bytes\<close> is the memory that strings and images are in,
  \<open>bios_log\<close> the calls made to the firmware, and \<open>firmware\<close> what the firmware does in answer to the
  \<open>n\<close>-th call: the memory it leaves and the value it returns.
\<close>

record kstate =
  ls :: list_store
  mach :: machine
  pid :: "ptr \<Rightarrow> cint"
  status :: "ptr \<Rightarrow> task_status"
  cursor_x :: "ptr \<Rightarrow> cint"
  cursor_y :: "ptr \<Rightarrow> cint"
  wakeup_time :: "ptr \<Rightarrow> u64"
  mlocks :: "mutex_lock list"
  mm :: mm_state
  time_base :: u64
  time_elapsed :: u64
  rdtime :: "nat \<Rightarrow> u64"
  rd_pos :: nat
  void_ret :: u64
  bytes :: "ptr \<Rightarrow> byte"
  bios_log :: "bios_event list"
  firmware :: "nat \<Rightarrow> bios_event \<Rightarrow> (ptr \<Rightarrow> byte) \<Rightarrow> (ptr \<Rightarrow> byte) \<times> u64"
  jmptab :: "nat \<Rightarrow> kfun option"
  syscall_tab :: "sys_fn option list"
  irq_table :: "handler option list"
  exc_table :: "handler option list"
  new_screen :: "byte list"
  old_screen :: "byte list"

text \<open>\<^verbatim>\<open>current_running\<close> is the register \<^verbatim>\<open>tp\<close>.\<close>

definition current_running :: "kstate \<Rightarrow> ptr" where
  "current_running s = gpr (mach s) TP"

definition set_current :: "ptr \<Rightarrow> kstate \<Rightarrow> kstate" where
  "set_current p s = s\<lparr>mach := wr TP p (mach s)\<rparr>"

definition set_status :: "ptr \<Rightarrow> task_status \<Rightarrow> kstate \<Rightarrow> kstate" where
  "set_status p v s = s\<lparr>status := (status s)(p := v)\<rparr>"

definition on_lists :: "(list_store \<Rightarrow> list_store) \<Rightarrow> kstate \<Rightarrow> kstate" where
  "on_lists f s = s\<lparr>ls := f (ls s)\<rparr>"

text \<open>
  How a call that may reschedule ends: it returns to its caller, or control leaves the
  calling context in \<^verbatim>\<open>switch_to\<close> and the caller's remaining code runs when the context is
  switched back to.
\<close>

datatype ctl = Returned | Switched

text \<open>
  What goes wrong in a run: a loop that does not end, an access outside an array, a call
  through a table entry that holds no routine, an argument list that does not match a format,
  a failed assertion. \<open>KernelCall\<close> is a jump through an entry of the firmware's table that holds a
  call of the kernel, which is left to the caller of the model.
\<close>

datatype fault = Diverges | OutOfBounds | BadJump | BadArgument | AssertFailed
  | KernelCall sys_fn "u64 list"

type_synonym 'a res = "fault + 'a"

definition ends :: "'a option \<Rightarrow> 'a res" where
  "ends r = (case r of None \<Rightarrow> Inl Diverges | Some x \<Rightarrow> Inr x)"

lemma ends_simps [simp]: "ends (Some x) = Inr x" "ends None = Inl Diverges"
  by (simp_all add: ends_def)

definition bind_res :: "'a res \<Rightarrow> ('a \<Rightarrow> 'b res) \<Rightarrow> 'b res" where
  "bind_res r f = (case r of Inl e \<Rightarrow> Inl e | Inr x \<Rightarrow> f x)"

lemma bind_res_simps [simp]: "bind_res (Inr x) f = f x" "bind_res (Inl e) f = Inl e"
  by (simp_all add: bind_res_def)

text \<open>An \<^verbatim>\<open>int\<close> as an index of an array of \<open>n\<close> elements.\<close>

definition array_index :: "nat \<Rightarrow> cint \<Rightarrow> nat res" where
  "array_index n i = (if 0 \<le> sint i \<and> sint i < int n then Inr (nat (sint i)) else Inl OutOfBounds)"

definition call_switch_to :: "layout \<Rightarrow> ptr \<Rightarrow> ptr \<Rightarrow> kstate \<Rightarrow> kstate" where
  "call_switch_to L prev next_pcb s =
     s\<lparr>mach := switch_to prev next_pcb (wr RA (after_switch L) (mach s))\<rparr>"

section \<open>Reading the state after an update\<close>

lemma set_current_simps [simp]:
  "current_running (set_current p s) = p" "ls (set_current p s) = ls s"
  "status (set_current p s) = status s" "wakeup_time (set_current p s) = wakeup_time s"
  "mlocks (set_current p s) = mlocks s" "rd_pos (set_current p s) = rd_pos s"
  "rdtime (set_current p s) = rdtime s" "time_base (set_current p s) = time_base s"
  "dmem (mach (set_current p s)) = dmem (mach s)" "pid (set_current p s) = pid s"
  "mm (set_current p s) = mm s" "void_ret (set_current p s) = void_ret s"
  "cursor_x (set_current p s) = cursor_x s" "cursor_y (set_current p s) = cursor_y s"
  "time_elapsed (set_current p s) = time_elapsed s" "bytes (set_current p s) = bytes s"
  "bios_log (set_current p s) = bios_log s" "firmware (set_current p s) = firmware s"
  "jmptab (set_current p s) = jmptab s" "syscall_tab (set_current p s) = syscall_tab s"
  "irq_table (set_current p s) = irq_table s" "exc_table (set_current p s) = exc_table s"
  "new_screen (set_current p s) = new_screen s" "old_screen (set_current p s) = old_screen s"
  by (simp_all add: set_current_def current_running_def)

lemma set_status_simps [simp]:
  "status (set_status p v s) = (status s)(p := v)" "ls (set_status p v s) = ls s"
  "mach (set_status p v s) = mach s" "current_running (set_status p v s) = current_running s"
  "wakeup_time (set_status p v s) = wakeup_time s" "mlocks (set_status p v s) = mlocks s"
  "rd_pos (set_status p v s) = rd_pos s" "rdtime (set_status p v s) = rdtime s"
  "time_base (set_status p v s) = time_base s" "pid (set_status p v s) = pid s"
  "mm (set_status p v s) = mm s" "void_ret (set_status p v s) = void_ret s"
  "cursor_x (set_status p v s) = cursor_x s" "cursor_y (set_status p v s) = cursor_y s"
  "time_elapsed (set_status p v s) = time_elapsed s" "bytes (set_status p v s) = bytes s"
  "bios_log (set_status p v s) = bios_log s" "firmware (set_status p v s) = firmware s"
  "jmptab (set_status p v s) = jmptab s" "syscall_tab (set_status p v s) = syscall_tab s"
  "irq_table (set_status p v s) = irq_table s" "exc_table (set_status p v s) = exc_table s"
  "new_screen (set_status p v s) = new_screen s" "old_screen (set_status p v s) = old_screen s"
  by (simp_all add: set_status_def current_running_def)

lemma on_lists_simps [simp]:
  "ls (on_lists f s) = f (ls s)" "mach (on_lists f s) = mach s" "status (on_lists f s) = status s"
  "current_running (on_lists f s) = current_running s"
  "wakeup_time (on_lists f s) = wakeup_time s" "mlocks (on_lists f s) = mlocks s"
  "rd_pos (on_lists f s) = rd_pos s" "rdtime (on_lists f s) = rdtime s"
  "time_base (on_lists f s) = time_base s" "pid (on_lists f s) = pid s"
  "mm (on_lists f s) = mm s" "void_ret (on_lists f s) = void_ret s"
  "cursor_x (on_lists f s) = cursor_x s" "cursor_y (on_lists f s) = cursor_y s"
  "time_elapsed (on_lists f s) = time_elapsed s" "bytes (on_lists f s) = bytes s"
  "bios_log (on_lists f s) = bios_log s" "firmware (on_lists f s) = firmware s"
  "jmptab (on_lists f s) = jmptab s" "syscall_tab (on_lists f s) = syscall_tab s"
  "irq_table (on_lists f s) = irq_table s" "exc_table (on_lists f s) = exc_table s"
  "new_screen (on_lists f s) = new_screen s" "old_screen (on_lists f s) = old_screen s"
  by (simp_all add: on_lists_def current_running_def)

lemma switch_to_tp [simp]: "gpr (switch_to a b m) TP = gpr m TP"
  by (simp add: switch_to_split switch_load_simps switch_save_regs)

lemma call_switch_to_simps [simp]:
  "current_running (call_switch_to L p q s) = current_running s"
  "ls (call_switch_to L p q s) = ls s" "status (call_switch_to L p q s) = status s"
  "wakeup_time (call_switch_to L p q s) = wakeup_time s"
  "mlocks (call_switch_to L p q s) = mlocks s" "rd_pos (call_switch_to L p q s) = rd_pos s"
  "rdtime (call_switch_to L p q s) = rdtime s" "time_base (call_switch_to L p q s) = time_base s"
  "pid (call_switch_to L p q s) = pid s" "mm (call_switch_to L p q s) = mm s"
  "void_ret (call_switch_to L p q s) = void_ret s"
  "cursor_x (call_switch_to L p q s) = cursor_x s" "cursor_y (call_switch_to L p q s) = cursor_y s"
  "time_elapsed (call_switch_to L p q s) = time_elapsed s" "bytes (call_switch_to L p q s) = bytes s"
  "bios_log (call_switch_to L p q s) = bios_log s" "firmware (call_switch_to L p q s) = firmware s"
  "jmptab (call_switch_to L p q s) = jmptab s" "syscall_tab (call_switch_to L p q s) = syscall_tab s"
  "irq_table (call_switch_to L p q s) = irq_table s" "exc_table (call_switch_to L p q s) = exc_table s"
  "new_screen (call_switch_to L p q s) = new_screen s" "old_screen (call_switch_to L p q s) = old_screen s"
  by (simp_all add: call_switch_to_def current_running_def)

end
