(* ===== verification/Scheduler.thy ===== *)
theory Scheduler
  imports Kernel_State
begin

text \<open>
  The clock, the sleep queue and the scheduler: \<^verbatim>\<open>kernel/sched/time.c\<close> and
  \<^verbatim>\<open>kernel/sched/sched.c\<close>. A traversal of a corrupt queue may not end, so the operations
  that walk the sleep queue return an option.
\<close>

section \<open>The clock (kernel/sched/time.c)\<close>

definition get_ticks :: "kstate \<Rightarrow> kstate \<times> u64" where
  "get_ticks s =
     (let t = rdtime s (rd_pos s)
      in (s\<lparr>time_elapsed := t, rd_pos := Suc (rd_pos s)\<rparr>, t))"

definition get_timer :: "kstate \<Rightarrow> kstate \<times> u64" where
  "get_timer s = (let (s1, t) = get_ticks s in (s1, divu t (time_base s1)))"

definition get_time_base :: "kstate \<Rightarrow> kstate \<times> u64" where
  "get_time_base s = (s, time_base s)"

partial_function (option) latency_loop :: "u64 \<Rightarrow> u64 \<Rightarrow> kstate \<Rightarrow> kstate option" where
  "latency_loop begin_time time s =
     (let (s1, t) = get_timer s
      in if t - begin_time < time then latency_loop begin_time time s1 else Some s1)"

definition latency :: "u64 \<Rightarrow> kstate \<Rightarrow> kstate option" where
  "latency time s = (let (s1, begin_time) = get_timer s in latency_loop begin_time time s1)"

section \<open>Blocking and waking (kernel/sched/sched.c)\<close>

definition do_block :: "ptr \<Rightarrow> ptr \<Rightarrow> kstate \<Rightarrow> kstate" where
  "do_block pcb_node queue s =
     (let block_pcb = list_entry_list pcb_node;
          s1 = set_status block_pcb TASK_BLOCKED s
      in on_lists (list_move_tail pcb_node queue) s1)"

definition do_unblock :: "layout \<Rightarrow> ptr \<Rightarrow> kstate \<Rightarrow> kstate" where
  "do_unblock L pcb_node s =
     (let unblock_pcb = list_entry_list pcb_node;
          s1 = set_status unblock_pcb TASK_READY s
      in on_lists (list_move_tail pcb_node (ready_queue L)) s1)"

definition check_sleeping_body :: "layout \<Rightarrow> ptr \<Rightarrow> kstate \<Rightarrow> kstate" where
  "check_sleeping_body L pos s =
     (let p = list_entry_list pos;
          (s1, now) = get_timer s
      in if now \<ge> wakeup_time s1 p then do_unblock L pos s1 else s1)"

definition check_sleeping :: "layout \<Rightarrow> kstate \<Rightarrow> kstate option" where
  "check_sleeping L s = list_for_each_safe ls (check_sleeping_body L) (sleep_queue L) s"

section \<open>The scheduler\<close>

definition pick_next :: "layout \<Rightarrow> kstate \<Rightarrow> kstate" where
  "pick_next L s = set_current (list_entry_list (nxt (ls s) (ready_queue L))) s"

text \<open>\<open>reschedule\<close> is the part of \<^verbatim>\<open>do_scheduler\<close> after \<^verbatim>\<open>check_sleeping()\<close>.\<close>

definition reschedule :: "layout \<Rightarrow> kstate \<Rightarrow> kstate \<times> ctl" where
  "reschedule L s =
     (let pre_running = current_running s in
      if list_empty (ls s) (ready_queue L) then (s, Returned)
      else
        (let s2 = (if status s pre_running = TASK_RUNNING
                   then (let a = set_status pre_running TASK_READY s;
                             b = on_lists (list_add_tail (pcb_list pre_running) (ready_queue L)) a
                         in pick_next L b)
                   else pick_next L s);
             s3 = set_status (current_running s2) TASK_RUNNING s2;
             s4 = on_lists (list_del_init (pcb_list (current_running s3))) s3
         in (call_switch_to L pre_running (current_running s4) s4, Switched)))"

definition do_scheduler :: "layout \<Rightarrow> kstate \<Rightarrow> (kstate \<times> ctl) option" where
  "do_scheduler L s =
     (case check_sleeping L s of
        None \<Rightarrow> None
      | Some s1 \<Rightarrow> Some (reschedule L s1))"

definition do_sleep :: "layout \<Rightarrow> u32 \<Rightarrow> kstate \<Rightarrow> (kstate \<times> ctl) option" where
  "do_sleep L sleep_time s =
     (let s1 = do_block (pcb_list (current_running s)) (sleep_queue L) s;
          (s2, now) = get_timer s1;
          s3 = s2\<lparr>wakeup_time := (wakeup_time s2)(current_running s2 := now + ucast sleep_time)\<rparr>
      in do_scheduler L s3)"

definition do_exit :: "layout \<Rightarrow> kstate \<Rightarrow> (kstate \<times> ctl) option" where
  "do_exit L s = do_scheduler L (set_status (current_running s) TASK_EXITED s)"

section \<open>Readings of the clock\<close>

text \<open>\<open>timer_at s k\<close>: what the \<open>k\<close>-th \<^verbatim>\<open>rdtime\<close> gives \<open>get_timer\<close>, in seconds.\<close>

definition timer_at :: "kstate \<Rightarrow> nat \<Rightarrow> u64" where
  "timer_at s k = divu (rdtime s k) (time_base s)"

lemma get_timer_eq:
  "get_timer s = (s\<lparr>time_elapsed := rdtime s (rd_pos s), rd_pos := Suc (rd_pos s)\<rparr>,
                  timer_at s (rd_pos s))"
  by (simp add: get_timer_def get_ticks_def timer_at_def Let_def)

text \<open>
  The sleepers a pass over the sleep queue wakes, and the ones it leaves: sleeper number \<open>i\<close>
  of the queue is compared with the reading number \<open>k + i\<close>.
\<close>

fun due :: "kstate \<Rightarrow> nat \<Rightarrow> ptr list \<Rightarrow> ptr list" where
  "due s k [] = []"
| "due s k (n # ns) =
     (if timer_at s k \<ge> wakeup_time s (list_entry_list n) then n # due s (Suc k) ns
      else due s (Suc k) ns)"

fun not_due :: "kstate \<Rightarrow> nat \<Rightarrow> ptr list \<Rightarrow> ptr list" where
  "not_due s k [] = []"
| "not_due s k (n # ns) =
     (if timer_at s k \<ge> wakeup_time s (list_entry_list n) then not_due s (Suc k) ns
      else n # not_due s (Suc k) ns)"

lemma set_due_not_due: "set (due s k ns) \<union> set (not_due s k ns) = set ns"
  by (induction ns arbitrary: k) auto

lemma set_due_subset: "set (due s k ns) \<subseteq> set ns"
  using set_due_not_due [of s k ns] by blast

lemma due_cong:
  assumes "rdtime s' = rdtime s" and "time_base s' = time_base s" and "wakeup_time s' = wakeup_time s"
  shows "due s' k ns = due s k ns" and "not_due s' k ns = not_due s k ns"
  using assms by (induction ns arbitrary: k) (simp_all add: timer_at_def)

section \<open>What a pass over the sleep queue changes\<close>

text \<open>
  The fields that blocking, waking, the sleep queue and the scheduler leave alone;
  \<open>sched_frame\<close> adds the machine, which only the scheduler changes.
\<close>

definition data_frame :: "kstate \<Rightarrow> kstate \<Rightarrow> bool" where
  "data_frame s s' \<longleftrightarrow>
     pid s' = pid s \<and> wakeup_time s' = wakeup_time s \<and>
     mlocks s' = mlocks s \<and> mm s' = mm s \<and> time_base s' = time_base s \<and>
     rdtime s' = rdtime s \<and> void_ret s' = void_ret s \<and> cursor_x s' = cursor_x s \<and>
     cursor_y s' = cursor_y s \<and> bytes s' = bytes s \<and> bios_log s' = bios_log s \<and>
     firmware s' = firmware s \<and> jmptab s' = jmptab s \<and> syscall_tab s' = syscall_tab s \<and>
     irq_table s' = irq_table s \<and> exc_table s' = exc_table s \<and> new_screen s' = new_screen s \<and>
     old_screen s' = old_screen s"

definition sched_frame :: "kstate \<Rightarrow> kstate \<Rightarrow> bool" where
  "sched_frame s s' \<longleftrightarrow> mach s' = mach s \<and> data_frame s s'"

lemma sched_frame_refl [simp]: "sched_frame s s"
  by (simp add: sched_frame_def data_frame_def)

lemma data_frame_refl [simp]: "data_frame s s"
  by (simp add: data_frame_def)

lemma data_frame_trans: "data_frame s t \<Longrightarrow> data_frame t u \<Longrightarrow> data_frame s u"
  by (simp add: data_frame_def)

lemma sched_frame_trans: "sched_frame s t \<Longrightarrow> sched_frame t u \<Longrightarrow> sched_frame s u"
  by (auto simp: sched_frame_def intro: data_frame_trans)

lemma sched_frame_data: "sched_frame s s' \<Longrightarrow> data_frame s s'"
  by (simp add: sched_frame_def)

lemma sched_frame_current: "sched_frame s s' \<Longrightarrow> current_running s' = current_running s"
  by (simp add: sched_frame_def current_running_def)

lemma check_sleeping_body_frame: "sched_frame s (check_sleeping_body L p s)"
  by (simp add: check_sleeping_body_def get_timer_eq do_unblock_def Let_def sched_frame_def
      data_frame_def set_status_def on_lists_def)

lemma check_sleeping_body_rd_pos: "rd_pos (check_sleeping_body L p s) = Suc (rd_pos s)"
  by (simp add: check_sleeping_body_def get_timer_eq do_unblock_def Let_def)

lemma check_sleeping_body_wake:
  assumes "timer_at s (rd_pos s) \<ge> wakeup_time s (list_entry_list n)"
  shows "ls (check_sleeping_body L n s) = list_move_tail n (ready_queue L) (ls s)"
    and "status (check_sleeping_body L n s) = (status s)(list_entry_list n := TASK_READY)"
  using assms by (simp_all add: check_sleeping_body_def get_timer_eq do_unblock_def Let_def)

lemma check_sleeping_body_stay:
  assumes "\<not> timer_at s (rd_pos s) \<ge> wakeup_time s (list_entry_list n)"
  shows "ls (check_sleeping_body L n s) = ls s"
    and "status (check_sleeping_body L n s) = status s"
  using assms by (simp_all add: check_sleeping_body_def get_timer_eq do_unblock_def Let_def)

text \<open>One sleeper moved to the ready queue.\<close>

lemma wake_rep:
  assumes h: "rep h Q" and r: "Q (ready_queue L) = Some r"
    and sl: "Q (sleep_queue L) = Some (ks @ n # ps)" and ne: "ready_queue L \<noteq> sleep_queue L"
  shows "rep (list_move_tail n (ready_queue L) h)
           (Q(sleep_queue L \<mapsto> ks @ ps, ready_queue L \<mapsto> r @ [n]))"
proof -
  have "n \<noteq> ready_queue L"
    using rep_disjoint [OF h r sl ne] by auto
  moreover have "loose n Q" by (rule kq.member_loose [OF h sl]) simp
  ultimately show ?thesis
    using rep_move_tail [OF h r] kq.attach_from [OF h sl r ne [symmetric]] by metis
qed

definition sleep_inv :: "layout \<Rightarrow> ptr list \<Rightarrow> kstate \<Rightarrow> bool" where
  "sleep_inv L ps s \<longleftrightarrow>
     (\<exists>Q r ks. rep (ls s) Q \<and> Q (ready_queue L) = Some r \<and> Q (sleep_queue L) = Some (ks @ ps))"

lemma sleep_inv_step:
  assumes ne: "ready_queue L \<noteq> sleep_queue L" and "sleep_inv L (n # ps) s"
  shows "sleep_inv L ps (check_sleeping_body L n s)"
    and "n \<noteq> sleep_queue L \<and> nxt (ls s) n = hd (ps @ [sleep_queue L])"
proof -
  obtain Q r ks where h: "rep (ls s) Q" and r: "Q (ready_queue L) = Some r"
    and sl: "Q (sleep_queue L) = Some (ks @ n # ps)"
    using assms(2) by (auto simp: sleep_inv_def)
  show "sleep_inv L ps (check_sleeping_body L n s)"
  proof (cases "timer_at s (rd_pos s) \<ge> wakeup_time s (list_entry_list n)")
    case True
    have "rep (ls (check_sleeping_body L n s))
        (Q(sleep_queue L \<mapsto> ks @ ps, ready_queue L \<mapsto> r @ [n]))"
      unfolding check_sleeping_body_wake [OF True] by (rule wake_rep [OF h r sl ne])
    with ne show ?thesis by (fastforce simp: sleep_inv_def)
  next
    case False
    have "rep (ls (check_sleeping_body L n s)) Q"
      unfolding check_sleeping_body_stay [OF False] by (rule h)
    moreover have "Q (sleep_queue L) = Some ((ks @ [n]) @ ps)" using sl by simp
    ultimately show ?thesis using r unfolding sleep_inv_def by blast
  qed
  have "n \<noteq> sleep_queue L" using rep_distinct [OF h sl] by auto
  with queue_at_nxt_mid [OF rep_queue_at [OF h sl]]
  show "n \<noteq> sleep_queue L \<and> nxt (ls s) n = hd (ps @ [sleep_queue L])" by simp
qed

lemma check_sleeping_fold:
  assumes h: "rep (ls s) Q" and r: "Q (ready_queue L) = Some r"
    and sl: "Q (sleep_queue L) = Some ps" and ne: "ready_queue L \<noteq> sleep_queue L"
  shows "check_sleeping L s = Some (fold (check_sleeping_body L) ps s)"
  unfolding check_sleeping_def
proof (rule for_each_safe_inv [where I = "sleep_inv L"])
  have "Q (sleep_queue L) = Some ([] @ ps)" using sl by simp
  then show "sleep_inv L ps s" using h r unfolding sleep_inv_def by blast
  show "queue_at (ls s) (sleep_queue L) ps" by (rule rep_queue_at [OF h sl])
qed (use sleep_inv_step [OF ne] in auto)

lemma fold_check_sleeping:
  assumes "rep (ls s) Q" and "Q (ready_queue L) = Some r"
    and "Q (sleep_queue L) = Some (ks @ ps)" and ne: "ready_queue L \<noteq> sleep_queue L"
  defines "s' \<equiv> fold (check_sleeping_body L) ps s"
  shows "rep (ls s') (Q(ready_queue L \<mapsto> r @ due s (rd_pos s) ps,
                        sleep_queue L \<mapsto> ks @ not_due s (rd_pos s) ps))
    \<and> status s' = (\<lambda>p. if pcb_list p \<in> set (due s (rd_pos s) ps) then TASK_READY else status s p)
    \<and> rd_pos s' = rd_pos s + length ps \<and> sched_frame s s'"
  using assms(1-3) unfolding s'_def
proof (induction ps arbitrary: s Q r ks)
  case Nil
  have e: "Q(ready_queue L \<mapsto> r @ [], sleep_queue L \<mapsto> ks @ []) = Q"
    using Nil ne by (intro ext) simp
  show ?case unfolding due.simps not_due.simps e using Nil.prems(1) by simp
next
  case (Cons n ps)
  let ?s = "check_sleeping_body L n s"
  note frame = check_sleeping_body_frame [of s L n]
  note d = due_cong [of ?s s] frame [unfolded sched_frame_def data_frame_def]
  note pos = check_sleeping_body_rd_pos [of L n s]
  show ?case
  proof (cases "timer_at s (rd_pos s) \<ge> wakeup_time s (list_entry_list n)")
    case True
    let ?Q = "Q(sleep_queue L \<mapsto> ks @ ps, ready_queue L \<mapsto> r @ [n])"
    have h: "rep (ls ?s) ?Q"
      unfolding check_sleeping_body_wake [OF True] by (rule wake_rep [OF Cons.prems ne])
    have q: "?Q (ready_queue L) = Some (r @ [n])" "?Q (sleep_queue L) = Some (ks @ ps)"
      using ne by simp_all
    have m: "?Q(ready_queue L \<mapsto> x, sleep_queue L \<mapsto> y) =
        Q(ready_queue L \<mapsto> x, sleep_queue L \<mapsto> y)" for x y
      by (auto simp: fun_eq_iff)
    note IH = Cons.IH [OF h q, unfolded m]
    have w: "due s (rd_pos s) (n # ps) = n # due ?s (rd_pos ?s) ps"
      "not_due s (rd_pos s) (n # ps) = not_due ?s (rd_pos ?s) ps"
      using True d pos by simp_all
    have "status (fold (check_sleeping_body L) ps ?s) =
      (\<lambda>p. if pcb_list p \<in> set (n # due ?s (rd_pos ?s) ps) then TASK_READY else status s p)"
      using IH by (auto simp: check_sleeping_body_wake [OF True] fun_eq_iff pcb_list_eq_iff)
    with IH sched_frame_trans [OF frame] pos show ?thesis
      unfolding w by (simp only: fold_simps append.simps append_assoc list.size) simp
  next
    case False
    have h: "rep (ls ?s) Q" unfolding check_sleeping_body_stay [OF False] by (rule Cons.prems(1))
    have q: "Q (sleep_queue L) = Some ((ks @ [n]) @ ps)" using Cons.prems(3) by simp
    note IH = Cons.IH [OF h Cons.prems(2) q]
    have w: "due s (rd_pos s) (n # ps) = due ?s (rd_pos ?s) ps"
      "not_due s (rd_pos s) (n # ps) = n # not_due ?s (rd_pos ?s) ps"
      using False d pos by simp_all
    have "status (fold (check_sleeping_body L) ps ?s) =
      (\<lambda>p. if pcb_list p \<in> set (due ?s (rd_pos ?s) ps) then TASK_READY else status s p)"
      using IH check_sleeping_body_stay(2) [OF False] by (simp cong: if_cong)
    with IH sched_frame_trans [OF frame] pos show ?thesis
      unfolding w by (simp only: fold_simps append.simps append_assoc list.size) simp
  qed
qed

lemma check_sleeping_wakes:
  assumes "rep (ls s) Q" and "Q (ready_queue L) = Some r"
    and "Q (sleep_queue L) = Some sl" and ne: "ready_queue L \<noteq> sleep_queue L"
  obtains s' where "check_sleeping L s = Some s'"
    and "rep (ls s') (Q(ready_queue L \<mapsto> r @ due s (rd_pos s) sl,
                        sleep_queue L \<mapsto> not_due s (rd_pos s) sl))"
    and "status s' = (\<lambda>p. if pcb_list p \<in> set (due s (rd_pos s) sl) then TASK_READY else status s p)"
    and "rd_pos s' = rd_pos s + length sl" and "sched_frame s s'"
  using check_sleeping_fold [OF assms] fold_check_sleeping [OF assms(1,2), of "[]" sl] assms(3) ne
  by auto

section \<open>What the scheduler does\<close>

lemma reschedule_idle:
  assumes "rep (ls s) Q" and "Q (ready_queue L) = Some []"
  shows "reschedule L s = (s, Returned)"
  using kq.empty_iff [OF assms] by (simp add: reschedule_def)

text \<open>A running task goes to the tail of the ready queue and the head of it runs.\<close>

lemma reschedule_running:
  assumes h: "rep (ls s) Q" and r: "Q (ready_queue L) = Some (x # xs)"
    and run: "status s (current_running s) = TASK_RUNNING"
    and c: "Q (pcb_list (current_running s)) = Some []"
  obtains s' where "reschedule L s = (s', Switched)"
    and "current_running s' = list_entry_list x"
    and "rep (ls s') (Q(pcb_list (current_running s) := None,
           ready_queue L \<mapsto> xs @ [pcb_list (current_running s)], x \<mapsto> []))"
    and "status s' = (status s)(current_running s := TASK_READY, list_entry_list x := TASK_RUNNING)"
    and "data_frame s s'" and "rd_pos s' = rd_pos s"
proof -
  let ?c = "pcb_list (current_running s)"
  have ne: "?c \<noteq> ready_queue L" using c r by auto
  have "\<not> list_empty (ls s) (ready_queue L)" using kq.empty_iff [OF h r] by simp
  note rot = kq.rotate [OF h r c ne]
  show thesis
    by (rule that [of "fst (reschedule L s)"])
       (use \<open>\<not> list_empty _ _\<close> run rot in
        \<open>simp_all add: reschedule_def pick_next_def Let_def data_frame_def\<close>)
qed

text \<open>A task that is not running any more is left where it is.\<close>

lemma reschedule_blocked:
  assumes h: "rep (ls s) Q" and r: "Q (ready_queue L) = Some (x # xs)"
    and run: "status s (current_running s) \<noteq> TASK_RUNNING"
  obtains s' where "reschedule L s = (s', Switched)"
    and "current_running s' = list_entry_list x"
    and "rep (ls s') (Q(ready_queue L \<mapsto> xs, x \<mapsto> []))"
    and "status s' = (status s)(list_entry_list x := TASK_RUNNING)"
    and "data_frame s s'" and "rd_pos s' = rd_pos s"
proof -
  have "\<not> list_empty (ls s) (ready_queue L)" using kq.empty_iff [OF h r] by simp
  note tk = kq.take_first [OF h r]
  show thesis
    by (rule that [of "fst (reschedule L s)"])
       (use \<open>\<not> list_empty _ _\<close> run tk in
        \<open>simp_all add: reschedule_def pick_next_def Let_def data_frame_def\<close>)
qed

end
