(* ===== verification/Scheduler_Spec.thy ===== *)
theory Scheduler_Spec
  imports Scheduler
begin

text \<open>
  The abstract scheduler: one running task, a ready queue served first in first out,
  the sleepers and the tasks that wait for each lock; the invariant that ties the pointer structures to it; and the refinement of
  the abstract scheduler by the code's.
\<close>

section \<open>The abstract scheduler\<close>

record sched =
  cur :: ptr
  stat :: "ptr \<Rightarrow> task_status"
  ready :: "ptr list"
  sleepers :: "ptr list"
  waiters :: "nat \<Rightarrow> ptr list"

definition wake :: "ptr list \<Rightarrow> sched \<Rightarrow> sched" where
  "wake ds a = a\<lparr>stat := (\<lambda>p. if p \<in> set ds then TASK_READY else stat a p),
                  ready := ready a @ ds,
                  sleepers := filter (\<lambda>p. p \<notin> set ds) (sleepers a)\<rparr>"

definition pick :: "sched \<Rightarrow> sched \<times> ctl" where
  "pick a = (case ready a of
       [] \<Rightarrow> (a, Returned)
     | x # xs \<Rightarrow>
         (if stat a (cur a) = TASK_RUNNING
          then (a\<lparr>stat := (stat a)(cur a := TASK_READY, x := TASK_RUNNING),
                  ready := xs @ [cur a], cur := x\<rparr>, Switched)
          else (a\<lparr>stat := (stat a)(x := TASK_RUNNING), ready := xs, cur := x\<rparr>, Switched)))"

section \<open>The queues of the kernel\<close>

definition heads :: "layout \<Rightarrow> ptr set" where
  "heads L = {ready_queue L, sleep_queue L} \<union> block_queue L ` {..<LOCK_NUM}"

text \<open>The linker gives every queue head its own address.\<close>

definition wf_layout :: "layout \<Rightarrow> bool" where
  "wf_layout L \<longleftrightarrow> ready_queue L \<noteq> sleep_queue L \<and>
     ready_queue L \<notin> block_queue L ` {..<LOCK_NUM} \<and>
     sleep_queue L \<notin> block_queue L ` {..<LOCK_NUM}"

definition queue_of :: "(ptr \<rightharpoonup> ptr list) \<Rightarrow> ptr \<Rightarrow> ptr list" where
  "queue_of Q h = (case Q h of None \<Rightarrow> [] | Some xs \<Rightarrow> xs)"

lemma queue_of_Some [simp]: "Q h = Some xs \<Longrightarrow> queue_of Q h = xs"
  by (simp add: queue_of_def)

lemma block_queue_inj: "i < LOCK_NUM \<Longrightarrow> j < LOCK_NUM \<Longrightarrow> block_queue L i = block_queue L j \<longleftrightarrow> i = j"
  using of_nat_u64_eq_iff [of "32 * i" "32 * j"]
  by (simp add: block_queue_def SIZEOF_MUTEX_def LOCK_NUM_def)

lemma heads_simps [simp]:
  "ready_queue L \<in> heads L" "sleep_queue L \<in> heads L"
  "i < LOCK_NUM \<Longrightarrow> block_queue L i \<in> heads L"
  by (simp_all add: heads_def)

text \<open>
  The node of the current task is on some queue, alone, or (that of \<^verbatim>\<open>pid0_pcb\<close>, which is
  never initialised) on no ring at all.
\<close>

definition parked :: "ptr \<Rightarrow> (ptr \<rightharpoonup> ptr list) \<Rightarrow> bool" where
  "parked n Q \<longleftrightarrow> n \<notin> nodes Q \<or> loose n Q"

lemma parked_alone: "Q n = Some [] \<Longrightarrow> parked n Q"
  by (simp add: parked_def loose_alone)

definition sched_inv :: "layout \<Rightarrow> (ptr \<rightharpoonup> ptr list) \<Rightarrow> kstate \<Rightarrow> bool" where
  "sched_inv L Q s \<longleftrightarrow>
     wf_layout L \<and> rep (ls s) Q \<and> heads L \<subseteq> dom Q \<and>
     pcb_list (current_running s) \<notin> heads L \<and> parked (pcb_list (current_running s)) Q \<and>
     (\<forall>n \<in> set (queue_of Q (ready_queue L)). status s (list_entry_list n) = TASK_READY) \<and>
     (\<forall>h \<in> heads L - {ready_queue L}. \<forall>n \<in> set (queue_of Q h).
        status s (list_entry_list n) = TASK_BLOCKED) \<and>
     (status s (current_running s) = TASK_RUNNING \<longrightarrow> Q (pcb_list (current_running s)) = Some []) \<and>
     (\<forall>p. p \<noteq> current_running s \<longrightarrow> status s p \<noteq> TASK_RUNNING)"

lemma sched_invD:
  assumes "sched_inv L Q s"
  shows "wf_layout L" and "rep (ls s) Q" and "heads L \<subseteq> dom Q"
    and "pcb_list (current_running s) \<notin> heads L"
    and "n \<in> set (queue_of Q (ready_queue L)) \<Longrightarrow> status s (list_entry_list n) = TASK_READY"
    and "h \<in> heads L \<Longrightarrow> h \<noteq> ready_queue L \<Longrightarrow> n \<in> set (queue_of Q h) \<Longrightarrow>
         status s (list_entry_list n) = TASK_BLOCKED"
    and "status s (current_running s) = TASK_RUNNING \<Longrightarrow> Q (pcb_list (current_running s)) = Some []"
    and "p \<noteq> current_running s \<Longrightarrow> status s p \<noteq> TASK_RUNNING"
    and "parked (pcb_list (current_running s)) Q"
  using assms by (auto simp: sched_inv_def simp del: heads_simps)

lemma sched_inv_queue:
  assumes "sched_inv L Q s" and "h \<in> heads L"
  obtains xs where "Q h = Some xs" and "queue_of Q h = xs"
proof -
  have "h \<in> dom Q" using sched_invD(3) [OF assms(1)] assms(2) by (rule subsetD)
  then obtain xs where "Q h = Some xs" by (auto simp: dom_def)
  then show thesis using that by simp
qed

lemma sched_inv_ready_neq: "sched_inv L Q s \<Longrightarrow> ready_queue L \<noteq> sleep_queue L"
  by (simp add: sched_inv_def wf_layout_def)

lemma wf_layout_block [simp]:
  assumes "wf_layout L" and "i < LOCK_NUM"
  shows "block_queue L i \<noteq> ready_queue L" and "block_queue L i \<noteq> sleep_queue L"
proof -
  have "block_queue L i \<in> block_queue L ` {..<LOCK_NUM}" using assms(2) by simp
  then show "block_queue L i \<noteq> ready_queue L" and "block_queue L i \<noteq> sleep_queue L"
    using assms(1) unfolding wf_layout_def by metis+
qed

definition abs_sched :: "layout \<Rightarrow> (ptr \<rightharpoonup> ptr list) \<Rightarrow> kstate \<Rightarrow> sched" where
  "abs_sched L Q s =
     \<lparr>cur = current_running s, stat = status s,
      ready = map list_entry_list (queue_of Q (ready_queue L)),
      sleepers = map list_entry_list (queue_of Q (sleep_queue L)),
      waiters = (\<lambda>i. if i < LOCK_NUM then map list_entry_list (queue_of Q (block_queue L i))
                      else [])\<rparr>"

section \<open>Waking\<close>

lemma not_due_filter:
  "distinct ns \<Longrightarrow> not_due s k ns = filter (\<lambda>n. n \<notin> set (due s k ns)) ns"
proof (induction ns arbitrary: k)
  case (Cons n ns)
  then have "n \<notin> set (due s (Suc k) ns)" using set_due_subset [of s "Suc k" ns] by auto
  moreover have "filter (\<lambda>m. m \<noteq> n \<and> m \<notin> set (due s (Suc k) ns)) ns =
      filter (\<lambda>m. m \<notin> set (due s (Suc k) ns)) ns"
    using Cons.prems by (intro filter_cong) auto
  ultimately show ?case using Cons by simp
qed simp

definition due_tasks :: "layout \<Rightarrow> (ptr \<rightharpoonup> ptr list) \<Rightarrow> kstate \<Rightarrow> ptr list" where
  "due_tasks L Q s = map list_entry_list (due s (rd_pos s) (queue_of Q (sleep_queue L)))"

definition woken :: "layout \<Rightarrow> (ptr \<rightharpoonup> ptr list) \<Rightarrow> kstate \<Rightarrow> (ptr \<rightharpoonup> ptr list)" where
  "woken L Q s =
     (let sl = queue_of Q (sleep_queue L)
      in Q(ready_queue L \<mapsto> queue_of Q (ready_queue L) @ due s (rd_pos s) sl,
           sleep_queue L \<mapsto> not_due s (rd_pos s) sl))"

lemma woken_loose:
  assumes inv: "sched_inv L Q s" and n: "loose n Q" and nh: "n \<notin> heads L"
  shows "loose n (woken L Q s)"
proof -
  note ne = sched_inv_ready_neq [OF inv]
  have n_eq: "woken L Q s n = Q n"
    using nh heads_simps(1,2) [of L] by (auto simp: woken_def Let_def)
  from n show ?thesis
  proof (cases rule: looseE)
    case alone
    then show ?thesis using n_eq by (simp add: loose_alone)
  next
    case (member r xs)
    let ?d = "due s (rd_pos s) (queue_of Q (sleep_queue L))"
    have wr: "woken L Q s (ready_queue L) = Some (queue_of Q (ready_queue L) @ ?d)"
      using ne by (simp add: woken_def Let_def)
    have ws: "woken L Q s (sleep_queue L) = Some (not_due s (rd_pos s) (queue_of Q (sleep_queue L)))"
      by (simp add: woken_def Let_def)
    have w: "loose n (woken L Q s)" if "n \<in> set (queue_of Q (ready_queue L)) \<or> n \<in> set ?d"
      using that n_eq member(1) by (intro loose_member [of "woken L Q s", OF wr]) auto
    have e: "loose n (woken L Q s)"
      if "n \<in> set (not_due s (rd_pos s) (queue_of Q (sleep_queue L)))"
      using that n_eq member(1) by (intro loose_member [of "woken L Q s", OF ws]) auto
    consider "r = ready_queue L" | "r = sleep_queue L" | "r \<noteq> ready_queue L" "r \<noteq> sleep_queue L"
      by blast
    then show ?thesis
    proof cases
      case 1
      then show ?thesis using w member by simp
    next
      case 2
      then show ?thesis using w e member set_due_not_due [of s "rd_pos s" xs] by auto
    next
      case 3
      then have "woken L Q s r = Some xs" using member by (simp add: woken_def Let_def)
      then show ?thesis using member n_eq by (intro loose_member) simp_all
    qed
  qed
qed

lemma woken_parked:
  assumes inv: "sched_inv L Q s" and n: "parked n Q" and nh: "n \<notin> heads L"
  shows "parked n (woken L Q s)"
proof (cases "loose n Q")
  case True
  then show ?thesis using woken_loose [OF inv _ nh] by (simp add: parked_def)
next
  case False
  then have out: "n \<notin> nodes Q" using n by (simp add: parked_def)
  have q: "n \<notin> set (queue_of Q h)" for h
    using out by (cases "Q h") (auto simp: queue_of_def)
  have "n \<notin> set (due s (rd_pos s) (queue_of Q (sleep_queue L)))"
    "n \<notin> set (not_due s (rd_pos s) (queue_of Q (sleep_queue L)))"
    using q set_due_not_due [of s "rd_pos s" "queue_of Q (sleep_queue L)"] by blast+
  moreover have "n \<noteq> ready_queue L" "n \<noteq> sleep_queue L" using nh by auto
  ultimately have "n \<notin> nodes (woken L Q s)"
    using out q [of "ready_queue L"]
    by (auto simp: woken_def Let_def nodes_def split: if_splits)
  then show ?thesis by (simp add: parked_def)
qed

lemma filter_map_entry:
  "filter (\<lambda>p. \<forall>x \<in> A. p \<noteq> list_entry_list x) (map list_entry_list ns) =
   map list_entry_list (filter (\<lambda>n. n \<notin> A) ns)"
  by (induction ns) auto

lemma check_sleeping_inv:
  assumes inv: "sched_inv L Q s"
  obtains s' where "check_sleeping L s = Some s'" and "sched_inv L (woken L Q s) s'"
    and "abs_sched L (woken L Q s) s' = wake (due_tasks L Q s) (abs_sched L Q s)"
    and "sched_frame s s'" and "rd_pos s' = rd_pos s + length (queue_of Q (sleep_queue L))"
proof -
  note D = sched_invD [OF inv]
  obtain r where r: "Q (ready_queue L) = Some r" "queue_of Q (ready_queue L) = r"
    by (rule sched_inv_queue [OF inv, of "ready_queue L"]) simp
  obtain sl where sl: "Q (sleep_queue L) = Some sl" "queue_of Q (sleep_queue L) = sl"
    by (rule sched_inv_queue [OF inv, of "sleep_queue L"]) simp
  note ne = sched_inv_ready_neq [OF inv]
  let ?d = "due s (rd_pos s) sl" and ?n = "not_due s (rd_pos s) sl"
  obtain s' where cs: "check_sleeping L s = Some s'"
    and h: "rep (ls s') (Q(ready_queue L \<mapsto> r @ ?d, sleep_queue L \<mapsto> ?n))"
    and st: "status s' = (\<lambda>p. if pcb_list p \<in> set ?d then TASK_READY else status s p)"
    and rp: "rd_pos s' = rd_pos s + length sl" and fr: "sched_frame s s'"
    by (rule check_sleeping_wakes [OF D(2) r(1) sl(1) ne])
  have W: "woken L Q s = Q(ready_queue L \<mapsto> r @ ?d, sleep_queue L \<mapsto> ?n)"
    by (simp add: woken_def Let_def r(2) sl(2))
  note c = sched_frame_current [OF fr]
  have dsl: "distinct sl" using rep_distinct [OF D(2) sl(1)] by simp
  have blk: "status s (list_entry_list n) = TASK_BLOCKED" if "n \<in> set sl" for n
    using D(6) [of "sleep_queue L"] that ne sl(2) by simp
  have q: "queue_of (woken L Q s) (ready_queue L) = r @ ?d"
    "queue_of (woken L Q s) (sleep_queue L) = ?n"
    "h \<noteq> ready_queue L \<Longrightarrow> h \<noteq> sleep_queue L \<Longrightarrow> queue_of (woken L Q s) h = queue_of Q h" for h
    using ne by (simp_all add: W queue_of_def)
  have nd: "n \<notin> set ?d" 
    if n: "n \<in> set (queue_of Q h)" and hh: "h \<in> heads L" and hs: "h \<noteq> sleep_queue L" for n h
  proof
    assume "n \<in> set ?d"
    then have "n \<in> set sl" using set_due_subset [of s "rd_pos s" sl] by blast
    moreover obtain xs where "Q h = Some xs" "queue_of Q h = xs"
      by (rule sched_inv_queue [OF inv hh])
    ultimately show False using kq.member_unique [OF D(2) sl(1), of h xs n] n hs by auto
  qed
  have "sched_inv L (woken L Q s) s'"
    unfolding sched_inv_def
  proof (intro conjI)
    show "wf_layout L" by (rule D(1))
    show "rep (ls s') (woken L Q s)" unfolding W by (rule h)
    show "heads L \<subseteq> dom (woken L Q s)" using D(3) by (auto simp: W)
    show "pcb_list (current_running s') \<notin> heads L" using D(4) c by simp
    show "parked (pcb_list (current_running s')) (woken L Q s)"
      using woken_parked [OF inv D(9,4)] c by simp
    show "\<forall>n \<in> set (queue_of (woken L Q s) (ready_queue L)).
        status s' (list_entry_list n) = TASK_READY"
      using D(5) r(2) by (auto simp: q st)
    show "\<forall>h \<in> heads L - {ready_queue L}. \<forall>n \<in> set (queue_of (woken L Q s) h).
        status s' (list_entry_list n) = TASK_BLOCKED"
    proof (intro ballI)
      fix h n assume hh: "h \<in> heads L - {ready_queue L}" and n: "n \<in> set (queue_of (woken L Q s) h)"
      show "status s' (list_entry_list n) = TASK_BLOCKED"
      proof (cases "h = sleep_queue L")
        case True
        with n have "n \<in> set ?n" by (simp add: q)
        then have "n \<in> set sl" "n \<notin> set ?d" using not_due_filter [OF dsl] by auto
        then show ?thesis using blk by (simp add: st)
      next
        case False
        with hh n have "n \<in> set (queue_of Q h)" by (simp add: q)
        moreover from this nd False hh have "n \<notin> set ?d" by auto
        ultimately show ?thesis using D(6) [of h n] hh by (simp add: st)
      qed
    qed
    have run: "status s p = TASK_RUNNING" if "status s' p = TASK_RUNNING" for p
      using that by (simp add: st split: if_splits)
    show "status s' (current_running s') = TASK_RUNNING \<longrightarrow>
        woken L Q s (pcb_list (current_running s')) = Some []"
    proof
      assume "status s' (current_running s') = TASK_RUNNING"
      then have "Q (pcb_list (current_running s)) = Some []" using run D(7) c by metis
      moreover have "pcb_list (current_running s) \<noteq> ready_queue L"
        "pcb_list (current_running s) \<noteq> sleep_queue L" using D(4) by auto
      ultimately show "woken L Q s (pcb_list (current_running s')) = Some []" by (simp add: W c)
    qed
    show "\<forall>p. p \<noteq> current_running s' \<longrightarrow> status s' p \<noteq> TASK_RUNNING"
      using run D(8) unfolding c by blast
  qed
  moreover have "abs_sched L (woken L Q s) s' = wake (due_tasks L Q s) (abs_sched L Q s)"
    by (auto simp: abs_sched_def wake_def due_tasks_def c q D(1) st r(2) sl(2) fun_eq_iff
        not_due_filter [OF dsl] filter_map_entry pcb_list_eq_iff image_iff)
  ultimately show thesis using that cs fr rp sl(2) by blast
qed

section \<open>Picking the next task\<close>

text \<open>
  The invariant after a change of the queues: what has to be shown when the heads stay and
  the queues only lose members or exchange them.
\<close>

lemma sched_invI:
  assumes "wf_layout L" and "rep (ls s) Q" and "heads L \<subseteq> dom Q"
    and "pcb_list (current_running s) \<notin> heads L"
    and "\<And>n. n \<in> set (queue_of Q (ready_queue L)) \<Longrightarrow> status s (list_entry_list n) = TASK_READY"
    and "\<And>h n. h \<in> heads L \<Longrightarrow> h \<noteq> ready_queue L \<Longrightarrow> n \<in> set (queue_of Q h) \<Longrightarrow>
           status s (list_entry_list n) = TASK_BLOCKED"
    and "status s (current_running s) = TASK_RUNNING \<Longrightarrow> Q (pcb_list (current_running s)) = Some []"
    and "\<And>p. p \<noteq> current_running s \<Longrightarrow> status s p \<noteq> TASK_RUNNING"
    and "parked (pcb_list (current_running s)) Q"
  shows "sched_inv L Q s"
  unfolding sched_inv_def using assms by (intro conjI ballI allI impI) (assumption | blast)+

lemma sched_inv_disjoint:
  assumes inv: "sched_inv L Q s" and "h \<in> heads L" and "k \<in> heads L" and "h \<noteq> k"
    and "n \<in> set (queue_of Q h)"
  shows "n \<notin> set (queue_of Q k)"
proof -
  obtain xs ys where "Q h = Some xs" "queue_of Q h = xs" "Q k = Some ys" "queue_of Q k = ys"
    by (meson sched_inv_queue [OF inv] assms(2,3))
  with kq.member_unique [OF sched_invD(2) [OF inv], of h xs k ys n] assms(4,5)
  show ?thesis by auto
qed

lemma reschedule_inv:
  assumes inv: "sched_inv L Q s"
  obtains s' c Q' where "reschedule L s = (s', c)" and "sched_inv L Q' s'"
    and "(abs_sched L Q' s', c) = pick (abs_sched L Q s)"
    and "data_frame s s'" and "rd_pos s' = rd_pos s"
    and "c = Switched \<Longrightarrow> status s' (current_running s') = TASK_RUNNING"
    and "c = Returned \<Longrightarrow> s' = s \<and> Q' = Q"
proof -
  note D = sched_invD [OF inv]
  obtain r where r: "Q (ready_queue L) = Some r" "queue_of Q (ready_queue L) = r"
    by (rule sched_inv_queue [OF inv, of "ready_queue L"]) simp
  show thesis
  proof (cases r)
    case Nil
    have "(abs_sched L Q s, Returned) = pick (abs_sched L Q s)"
      by (simp add: pick_def abs_sched_def r Nil)
    then show thesis
      using that [of s Returned Q] reschedule_idle [OF D(2)] r Nil inv by simp
  next
    case (Cons x xs)
    let ?c = "pcb_list (current_running s)"
    have rx: "Q (ready_queue L) = Some (x # xs)" using r Cons by simp
    have qr: "queue_of Q (ready_queue L) = x # xs" using r Cons by simp
    have x_root: "Q x = None" by (rule kq.member_not_root [OF D(2) rx]) simp
    have xh: "x \<notin> heads L" using D(3) x_root by auto
    have xdist: "x \<notin> set xs" using rep_distinct [OF D(2) rx] by simp
    have xq: "x \<notin> set (queue_of Q h)" if "h \<in> heads L" "h \<noteq> ready_queue L" for h
      using sched_inv_disjoint [OF inv _ that(1), of "ready_queue L" x] that qr by auto
    show thesis
    proof (cases "status s (current_running s) = TASK_RUNNING")
      case True
      note c = D(7) [OF True]
      obtain s' where s': "reschedule L s = (s', Switched)"
        and cur': "current_running s' = list_entry_list x"
        and h': "rep (ls s') (Q(?c := None, ready_queue L \<mapsto> xs @ [?c], x \<mapsto> []))"
        and st': "status s' = (status s)(current_running s := TASK_READY,
            list_entry_list x := TASK_RUNNING)"
        and fr: "data_frame s s'" and rp: "rd_pos s' = rd_pos s"
        by (rule reschedule_running [OF D(2) rx True c])
      let ?Q = "Q(?c := None, ready_queue L \<mapsto> xs @ [?c], x \<mapsto> [])"
      have cx: "?c \<noteq> x" using c x_root by auto
      have q: "queue_of ?Q (ready_queue L) = xs @ [?c]"
        "h \<in> heads L \<Longrightarrow> h \<noteq> ready_queue L \<Longrightarrow> queue_of ?Q h = queue_of Q h" for h
        using xh D(4) by (auto simp: queue_of_def)
      have cq: "?c \<notin> set (queue_of Q h)" if hh: "h \<in> heads L" for h
      proof -
        obtain ys where ys: "Q h = Some ys" "queue_of Q h = ys"
          by (rule sched_inv_queue [OF inv hh])
        have "h \<noteq> ?c" using D(4) hh by auto
        with rep_disjoint [OF D(2) ys(1) c] ys(2) show ?thesis by auto
      qed
      have "sched_inv L ?Q s'"
      proof (rule sched_invI [OF D(1) h'])
        show "heads L \<subseteq> dom ?Q" using D(3,4) by auto
        show "pcb_list (current_running s') \<notin> heads L" using xh cur' by simp
        show "status s' (list_entry_list n) = TASK_READY"
          if "n \<in> set (queue_of ?Q (ready_queue L))" for n
          using that D(5) [of n] xdist cx qr unfolding q
          by (auto simp: st' pcb_list_eq_iff)
        show "status s' (list_entry_list n) = TASK_BLOCKED"
          if hh: "h \<in> heads L" "h \<noteq> ready_queue L" and n: "n \<in> set (queue_of ?Q h)" for h n
        proof -
          have n': "n \<in> set (queue_of Q h)" using n q(2) [OF hh] by simp
          then have "n \<noteq> x" "list_entry_list n \<noteq> current_running s"
            using xq [OF hh] cq [OF hh(1)] pcb_list_entry [of n] by metis+
          then show ?thesis using D(6) [OF hh n'] by (simp add: st')
        qed
        show "?Q (pcb_list (current_running s')) = Some []" using cur' by simp
        show "parked (pcb_list (current_running s')) ?Q" using cur' by (simp add: parked_alone)
        show "status s' p \<noteq> TASK_RUNNING" if "p \<noteq> current_running s'" for p
          using that D(8) [of p] by (auto simp: st' cur')
      qed
      moreover have "(abs_sched L ?Q s', Switched) = pick (abs_sched L Q s)"
        using q(2) [of "sleep_queue L"] sched_inv_ready_neq [OF inv] True
        by (simp add: pick_def abs_sched_def q D(1) qr cur' st' cong: if_cong)
      ultimately show thesis
        using that [of s' Switched ?Q] s' fr rp by (simp add: st' cur')
    next
      case False
      obtain s' where s': "reschedule L s = (s', Switched)"
        and cur': "current_running s' = list_entry_list x"
        and h': "rep (ls s') (Q(ready_queue L \<mapsto> xs, x \<mapsto> []))"
        and st': "status s' = (status s)(list_entry_list x := TASK_RUNNING)"
        and fr: "data_frame s s'" and rp: "rd_pos s' = rd_pos s"
        by (rule reschedule_blocked [OF D(2) rx False])
      let ?Q = "Q(ready_queue L \<mapsto> xs, x \<mapsto> [])"
      have q: "queue_of ?Q (ready_queue L) = xs"
        "h \<in> heads L \<Longrightarrow> h \<noteq> ready_queue L \<Longrightarrow> queue_of ?Q h = queue_of Q h" for h
        using xh by (auto simp: queue_of_def)
      have "sched_inv L ?Q s'"
      proof (rule sched_invI [OF D(1) h'])
        show "heads L \<subseteq> dom ?Q" using D(3) by auto
        show "pcb_list (current_running s') \<notin> heads L" using xh cur' by simp
        show "status s' (list_entry_list n) = TASK_READY"
          if "n \<in> set (queue_of ?Q (ready_queue L))" for n
          using that D(5) [of n] xdist qr unfolding q by (auto simp: st')
        show "status s' (list_entry_list n) = TASK_BLOCKED"
          if hh: "h \<in> heads L" "h \<noteq> ready_queue L" and n: "n \<in> set (queue_of ?Q h)" for h n
        proof -
          have n': "n \<in> set (queue_of Q h)" using n q(2) [OF hh] by simp
          then have "n \<noteq> x" using xq [OF hh] by auto
          then show ?thesis using D(6) [OF hh n'] by (auto simp: st')
        qed
        show "?Q (pcb_list (current_running s')) = Some []" using cur' by simp
        show "parked (pcb_list (current_running s')) ?Q" using cur' by (simp add: parked_alone)
        show "status s' p \<noteq> TASK_RUNNING" if "p \<noteq> current_running s'" for p
        proof (cases "p = current_running s")
          case True
          with False that show ?thesis by (auto simp: st' cur')
        next
          case ne: False
          with that D(8) [OF ne] show ?thesis by (auto simp: st' cur')
        qed
      qed
      moreover have "(abs_sched L ?Q s', Switched) = pick (abs_sched L Q s)"
        using q(2) [of "sleep_queue L"] sched_inv_ready_neq [OF inv] False
        by (simp add: pick_def abs_sched_def q D(1) qr cur' st' cong: if_cong)
      ultimately show thesis
        using that [of s' Switched ?Q] s' fr rp by (simp add: st' cur')
    qed
  qed
qed

end
