(* ===== verification/Scheduler_Ops.thy ===== *)
theory Scheduler_Ops
  imports Scheduler_Spec
begin

text \<open>
  Blocking, waking, sleeping, exiting and rescheduling keep the invariant of the queues and
  do what the abstract scheduler does.
\<close>

section \<open>A node moved to a queue\<close>

lemma loose_attach:
  assumes c: "loose c Q" and "c \<noteq> r" and n: "loose n Q" and "n \<noteq> r"
  shows "loose c (attach n r Q)"
proof (cases "c = n")
  case True
  have "c \<in> nodes (attach n r Q)"
    using True by (auto simp: attach_def enqueue_def nodes_def split: option.splits)
  then show ?thesis using True \<open>n \<noteq> r\<close> by (simp add: loose_def attach_node)
next
  case False
  from c show ?thesis
  proof (cases rule: looseE)
    case alone
    then show ?thesis using False \<open>c \<noteq> r\<close> by (intro loose_alone) (simp add: attach_other)
  next
    case (member k xs)
    have k: "k \<noteq> n" using member n by (auto simp: loose_def)
    have "attach n r Q c = None" using False \<open>c \<noteq> r\<close> member(1) by (simp add: attach_other)
    moreover have "\<exists>ys. attach n r Q k = Some ys \<and> c \<in> set ys"
    proof (cases "k = r")
      case True
      then show ?thesis using member(2,3) False \<open>n \<noteq> r\<close> by (auto simp: attach_self)
    next
      case kr: False
      then show ?thesis using member(2,3) False k by (auto simp: attach_other)
    qed
    ultimately show ?thesis by (auto simp: loose_def)
  qed
qed

lemma parked_attach:
  assumes c: "parked c Q" and "c \<noteq> r" and n: "loose n Q" and "n \<noteq> r" and r: "r \<in> dom Q"
  shows "parked c (attach n r Q)"
proof (cases "loose c Q")
  case True
  then show ?thesis using loose_attach [OF True assms(2) n assms(4)] by (simp add: parked_def)
next
  case False
  then have out: "c \<notin> nodes Q" using c by (simp add: parked_def)
  have "c \<noteq> n" using out n by (auto simp: loose_def)
  moreover have "c \<notin> nodes (unlink n Q)" using out nodes_unlink_subset [of n Q] by auto
  ultimately have "c \<notin> nodes (attach n r Q)"
    using \<open>c \<noteq> r\<close> by (auto simp: attach_def enqueue_def nodes_def split: option.splits if_splits)
  then show ?thesis by (simp add: parked_def)
qed

lemma queue_of_attach:
  assumes "n \<notin> heads L" and "k \<in> heads L" and "h \<in> heads L" and "heads L \<subseteq> dom Q"
  shows "queue_of (attach n h Q) k =
     (if k = h then removeAll n (queue_of Q k) @ [n] else removeAll n (queue_of Q k))"
proof -
  obtain xs where "Q k = Some xs" using assms(2,4) by (auto simp: dom_def)
  moreover have "k \<noteq> n" using assms(1,2) by auto
  ultimately show ?thesis by (cases "k = h") (simp_all add: queue_of_def attach_self attach_other)
qed

lemma heads_attach: "n \<notin> heads L \<Longrightarrow> heads L \<subseteq> dom Q \<Longrightarrow> heads L \<subseteq> dom (attach n h Q)"
proof
  fix k assume "n \<notin> heads L" "heads L \<subseteq> dom Q" "k \<in> heads L"
  then obtain xs where "Q k = Some xs" "k \<noteq> n" by (auto simp: dom_def)
  then show "k \<in> dom (attach n h Q)" by (cases "k = h") (auto simp: attach_self attach_other)
qed

lemma rep_move_head:
  assumes inv: "sched_inv L Q s" and h: "h \<in> heads L" and n: "loose n Q" and nh: "n \<notin> heads L"
  shows "rep (list_move_tail n h (ls s)) (attach n h Q)"
proof -
  obtain xs where "Q h = Some xs" by (rule sched_inv_queue [OF inv h])
  moreover have "n \<noteq> h" using h nh by auto
  ultimately show ?thesis using rep_move_tail [OF sched_invD(2) [OF inv]] n by blast
qed

text \<open>\<^verbatim>\<open>do_block(&current_running->list, queue)\<close>.\<close>

lemma do_block_inv:
  assumes inv: "sched_inv L Q s" and h: "h \<in> heads L" and hr: "h \<noteq> ready_queue L"
    and cl': "loose (pcb_list (current_running s)) Q"
  defines "c \<equiv> pcb_list (current_running s)"
  shows "sched_inv L (attach c h Q) (do_block c h s)"
proof -
  note D = sched_invD [OF inv]
  have ch: "c \<notin> heads L" and cl: "loose c Q" using D(4) cl' by (simp_all add: c_def)
  have cur': "current_running (do_block c h s) = current_running s"
    and st: "status (do_block c h s) = (status s)(current_running s := TASK_BLOCKED)"
    and ls': "ls (do_block c h s) = list_move_tail c h (ls s)"
    by (simp_all add: do_block_def Let_def c_def)
  note q = queue_of_attach [OF ch _ h D(3)]
  have cc: "list_entry_list n = current_running s \<longleftrightarrow> n = c" for n
    using pcb_list_eq_iff [of "current_running s" n] by (auto simp: c_def)
  show ?thesis
  proof (rule sched_invI)
    show "rep (ls (do_block c h s)) (attach c h Q)"
      unfolding ls' by (rule rep_move_head [OF inv h cl ch])
    show "heads L \<subseteq> dom (attach c h Q)" by (rule heads_attach [OF ch D(3)])
    show "status (do_block c h s) (list_entry_list n) = TASK_READY"
      if "n \<in> set (queue_of (attach c h Q) (ready_queue L))" for n
      using that hr D(5) [of n] by (auto simp: q st cc)
    show "status (do_block c h s) (list_entry_list n) = TASK_BLOCKED"
      if "k \<in> heads L" "k \<noteq> ready_queue L" "n \<in> set (queue_of (attach c h Q) k)" for k n
      using that D(6) [of k n] by (auto simp: q st cc split: if_splits)
    show "parked (pcb_list (current_running (do_block c h s))) (attach c h Q)"
    proof -
      have "c \<noteq> h" using ch h by auto
      from loose_attach [OF cl this cl this] show ?thesis
        unfolding cur' parked_def by (simp add: c_def)
    qed
    show "status (do_block c h s) p \<noteq> TASK_RUNNING"
      if "p \<noteq> current_running (do_block c h s)" for p
      using that D(8) [of p] by (simp add: cur' st)
  qed (use D(1,4) in \<open>simp_all add: cur' st\<close>)
qed

lemma do_unblock_inv:
  assumes inv: "sched_inv L Q s" and n: "loose n Q" and nh: "n \<notin> heads L"
  shows "sched_inv L (attach n (ready_queue L) Q) (do_unblock L n s)"
proof -
  note D = sched_invD [OF inv]
  let ?r = "ready_queue L"
  have cur': "current_running (do_unblock L n s) = current_running s"
    and st: "status (do_unblock L n s) = (status s)(list_entry_list n := TASK_READY)"
    and ls': "ls (do_unblock L n s) = list_move_tail n ?r (ls s)"
    by (simp_all add: do_unblock_def Let_def)
  note q = queue_of_attach [OF nh _ heads_simps(1) D(3)]
  have cr: "pcb_list (current_running s) \<noteq> ?r" and nr: "n \<noteq> ?r"
    using D(4) nh by auto
  show ?thesis
  proof (rule sched_invI)
    show "rep (ls (do_unblock L n s)) (attach n ?r Q)"
      unfolding ls' by (rule rep_move_head [OF inv _ n nh]) simp
    show "heads L \<subseteq> dom (attach n ?r Q)" by (rule heads_attach [OF nh D(3)])
    show "status (do_unblock L n s) (list_entry_list m) = TASK_READY"
      if "m \<in> set (queue_of (attach n ?r Q) ?r)" for m
      using that D(5) [of m] by (auto simp: q st)
    show "status (do_unblock L n s) (list_entry_list m) = TASK_BLOCKED"
      if "k \<in> heads L" "k \<noteq> ?r" "m \<in> set (queue_of (attach n ?r Q) k)" for k m
      using that D(6) [of k m] by (auto simp: q st split: if_splits)
    show "parked (pcb_list (current_running (do_unblock L n s))) (attach n ?r Q)"
      unfolding cur' by (rule parked_attach [OF D(9) cr n nr subsetD [OF D(3)]]) simp
    show "attach n ?r Q (pcb_list (current_running (do_unblock L n s))) = Some []"
      if run: "status (do_unblock L n s) (current_running (do_unblock L n s)) = TASK_RUNNING"
    proof -
      have "list_entry_list n \<noteq> current_running s" "status s (current_running s) = TASK_RUNNING"
        using run by (auto simp: cur' st split: if_splits)
      then have "pcb_list (current_running s) \<noteq> n" by auto
      then show ?thesis using D(7) \<open>status s _ = _\<close> cr by (simp add: cur' attach_other)
    qed
    show "status (do_unblock L n s) p \<noteq> TASK_RUNNING"
      if "p \<noteq> current_running (do_unblock L n s)" for p
      using that D(8) [of p] by (simp add: cur' st)
  qed (use D(1,4) in \<open>simp_all add: cur'\<close>)
qed

section \<open>The scheduler refines the abstract one\<close>

lemma do_scheduler_step:
  assumes inv: "sched_inv L Q s"
  obtains s' c Q' where "do_scheduler L s = Some (s', c)" and "sched_inv L Q' s'"
    and "(abs_sched L Q' s', c) = pick (wake (due_tasks L Q s) (abs_sched L Q s))"
    and "data_frame s s'" and "rd_pos s' = rd_pos s + length (queue_of Q (sleep_queue L))"
    and "c = Switched \<Longrightarrow> status s' (current_running s') = TASK_RUNNING"
    and "c = Returned \<Longrightarrow> current_running s' = current_running s"
proof -
  obtain s1 where s1: "check_sleeping L s = Some s1" and inv1: "sched_inv L (woken L Q s) s1"
    and a1: "abs_sched L (woken L Q s) s1 = wake (due_tasks L Q s) (abs_sched L Q s)"
    and f1: "sched_frame s s1" and r1: "rd_pos s1 = rd_pos s + length (queue_of Q (sleep_queue L))"
    by (rule check_sleeping_inv [OF inv])
  obtain s' c Q' where "reschedule L s1 = (s', c)" "sched_inv L Q' s'"
    "(abs_sched L Q' s', c) = pick (abs_sched L (woken L Q s) s1)" "data_frame s1 s'"
    "rd_pos s' = rd_pos s1" "c = Switched \<Longrightarrow> status s' (current_running s') = TASK_RUNNING"
    "c = Returned \<Longrightarrow> s' = s1 \<and> Q' = woken L Q s"
    by (rule reschedule_inv [OF inv1]) blast
  with s1 a1 r1 show thesis
    using data_frame_trans [OF sched_frame_data [OF f1]] sched_frame_current [OF f1]
    by (intro that [of s' c Q']) (auto simp: do_scheduler_def)
qed

text \<open>C1. \<^verbatim>\<open>do_scheduler\<close> refines the abstract scheduler: from a state whose queues satisfy the
  invariant it always returns; the sleepers whose time has come go to the ready queue in
  their order; then, if a task is ready, the oldest one runs and the caller, if it was still
  running, goes to the end of the ready queue. The invariant holds again, the data of the
  tasks and the locks are untouched, and after a switch the current task is the running one.\<close>

theorem do_scheduler_refines:
  assumes inv: "sched_inv L Q s"
  shows "\<exists>s' c Q'. do_scheduler L s = Some (s', c) \<and> sched_inv L Q' s' \<and>
     (abs_sched L Q' s', c) = pick (wake (due_tasks L Q s) (abs_sched L Q s)) \<and>
     data_frame s s' \<and> rd_pos s' = rd_pos s + length (queue_of Q (sleep_queue L)) \<and>
     (c = Switched \<longrightarrow> status s' (current_running s') = TASK_RUNNING)"
  by (rule do_scheduler_step [OF inv]) blast

section \<open>Sleeping and exiting\<close>

definition fall_asleep :: "sched \<Rightarrow> sched" where
  "fall_asleep a = a\<lparr>stat := (stat a)(cur a := TASK_BLOCKED), sleepers := sleepers a @ [cur a]\<rparr>"

definition exited :: "sched \<Rightarrow> sched" where
  "exited a = a\<lparr>stat := (stat a)(cur a := TASK_EXITED)\<rparr>"

lemma sched_inv_cong:
  assumes "ls s' = ls s" and "status s' = status s" and "current_running s' = current_running s"
  shows "sched_inv L Q s' = sched_inv L Q s" and "abs_sched L Q s' = abs_sched L Q s"
  using assms by (simp_all add: sched_inv_def abs_sched_def)

lemma due_tasks_cong:
  assumes "rdtime s' = rdtime s" and "time_base s' = time_base s"
    and "wakeup_time s' = wakeup_time s" and "rd_pos s' = rd_pos s"
  shows "due_tasks L Q s' = due_tasks L Q s"
  using assms due_cong [of s' s] by (simp add: due_tasks_def)

text \<open>A task that runs is on no queue.\<close>

lemma running_loose:
  "sched_inv L Q s \<Longrightarrow> status s (current_running s) = TASK_RUNNING \<Longrightarrow>
   loose (pcb_list (current_running s)) Q"
  by (rule loose_alone, rule sched_invD(7))

lemma running_not_queued:
  assumes inv: "sched_inv L Q s" and run: "status s (current_running s) = TASK_RUNNING"
    and h: "h \<in> heads L"
  shows "pcb_list (current_running s) \<notin> set (queue_of Q h)"
proof -
  note D = sched_invD [OF inv]
  obtain ys where ys: "Q h = Some ys" "queue_of Q h = ys"
    by (rule sched_inv_queue [OF inv h])
  have "h \<noteq> pcb_list (current_running s)" using D(4) h by auto
  with rep_disjoint [OF D(2) ys(1) D(7) [OF run]] ys(2) show ?thesis by auto
qed

lemma abs_do_block_sleep:
  assumes inv: "sched_inv L Q s" and run: "status s (current_running s) = TASK_RUNNING"
  defines "c \<equiv> pcb_list (current_running s)"
  shows "abs_sched L (attach c (sleep_queue L) Q) (do_block c (sleep_queue L) s) =
     fall_asleep (abs_sched L Q s)"
proof -
  note D = sched_invD [OF inv]
  have ch: "c \<notin> heads L" using D(4) by (simp add: c_def)
  note q = queue_of_attach [OF ch _ _ D(3)]
  have nq: "h \<in> heads L \<Longrightarrow> removeAll c (queue_of Q h) = queue_of Q h" for h
    using running_not_queued [OF inv run] by (simp add: c_def)
  have cc: "list_entry_list c = current_running s" by (simp add: c_def)
  show ?thesis
    using sched_inv_ready_neq [OF inv]
    by (simp add: abs_sched_def fall_asleep_def q nq D(1) do_block_def Let_def cc cong: if_cong)
qed

lemma do_sleep_enter:
  "do_sleep L t s = do_scheduler L
     ((do_block (pcb_list (current_running s)) (sleep_queue L) s)
      \<lparr>time_elapsed := rdtime s (rd_pos s), rd_pos := Suc (rd_pos s),
       wakeup_time := (wakeup_time s)(current_running s := timer_at s (rd_pos s) + ucast t)\<rparr>)"
  by (simp add: do_sleep_def get_timer_eq Let_def do_block_def timer_at_def current_running_def
      set_status_def on_lists_def)

lemma do_sleep_refines_aux:
  fixes t :: u32
  assumes inv: "sched_inv L Q s" and run: "status s (current_running s) = TASK_RUNNING"
  defines "w \<equiv> (wakeup_time s)(current_running s := timer_at s (rd_pos s) + ucast t)"
  defines "Q1 \<equiv> attach (pcb_list (current_running s)) (sleep_queue L) Q"
  shows "\<exists>s' c Q'. do_sleep L t s = Some (s', c) \<and> sched_inv L Q' s' \<and> wakeup_time s' = w \<and>
     mlocks s' = mlocks s \<and>
     (abs_sched L Q' s', c) =
       pick (wake (due_tasks L Q1 (s\<lparr>rd_pos := Suc (rd_pos s), wakeup_time := w\<rparr>))
                  (fall_asleep (abs_sched L Q s)))"
proof -
  let ?b = "do_block (pcb_list (current_running s)) (sleep_queue L) s"
  let ?s = "?b\<lparr>time_elapsed := rdtime s (rd_pos s), rd_pos := Suc (rd_pos s), wakeup_time := w\<rparr>"
  have b: "sched_inv L Q1 ?b"
    unfolding Q1_def using do_block_inv [OF inv _ _ running_loose [OF inv run]] sched_inv_ready_neq [OF inv] by simp
  have eq: "ls ?s = ls ?b" "status ?s = status ?b" "current_running ?s = current_running ?b"
    by (simp_all add: current_running_def)
  have inv': "sched_inv L Q1 ?s" using b by (simp only: sched_inv_cong [OF eq])
  have a: "abs_sched L Q1 ?s = fall_asleep (abs_sched L Q s)"
    unfolding sched_inv_cong [OF eq] Q1_def by (rule abs_do_block_sleep [OF inv run])
  have d: "due_tasks L Q1 ?s = due_tasks L Q1 (s\<lparr>rd_pos := Suc (rd_pos s), wakeup_time := w\<rparr>)"
    by (rule due_tasks_cong) (simp_all add: do_block_def Let_def)
  show ?thesis
    by (rule do_scheduler_step [OF inv', unfolded a d])
       (auto simp: do_sleep_enter w_def data_frame_def do_block_def Let_def)
qed

text \<open>C10. \<^verbatim>\<open>do_sleep\<close> by the running task: it joins the end of the sleep queue with the
  wake-up time \<open>now + sleep_time\<close> and the scheduler does its pass (a sleep of zero seconds can be
  over in that pass); no other task's wake-up time changes.\<close>

theorem do_sleep_refines:
  fixes t :: u32
  assumes inv: "sched_inv L Q s" and run: "status s (current_running s) = TASK_RUNNING"
  defines "w \<equiv> (wakeup_time s)(current_running s := timer_at s (rd_pos s) + ucast t)"
  defines "Q1 \<equiv> attach (pcb_list (current_running s)) (sleep_queue L) Q"
  shows "\<exists>s' c Q'. do_sleep L t s = Some (s', c) \<and> sched_inv L Q' s' \<and> wakeup_time s' = w \<and>
     mlocks s' = mlocks s \<and>
     (abs_sched L Q' s', c) =
       pick (wake (due_tasks L Q1 (s\<lparr>rd_pos := Suc (rd_pos s), wakeup_time := w\<rparr>))
                  (fall_asleep (abs_sched L Q s)))"
  unfolding w_def Q1_def by (rule do_sleep_refines_aux [OF inv run])

lemma set_exited_inv:
  assumes inv: "sched_inv L Q s" and run: "status s (current_running s) = TASK_RUNNING"
  defines "s1 \<equiv> set_status (current_running s) TASK_EXITED s"
  shows "sched_inv L Q s1" and "abs_sched L Q s1 = exited (abs_sched L Q s)"
proof -
  note D = sched_invD [OF inv]
  have nq: "h \<in> heads L \<Longrightarrow> n \<in> set (queue_of Q h) \<Longrightarrow> list_entry_list n \<noteq> current_running s" for h n
    using running_not_queued [OF inv run, of h] pcb_list_entry [of n] by metis
  show "sched_inv L Q s1"
  proof (rule sched_invI)
    show "status s1 (list_entry_list n) = TASK_READY"
      if "n \<in> set (queue_of Q (ready_queue L))" for n
      using D(5) [OF that] nq [OF _ that] by (simp add: s1_def)
    show "status s1 (list_entry_list n) = TASK_BLOCKED"
      if "h \<in> heads L" "h \<noteq> ready_queue L" "n \<in> set (queue_of Q h)" for h n
      using D(6) [OF that] nq [OF that(1,3)] by (simp add: s1_def)
    show "status s1 p \<noteq> TASK_RUNNING" if "p \<noteq> current_running s1" for p
      using that D(8) [of p] by (simp add: s1_def)
  qed (use D(1-4,9) in \<open>simp_all add: s1_def\<close>)
  show "abs_sched L Q s1 = exited (abs_sched L Q s)"
    by (simp add: abs_sched_def exited_def s1_def)
qed

lemma do_exit_refines_aux:
  assumes inv: "sched_inv L Q s" and run: "status s (current_running s) = TASK_RUNNING"
  shows "\<exists>s' c Q'. do_exit L s = Some (s', c) \<and> sched_inv L Q' s' \<and> mlocks s' = mlocks s \<and>
     (abs_sched L Q' s', c) = pick (wake (due_tasks L Q s) (exited (abs_sched L Q s)))"
proof -
  note e = set_exited_inv [OF inv run]
  have d: "due_tasks L Q (set_status (current_running s) TASK_EXITED s) = due_tasks L Q s"
    by (rule due_tasks_cong) simp_all
  show ?thesis
    by (rule do_scheduler_step [OF e(1), unfolded e(2) d]) (auto simp: do_exit_def data_frame_def)
qed

text \<open>\<^verbatim>\<open>do_exit\<close> by the running task: it is marked as exited, put on no queue, and the
  scheduler does its pass, so that the next ready task, if there is one, runs in its
  place.\<close>

lemma do_exit_refines:
  assumes inv: "sched_inv L Q s" and run: "status s (current_running s) = TASK_RUNNING"
  shows "\<exists>s' c Q'. do_exit L s = Some (s', c) \<and> sched_inv L Q' s' \<and> mlocks s' = mlocks s \<and>
     (abs_sched L Q' s', c) = pick (wake (due_tasks L Q s) (exited (abs_sched L Q s)))"
  by (rule do_exit_refines_aux [OF inv run])

text \<open>A pass in which no reading of the clock reaches a wake-up time wakes nobody.\<close>

lemma due_none:
  assumes "\<And>i. i < length ns \<Longrightarrow> timer_at s (k + i) < wakeup_time s (list_entry_list (ns ! i))"
  shows "due s k ns = []"
  using assms
proof (induction ns arbitrary: k)
  case (Cons n ns)
  have "timer_at s (Suc k + i) < wakeup_time s (list_entry_list (ns ! i))" if "i < length ns" for i
    using Cons.prems [of "Suc i"] that by simp
  moreover have "timer_at s k < wakeup_time s (list_entry_list n)" using Cons.prems [of 0] by simp
  ultimately show ?case using Cons.IH [of "Suc k"] by simp
qed simp

text \<open>C17. The scheduler has no idle task: when nothing is ready and no sleeper is due, neither
  one that slept before nor the caller itself, \<^verbatim>\<open>do_sleep\<close> returns to its caller at once, with the
  caller marked as blocked and at the end of the sleep queue, and nothing else changed for the
  scheduler. The \<open>i\<close>-th sleeper is compared with the \<open>i\<close>-th reading of the clock in the pass, and
  the caller, who is last, with the reading after those.\<close>

theorem do_sleep_idle_returns:
  fixes t :: u32
  assumes inv: "sched_inv L Q s" and run: "status s (current_running s) = TASK_RUNNING"
    and idle: "queue_of Q (ready_queue L) = []"
    and asleep: "\<And>i. i < length (queue_of Q (sleep_queue L)) \<Longrightarrow>
      timer_at s (Suc (rd_pos s) + i) < wakeup_time s (list_entry_list (queue_of Q (sleep_queue L) ! i))"
    and early: "timer_at s (Suc (rd_pos s) + length (queue_of Q (sleep_queue L))) <
      timer_at s (rd_pos s) + ucast t"
  shows "\<exists>s' Q'. do_sleep L t s = Some (s', Returned) \<and> sched_inv L Q' s' \<and>
     abs_sched L Q' s' = fall_asleep (abs_sched L Q s) \<and>
     current_running s' = current_running s \<and> status s' (current_running s) = TASK_BLOCKED"
proof -
  define c where "c = pcb_list (current_running s)"
  define sl where "sl = queue_of Q (sleep_queue L)"
  define w where "w = (wakeup_time s)(current_running s := timer_at s (rd_pos s) + ucast t)"
  define Q1 where "Q1 = attach c (sleep_queue L) Q"
  let ?s = "s\<lparr>rd_pos := Suc (rd_pos s), wakeup_time := w\<rparr>"
  have ch: "c \<notin> heads L" using sched_invD(4) [OF inv] by (simp add: c_def)
  have cs: "c \<notin> set sl" using running_not_queued [OF inv run, of "sleep_queue L"] by (simp add: c_def sl_def)
  have q: "queue_of Q1 (sleep_queue L) = sl @ [c]"
    using queue_of_attach [OF ch _ _ sched_invD(3) [OF inv], of "sleep_queue L" "sleep_queue L"] cs
    by (simp add: Q1_def sl_def)
  have tm: "timer_at (s\<lparr>rd_pos := r, wakeup_time := v\<rparr>) = timer_at s" for r v
    by (simp add: timer_at_def fun_eq_iff)
  have "timer_at ?s (Suc (rd_pos s) + i) < wakeup_time ?s (list_entry_list ((sl @ [c]) ! i))"
    if "i < length (sl @ [c])" for i
  proof (cases "i = length sl")
    case True
    then show ?thesis using early by (simp add: tm c_def w_def sl_def)
  next
    case False
    then have i: "i < length sl" using that by simp
    have "list_entry_list (sl ! i) \<noteq> current_running s"
      using cs nth_mem [OF i] pcb_list_entry [of "sl ! i"] by (metis c_def)
    then show ?thesis using asleep [of i] i by (simp add: tm w_def sl_def nth_append)
  qed
  then have "due ?s (Suc (rd_pos s)) (sl @ [c]) = []" by (rule due_none)
  then have "due_tasks L Q1 ?s = []" by (simp add: due_tasks_def q)
  then have "pick (wake (due_tasks L Q1 ?s) (fall_asleep (abs_sched L Q s))) =
      (fall_asleep (abs_sched L Q s), Returned)"
    using idle by (simp add: wake_def fall_asleep_def abs_sched_def pick_def fun_eq_iff)
  then obtain s' Q' where s': "do_sleep L t s = Some (s', Returned)" "sched_inv L Q' s'"
    "abs_sched L Q' s' = fall_asleep (abs_sched L Q s)"
    using do_sleep_refines_aux [OF inv run, of t] unfolding Q1_def c_def w_def by auto
  from s'(3) have "current_running s' = current_running s" "status s' (current_running s) = TASK_BLOCKED"
    by (simp_all add: abs_sched_def fall_asleep_def)
  with s' show ?thesis by blast
qed

section \<open>Who is woken, and when\<close>

lemma due_distinct: "distinct ns \<Longrightarrow> distinct (due s k ns)"
  using set_due_subset by (induction ns arbitrary: k) (auto, blast)

lemma due_nth:
  assumes "distinct ns" and "i < length ns"
  shows "ns ! i \<in> set (due s k ns) \<longleftrightarrow> timer_at s (k + i) \<ge> wakeup_time s (list_entry_list (ns ! i))"
  using assms
proof (induction ns arbitrary: k i)
  case (Cons n ns)
  have n: "n \<notin> set (due s (Suc k) ns)"
    using Cons.prems set_due_subset [of s "Suc k" ns] by auto
  show ?case
  proof (cases i)
    case 0
    then show ?thesis using n by simp
  next
    case (Suc j)
    then have "ns ! j \<noteq> n" using Cons.prems by auto
    then show ?thesis using Cons.IH [of j "Suc k"] Cons.prems Suc by simp
  qed
qed simp

text \<open>C11. A pass over the sleep queue wakes exactly the tasks whose wake-up time has come:
  the sleeper at position \<open>i\<close> is compared with the \<open>i\<close>-th reading of the clock in the pass and
  is ready afterwards if the reading has reached its wake-up time; otherwise it is still
  blocked. No sleeper wakes early and no due sleeper is forgotten, although the traversal
  unlinks the nodes it visits.\<close>

theorem check_sleeping_exact:
  assumes inv: "sched_inv L Q s" and i: "i < length (queue_of Q (sleep_queue L))"
  defines "p \<equiv> list_entry_list (queue_of Q (sleep_queue L) ! i)"
  shows "\<exists>s'. check_sleeping L s = Some s' \<and>
     status s' p = (if timer_at s (rd_pos s + i) \<ge> wakeup_time s p then TASK_READY else TASK_BLOCKED)"
proof -
  obtain sl where sl: "Q (sleep_queue L) = Some sl" "queue_of Q (sleep_queue L) = sl"
    by (rule sched_inv_queue [OF inv, of "sleep_queue L"]) simp
  have dist: "distinct sl" using rep_distinct [OF sched_invD(2) [OF inv] sl(1)] by simp
  have n: "pcb_list p = sl ! i" by (simp add: p_def sl)
  have b: "stat (abs_sched L Q s) p = TASK_BLOCKED"
    using sched_invD(6) [OF inv, of "sleep_queue L" "sl ! i"] sched_inv_ready_neq [OF inv] i sl
    by (simp add: abs_sched_def p_def)
  have mem: "p \<in> set (due_tasks L Q s) \<longleftrightarrow> timer_at s (rd_pos s + i) \<ge> wakeup_time s p"
    using due_nth [OF dist, of i s "rd_pos s"] i sl(2)
    by (auto simp: due_tasks_def p_def image_iff)
  obtain s' where s': "check_sleeping L s = Some s'"
    "abs_sched L (woken L Q s) s' = wake (due_tasks L Q s) (abs_sched L Q s)"
    by (rule check_sleeping_inv [OF inv])
  from s'(2) have "status s' p = stat (wake (due_tasks L Q s) (abs_sched L Q s)) p"
    by (metis (no_types) abs_sched_def sched.select_convs(2))
  with s'(1) b mem show ?thesis by (simp add: wake_def)
qed

section \<open>Every ready task gets to run\<close>

text \<open>\<open>schedule_n L k s\<close>: the state after \<open>k\<close> calls of the scheduler.\<close>

fun schedule_n :: "layout \<Rightarrow> nat \<Rightarrow> kstate \<Rightarrow> kstate option" where
  "schedule_n L 0 s = Some s"
| "schedule_n L (Suc k) s =
     (case do_scheduler L s of None \<Rightarrow> None | Some (s', c) \<Rightarrow> schedule_n L k s')"

lemma pick_ready:
  assumes "ready b = x # zs"
  shows "cur (fst (pick b)) = x \<and> (\<exists>ys. ready (fst (pick b)) = zs @ ys) \<and> snd (pick b) = Switched"
  using assms by (cases "stat b (cur b) = TASK_RUNNING") (simp_all add: pick_def)

lemma pick_wake_ready:
  assumes "ready a = x # xs"
  obtains ys where "cur (fst (pick (wake ds a))) = x" and "ready (fst (pick (wake ds a))) = xs @ ys"
    and "snd (pick (wake ds a)) = Switched"
  using pick_ready [of "wake ds a" x "xs @ ds"] assms that by (auto simp: wake_def)

lemma ready_task_runs_aux:
  assumes "sched_inv L Q s" and "i < length (ready (abs_sched L Q s))"
  shows "\<exists>s' Q'. schedule_n L (Suc i) s = Some s' \<and> sched_inv L Q' s' \<and>
     current_running s' = ready (abs_sched L Q s) ! i \<and>
     status s' (current_running s') = TASK_RUNNING"
  using assms
proof (induction i arbitrary: s Q)
  case (0 s Q)
  then obtain x xs where r: "ready (abs_sched L Q s) = x # xs"
    by (cases "ready (abs_sched L Q s)") auto
  obtain s' c Q' where s': "do_scheduler L s = Some (s', c)" "sched_inv L Q' s'"
    "(abs_sched L Q' s', c) = pick (wake (due_tasks L Q s) (abs_sched L Q s))"
    "c = Switched \<Longrightarrow> status s' (current_running s') = TASK_RUNNING"
    by (rule do_scheduler_step [OF 0(1)]) blast
  obtain ys where "cur (fst (pick (wake (due_tasks L Q s) (abs_sched L Q s)))) = x"
    "snd (pick (wake (due_tasks L Q s) (abs_sched L Q s))) = Switched"
    by (rule pick_wake_ready [OF r])
  then have "c = Switched" "cur (abs_sched L Q' s') = x" using s'(3) by (metis fst_conv snd_conv)+
  then show ?case using s' r by (auto simp: abs_sched_def)
next
  case (Suc i s Q)
  then obtain x xs where r: "ready (abs_sched L Q s) = x # xs"
    by (cases "ready (abs_sched L Q s)") auto
  obtain s' c Q' where s': "do_scheduler L s = Some (s', c)" "sched_inv L Q' s'"
    "(abs_sched L Q' s', c) = pick (wake (due_tasks L Q s) (abs_sched L Q s))"
    by (rule do_scheduler_step [OF Suc.prems(1)]) blast
  obtain ys where "ready (fst (pick (wake (due_tasks L Q s) (abs_sched L Q s)))) = xs @ ys"
    by (rule pick_wake_ready [OF r])
  then have r': "ready (abs_sched L Q' s') = xs @ ys" using s'(3) by (metis fst_conv)
  have "i < length xs" using Suc.prems(2) r by simp
  then have "i < length (ready (abs_sched L Q' s'))"
    and n: "ready (abs_sched L Q' s') ! i = ready (abs_sched L Q s) ! Suc i"
    using r r' by (simp_all add: nth_append)
  from Suc.IH [OF s'(2) this(1)] show ?case unfolding n using s'(1) by simp
qed

text \<open>C5. No ready task starves: the task at position \<open>i\<close> of the ready queue is the running
  one after \<open>i + 1\<close> calls of the scheduler, whatever sleepers wake meanwhile and whether or
  not the tasks that call it are still running.\<close>

theorem ready_task_runs:
  assumes "sched_inv L Q s" and "i < length (ready (abs_sched L Q s))"
  shows "\<exists>s'. schedule_n L (Suc i) s = Some s' \<and>
     current_running s' = ready (abs_sched L Q s) ! i \<and>
     status s' (current_running s') = TASK_RUNNING"
  using ready_task_runs_aux [OF assms] by blast

end
