(* ===== verification/Demo_System.thy ===== *)
theory Demo_System
  imports Scheduler_Ops
begin

text \<open>
  A family of freshly initialised list heads, and a small concrete system on which the
  theorems about the queues are applied: two tasks, sixteen locks, every queue empty.
\<close>

section \<open>Freshly initialised heads\<close>

definition fresh_rings :: "ptr set \<Rightarrow> (ptr \<rightharpoonup> ptr list)" where
  "fresh_rings A = (\<lambda>p. if p \<in> A then Some [] else None)"

lemma nodes_fresh [simp]: "nodes (fresh_rings A) = A"
  by (auto simp: nodes_def fresh_rings_def split: if_splits)

lemma rep_empty: "rep h (fresh_rings {})"
  by (simp add: rep_def disjoint_rings_def fresh_rings_def)

lemma fresh_insert: "(fresh_rings A)(p \<mapsto> []) = fresh_rings (insert p A)"
  by (auto simp: fresh_rings_def)

lemma rep_init_all:
  assumes "rep h (fresh_rings A)" and "distinct ps" and "set ps \<inter> A = {}"
  shows "rep (fold init_list_head ps h) (fresh_rings (A \<union> set ps))"
  using assms
proof (induction ps arbitrary: h A)
  case (Cons p ps)
  have "rep (init_list_head p h) (fresh_rings (insert p A))"
    using rep_init [OF Cons.prems(1), of p] Cons.prems by (simp add: fresh_insert)
  from Cons.IH [OF this] show ?case using Cons.prems by auto
qed simp

lemma queue_of_fresh [simp]: "queue_of (fresh_rings A) h = []"
  by (simp add: queue_of_def fresh_rings_def)

definition head_list :: "layout \<Rightarrow> ptr list" where
  "head_list L = [ready_queue L, sleep_queue L] @ map (block_queue L) [0..<LOCK_NUM]"

lemma set_head_list: "set (head_list L) = heads L"
  by (auto simp: head_list_def heads_def)

lemma wf_layout_distinct: "distinct (head_list L) \<Longrightarrow> wf_layout L"
  by (auto simp: wf_layout_def head_list_def)

text \<open>With every queue empty and one task running the invariant holds.\<close>

lemma sched_inv_fresh:
  assumes "rep (ls s) (fresh_rings A)" and "wf_layout L" and "heads L \<subseteq> A"
    and "pcb_list (current_running s) \<notin> heads L" and "pcb_list (current_running s) \<in> A"
    and "\<And>p. p \<noteq> current_running s \<Longrightarrow> status s p \<noteq> TASK_RUNNING"
  shows "sched_inv L (fresh_rings A) s"
proof -
  have "heads L \<subseteq> dom (fresh_rings A)"
    using assms(3) by (auto simp: fresh_rings_def dom_def)
  moreover have "fresh_rings A (pcb_list (current_running s)) = Some []"
    using assms(5) by (simp add: fresh_rings_def)
  ultimately show ?thesis
    using assms parked_alone by (auto simp: sched_inv_def)
qed

section \<open>A concrete system\<close>

definition demo_layout :: layout where
  "demo_layout =
     \<lparr>ready_queue = 0x1000, sleep_queue = 0x1010, mlocks_base = 0x2000, pcb_base = 0x3000,
      pid0_pcb = 0x2800, ret_from_exception_at = 0x50201000,
      exception_handler_entry_at = 0x50201100, interrupt_helper_at = 0x50201200,
      enable_interrupt_at = 0x50201300, after_switch = 0x50201400,
      after_enable_interrupt = 0x50201500, tasks_base = 0x50203000\<rparr>"

definition demo_nodes :: "ptr list" where
  "demo_nodes = head_list demo_layout @ map (\<lambda>i. pcb_list (pcb demo_layout i)) [0, 1] @
     map (\<lambda>i. pcb_thread_group (pcb demo_layout i)) [0, 1]"

lemma demo_distinct: "distinct demo_nodes"
  by code_simp

definition demo :: kstate where
  "demo =
     \<lparr>ls = fold init_list_head demo_nodes \<lparr>nxt = (\<lambda>p. 0), prv = (\<lambda>p. 0)\<rparr>,
      mach = \<lparr>gpr = (\<lambda>r. if r = TP then pcb demo_layout 0 else 0), csrs = (\<lambda>c. 0), pc = 0,
              user_mode = False, dmem = (\<lambda>a. 0)\<rparr>,
      pid = (\<lambda>p. 1),
      status = (\<lambda>p. if p = pcb demo_layout 0 then TASK_RUNNING else TASK_BLOCKED),
      cursor_x = (\<lambda>p. 0), cursor_y = (\<lambda>p. 0), wakeup_time = (\<lambda>p. 0),
      mlocks = replicate LOCK_NUM \<lparr>lock = UNLOCKED, key = - 1\<rparr>,
      mm = mm_init, time_base = 1, time_elapsed = 0, rdtime = (\<lambda>k. 7), rd_pos = 0,
      void_ret = 0, bytes = (\<lambda>a. 0), bios_log = [], firmware = (\<lambda>k e m. (m, 0)), jmptab = (\<lambda>i. None),
      syscall_tab = replicate 96 None, irq_table = replicate 12 None,
      exc_table = replicate 16 None, new_screen = replicate 4000 0,
      old_screen = replicate 4000 0\<rparr>"

definition demo_rings :: "ptr \<rightharpoonup> ptr list" where
  "demo_rings = fresh_rings (set demo_nodes)"

lemma demo_current [simp]: "current_running demo = pcb demo_layout 0"
  by (simp add: current_running_def demo_def)

lemma demo_running [simp]: "status demo (pcb demo_layout 0) = TASK_RUNNING"
  by (simp add: demo_def)

lemma demo_simps [simp]:
  "rdtime demo = (\<lambda>k. 7)" "time_base demo = 1" "rd_pos demo = 0" "wakeup_time demo = (\<lambda>p. 0)"
  "mlocks demo = replicate LOCK_NUM \<lparr>lock = UNLOCKED, key = - 1\<rparr>" "void_ret demo = 0"
  by (simp_all add: demo_def)

lemma demo_timer [simp]: "timer_at demo k = 7"
  by (simp add: timer_at_def)

lemma demo_wf: "wf_layout demo_layout"
  using demo_distinct by (intro wf_layout_distinct) (simp add: demo_nodes_def)

lemma demo_inv: "sched_inv demo_layout demo_rings demo"
  unfolding demo_rings_def
proof (rule sched_inv_fresh)
  have "rep (ls demo) (fresh_rings ({} \<union> set demo_nodes))"
    unfolding demo_def kstate.select_convs
    by (rule rep_init_all [OF rep_empty demo_distinct]) simp
  then show "rep (ls demo) (fresh_rings (set demo_nodes))" by simp
  show "heads demo_layout \<subseteq> set demo_nodes"
    by (auto simp: demo_nodes_def set_head_list [symmetric])
  have "pcb_list (pcb demo_layout 0) \<notin> set (head_list demo_layout)" by code_simp
  then show "pcb_list (current_running demo) \<notin> heads demo_layout"
    by (simp add: set_head_list)
  show "pcb_list (current_running demo) \<in> set demo_nodes" by (simp add: demo_nodes_def)
qed (simp_all add: demo_wf, simp add: demo_def)

lemma demo_task1: "pcb_list (pcb demo_layout 1) \<notin> heads demo_layout"
  "pcb_list (pcb demo_layout 0) \<notin> heads demo_layout"
proof -
  have "pcb_list (pcb demo_layout 1) \<notin> set (head_list demo_layout)" by code_simp
  then show "pcb_list (pcb demo_layout 1) \<notin> heads demo_layout" by (simp add: set_head_list)
  show "pcb_list (pcb demo_layout 0) \<notin> heads demo_layout"
    using sched_invD(4) [OF demo_inv] by simp
qed

text \<open>The second task made ready; the first one put to sleep.\<close>

definition demo_ready :: kstate where
  "demo_ready = do_unblock demo_layout (pcb_list (pcb demo_layout 1)) demo"

definition demo_ready_rings :: "ptr \<rightharpoonup> ptr list" where
  "demo_ready_rings = attach (pcb_list (pcb demo_layout 1)) (ready_queue demo_layout) demo_rings"

lemma demo_ready_inv: "sched_inv demo_layout demo_ready_rings demo_ready"
  unfolding demo_ready_rings_def demo_ready_def
proof (rule do_unblock_inv [OF demo_inv _ demo_task1(1)])
  show "loose (pcb_list (pcb demo_layout 1)) demo_rings"
    by (rule loose_alone) (simp add: demo_rings_def fresh_rings_def demo_nodes_def)
qed

lemma demo_queues [simp]: "queue_of demo_rings h = []"
  by (simp add: demo_rings_def)

lemma demo_ready_queue:
  "queue_of demo_ready_rings (ready_queue demo_layout) = [pcb_list (pcb demo_layout 1)]"
  using queue_of_attach [OF demo_task1(1) _ _ sched_invD(3) [OF demo_inv],
      of "ready_queue demo_layout" "ready_queue demo_layout"]
  by (simp add: demo_ready_rings_def)

definition demo_asleep :: kstate where
  "demo_asleep = do_block (pcb_list (pcb demo_layout 0)) (sleep_queue demo_layout) demo"

definition demo_asleep_rings :: "ptr \<rightharpoonup> ptr list" where
  "demo_asleep_rings = attach (pcb_list (pcb demo_layout 0)) (sleep_queue demo_layout) demo_rings"

lemma demo_asleep_inv: "sched_inv demo_layout demo_asleep_rings demo_asleep"
  using do_block_inv [OF demo_inv, of "sleep_queue demo_layout"] running_loose [OF demo_inv]
    sched_inv_ready_neq [OF demo_inv]
  by (simp add: demo_asleep_def demo_asleep_rings_def)

lemma demo_asleep_queue:
  "queue_of demo_asleep_rings (sleep_queue demo_layout) = [pcb_list (pcb demo_layout 0)]"
  using queue_of_attach [OF demo_task1(2) _ _ sched_invD(3) [OF demo_inv],
      of "sleep_queue demo_layout" "sleep_queue demo_layout"]
  by (simp add: demo_asleep_rings_def)

lemma demo_tasks_differ: "pcb demo_layout 0 \<noteq> pcb demo_layout 1" "pcb demo_layout 1 \<noteq> pcb demo_layout 0"
  by code_simp+

text \<open>The first task running while the second one sleeps until a time that has not come.\<close>

definition demo_other :: kstate where
  "demo_other = (do_block (pcb_list (pcb demo_layout 1)) (sleep_queue demo_layout) demo)
     \<lparr>wakeup_time := (\<lambda>p. 100)\<rparr>"

definition demo_other_rings :: "ptr \<rightharpoonup> ptr list" where
  "demo_other_rings = attach (pcb_list (pcb demo_layout 1)) (sleep_queue demo_layout) demo_rings"

definition demo_other_sched :: sched where
  "demo_other_sched = abs_sched demo_layout demo_other_rings demo_other"

lemma do_block_other_inv:
  assumes inv: "sched_inv L Q s" and h: "h \<in> heads L" "h \<noteq> ready_queue L" and n: "loose n Q" "n \<notin> heads L"
    and nc: "list_entry_list n \<noteq> current_running s"
  shows "sched_inv L (attach n h Q) (do_block n h s)"
proof -
  note D = sched_invD [OF inv]
  have cur': "current_running (do_block n h s) = current_running s"
    and st: "status (do_block n h s) = (status s)(list_entry_list n := TASK_BLOCKED)"
    and ls': "ls (do_block n h s) = list_move_tail n h (ls s)"
    by (simp_all add: do_block_def Let_def)
  note q = queue_of_attach [OF n(2) _ h(1) D(3)]
  have c: "pcb_list (current_running s) \<noteq> h" "n \<noteq> h" "pcb_list (current_running s) \<noteq> n"
    using D(4) n h nc by auto
  show ?thesis
  proof (rule sched_invI)
    show "rep (ls (do_block n h s)) (attach n h Q)"
      unfolding ls' by (rule rep_move_head [OF inv h(1) n])
    show "heads L \<subseteq> dom (attach n h Q)" by (rule heads_attach [OF n(2) D(3)])
    show "status (do_block n h s) (list_entry_list m) = TASK_READY"
      if "m \<in> set (queue_of (attach n h Q) (ready_queue L))" for m
      using that h(2) D(5) [of m] pcb_list_entry [of m] pcb_list_entry [of n] by (auto simp: q st)
    show "status (do_block n h s) (list_entry_list m) = TASK_BLOCKED"
      if "k \<in> heads L" "k \<noteq> ready_queue L" "m \<in> set (queue_of (attach n h Q) k)" for k m
      using that D(6) [of k m] by (auto simp: q st split: if_splits)
    show "parked (pcb_list (current_running (do_block n h s))) (attach n h Q)"
      unfolding cur' by (rule parked_attach [OF D(9) c(1) n(1) c(2) subsetD [OF D(3) h(1)]])
    show "attach n h Q (pcb_list (current_running (do_block n h s))) = Some []"
      if run: "status (do_block n h s) (current_running (do_block n h s)) = TASK_RUNNING"
      using run D(7) nc c by (simp add: cur' st attach_other split: if_splits)
    show "status (do_block n h s) p \<noteq> TASK_RUNNING" if "p \<noteq> current_running (do_block n h s)" for p
      using that D(8) [of p] by (simp add: cur' st)
  qed (use D(1,4) in \<open>simp_all add: cur'\<close>)
qed

lemma demo_other_inv: "sched_inv demo_layout demo_other_rings demo_other"
proof -
  let ?b = "do_block (pcb_list (pcb demo_layout 1)) (sleep_queue demo_layout) demo"
  have "loose (pcb_list (pcb demo_layout 1)) demo_rings"
    by (rule loose_alone) (simp add: demo_rings_def fresh_rings_def demo_nodes_def)
  then have "sched_inv demo_layout demo_other_rings ?b"
    unfolding demo_other_rings_def
    using sched_inv_ready_neq [OF demo_inv] demo_task1(1) demo_tasks_differ
    by (intro do_block_other_inv [OF demo_inv]) simp_all
  moreover have "sched_inv demo_layout demo_other_rings demo_other =
      sched_inv demo_layout demo_other_rings ?b"
    by (rule sched_inv_cong) (simp_all add: demo_other_def current_running_def)
  ultimately show ?thesis by simp
qed

lemma demo_other_queues:
  "queue_of demo_other_rings (sleep_queue demo_layout) = [pcb_list (pcb demo_layout 1)]"
  "queue_of demo_other_rings (ready_queue demo_layout) = []"
  using queue_of_attach [OF demo_task1(1) _ _ sched_invD(3) [OF demo_inv],
      of "sleep_queue demo_layout" "sleep_queue demo_layout"]
    queue_of_attach [OF demo_task1(1) _ _ sched_invD(3) [OF demo_inv],
      of "ready_queue demo_layout" "sleep_queue demo_layout"]
    queue_of_attach [OF demo_task1(1) _ _ sched_invD(3) [OF demo_inv],
      of "sleep_queue demo_layout" "ready_queue demo_layout"]
    sched_inv_ready_neq [OF demo_inv]
  by (simp_all add: demo_other_rings_def)

lemma demo_other_simps:
  "current_running demo_other = pcb demo_layout 0" "rd_pos demo_other = 0"
  "status demo_other (pcb demo_layout 0) = TASK_RUNNING"
  "timer_at demo_other k = 7" "wakeup_time demo_other p = 100"
proof -
  show "status demo_other (pcb demo_layout 0) = TASK_RUNNING"
    by (simp add: demo_other_def do_block_def Let_def demo_tasks_differ)
  show "current_running demo_other = pcb demo_layout 0"
    using demo_current by (simp add: demo_other_def do_block_def Let_def current_running_def)
qed (simp_all add: demo_other_def do_block_def Let_def timer_at_def)

section \<open>The scheduler's properties on it\<close>

lemma do_scheduler_refines_witness:
  "\<exists>s' c Q'. do_scheduler demo_layout demo_ready = Some (s', c) \<and> sched_inv demo_layout Q' s' \<and>
     (abs_sched demo_layout Q' s', c) =
       pick (wake (due_tasks demo_layout demo_ready_rings demo_ready)
                  (abs_sched demo_layout demo_ready_rings demo_ready))"
  using do_scheduler_refines [OF demo_ready_inv] by blast

lemma do_sleep_refines_witness:
  "\<exists>s' c Q'. do_sleep demo_layout 5 demo = Some (s', c) \<and> sched_inv demo_layout Q' s' \<and>
     wakeup_time s' (pcb demo_layout 0) = 12"
  using do_sleep_refines [OF demo_inv, of 5] by auto

lemma do_exit_refines_witness:
  "\<exists>s' c Q'. do_exit demo_layout demo = Some (s', c) \<and> sched_inv demo_layout Q' s'"
  using do_exit_refines [OF demo_inv] by auto

lemma do_sleep_idle_returns_witness:
  "\<exists>s'. do_sleep demo_layout 5 demo_other = Some (s', Returned) \<and>
     status s' (pcb demo_layout 0) = TASK_BLOCKED \<and>
     sleepers demo_other_sched = [pcb demo_layout 1]"
proof -
  have "\<exists>s' Q'. do_sleep demo_layout 5 demo_other = Some (s', Returned) \<and>
      sched_inv demo_layout Q' s' \<and>
      abs_sched demo_layout Q' s' = fall_asleep (abs_sched demo_layout demo_other_rings demo_other) \<and>
      current_running s' = current_running demo_other \<and>
      status s' (current_running demo_other) = TASK_BLOCKED"
    by (rule do_sleep_idle_returns [OF demo_other_inv])
       (simp_all add: demo_other_queues demo_other_simps)
  then show ?thesis
    by (auto simp: demo_other_simps demo_other_sched_def abs_sched_def demo_other_queues)
qed

lemma check_sleeping_exact_witness:
  "\<exists>s'. check_sleeping demo_layout demo_asleep = Some s' \<and>
     status s' (pcb demo_layout 0) = TASK_READY"
  using check_sleeping_exact [OF demo_asleep_inv, of 0]
  by (simp add: demo_asleep_queue timer_at_def demo_asleep_def do_block_def Let_def)

lemma ready_task_runs_witness:
  "\<exists>s'. schedule_n demo_layout (Suc 0) demo_ready = Some s' \<and>
     current_running s' = pcb demo_layout 1 \<and> status s' (current_running s') = TASK_RUNNING"
  using ready_task_runs [OF demo_ready_inv, of 0]
  by (simp add: abs_sched_def demo_ready_queue)

end
