(* ===== verification/Lock.thy ===== *)
theory Lock
  imports Demo_System
begin

text \<open>
  The locks: \<^verbatim>\<open>include/atomic.h\<close> (the swap the locks use) and \<^verbatim>\<open>kernel/locking/lock.c\<close>. The
  spin-lock operations act on the lock word; the mutex operations on the table \<open>mlocks\<close>, the
  queues of waiting tasks and the scheduler. An index outside the table is a fault, since the
  code does not check it.
\<close>

section \<open>Spin locks\<close>

text \<open>\<^verbatim>\<open>amoswap\<close>: the new contents of the word and the value it had.\<close>

definition atomic_swap :: "'a \<Rightarrow> 'a \<Rightarrow> 'a \<times> 'a" where
  "atomic_swap val mem = (val, mem)"

definition spin_lock_init :: "lock_status \<Rightarrow> lock_status" where
  "spin_lock_init l = UNLOCKED"

definition spin_lock_try_acquire :: "lock_status \<Rightarrow> lock_status \<times> lock_status" where
  "spin_lock_try_acquire l = atomic_swap LOCKED l"

text \<open>Nothing else runs while the loop spins: there is one hart, and it is the one spinning.\<close>

partial_function (option) spin_lock_acquire :: "lock_status \<Rightarrow> lock_status option" where
  "spin_lock_acquire l =
     (let (l1, r) = spin_lock_try_acquire l
      in if r = LOCKED then spin_lock_acquire l1 else Some l1)"

definition spin_lock_release :: "lock_status \<Rightarrow> lock_status" where
  "spin_lock_release l = fst (atomic_swap UNLOCKED l)"

section \<open>Mutex locks\<close>

definition init_lock :: "layout \<Rightarrow> nat \<Rightarrow> kstate \<Rightarrow> kstate" where
  "init_lock L i s =
     (let m = (mlocks s ! i)\<lparr>lock := UNLOCKED\<rparr>;
          s1 = s\<lparr>mlocks := (mlocks s)[i := m\<lparr>key := - 1\<rparr>]\<rparr>
      in on_lists (init_list_head (block_queue L i)) s1)"

definition init_locks :: "layout \<Rightarrow> kstate \<Rightarrow> kstate" where
  "init_locks L s = fold (init_lock L) [0..<LOCK_NUM] s"

text \<open>The two search loops of \<^verbatim>\<open>do_mutex_lock_init\<close>: the first slot from \<open>i\<close> on with a key.\<close>

fun find_key :: "cint \<Rightarrow> nat \<Rightarrow> mutex_lock list \<Rightarrow> nat option" where
  "find_key k i [] = None"
| "find_key k i (m # ms) = (if key m = k then Some i else find_key k (Suc i) ms)"

definition do_mutex_lock_init :: "cint \<Rightarrow> kstate \<Rightarrow> kstate \<times> cint" where
  "do_mutex_lock_init k s =
     (case find_key k 0 (mlocks s) of
        Some i \<Rightarrow> (s, of_nat i)
      | None \<Rightarrow>
          (case find_key (- 1) 0 (mlocks s) of
             Some i \<Rightarrow> (s\<lparr>mlocks := (mlocks s)[i := (mlocks s ! i)\<lparr>key := k\<rparr>]\<rparr>, of_nat i)
           | None \<Rightarrow> (s, - 1)))"

definition set_lock :: "nat \<Rightarrow> lock_status \<Rightarrow> kstate \<Rightarrow> kstate" where
  "set_lock i v s = s\<lparr>mlocks := (mlocks s)[i := (mlocks s ! i)\<lparr>lock := v\<rparr>]\<rparr>"

definition do_mutex_lock_acquire :: "layout \<Rightarrow> cint \<Rightarrow> kstate \<Rightarrow> (kstate \<times> ctl) res" where
  "do_mutex_lock_acquire L mlock_idx s =
     bind_res (array_index LOCK_NUM mlock_idx) (\<lambda>i.
       if key (mlocks s ! i) = - 1 then Inr (s, Returned)
       else
         (let (l, st) = spin_lock_try_acquire (lock (mlocks s ! i));
              s1 = set_lock i l s
          in if st = UNLOCKED then Inr (s1, Returned)
             else ends (do_scheduler L
                    (do_block (pcb_list (current_running s1)) (block_queue L i) s1))))"

definition do_mutex_lock_release :: "layout \<Rightarrow> cint \<Rightarrow> kstate \<Rightarrow> kstate res" where
  "do_mutex_lock_release L mlock_idx s =
     bind_res (array_index LOCK_NUM mlock_idx) (\<lambda>i.
       if key (mlocks s ! i) = - 1 then Inr s
       else if list_empty (ls s) (block_queue L i)
       then Inr (set_lock i (spin_lock_release (lock (mlocks s ! i))) s)
       else Inr (do_unblock L (nxt (ls s) (block_queue L i)) s))"

section \<open>Lemmas on spin locks\<close>

lemma spin_lock_simps [simp]:
  "spin_lock_try_acquire l = (LOCKED, l)" "spin_lock_release l = UNLOCKED"
  by (simp_all add: spin_lock_try_acquire_def spin_lock_release_def atomic_swap_def)

text \<open>A held spin lock is never acquired: the loop repeats itself for ever.\<close>

lemma spin_lock_acquire_held: "spin_lock_acquire LOCKED = None"
proof -
  have "l \<noteq> LOCKED" if "spin_lock_acquire l = Some r" for l r
    by (rule spin_lock_acquire.raw_induct [OF _ that]) (auto split: if_splits)
  then show ?thesis by (cases "spin_lock_acquire LOCKED") auto
qed

text \<open>C15. \<^verbatim>\<open>spin_lock_acquire\<close> returns exactly when the lock is free, and then it holds the
  lock; on a held lock it never returns (one hart: nobody is left to release it).\<close>

theorem spin_lock_acquire_returns:
  "spin_lock_acquire l = (if l = UNLOCKED then Some LOCKED else None)"
proof (cases l)
  case UNLOCKED
  show ?thesis unfolding UNLOCKED by (subst spin_lock_acquire.simps) simp
qed (simp add: spin_lock_acquire_held)

section \<open>Setting a lock word\<close>

lemma set_lock_simps [simp]:
  "ls (set_lock i v s) = ls s" "mach (set_lock i v s) = mach s"
  "status (set_lock i v s) = status s" "current_running (set_lock i v s) = current_running s"
  "wakeup_time (set_lock i v s) = wakeup_time s" "rd_pos (set_lock i v s) = rd_pos s"
  "rdtime (set_lock i v s) = rdtime s" "time_base (set_lock i v s) = time_base s"
  "pid (set_lock i v s) = pid s" "mm (set_lock i v s) = mm s"
  "void_ret (set_lock i v s) = void_ret s" "length (mlocks (set_lock i v s)) = length (mlocks s)"
  "cursor_x (set_lock i v s) = cursor_x s" "cursor_y (set_lock i v s) = cursor_y s"
  "time_elapsed (set_lock i v s) = time_elapsed s" "bytes (set_lock i v s) = bytes s"
  "bios_log (set_lock i v s) = bios_log s" "firmware (set_lock i v s) = firmware s"
  "jmptab (set_lock i v s) = jmptab s" "syscall_tab (set_lock i v s) = syscall_tab s"
  "irq_table (set_lock i v s) = irq_table s" "exc_table (set_lock i v s) = exc_table s"
  "new_screen (set_lock i v s) = new_screen s" "old_screen (set_lock i v s) = old_screen s"
  by (simp_all add: set_lock_def current_running_def)

lemma mlocks_set_lock:
  "i < length (mlocks s) \<Longrightarrow> mlocks (set_lock i v s) ! j =
     (if j = i then (mlocks s ! i)\<lparr>lock := v\<rparr> else mlocks s ! j)"
  by (simp add: set_lock_def nth_list_update)

lemma set_lock_inv [simp]: "sched_inv L Q (set_lock i v s) = sched_inv L Q s"
  "abs_sched L Q (set_lock i v s) = abs_sched L Q s"
  by (rule sched_inv_cong; simp)+

lemma set_lock_same: "i < length (mlocks s) \<Longrightarrow> lock (mlocks s ! i) = v \<Longrightarrow> set_lock i v s = s"
  using list_update_id [of "mlocks s" i] by (cases "mlocks s ! i") (auto simp: set_lock_def)

lemma array_index_of_nat:
  assumes "i < n" and "n \<le> 2 ^ 31"
  shows "array_index n (of_nat i) = Inr i"
proof -
  have "unat (of_nat i :: cint) = i"
    using assms by (simp add: unat_of_nat take_bit_nat_eq_self)
  then show ?thesis using assms sint_small [of "of_nat i :: cint"] by (simp add: array_index_def)
qed

section \<open>Finding a slot by its key\<close>

lemma find_key_None: "find_key k i ms = None \<longleftrightarrow> (\<forall>m \<in> set ms. key m \<noteq> k)"
  by (induction ms arbitrary: i) auto

lemma find_key_Some:
  "find_key k i ms = Some j \<Longrightarrow>
     i \<le> j \<and> j < i + length ms \<and> key (ms ! (j - i)) = k \<and> (\<forall>l < j - i. key (ms ! l) \<noteq> k)"
proof (induction ms arbitrary: i)
  case (Cons m ms)
  show ?case
  proof (cases "key m = k")
    case True
    with Cons.prems show ?thesis by simp
  next
    case False
    with Cons.prems have j: "find_key k (Suc i) ms = Some j" by simp
    note IH = Cons.IH [OF j]
    then have "j - i = Suc (j - Suc i)" by linarith
    with IH False show ?thesis by (auto simp: nth_Cons split: nat.splits)
  qed
qed simp

lemma find_key_at:
  assumes "i < length ms" and "key (ms ! i) = k" and "\<And>l. l < i \<Longrightarrow> key (ms ! l) \<noteq> k"
  shows "find_key k a ms = Some (a + i)"
  using assms
proof (induction ms arbitrary: a i)
  case (Cons m ms)
  show ?case
  proof (cases i)
    case 0
    then show ?thesis using Cons.prems by simp
  next
    case (Suc n)
    then have "key m \<noteq> k" using Cons.prems(3) [of 0] by simp
    moreover have "find_key k (Suc a) ms = Some (Suc a + n)"
    proof (rule Cons.IH)
      show "key (ms ! l) \<noteq> k" if "l < n" for l
        using Cons.prems(3) [of "Suc l"] that Suc by simp
    qed (use Cons.prems Suc in simp_all)
    ultimately show ?thesis using Suc by simp
  qed
qed simp

text \<open>No two slots hold the same key; \<open>-1\<close> marks the free ones.\<close>

definition keys_distinct :: "kstate \<Rightarrow> bool" where
  "keys_distinct s \<longleftrightarrow>
     (\<forall>i < length (mlocks s). \<forall>j < length (mlocks s).
        key (mlocks s ! i) = key (mlocks s ! j) \<longrightarrow> key (mlocks s ! i) \<noteq> - 1 \<longrightarrow> i = j)"

lemma keys_distinctD:
  "keys_distinct s \<Longrightarrow> i < length (mlocks s) \<Longrightarrow> j < length (mlocks s) \<Longrightarrow>
   key (mlocks s ! i) = key (mlocks s ! j) \<Longrightarrow> key (mlocks s ! i) \<noteq> - 1 \<Longrightarrow> i = j"
  unfolding keys_distinct_def by blast

lemma init_found:
  assumes i: "i < length (mlocks s)" and k: "key (mlocks s ! i) = k" and "k \<noteq> - 1"
    and kd: "keys_distinct s"
  shows "do_mutex_lock_init k s = (s, of_nat i)"
proof -
  have "find_key k 0 (mlocks s) = Some (0 + i)"
  proof (rule find_key_at [OF i k])
    fix l assume l: "l < i"
    show "key (mlocks s ! l) \<noteq> k"
    proof
      assume e: "key (mlocks s ! l) = k"
      have "l = i" using keys_distinctD [OF kd _ i, of l] l i e k \<open>k \<noteq> - 1\<close> by simp
      with l show False by simp
    qed
  qed
  then show ?thesis by (simp add: do_mutex_lock_init_def)
qed

lemma init_allocates:
  assumes no: "find_key k 0 (mlocks s) = None" and free: "find_key (- 1) 0 (mlocks s) = Some i"
    and "k \<noteq> - 1" and kd: "keys_distinct s"
  defines "s' \<equiv> s\<lparr>mlocks := (mlocks s)[i := (mlocks s ! i)\<lparr>key := k\<rparr>]\<rparr>"
  shows "do_mutex_lock_init k s = (s', of_nat i)" and "keys_distinct s'"
    and "i < length (mlocks s)" and "key (mlocks s' ! i) = k"
proof -
  show "do_mutex_lock_init k s = (s', of_nat i)"
    using no free by (simp add: do_mutex_lock_init_def s'_def)
  show i: "i < length (mlocks s)" using find_key_Some [OF free] by simp
  have other: "j < length (mlocks s) \<Longrightarrow> key (mlocks s ! j) \<noteq> k" for j
    using no by (auto simp: find_key_None)
  have m: "j < length (mlocks s) \<Longrightarrow> key (mlocks s' ! j) = (if j = i then k else key (mlocks s ! j))" for j
    using i by (simp add: s'_def nth_list_update)
  then show "key (mlocks s' ! i) = k" using i by simp
  have len: "length (mlocks s') = length (mlocks s)" by (simp add: s'_def)
  show "keys_distinct s'"
    unfolding keys_distinct_def len
  proof (intro allI impI)
    fix a b assume "a < length (mlocks s)" "b < length (mlocks s)"
      "key (mlocks s' ! a) = key (mlocks s' ! b)" "key (mlocks s' ! a) \<noteq> - 1"
    then show "a = b"
      using other keys_distinctD [OF kd] by (auto simp: m split: if_splits)
  qed
qed

lemma do_mutex_lock_init_spec_aux:
  assumes kd: "keys_distinct s" and len: "length (mlocks s) = LOCK_NUM" and k: "k \<noteq> - 1"
    and r: "do_mutex_lock_init k s = (s', r)"
  shows "keys_distinct s' \<and> ls s' = ls s \<and> status s' = status s \<and> map lock (mlocks s') = map lock (mlocks s) \<and>
     (r = - 1 \<longleftrightarrow> (\<forall>m \<in> set (mlocks s). key m \<noteq> k \<and> key m \<noteq> - 1)) \<and>
     (if r = - 1 then s' = s
      else \<exists>i < LOCK_NUM. r = of_nat i \<and> key (mlocks s' ! i) = k \<and>
             (if \<exists>m \<in> set (mlocks s). key m = k then s' = s else key (mlocks s ! i) = - 1) \<and>
             (\<forall>j < LOCK_NUM. j \<noteq> i \<longrightarrow> mlocks s' ! j = mlocks s ! j) \<and>
             do_mutex_lock_init k s' = (s', r))"
proof -
  have pos: "i < LOCK_NUM \<Longrightarrow> (of_nat i :: cint) \<noteq> - 1" for i
  proof
    assume "i < LOCK_NUM" and e: "(of_nat i :: cint) = - 1"
    then have i: "i < 16" by (simp add: LOCK_NUM_def)
    then have "unat (of_nat i :: cint) = i" by (simp add: unat_of_nat take_bit_nat_eq_self)
    moreover have "unat (- 1 :: cint) = 4294967295"
      by (simp add: unsigned_minus_1_eq_mask mask_eq_exp_minus_1)
    ultimately show False using i e by simp
  qed
  consider (found) i where "find_key k 0 (mlocks s) = Some i"
    | (alloc) i where "find_key k 0 (mlocks s) = None" "find_key (- 1) 0 (mlocks s) = Some i"
    | (full) "find_key k 0 (mlocks s) = None" "find_key (- 1) 0 (mlocks s) = None"
    by (metis option.exhaust)
  then show ?thesis
  proof cases
    case found
    then have s': "s' = s" "r = of_nat i" using r by (simp_all add: do_mutex_lock_init_def)
    have i: "i < LOCK_NUM" "key (mlocks s ! i) = k" using find_key_Some [OF found] len by simp_all
    then have m: "\<exists>m \<in> set (mlocks s). key m = k" using len by (metis nth_mem)
    then have "\<exists>i < LOCK_NUM. r = of_nat i \<and> key (mlocks s' ! i) = k \<and>
        (if \<exists>m \<in> set (mlocks s). key m = k then s' = s else key (mlocks s ! i) = - 1) \<and>
        (\<forall>j < LOCK_NUM. j \<noteq> i \<longrightarrow> mlocks s' ! j = mlocks s ! j) \<and> do_mutex_lock_init k s' = (s', r)"
      using r s' i by (intro exI [of _ i]) simp
    with kd pos [OF i(1)] s' m show ?thesis by simp blast
  next
    case alloc
    note a = init_allocates [OF alloc k kd]
    have s': "s' = s\<lparr>mlocks := (mlocks s)[i := (mlocks s ! i)\<lparr>key := k\<rparr>]\<rparr>" "r = of_nat i"
      using r a(1) by simp_all
    have i: "i < LOCK_NUM" "r \<noteq> - 1" using a(3) len pos s'(2) by simp_all
    have free: "key (mlocks s ! i) = - 1" "mlocks s ! i \<in> set (mlocks s)"
      using find_key_Some [OF alloc(2)] by simp_all
    have none: "\<forall>m \<in> set (mlocks s). key m \<noteq> k" using alloc(1) by (auto simp: find_key_None in_set_conv_nth)
    have again: "do_mutex_lock_init k s' = (s', r)"
      using init_found [OF _ a(4) k a(2)] a(3) s' by simp
    have "\<exists>i < LOCK_NUM. r = of_nat i \<and> key (mlocks s' ! i) = k \<and>
        (if \<exists>m \<in> set (mlocks s). key m = k then s' = s else key (mlocks s ! i) = - 1) \<and>
        (\<forall>j < LOCK_NUM. j \<noteq> i \<longrightarrow> mlocks s' ! j = mlocks s ! j) \<and> do_mutex_lock_init k s' = (s', r)"
      using i(1) a(4) s' again free(1) none by (intro exI [of _ i]) simp
    moreover have "r = - 1 \<longleftrightarrow> (\<forall>m \<in> set (mlocks s). key m \<noteq> k \<and> key m \<noteq> - 1)"
      using i(2) free by blast
    moreover have "map lock (mlocks s') = map lock (mlocks s)"
      using a(3) by (simp add: s' map_update list_update_same_conv)
    moreover have "keys_distinct s'" using a(2) by (simp add: s')
    moreover have "ls s' = ls s" "status s' = status s" by (simp_all add: s')
    ultimately show ?thesis using i(2) by (simp only: if_False simp_thms)
  next
    case full
    then have "s' = s" "r = - 1" using r by (simp_all add: do_mutex_lock_init_def)
    with full kd show ?thesis by (auto simp: find_key_None)
  qed
qed

text \<open>C13. \<^verbatim>\<open>do_mutex_lock_init\<close> names locks by keys: with a key other than \<open>-1\<close> it returns \<open>-1\<close>
  exactly when the table is full of other keys, and then changes nothing. Otherwise it returns the
  index of a slot that holds the key: the slot that held it before, with nothing changed, when
  there is one, and else a slot that was free, so that no lock in use is taken over. It changes no
  other slot, no lock word and no queue, keeps the keys of the slots in use distinct, and a second
  call with the same key returns the same lock.\<close>

theorem do_mutex_lock_init_spec:
  assumes kd: "keys_distinct s" and len: "length (mlocks s) = LOCK_NUM" and k: "k \<noteq> - 1"
    and r: "do_mutex_lock_init k s = (s', r)"
  shows "keys_distinct s' \<and> ls s' = ls s \<and> status s' = status s \<and> map lock (mlocks s') = map lock (mlocks s) \<and>
     (r = - 1 \<longleftrightarrow> (\<forall>m \<in> set (mlocks s). key m \<noteq> k \<and> key m \<noteq> - 1)) \<and>
     (if r = - 1 then s' = s
      else \<exists>i < LOCK_NUM. r = of_nat i \<and> key (mlocks s' ! i) = k \<and>
             (if \<exists>m \<in> set (mlocks s). key m = k then s' = s else key (mlocks s ! i) = - 1) \<and>
             (\<forall>j < LOCK_NUM. j \<noteq> i \<longrightarrow> mlocks s' ! j = mlocks s ! j) \<and>
             do_mutex_lock_init k s' = (s', r))"
  by (rule do_mutex_lock_init_spec_aux [OF kd len k r])

text \<open>C18. The key \<open>-1\<close> is not kept apart: \<^verbatim>\<open>do_mutex_lock_init(-1)\<close> returns a free slot without
  taking it, and acquiring or releasing that "lock" does nothing.\<close>

theorem minus_one_lock_is_none:
  assumes "find_key (- 1) 0 (mlocks s) = Some i" and len: "length (mlocks s) = LOCK_NUM"
  shows "do_mutex_lock_init (- 1) s = (s, of_nat i) \<and>
     do_mutex_lock_acquire L (of_nat i) s = Inr (s, Returned) \<and>
     do_mutex_lock_release L (of_nat i) s = Inr s"
proof -
  have i: "i < LOCK_NUM" "key (mlocks s ! i) = - 1"
    using find_key_Some [OF assms(1)] len by simp_all
  have "array_index LOCK_NUM (of_nat i) = Inr i"
    using i(1) by (intro array_index_of_nat) (simp_all add: LOCK_NUM_def)
  with i assms(1) show ?thesis
    by (simp add: do_mutex_lock_init_def do_mutex_lock_acquire_def do_mutex_lock_release_def)
qed

end
