(* ===== verification/Lock_Spec.thy ===== *)
theory Lock_Spec
  imports Lock
begin

text \<open>
  What acquiring and releasing a mutex do to the abstract scheduler: a free lock is taken, a
  held one makes the caller wait in its queue, and a release either frees the lock or wakes the
  task that has waited longest, which keeps the lock taken for it.
\<close>

definition wait_for :: "nat \<Rightarrow> sched \<Rightarrow> sched" where
  "wait_for i a = a\<lparr>stat := (stat a)(cur a := TASK_BLOCKED),
                    waiters := (waiters a)(i := waiters a i @ [cur a])\<rparr>"

definition hand_over :: "nat \<Rightarrow> sched \<Rightarrow> sched" where
  "hand_over i a = (case waiters a i of
       [] \<Rightarrow> a
     | w # ws \<Rightarrow> a\<lparr>stat := (stat a)(w := TASK_READY), ready := ready a @ [w],
                     waiters := (waiters a)(i := ws)\<rparr>)"

section \<open>A lock's queue\<close>

lemma lock_index: "i < LOCK_NUM \<Longrightarrow> array_index LOCK_NUM (of_nat i) = Inr i"
  by (rule array_index_of_nat) (simp_all add: LOCK_NUM_def)

lemma head_not_waiting:
  assumes "sched_inv L Q s" and "h \<in> heads L" and "k \<in> heads L" and "n \<in> set (queue_of Q h)"
    and "h \<noteq> k"
  shows "removeAll n (queue_of Q k) = queue_of Q k"
  using sched_inv_disjoint [OF assms(1-3) assms(5,4)] by simp

lemma abs_do_block_lock:
  assumes inv: "sched_inv L Q s" and run: "status s (current_running s) = TASK_RUNNING"
    and i: "i < LOCK_NUM"
  defines "c \<equiv> pcb_list (current_running s)"
  shows "abs_sched L (attach c (block_queue L i) Q) (do_block c (block_queue L i) s) =
     wait_for i (abs_sched L Q s)"
proof -
  note D = sched_invD [OF inv]
  have ch: "c \<notin> heads L" using D(4) by (simp add: c_def)
  note q = queue_of_attach [OF ch _ _ D(3)]
  have nq: "h \<in> heads L \<Longrightarrow> removeAll c (queue_of Q h) = queue_of Q h" for h
    using running_not_queued [OF inv run] by (simp add: c_def)
  have cc: "list_entry_list c = current_running s" by (simp add: c_def)
  have b: "block_queue L i \<noteq> ready_queue L" "block_queue L i \<noteq> sleep_queue L"
    using D(1) i by simp_all
  show ?thesis
    using b i
    by (simp add: abs_sched_def wait_for_def q nq do_block_def Let_def cc block_queue_inj
        fun_eq_iff)
qed

lemma abs_do_unblock_lock:
  assumes inv: "sched_inv L Q s" and i: "i < LOCK_NUM"
    and w: "queue_of Q (block_queue L i) = n # ns"
  shows "abs_sched L (attach n (ready_queue L) Q) (do_unblock L n s) = hand_over i (abs_sched L Q s)"
proof -
  note D = sched_invD [OF inv]
  let ?b = "block_queue L i"
  have bh: "?b \<in> heads L" using i by simp
  obtain xs where xs: "Q ?b = Some (n # ns)" using w sched_inv_queue [OF inv bh] by metis
  have nh: "n \<notin> heads L" using kq.member_not_root [OF D(2) xs, of n] D(3) by auto
  note q = queue_of_attach [OF nh _ _ D(3)]
  have other: "h \<in> heads L \<Longrightarrow> h \<noteq> ?b \<Longrightarrow> removeAll n (queue_of Q h) = queue_of Q h" for h
    using head_not_waiting [OF inv bh, of h n] w by simp
  have self: "removeAll n (n # ns) = ns" using rep_distinct [OF D(2) xs] by simp
  have b: "?b \<noteq> ready_queue L" "?b \<noteq> sleep_queue L" using D(1) i by simp_all
  have wb: "j < LOCK_NUM \<Longrightarrow> queue_of (attach n (ready_queue L) Q) (block_queue L j) =
      (if j = i then ns else queue_of Q (block_queue L j))" for j
    using other [of "block_queue L j"] self w D(1) by (simp add: q block_queue_inj [OF _ i])
  have "queue_of (attach n (ready_queue L) Q) (ready_queue L) = queue_of Q (ready_queue L) @ [n]"
    "queue_of (attach n (ready_queue L) Q) (sleep_queue L) = queue_of Q (sleep_queue L)"
    using b other sched_inv_ready_neq [OF inv] by (simp_all add: q)
  then show ?thesis
    using i by (simp add: abs_sched_def hand_over_def wb w do_unblock_def Let_def fun_eq_iff)
qed

section \<open>Acquiring\<close>

lemma acquire_free:
  assumes "i < LOCK_NUM" and "key (mlocks s ! i) \<noteq> - 1" and "lock (mlocks s ! i) = UNLOCKED"
  shows "do_mutex_lock_acquire L (of_nat i) s = Inr (set_lock i LOCKED s, Returned)"
  using assms by (simp add: do_mutex_lock_acquire_def lock_index)

lemma acquire_held:
  assumes inv: "sched_inv L Q s" and run: "status s (current_running s) = TASK_RUNNING"
    and i: "i < LOCK_NUM" and len: "length (mlocks s) = LOCK_NUM"
    and k: "key (mlocks s ! i) \<noteq> - 1" and held: "lock (mlocks s ! i) = LOCKED"
  obtains s' c Q' ds where "do_mutex_lock_acquire L (of_nat i) s = Inr (s', c)"
    and "sched_inv L Q' s'" and "mlocks s' = mlocks s"
    and "(abs_sched L Q' s', c) = pick (wake ds (wait_for i (abs_sched L Q s)))"
    and "ds = due_tasks L Q s" and "c = Switched \<Longrightarrow> status s' (current_running s') = TASK_RUNNING"
    and "c = Returned \<Longrightarrow> current_running s' = current_running s"
proof -
  let ?c = "pcb_list (current_running s)" and ?h = "block_queue L i"
  let ?b = "do_block ?c ?h s" and ?Q = "attach ?c ?h Q"
  have same: "set_lock i LOCKED s = s" using set_lock_same i len held by simp
  have acq: "do_mutex_lock_acquire L (of_nat i) s = ends (do_scheduler L ?b)"
    using k held by (simp add: do_mutex_lock_acquire_def lock_index [OF i] same)
  have hh: "?h \<in> heads L" "?h \<noteq> ready_queue L" "?h \<noteq> sleep_queue L"
    using i sched_invD(1) [OF inv] by simp_all
  have inv': "sched_inv L ?Q ?b"
    by (rule do_block_inv [OF inv hh(1,2) running_loose [OF inv run]])
  have ch: "?c \<notin> heads L" by (rule sched_invD(4) [OF inv])
  have sl: "queue_of ?Q (sleep_queue L) = queue_of Q (sleep_queue L)"
    using queue_of_attach [OF ch _ hh(1) sched_invD(3) [OF inv], of "sleep_queue L"] hh(3)
      running_not_queued [OF inv run, of "sleep_queue L"] by simp
  have due: "due_tasks L ?Q ?b = due_tasks L Q s"
    using due_cong [of ?b s] by (simp add: due_tasks_def sl do_block_def Let_def)
  show thesis
    by (rule do_scheduler_step [OF inv'])
       (use acq abs_do_block_lock [OF inv run i] due in
         \<open>auto simp: data_frame_def do_block_def Let_def intro: that [where ds = "due_tasks L Q s"]\<close>)
qed

text \<open>C3. \<^verbatim>\<open>do_mutex_lock_acquire\<close> of an initialised lock by the running task: a free lock is
  locked and the call returns; a held lock puts the caller at the end of that lock's queue,
  blocked, and the scheduler does its pass, so that a ready task, if there is one, runs instead.
  No lock word changes in that case and every other queue is as the scheduler leaves it.\<close>

theorem mutex_acquire_refines:
  assumes inv: "sched_inv L Q s" and run: "status s (current_running s) = TASK_RUNNING"
    and i: "i < LOCK_NUM" and len: "length (mlocks s) = LOCK_NUM"
    and k: "key (mlocks s ! i) \<noteq> - 1"
  shows "\<exists>s' c Q'. do_mutex_lock_acquire L (of_nat i) s = Inr (s', c) \<and> sched_inv L Q' s' \<and>
     (if lock (mlocks s ! i) = UNLOCKED
      then c = Returned \<and> lock (mlocks s' ! i) = LOCKED \<and> abs_sched L Q' s' = abs_sched L Q s \<and>
           (\<forall>j. j \<noteq> i \<longrightarrow> mlocks s' ! j = mlocks s ! j)
      else mlocks s' = mlocks s \<and>
           (abs_sched L Q' s', c) = pick (wake (due_tasks L Q s) (wait_for i (abs_sched L Q s))))"
proof (cases "lock (mlocks s ! i)")
  case UNLOCKED
  have "\<forall>j. mlocks (set_lock i LOCKED s) ! j =
      (if j = i then (mlocks s ! i)\<lparr>lock := LOCKED\<rparr> else mlocks s ! j)"
    using mlocks_set_lock [of i s LOCKED] i len by simp
  then show ?thesis
    using acquire_free [OF i k UNLOCKED, of L] inv UNLOCKED
    by (intro exI [of _ "set_lock i LOCKED s"] exI [of _ Returned] exI [of _ Q]) simp
next
  case LOCKED
  show ?thesis
    by (rule acquire_held [OF inv run i len k LOCKED]) (use LOCKED in auto)
qed

section \<open>Releasing\<close>

lemma release_free:
  assumes inv: "sched_inv L Q s" and i: "i < LOCK_NUM" and k: "key (mlocks s ! i) \<noteq> - 1"
    and w: "queue_of Q (block_queue L i) = []"
  shows "do_mutex_lock_release L (of_nat i) s = Inr (set_lock i UNLOCKED s)"
proof -
  have "Q (block_queue L i) = Some []"
    using w sched_inv_queue [OF inv, of "block_queue L i"] i by (metis heads_simps(3))
  with kq.empty_iff [OF sched_invD(2) [OF inv]] k show ?thesis
    by (simp add: do_mutex_lock_release_def lock_index [OF i])
qed

lemma release_waiting:
  assumes inv: "sched_inv L Q s" and i: "i < LOCK_NUM" and k: "key (mlocks s ! i) \<noteq> - 1"
    and w: "queue_of Q (block_queue L i) = n # ns"
  shows "do_mutex_lock_release L (of_nat i) s = Inr (do_unblock L n s)"
    and "sched_inv L (attach n (ready_queue L) Q) (do_unblock L n s)"
proof -
  note D = sched_invD [OF inv]
  have q: "Q (block_queue L i) = Some (n # ns)"
    using w sched_inv_queue [OF inv, of "block_queue L i"] i by (metis heads_simps(3))
  have "nxt (ls s) (block_queue L i) = n" by (rule kq.first_eq [OF D(2) q])
  with kq.empty_iff [OF D(2) q] k
  show "do_mutex_lock_release L (of_nat i) s = Inr (do_unblock L n s)"
    by (simp add: do_mutex_lock_release_def lock_index [OF i])
  have "Q n = None" using kq.member_not_root [OF D(2) q] by simp
  then have "n \<notin> heads L" using D(3) by auto
  then show "sched_inv L (attach n (ready_queue L) Q) (do_unblock L n s)"
    using do_unblock_inv [OF inv] kq.member_loose [OF D(2) q] by simp
qed

text \<open>C4. \<^verbatim>\<open>do_mutex_lock_release\<close> of an initialised lock always returns to its caller. With
  nobody waiting it frees the lock word; otherwise the lock stays locked and the task that has
  waited longest leaves the lock's queue for the end of the ready queue.\<close>

theorem mutex_release_refines:
  assumes inv: "sched_inv L Q s" and i: "i < LOCK_NUM" and len: "length (mlocks s) = LOCK_NUM"
    and k: "key (mlocks s ! i) \<noteq> - 1"
  shows "\<exists>s' Q'. do_mutex_lock_release L (of_nat i) s = Inr s' \<and> sched_inv L Q' s' \<and>
     current_running s' = current_running s \<and>
     abs_sched L Q' s' = hand_over i (abs_sched L Q s) \<and>
     (if waiters (abs_sched L Q s) i = [] then lock (mlocks s' ! i) = UNLOCKED
      else mlocks s' = mlocks s)"
proof (cases "queue_of Q (block_queue L i)")
  case Nil
  then show ?thesis
    using release_free [OF inv i k Nil] inv i len mlocks_set_lock [of i s UNLOCKED i]
    by (intro exI [of _ "set_lock i UNLOCKED s"] exI [of _ Q])
       (simp add: hand_over_def abs_sched_def)
next
  case (Cons n ns)
  then show ?thesis
    using release_waiting [OF inv i k Cons] abs_do_unblock_lock [OF inv i Cons] i
    by (intro exI [of _ "do_unblock L n s"] exI [of _ "attach n (ready_queue L) Q"])
       (simp add: abs_sched_def do_unblock_def Let_def)
qed

end
