(* ===== verification/Lock_Safety.thy ===== *)
theory Lock_Safety
  imports Lock_Spec
begin

text \<open>
  The kernel as a step relation over its scheduling and locking calls, with two ghost maps: the
  locks whose acquisition has returned to a task and that the task has not released, and the
  lock in whose acquisition a task that was switched away is still inside. A task that is
  switched back to returns from that acquisition, as the code after \<^verbatim>\<open>switch_to\<close> does. The
  relation leaves out the calls that block the caller and then come back to it because nothing
  is ready; \<open>acquire_idle_returns\<close> shows what happens there.
\<close>

section \<open>The step relation\<close>

record ghost =
  inside :: "ptr \<Rightarrow> nat set"
  pending :: "ptr \<Rightarrow> nat option"

definition entered :: "ptr \<Rightarrow> nat \<Rightarrow> ghost \<Rightarrow> ghost" where
  "entered p i g = g\<lparr>inside := (inside g)(p := insert i (inside g p))\<rparr>"

definition left :: "ptr \<Rightarrow> nat \<Rightarrow> ghost \<Rightarrow> ghost" where
  "left p i g = g\<lparr>inside := (inside g)(p := inside g p - {i})\<rparr>"

definition waits :: "ptr \<Rightarrow> nat \<Rightarrow> ghost \<Rightarrow> ghost" where
  "waits p i g = g\<lparr>pending := (pending g)(p := Some i)\<rparr>"

definition resumed :: "ptr \<Rightarrow> ghost \<Rightarrow> ghost" where
  "resumed p g = (case pending g p of
       None \<Rightarrow> g
     | Some i \<Rightarrow> entered p i (g\<lparr>pending := (pending g)(p := None)\<rparr>))"

inductive kstep :: "layout \<Rightarrow> kstate \<times> ghost \<Rightarrow> kstate \<times> ghost \<Rightarrow> bool" for L where
  step_init: "do_mutex_lock_init k s = (s', r) \<Longrightarrow> k \<noteq> - 1 \<Longrightarrow> kstep L (s, g) (s', g)"
| step_take: "i < LOCK_NUM \<Longrightarrow> key (mlocks s ! i) \<noteq> - 1 \<Longrightarrow> lock (mlocks s ! i) = UNLOCKED \<Longrightarrow>
    do_mutex_lock_acquire L (of_nat i) s = Inr (s', c) \<Longrightarrow>
    kstep L (s, g) (s', entered (current_running s) i g)"
| step_wait: "i < LOCK_NUM \<Longrightarrow> key (mlocks s ! i) \<noteq> - 1 \<Longrightarrow> lock (mlocks s ! i) = LOCKED \<Longrightarrow>
    do_mutex_lock_acquire L (of_nat i) s = Inr (s', Switched) \<Longrightarrow>
    kstep L (s, g) (s', resumed (current_running s') (waits (current_running s) i g))"
| step_release: "i < LOCK_NUM \<Longrightarrow> i \<in> inside g (current_running s) \<Longrightarrow>
    do_mutex_lock_release L (of_nat i) s = Inr s' \<Longrightarrow>
    kstep L (s, g) (s', left (current_running s) i g)"
| step_yield: "do_scheduler L s = Some (s', c) \<Longrightarrow>
    kstep L (s, g) (s', resumed (current_running s') g)"
| step_sleep: "do_sleep L t s = Some (s', Switched) \<Longrightarrow>
    kstep L (s, g) (s', resumed (current_running s') g)"
| step_exit: "do_exit L s = Some (s', Switched) \<Longrightarrow>
    kstep L (s, g) (s', resumed (current_running s') g)"

inductive_cases kstepE: "kstep L (s, g) sg'"

section \<open>Who owns a lock\<close>

text \<open>A task owns a lock inside it, and from the moment a release has handed it over.\<close>

definition owns :: "(nat \<Rightarrow> ptr list) \<Rightarrow> ghost \<Rightarrow> ptr \<Rightarrow> nat \<Rightarrow> bool" where
  "owns w g p i \<longleftrightarrow> i \<in> inside g p \<or> (pending g p = Some i \<and> p \<notin> set (w i))"

definition lock_core :: "(nat \<Rightarrow> ptr list) \<Rightarrow> mutex_lock list \<Rightarrow> ghost \<Rightarrow> bool" where
  "lock_core w ms g \<longleftrightarrow>
     (\<forall>p i. p \<in> set (w i) \<longrightarrow> pending g p = Some i) \<and>
     (\<forall>p i. owns w g p i \<longrightarrow> i < LOCK_NUM \<and> key (ms ! i) \<noteq> - 1 \<and> lock (ms ! i) = LOCKED) \<and>
     (\<forall>p q i. owns w g p i \<longrightarrow> owns w g q i \<longrightarrow> p = q) \<and>
     (\<forall>p i. p \<in> set (w i) \<longrightarrow> lock (ms ! i) = LOCKED) \<and>
     (\<forall>i. i < LOCK_NUM \<longrightarrow> lock (ms ! i) = LOCKED \<longrightarrow> (\<exists>p. owns w g p i))"

lemma lock_coreD:
  assumes "lock_core w ms g"
  shows "p \<in> set (w i) \<Longrightarrow> pending g p = Some i"
    and "owns w g p i \<Longrightarrow> i < LOCK_NUM" and "owns w g p i \<Longrightarrow> key (ms ! i) \<noteq> - 1"
    and "owns w g p i \<Longrightarrow> lock (ms ! i) = LOCKED"
    and "owns w g p i \<Longrightarrow> owns w g q i \<Longrightarrow> p = q"
    and "p \<in> set (w i) \<Longrightarrow> lock (ms ! i) = LOCKED"
    and "i < LOCK_NUM \<Longrightarrow> lock (ms ! i) = LOCKED \<Longrightarrow> \<exists>p. owns w g p i"
  using assms unfolding lock_core_def by blast+

lemma lock_coreI:
  assumes "\<And>p i. p \<in> set (w i) \<Longrightarrow> pending g p = Some i"
    and "\<And>p i. owns w g p i \<Longrightarrow> i < LOCK_NUM \<and> key (ms ! i) \<noteq> - 1 \<and> lock (ms ! i) = LOCKED"
    and "\<And>p q i. owns w g p i \<Longrightarrow> owns w g q i \<Longrightarrow> p = q"
    and "\<And>p i. p \<in> set (w i) \<Longrightarrow> lock (ms ! i) = LOCKED"
    and "\<And>i. i < LOCK_NUM \<Longrightarrow> lock (ms ! i) = LOCKED \<Longrightarrow> \<exists>p. owns w g p i"
  shows "lock_core w ms g"
  unfolding lock_core_def using assms by blast

text \<open>The ghost updates, one by one.\<close>

lemma ghost_simps [simp]:
  "inside (entered p i g) q = (if q = p then insert i (inside g p) else inside g q)"
  "pending (entered p i g) = pending g"
  "inside (left p i g) q = (if q = p then inside g p - {i} else inside g q)"
  "pending (left p i g) = pending g"
  "inside (waits p i g) = inside g"
  "pending (waits p i g) q = (if q = p then Some i else pending g q)"
  by (simp_all add: entered_def left_def waits_def)

lemma pending_resumed: "pending (resumed p g) q = (if q = p then None else pending g q)"
  by (auto simp: resumed_def split: option.splits)

lemma owns_resumed:
  assumes "\<And>i. p \<notin> set (w i)"
  shows "owns w (resumed p g) q i \<longleftrightarrow> owns w g q i"
  using assms by (auto simp: owns_def resumed_def split: option.splits)

lemma core_resumed:
  assumes core: "lock_core w ms g" and p: "\<And>i. p \<notin> set (w i)"
  shows "lock_core w ms (resumed p g)"
proof (rule lock_coreI)
  show "pending (resumed p g) q = Some i" if "q \<in> set (w i)" for q i
    using that p [of i] lock_coreD(1) [OF core that] by (auto simp: pending_resumed)
qed (use lock_coreD [OF core] in \<open>auto simp: owns_resumed [OF p]\<close>)

lemma core_take:
  assumes core: "lock_core w ms g" and i: "i < LOCK_NUM" "i < length ms"
    and k: "key (ms ! i) \<noteq> - 1" and free: "lock (ms ! i) = UNLOCKED"
  shows "lock_core w (ms[i := (ms ! i)\<lparr>lock := LOCKED\<rparr>]) (entered c i g)"
proof -
  note D = lock_coreD [OF core]
  have none: "\<not> owns w g p i" for p using D(4) free by fastforce
  have o: "owns w (entered c i g) p j \<longleftrightarrow> owns w g p j \<or> (p = c \<and> j = i)" for p j
    by (auto simp: owns_def)
  have m: "lock (ms[i := (ms ! i)\<lparr>lock := LOCKED\<rparr>] ! j) = (if j = i then LOCKED else lock (ms ! j))"
    "key (ms[i := (ms ! i)\<lparr>lock := LOCKED\<rparr>] ! j) = key (ms ! j)" for j
    using i by (simp_all add: nth_list_update)
  show ?thesis
  proof (rule lock_coreI)
    show "p = q" if "owns w (entered c i g) p j" "owns w (entered c i g) q j" for p q j
      using that none D(5) by (auto simp: o)
  qed (use D i k in \<open>auto simp: o m split: if_splits\<close>)
qed

lemma core_wait:
  assumes core: "lock_core w ms g" and held: "lock (ms ! i) = LOCKED"
    and c: "pending g c = None"
  shows "lock_core (w(i := w i @ [c])) ms (waits c i g)"
proof -
  note D = lock_coreD [OF core]
  have cw: "c \<notin> set (w j)" for j using D(1) c by fastforce
  have o: "owns (w(i := w i @ [c])) (waits c i g) p j \<longleftrightarrow> owns w g p j" for p j
    using c by (auto simp: owns_def)
  show ?thesis
  proof (rule lock_coreI)
    show "pending (waits c i g) p = Some j" if "p \<in> set ((w(i := w i @ [c])) j)" for p j
      using that D(1) [of p j] cw by (auto split: if_splits)
    show "lock (ms ! j) = LOCKED" if "p \<in> set ((w(i := w i @ [c])) j)" for p j
      using that D(6) [of p j] held by (auto split: if_splits)
  qed (use D in \<open>auto simp: o\<close>)
qed

lemma core_release:
  assumes core: "lock_core w ms g" and i: "i \<in> inside g c" and len: "i < length ms"
    and c: "pending g c = None" and w: "w i = []"
  shows "lock_core w (ms[i := (ms ! i)\<lparr>lock := UNLOCKED\<rparr>]) (left c i g)"
proof -
  note D = lock_coreD [OF core]
  have ci: "owns w g c i" using i by (simp add: owns_def)
  have o: "owns w (left c i g) p j \<longleftrightarrow> owns w g p j \<and> \<not> j = i" for p j
    using D(5) [OF _ ci] c by (auto simp: owns_def)
  have m: "lock (ms[i := (ms ! i)\<lparr>lock := UNLOCKED\<rparr>] ! j) = (if j = i then UNLOCKED else lock (ms ! j))"
    "key (ms[i := (ms ! i)\<lparr>lock := UNLOCKED\<rparr>] ! j) = key (ms ! j)" for j
    using len by (simp_all add: nth_list_update)
  show ?thesis
  proof (rule lock_coreI)
    show "lock (ms[i := (ms ! i)\<lparr>lock := UNLOCKED\<rparr>] ! j) = LOCKED" if "p \<in> set (w j)" for p j
      using that D(6) [of p j] w by (auto simp: m)
  qed (use D in \<open>auto simp: o m split: if_splits\<close>)
qed

lemma core_hand_over:
  assumes core: "lock_core w ms g" and i: "i \<in> inside g c"
    and c: "pending g c = None" and w: "w i = v # vs" and dist: "distinct (w i)"
  shows "lock_core (w(i := vs)) ms (left c i g)"
proof -
  note D = lock_coreD [OF core]
  have ci: "owns w g c i" using i by (simp add: owns_def)
  have v: "pending g v = Some i" "v \<notin> set vs" "v \<noteq> c" using D(1) [of v i] w dist c by auto
  have o: "owns (w(i := vs)) (left c i g) p j \<longleftrightarrow> (if j = i then p = v else owns w g p j)" for p j
  proof (cases "j = i")
    case ji: True
    have other: "p \<noteq> c \<Longrightarrow> i \<notin> inside g p" "p \<noteq> c \<Longrightarrow> pending g p = Some i \<Longrightarrow> p \<in> set (v # vs)"
      using D(5) [OF _ ci, of p] w unfolding owns_def by metis+
    show ?thesis
    proof (cases "p = c")
      case True
      then show ?thesis using ji c v(3) by (simp add: owns_def)
    next
      case False
      then show ?thesis using ji other v by (auto simp: owns_def)
    qed
  next
    case False
    then show ?thesis by (simp add: owns_def)
  qed
  show ?thesis
  proof (rule lock_coreI)
    show "j < LOCK_NUM \<and> key (ms ! j) \<noteq> - 1 \<and> lock (ms ! j) = LOCKED"
      if "owns (w(i := vs)) (left c i g) p j" for p j
      using that D(2-4) [of p j] D(2-4) [OF ci] by (simp add: o split: if_splits)
    show "p = q" if "owns (w(i := vs)) (left c i g) p j" "owns (w(i := vs)) (left c i g) q j" for p q j
      using that D(5) [of p j q] by (simp add: o split: if_splits)
    show "pending (left c i g) p = Some j" if "p \<in> set ((w(i := vs)) j)" for p j
      using that D(1) [of p j] w by (auto split: if_splits)
    show "lock (ms ! j) = LOCKED" if "p \<in> set ((w(i := vs)) j)" for p j
      using that D(6) [of p j] w by (auto split: if_splits)
    show "\<exists>p. owns (w(i := vs)) (left c i g) p j" if "j < LOCK_NUM" "lock (ms ! j) = LOCKED" for j
      using D(7) [OF that] by (auto simp: o)
  qed
qed

section \<open>The invariant of the kernel\<close>

definition kinv :: "layout \<Rightarrow> kstate \<times> ghost \<Rightarrow> bool" where
  "kinv L sg \<longleftrightarrow> (case sg of (s, g) \<Rightarrow>
     \<exists>Q. sched_inv L Q s \<and> length (mlocks s) = LOCK_NUM \<and> keys_distinct s \<and>
         status s (current_running s) = TASK_RUNNING \<and> pending g (current_running s) = None \<and>
         lock_core (waiters (abs_sched L Q s)) (mlocks s) g)"

lemma kinvI:
  assumes "sched_inv L Q s" and "length (mlocks s) = LOCK_NUM" and "keys_distinct s"
    and "status s (current_running s) = TASK_RUNNING" and "pending g (current_running s) = None"
    and "lock_core (waiters (abs_sched L Q s)) (mlocks s) g"
  shows "kinv L (s, g)"
  using assms by (auto simp: kinv_def)

lemma abs_fields [simp]:
  "cur (abs_sched L Q s) = current_running s" "stat (abs_sched L Q s) = status s"
  by (simp_all add: abs_sched_def)

lemma waiters_abs:
  "waiters (abs_sched L Q s) i =
     (if i < LOCK_NUM then map list_entry_list (queue_of Q (block_queue L i)) else [])"
  by (simp add: abs_sched_def)

lemma waiting_blocked:
  assumes inv: "sched_inv L Q s" and "p \<in> set (waiters (abs_sched L Q s) i)"
  shows "status s p = TASK_BLOCKED"
proof -
  have i: "i < LOCK_NUM" and "\<exists>n \<in> set (queue_of Q (block_queue L i)). p = list_entry_list n"
    using assms(2) by (auto simp: waiters_abs split: if_splits)
  moreover have "block_queue L i \<noteq> ready_queue L" using sched_invD(1) [OF inv] i by simp
  ultimately show ?thesis using sched_invD(6) [OF inv, of "block_queue L i"] by auto
qed

lemma waiters_distinct:
  assumes inv: "sched_inv L Q s"
  shows "distinct (waiters (abs_sched L Q s) i)"
proof (cases "i < LOCK_NUM")
  case True
  then obtain xs where "Q (block_queue L i) = Some xs"
    by (rule sched_inv_queue [OF inv, OF heads_simps(3)])
  with rep_distinct [OF sched_invD(2) [OF inv]] show ?thesis
    by (auto simp: waiters_abs distinct_map inj_on_def)
qed (simp add: waiters_abs)

lemma pick_wake_waiters: "waiters (fst (pick (wake ds a))) = waiters a"
  by (simp add: pick_def wake_def split: list.splits)

lemma pick_switched:
  "snd (pick a) = Switched \<Longrightarrow> stat (fst (pick a)) (cur (fst (pick a))) = TASK_RUNNING"
  by (auto simp: pick_def split: list.splits if_splits)

lemma pick_wake_returned:
  assumes "snd (pick (wake ds a)) = Returned"
  shows "stat (fst (pick (wake ds a))) = stat a" and "cur (fst (pick (wake ds a))) = cur a"
  using assms by (auto simp: pick_def wake_def fun_eq_iff split: list.splits if_splits)

text \<open>After the scheduler's pass, with the caller still running if it returned to it.\<close>

lemma kinv_scheduled:
  assumes inv: "sched_inv L Q' s'" and p: "(abs_sched L Q' s', c) = pick (wake ds a)"
    and core: "lock_core (waiters a) (mlocks s') g"
    and len: "length (mlocks s') = LOCK_NUM" and kd: "keys_distinct s'"
    and run: "c = Returned \<Longrightarrow> stat a (cur a) = TASK_RUNNING"
  shows "kinv L (s', resumed (current_running s') g)"
proof -
  have w: "waiters (abs_sched L Q' s') = waiters a"
    using pick_wake_waiters [of ds a] p by (metis fst_conv)
  have st: "status s' (current_running s') = TASK_RUNNING"
  proof (cases c)
    case Switched
    with pick_switched [of "wake ds a"] p show ?thesis by (metis abs_fields fst_conv snd_conv)
  next
    case Returned
    then have "status s' = stat a" "current_running s' = cur a"
      using pick_wake_returned [of ds a] p abs_fields [of L Q' s'] by (metis fst_conv snd_conv)+
    with run Returned show ?thesis by simp
  qed
  have nw: "current_running s' \<notin> set (waiters a i)" for i
    using waiting_blocked [OF inv, of "current_running s'" i] st unfolding w by auto
  show ?thesis
    by (rule kinvI [OF inv len kd st])
       (use core_resumed [OF core nw] in \<open>simp_all add: pending_resumed w\<close>)
qed

section \<open>Every step keeps the invariant\<close>

lemma kinvE:
  assumes "kinv L (s, g)"
  obtains Q where "sched_inv L Q s" and "length (mlocks s) = LOCK_NUM" and "keys_distinct s"
    and "status s (current_running s) = TASK_RUNNING" and "pending g (current_running s) = None"
    and "lock_core (waiters (abs_sched L Q s)) (mlocks s) g"
  using assms by (auto simp: kinv_def)

lemma keys_distinct_cong: "map key (mlocks s') = map key (mlocks s) \<Longrightarrow> keys_distinct s' = keys_distinct s"
proof -
  assume m: "map key (mlocks s') = map key (mlocks s)"
  have len: "length (mlocks s') = length (mlocks s)" using map_eq_imp_length_eq [OF m] .
  have k: "i < length (mlocks s) \<Longrightarrow> key (mlocks s' ! i) = key (mlocks s ! i)" for i
    using arg_cong [OF m, of "\<lambda>xs. xs ! i"] len by simp
  show ?thesis unfolding keys_distinct_def len using k by simp
qed

lemma keys_distinct_set_lock [simp]: "keys_distinct (set_lock i v s) = keys_distinct s"
proof (rule keys_distinct_cong, rule nth_equalityI)
  fix j assume "j < length (map key (mlocks (set_lock i v s)))"
  then show "map key (mlocks (set_lock i v s)) ! j = map key (mlocks s) ! j"
    by (cases "j = i") (simp_all add: set_lock_def)
qed simp

lemma mlocks_after_set_lock:
  "mlocks (set_lock i v s) = (mlocks s)[i := (mlocks s ! i)\<lparr>lock := v\<rparr>]"
  by (simp add: set_lock_def)

lemma kinv_take:
  assumes k: "kinv L (s, g)" and i: "i < LOCK_NUM" and key: "key (mlocks s ! i) \<noteq> - 1"
    and free: "lock (mlocks s ! i) = UNLOCKED"
  shows "kinv L (set_lock i LOCKED s, entered (current_running s) i g)"
proof (rule kinvE [OF k])
  fix Q assume "sched_inv L Q s" "length (mlocks s) = LOCK_NUM" "keys_distinct s"
    "status s (current_running s) = TASK_RUNNING" "pending g (current_running s) = None"
    and core: "lock_core (waiters (abs_sched L Q s)) (mlocks s) g"
  then show ?thesis
    using core_take [OF core i _ key free, of "current_running s"] i
    by (intro kinvI [of L Q]) (simp_all add: mlocks_after_set_lock)
qed

lemma kinv_release:
  assumes k: "kinv L (s, g)" and i: "i < LOCK_NUM" and own: "i \<in> inside g (current_running s)"
    and r: "do_mutex_lock_release L (of_nat i) s = Inr s'"
  shows "kinv L (s', left (current_running s) i g)"
proof (rule kinvE [OF k])
  fix Q assume inv: "sched_inv L Q s" and len: "length (mlocks s) = LOCK_NUM"
    and kd: "keys_distinct s" and run: "status s (current_running s) = TASK_RUNNING"
    and pend: "pending g (current_running s) = None"
    and core: "lock_core (waiters (abs_sched L Q s)) (mlocks s) g"
  have key: "key (mlocks s ! i) \<noteq> - 1"
    by (rule lock_coreD(3) [OF core, of "current_running s"]) (use own in \<open>simp add: owns_def\<close>)
  show ?thesis
  proof (cases "queue_of Q (block_queue L i)")
    case Nil
    then have s': "s' = set_lock i UNLOCKED s" using release_free [OF inv i key Nil] r by simp
    have "waiters (abs_sched L Q s) i = []" using Nil by (simp add: waiters_abs)
    from core_release [OF core own _ pend this] show ?thesis
      using inv len kd run pend i unfolding s'
      by (intro kinvI [of L Q]) (simp_all add: mlocks_after_set_lock)
  next
    case (Cons n ns)
    let ?Q = "attach n (ready_queue L) Q"
    have s': "s' = do_unblock L n s" using release_waiting(1) [OF inv i key Cons] r by simp
    have inv': "sched_inv L ?Q s'" unfolding s' by (rule release_waiting(2) [OF inv i key Cons])
    have w: "waiters (abs_sched L Q s) i = list_entry_list n # map list_entry_list ns"
      using Cons i by (simp add: waiters_abs)
    then have w': "waiters (abs_sched L ?Q s') = (waiters (abs_sched L Q s))(i := map list_entry_list ns)"
      using abs_do_unblock_lock [OF inv i Cons] by (simp add: s' hand_over_def)
    have "list_entry_list n \<noteq> current_running s"
      using lock_coreD(1) [OF core, of "list_entry_list n" i] w pend by auto
    then have run': "status s' (current_running s') = TASK_RUNNING"
      and m: "mlocks s' = mlocks s" "current_running s' = current_running s"
      using run by (auto simp: s' do_unblock_def Let_def)
    show ?thesis
      using core_hand_over [OF core own pend w waiters_distinct [OF inv]] len kd pend run'
      by (intro kinvI [OF inv']) (simp_all add: m w' keys_distinct_def)
  qed
qed

lemma kinv_init_lock:
  assumes k: "kinv L (s, g)" and r: "do_mutex_lock_init k s = (s', r)" and nk: "k \<noteq> - 1"
  shows "kinv L (s', g)"
proof (rule kinvE [OF k])
  fix Q assume inv: "sched_inv L Q s" and len: "length (mlocks s) = LOCK_NUM"
    and kd: "keys_distinct s" and run: "status s (current_running s) = TASK_RUNNING"
    and pend: "pending g (current_running s) = None"
    and core: "lock_core (waiters (abs_sched L Q s)) (mlocks s) g"
  note D = lock_coreD [OF core]
  show ?thesis
  proof (cases "find_key k 0 (mlocks s) = None \<and> find_key (- 1) 0 (mlocks s) \<noteq> None")
    case False
    then have "s' = s" using r by (auto simp: do_mutex_lock_init_def split: option.splits)
    with k show ?thesis by simp
  next
    case True
    then obtain i where a: "find_key k 0 (mlocks s) = None" "find_key (- 1) 0 (mlocks s) = Some i"
      by blast
    note al = init_allocates [OF a nk kd]
    have s': "s' = s\<lparr>mlocks := (mlocks s)[i := (mlocks s ! i)\<lparr>key := k\<rparr>]\<rparr>" using al(1) r by simp
    have ab: "abs_sched L Q s' = abs_sched L Q s" "sched_inv L Q s'"
      using sched_inv_cong [of s' s L Q] inv by (simp_all add: s' current_running_def)
    have m: "lock (mlocks s' ! j) = lock (mlocks s ! j)"
      "key (mlocks s' ! j) = (if j = i then k else key (mlocks s ! j))" for j
      using al(3) by (simp_all add: s' nth_list_update)
    have "lock_core (waiters (abs_sched L Q s')) (mlocks s') g"
      unfolding ab by (rule lock_coreI) (use D nk in \<open>simp_all add: m\<close>)
    moreover have "keys_distinct s'" using al(2) by (simp only: s')
    ultimately show ?thesis
      using len run pend by (intro kinvI [OF ab(2)]) (simp_all add: s' current_running_def)
  qed
qed

lemma kinv_step:
  assumes step: "kstep L (s, g) sg'" and k: "kinv L (s, g)"
  shows "kinv L sg'"
proof (rule kinvE [OF k])
  fix Q assume inv: "sched_inv L Q s" and len: "length (mlocks s) = LOCK_NUM"
    and kd: "keys_distinct s" and run: "status s (current_running s) = TASK_RUNNING"
    and pend: "pending g (current_running s) = None"
    and core: "lock_core (waiters (abs_sched L Q s)) (mlocks s) g"
  note D = lock_coreD [OF core]
  have kd': "keys_distinct s'" if "mlocks s' = mlocks s" for s'
    using keys_distinct_cong [of s' s] kd that by simp
  from step show ?thesis
  proof (cases rule: kstepE [consumes 1, case_names step_init step_take step_wait step_release step_yield
        step_sleep step_exit])
    case step_init
    then show ?thesis using kinv_init_lock [OF k] by simp
  next
    case (step_take i s' c)
    then show ?thesis using kinv_take [OF k] acquire_free [of i s L] by auto
  next
    case (step_wait i s')
    let ?a = "wait_for i (abs_sched L Q s)" and ?c = "current_running s"
    obtain Q' where Q': "sched_inv L Q' s'" "mlocks s' = mlocks s"
      and p: "(abs_sched L Q' s', Switched) = pick (wake (due_tasks L Q s) ?a)"
      by (rule acquire_held [OF inv run step_wait(2) len step_wait(3,4)])
         (use step_wait(5) in auto)
    have "waiters ?a = (waiters (abs_sched L Q s))(i := waiters (abs_sched L Q s) i @ [?c])"
      by (simp add: wait_for_def)
    then have "lock_core (waiters ?a) (mlocks s') (waits ?c i g)"
      using core_wait [OF core step_wait(4) pend] by (simp add: Q'(2))
    from kinv_scheduled [OF Q'(1) p this] show ?thesis
      using step_wait(1) len kd' [OF Q'(2)] by (simp add: Q'(2))
  next
    case (step_release i s')
    then show ?thesis using kinv_release [OF k] by simp
  next
    case (step_yield s' c)
    obtain Q' where Q': "sched_inv L Q' s'" "data_frame s s'"
      and p: "(abs_sched L Q' s', c) = pick (wake (due_tasks L Q s) (abs_sched L Q s))"
      by (rule do_scheduler_step [OF inv]) (use step_yield(2) in auto)
    have m: "mlocks s' = mlocks s" using Q'(2) by (simp add: data_frame_def)
    from kinv_scheduled [OF Q'(1) p, of g] show ?thesis
      using step_yield(1) core len run kd' [OF m] by (simp add: m)
  next
    case (step_sleep t s')
    obtain Q' ds where Q': "sched_inv L Q' s'" "mlocks s' = mlocks s"
      and p: "(abs_sched L Q' s', Switched) = pick (wake ds (fall_asleep (abs_sched L Q s)))"
      using do_sleep_refines_aux [OF inv run, of t] step_sleep(2) by auto
    have "waiters (fall_asleep (abs_sched L Q s)) = waiters (abs_sched L Q s)"
      by (simp add: fall_asleep_def)
    with kinv_scheduled [OF Q'(1) p, of g] show ?thesis
      using step_sleep(1) core len kd' [OF Q'(2)] by (simp add: Q'(2))
  next
    case (step_exit s')
    obtain Q' ds where Q': "sched_inv L Q' s'" "mlocks s' = mlocks s"
      and p: "(abs_sched L Q' s', Switched) = pick (wake ds (exited (abs_sched L Q s)))"
      using do_exit_refines_aux [OF inv run] step_exit(2) by auto
    have "waiters (exited (abs_sched L Q s)) = waiters (abs_sched L Q s)"
      by (simp add: exited_def)
    with kinv_scheduled [OF Q'(1) p, of g] show ?thesis
      using step_exit(1) core len kd' [OF Q'(2)] by (simp add: Q'(2))
  qed
qed

lemma kinv_reachable:
  assumes "(kstep L)\<^sup>*\<^sup>* sg sg'" and "kinv L sg"
  shows "kinv L sg'"
  using assms
proof (induction rule: rtranclp_induct)
  case (step y z)
  then show ?case by (cases y) (auto intro: kinv_step)
qed

text \<open>No task is inside a lock and none waits for one: where the system starts.\<close>

definition no_ghost :: ghost where
  "no_ghost = \<lparr>inside = (\<lambda>p. {}), pending = (\<lambda>p. None)\<rparr>"

lemma kinv_start:
  assumes "sched_inv L Q s" and "length (mlocks s) = LOCK_NUM" and "keys_distinct s"
    and "status s (current_running s) = TASK_RUNNING"
    and free: "\<And>i. i < LOCK_NUM \<Longrightarrow> lock (mlocks s ! i) = UNLOCKED \<and> queue_of Q (block_queue L i) = []"
  shows "kinv L (s, no_ghost)"
proof (rule kinvI [OF assms(1-4)])
  have "waiters (abs_sched L Q s) i = []" for i using free by (simp add: waiters_abs)
  moreover have "\<not> owns w no_ghost p i" for w p i by (simp add: owns_def no_ghost_def)
  ultimately show "lock_core (waiters (abs_sched L Q s)) (mlocks s) no_ghost"
    using free by (auto simp: lock_core_def)
qed (simp add: no_ghost_def)

text \<open>C2. Mutual exclusion: in every run of the scheduling and locking calls that starts with
  all locks free, two tasks that are both past an acquisition of the same lock and before its
  release are the same task. The runs are those in which a blocking call finds a task to switch
  to and only a task inside a lock releases it.\<close>

theorem mutex_mutual_exclusion:
  assumes "(kstep L)\<^sup>*\<^sup>* (s, no_ghost) (s', g)"
    and "sched_inv L Q s" and "length (mlocks s) = LOCK_NUM" and "keys_distinct s"
    and "status s (current_running s) = TASK_RUNNING"
    and "\<And>i. i < LOCK_NUM \<Longrightarrow> lock (mlocks s ! i) = UNLOCKED \<and> queue_of Q (block_queue L i) = []"
    and "i \<in> inside g p" and "i \<in> inside g q"
  shows "p = q \<and> lock (mlocks s' ! i) = LOCKED"
proof (rule kinvE [OF kinv_reachable [OF assms(1) kinv_start [OF assms(2-6)]]])
  fix Q' assume core: "lock_core (waiters (abs_sched L Q' s')) (mlocks s') g"
  have "owns w g p i" "owns w g q i" for w using assms(7,8) by (simp_all add: owns_def)
  then show ?thesis using lock_coreD(4,5) [OF core] by blast
qed

text \<open>C9. No lock is lost: in the same runs a lock word that is locked always belongs to a task
  that is inside the lock or to which a release has handed it over, and a lock that is free has
  nobody waiting for it.\<close>

theorem mutex_never_lost:
  assumes "(kstep L)\<^sup>*\<^sup>* (s, no_ghost) (s', g)"
    and "sched_inv L Q s" and "length (mlocks s) = LOCK_NUM" and "keys_distinct s"
    and "status s (current_running s) = TASK_RUNNING"
    and "\<And>i. i < LOCK_NUM \<Longrightarrow> lock (mlocks s ! i) = UNLOCKED \<and> queue_of Q (block_queue L i) = []"
    and i: "i < LOCK_NUM"
  shows "\<exists>Q'. sched_inv L Q' s' \<and>
     (if lock (mlocks s' ! i) = LOCKED
      then \<exists>p. i \<in> inside g p \<or>
               (pending g p = Some i \<and> p \<notin> set (waiters (abs_sched L Q' s') i))
      else waiters (abs_sched L Q' s') i = [])"
proof (rule kinvE [OF kinv_reachable [OF assms(1) kinv_start [OF assms(2-6)]]])
  fix Q' assume inv: "sched_inv L Q' s'"
    and core: "lock_core (waiters (abs_sched L Q' s')) (mlocks s') g"
  note D = lock_coreD [OF core]
  have "waiters (abs_sched L Q' s') i = []" if "lock (mlocks s' ! i) \<noteq> LOCKED"
    using D(6) [of _ i] that by (cases "waiters (abs_sched L Q' s') i") auto
  with D(7) [OF i] inv show ?thesis by (auto simp: owns_def)
qed

text \<open>C16. Without an idle task the lock does not exclude: when the running task acquires a held
  lock while nothing is ready and no sleeper is due, \<^verbatim>\<open>do_mutex_lock_acquire\<close> returns to it all the
  same, with the lock still held by the other task.\<close>

theorem acquire_idle_returns:
  assumes inv: "sched_inv L Q s" and run: "status s (current_running s) = TASK_RUNNING"
    and i: "i < LOCK_NUM" and len: "length (mlocks s) = LOCK_NUM"
    and k: "key (mlocks s ! i) \<noteq> - 1" and held: "lock (mlocks s ! i) = LOCKED"
    and idle: "queue_of Q (ready_queue L) = []" "due_tasks L Q s = []"
  shows "\<exists>s'. do_mutex_lock_acquire L (of_nat i) s = Inr (s', Returned) \<and>
     current_running s' = current_running s \<and> status s' (current_running s') = TASK_BLOCKED \<and>
     mlocks s' = mlocks s"
proof -
  have p: "pick (wake [] (wait_for i (abs_sched L Q s))) = (wake [] (wait_for i (abs_sched L Q s)), Returned)"
    using idle(1) by (simp add: pick_def wake_def wait_for_def abs_sched_def)
  obtain s' c Q' where s': "do_mutex_lock_acquire L (of_nat i) s = Inr (s', c)"
    "mlocks s' = mlocks s" "(abs_sched L Q' s', c) = pick (wake [] (wait_for i (abs_sched L Q s)))"
    by (rule acquire_held [OF inv run i len k held]) (use idle(2) in auto)
  then have c: "c = Returned" and a: "abs_sched L Q' s' = wake [] (wait_for i (abs_sched L Q s))"
    using p by simp_all
  have "current_running s' = current_running s" "status s' (current_running s) = TASK_BLOCKED"
    using arg_cong [OF a, of cur] arg_cong [OF a, of stat] by (simp_all add: wake_def wait_for_def)
  with s' c show ?thesis by auto
qed

section \<open>The properties of the locks on a concrete system\<close>

lemma demo_locks: "keys_distinct demo" "length (mlocks demo) = LOCK_NUM"
  by (simp_all add: keys_distinct_def)

definition demo_keyed :: kstate where
  "demo_keyed = demo\<lparr>mlocks := (mlocks demo)[0 := \<lparr>lock = UNLOCKED, key = 5\<rparr>]\<rparr>"

lemma demo_init_lock: "do_mutex_lock_init 5 demo = (demo_keyed, 0)"
  by (simp add: do_mutex_lock_init_def demo_keyed_def LOCK_NUM_def numeral_eq_Suc)

lemma demo_keyed_inv: "sched_inv demo_layout demo_rings demo_keyed"
  using demo_inv sched_inv_cong(1) [of demo_keyed demo demo_layout demo_rings]
  by (simp add: demo_keyed_def current_running_def)

lemma demo_keyed_simps [simp]:
  "status demo_keyed (pcb demo_layout 0) = TASK_RUNNING"
  "length (mlocks demo_keyed) = LOCK_NUM" "current_running demo_keyed = pcb demo_layout 0"
  "mlocks demo_keyed ! 0 = \<lparr>lock = UNLOCKED, key = 5\<rparr>" "0 < LOCK_NUM"
  using demo_current by (simp_all add: demo_keyed_def current_running_def LOCK_NUM_def)

lemma demo_keyed_distinct: "keys_distinct demo_keyed"
  using do_mutex_lock_init_spec_aux [OF demo_locks _ demo_init_lock] by simp

lemma demo_keyed_free:
  "i < LOCK_NUM \<Longrightarrow> lock (mlocks demo_keyed ! i) = UNLOCKED \<and>
     queue_of demo_rings (block_queue demo_layout i) = []"
  by (simp add: demo_keyed_def nth_list_update)

lemma do_mutex_lock_init_spec_witness:
  "do_mutex_lock_init 5 demo = (demo_keyed, 0) \<and> keys_distinct demo_keyed"
  using do_mutex_lock_init_spec [OF demo_locks _ demo_init_lock] demo_init_lock by simp

lemma minus_one_lock_is_none_witness:
  "do_mutex_lock_init (- 1) demo = (demo, 0) \<and>
     do_mutex_lock_acquire demo_layout 0 demo = Inr (demo, Returned)"
proof -
  have "find_key (- 1) 0 (mlocks demo) = Some 0"
    by (simp add: LOCK_NUM_def numeral_eq_Suc)
  from minus_one_lock_is_none [OF this demo_locks(2), of demo_layout] show ?thesis by simp
qed

lemma mutex_acquire_refines_witness:
  "\<exists>s'. do_mutex_lock_acquire demo_layout 0 demo_keyed = Inr (s', Returned) \<and>
     lock (mlocks s' ! 0) = LOCKED"
  using mutex_acquire_refines [OF demo_keyed_inv, of 0] by auto

lemma mutex_release_refines_witness:
  "\<exists>s'. do_mutex_lock_release demo_layout 0 demo_keyed = Inr s' \<and>
     lock (mlocks s' ! 0) = UNLOCKED"
  using mutex_release_refines [OF demo_keyed_inv, of 0] by (auto simp: waiters_abs)

definition demo_taken :: kstate where
  "demo_taken = set_lock 0 LOCKED demo_keyed"

lemma demo_take: "(kstep demo_layout)\<^sup>*\<^sup>* (demo_keyed, no_ghost)
    (demo_taken, entered (pcb demo_layout 0) 0 no_ghost)"
  using step_take [of 0 demo_keyed demo_layout demo_taken Returned no_ghost]
    acquire_free [of 0 demo_keyed demo_layout]
  by (intro r_into_rtranclp) (simp add: demo_taken_def)

lemma mutex_mutual_exclusion_witness:
  "lock (mlocks demo_taken ! 0) = LOCKED \<and>
     0 \<in> inside (entered (pcb demo_layout 0) 0 no_ghost) (pcb demo_layout 0)"
  using mutex_mutual_exclusion [OF demo_take demo_keyed_inv _ demo_keyed_distinct _ demo_keyed_free,
      of 0 "pcb demo_layout 0" "pcb demo_layout 0"] by simp

lemma mutex_never_lost_witness:
  "\<exists>Q'. sched_inv demo_layout Q' demo_taken"
  using mutex_never_lost [OF demo_take demo_keyed_inv _ demo_keyed_distinct _ demo_keyed_free, of 0]
  by auto

lemma demo_taken_inv: "sched_inv demo_layout demo_rings demo_taken"
  unfolding demo_taken_def by (simp add: demo_keyed_inv)

lemma acquire_idle_returns_witness:
  "\<exists>s'. do_mutex_lock_acquire demo_layout 0 demo_taken = Inr (s', Returned) \<and>
     status s' (current_running s') = TASK_BLOCKED \<and> mlocks s' = mlocks demo_taken"
  using acquire_idle_returns [OF demo_taken_inv, of 0]
  by (auto simp: demo_taken_def mlocks_set_lock due_tasks_def)

end
