(* ===== verification/Thread.thy ===== *)
theory Thread
  imports Demo_System
begin

text \<open>
  Threads (\<^verbatim>\<open>kernel/sched/thread.c\<close>) and how a new task first gets to run: the frames that
  \<^verbatim>\<open>init_tcb_stack\<close> and \<^verbatim>\<open>init_pcb_stack\<close> (\<^verbatim>\<open>init/main.c\<close>) write are the ones that \<^verbatim>\<open>switch_to\<close> and
  \<^verbatim>\<open>ret_from_exception\<close> take apart.
\<close>

section \<open>The initial stack of a task\<close>

definition SIZEOF_REGS_CONTEXT :: u64 where "SIZEOF_REGS_CONTEXT = 288"
definition SIZEOF_SWITCHTO_CONTEXT :: u64 where "SIZEOF_SWITCHTO_CONTEXT = 112"

definition init_tcb_stack ::
  "layout \<Rightarrow> ptr \<Rightarrow> ptr \<Rightarrow> ptr \<Rightarrow> ptr \<Rightarrow> u64 \<Rightarrow> u64 \<Rightarrow> u64 \<Rightarrow> u64 \<Rightarrow> machine \<Rightarrow> machine" where
  "init_tcb_stack L kernel_stack user_stack entry_point tcb a0 a1 a2 a3 m =
     (let pt_regs = kernel_stack - SIZEOF_REGS_CONTEXT;
          m = st64 (pt_regs + OFFSET_REG SP) user_stack m;
          m = st64 (pt_regs + OFFSET_REG TP) tcb m;
          m = st64 (pt_regs + OFFSET_REG A0) a0 m;
          m = st64 (pt_regs + OFFSET_REG A1) a1 m;
          m = st64 (pt_regs + OFFSET_REG A2) a2 m;
          m = st64 (pt_regs + OFFSET_REG A3) a3 m;
          m = st64 (pt_regs + OFFSET_REG_SEPC) entry_point m;
          m = st64 (pt_regs + OFFSET_REG_SSTATUS) SR_SPIE m;
          pt_switchto = pt_regs - SIZEOF_SWITCHTO_CONTEXT;
          m = st64 (tcb + PCB_KERNEL_SP) pt_switchto m;
          m = st64 (tcb + PCB_USER_SP) user_stack m;
          m = st64 (pt_switchto + SWITCH_TO_RA) (ret_from_exception_at L) m
      in st64 (pt_switchto + SWITCH_TO_SP) pt_switchto m)"

definition init_pcb_stack ::
  "layout \<Rightarrow> ptr \<Rightarrow> ptr \<Rightarrow> ptr \<Rightarrow> ptr \<Rightarrow> machine \<Rightarrow> machine" where
  "init_pcb_stack L kernel_stack user_stack entry_point p m =
     (let pt_regs = kernel_stack - SIZEOF_REGS_CONTEXT;
          m = st64 (pt_regs + OFFSET_REG SP) user_stack m;
          m = st64 (pt_regs + OFFSET_REG TP) p m;
          m = st64 (pt_regs + OFFSET_REG_SEPC) entry_point m;
          m = st64 (pt_regs + OFFSET_REG_SSTATUS) SR_SPIE m;
          pt_switchto = pt_regs - SIZEOF_SWITCHTO_CONTEXT;
          m = st64 (p + PCB_KERNEL_SP) pt_switchto m;
          m = st64 (p + PCB_USER_SP) user_stack m;
          m = st64 (pt_switchto + SWITCH_TO_RA) (ret_from_exception_at L) m
      in st64 (pt_switchto + SWITCH_TO_SP) pt_switchto m)"

section \<open>Creating and yielding to threads (kernel/sched/thread.c)\<close>

text \<open>The addresses \<^verbatim>\<open>do_thread_create\<close> computes: the control block and the user stack.\<close>

definition new_thread :: "mm_state \<Rightarrow> mm_state \<times> ptr \<times> ptr" where
  "new_thread mm0 =
     (let (mm1, k) = allocKernelPage 1 mm0;
          kernel_stack = k + scast PAGE_SIZE;
          (mm2, u) = allocUserPage 16 mm1;
          user_stack = u + scast (PAGE_SIZE * 16)
      in (mm2, kernel_stack - SIZEOF_PCB, user_stack))"

definition do_thread_create ::
  "layout \<Rightarrow> u64 \<Rightarrow> u64 \<Rightarrow> u64 \<Rightarrow> u64 \<Rightarrow> u64 \<Rightarrow> kstate \<Rightarrow> kstate" where
  "do_thread_create L func arg0 arg1 arg2 arg3 s =
     (let (mm1, kernel_stack, user_stack) = new_thread (mm s);
          thread_tcb = kernel_stack;
          s1 = s\<lparr>mm := mm1\<rparr>;
          s2 = s1\<lparr>pid := (pid s1)(thread_tcb := pid s1 (current_running s1))\<rparr>;
          s3 = set_status thread_tcb TASK_READY s2;
          s4 = on_lists (init_list_head (pcb_list thread_tcb)) s3;
          s5 = on_lists (init_list_head (pcb_thread_group thread_tcb)) s4;
          s6 = s5\<lparr>mach := init_tcb_stack L kernel_stack user_stack func thread_tcb
                              arg0 arg1 arg2 arg3 (mach s5)\<rparr>
      in on_lists (list_add (pcb_thread_group thread_tcb)
                            (pcb_thread_group (current_running s6))) s6)"

definition do_thread_yield :: "layout \<Rightarrow> kstate \<Rightarrow> kstate \<times> ctl" where
  "do_thread_yield L s =
     (let pre_running = current_running s;
          s1 = set_current (list_entry_group (nxt (ls s) (pcb_thread_group pre_running))) s;
          s2 = set_status pre_running TASK_READY s1;
          s3 = set_status (current_running s2) TASK_RUNNING s2;
          s4 = on_lists (init_list_head (pcb_list (current_running s3))) s3
      in (call_switch_to L pre_running (current_running s4) s4, Switched))"

section \<open>Launching a task\<close>

text \<open>
  \<open>ready_context m t f\<close>: the memory holds, for the task \<open>t\<close>, a switch frame at \<open>f\<close> whose
  return address is \<open>ra\<close>, and a trap frame above it that names \<open>t\<close> and user mode.
\<close>

definition ready_context :: "(ptr \<Rightarrow> reg) \<Rightarrow> ptr \<Rightarrow> ptr \<Rightarrow> ptr \<Rightarrow> bool" where
  "ready_context d t f ra \<longleftrightarrow>
     d t = f \<and> d f = ra \<and> d (f + 8) = f \<and>
     d (f + SWITCH_TO_SIZE + OFFSET_REG TP) = t \<and>
     d (f + SWITCH_TO_SIZE + OFFSET_REG_SSTATUS) = SR_SPIE \<and>
     t \<noteq> f + SWITCH_TO_SIZE + OFFSET_REG SP"

definition task_memory :: "ptr \<Rightarrow> ptr \<Rightarrow> ptr set" where
  "task_memory t f = insert t (switch_frame f \<union> trap_frame (f + SWITCH_TO_SIZE))"

lemma task_memory_in:
  "t \<in> task_memory t f" "f \<in> task_memory t f" "f + 8 \<in> task_memory t f"
  "i < 12 \<Longrightarrow> f + SWITCH_TO_S i \<in> task_memory t f"
  "r < 36 \<Longrightarrow> f + SWITCH_TO_SIZE + OFFSET_REG r \<in> task_memory t f"
  "f + SWITCH_TO_SIZE + OFFSET_REG_SSTATUS \<in> task_memory t f"
  "f + SWITCH_TO_SIZE + OFFSET_REG_SEPC \<in> task_memory t f"
proof -
  have r: "r < 36 \<Longrightarrow> f + SWITCH_TO_SIZE + OFFSET_REG r \<in> task_memory t f" for r
    by (simp add: task_memory_def trap_frame_def)
  then show "r < 36 \<Longrightarrow> f + SWITCH_TO_SIZE + OFFSET_REG r \<in> task_memory t f" .
  show "f + SWITCH_TO_SIZE + OFFSET_REG_SSTATUS \<in> task_memory t f"
    "f + SWITCH_TO_SIZE + OFFSET_REG_SEPC \<in> task_memory t f"
    using r [of 32] r [of 33] by (simp_all only: OFFSET_REG_csr)
qed (simp_all add: task_memory_def switch_frame_code)

lemma launch:
  fixes c t f ra m
  assumes d: "ready_context (dmem m) t f ra"
    and disj: "insert c (switch_frame (gpr m SP - SWITCH_TO_SIZE)) \<inter> task_memory t f = {}"
  defines "m1 \<equiv> switch_to c t m"
  defines "m2 \<equiv> exec ret_from_exception m1"
  shows "pc m1 = ra" and "gpr m1 SP = f + SWITCH_TO_SIZE"
    and "1 \<le> r \<Longrightarrow> r < 32 \<Longrightarrow> gpr m2 r = dmem m (f + SWITCH_TO_SIZE + OFFSET_REG r)"
    and "pc m2 = dmem m (f + SWITCH_TO_SIZE + OFFSET_REG_SEPC)"
    and "user_mode m2" and "dmem m2 t = f + SWITCH_TO_SIZE"
proof -
  let ?k = "f + SWITCH_TO_SIZE"
  have keep: "dmem (switch_save c t m) p = dmem m p" if "p \<in> task_memory t f" for p
    using disj that by (intro switch_save_other) auto
  have A1: "gpr (switch_save c t m) A1 = t" by (simp add: switch_save_regs)
  have dm: "dmem m t = f" "dmem m f = ra" "dmem m (f + 8) = f"
    "dmem m (?k + OFFSET_REG TP) = t" "dmem m (?k + OFFSET_REG_SSTATUS) = SR_SPIE"
    and tk: "t \<noteq> ?k + OFFSET_REG SP"
    using d by (simp_all add: ready_context_def)
  have n: "dmem (switch_save c t m) t = f" "dmem (switch_save c t m) f = ra"
    "dmem (switch_save c t m) (f + 8) = f"
    using keep task_memory_in dm by simp_all
  show "pc m1 = ra" and sp: "gpr m1 SP = ?k"
    unfolding m1_def switch_to_split using switch_load_simps(4,5) [of "switch_save c t m"]
    by (simp_all add: A1 n)
  have mem1: "dmem m1 = dmem (switch_save c t m)"
    unfolding m1_def switch_to_split by (rule switch_load_simps(1))
  have m1k: "dmem m1 (?k + OFFSET_REG r) = dmem m (?k + OFFSET_REG r)" if "r < 36" for r
    unfolding mem1 by (rule keep, rule task_memory_in(5) [OF that])
  have tp: "dmem m1 (gpr m1 SP + OFFSET_REG TP) = t"
    unfolding sp using m1k [of TP] dm(4) by simp
  have ne: "dmem m1 (gpr m1 SP + OFFSET_REG TP) \<noteq> gpr m1 SP + OFFSET_REG SP"
    unfolding tp unfolding sp by (rule tk)
  note R = ret_from_exception_regs [OF ne, folded m2_def, unfolded tp, unfolded sp]
  show "1 \<le> r \<Longrightarrow> r < 32 \<Longrightarrow> gpr m2 r = dmem m (?k + OFFSET_REG r)"
    using R(1) [of r] m1k [of r] by simp
  show "pc m2 = dmem m (?k + OFFSET_REG_SEPC)"
    using R(2) keep [OF task_memory_in(7)] by (simp add: mem1)
  show "user_mode m2"
    using R(3) keep [OF task_memory_in(6)] dm(5) by (simp add: mem1)
  show "dmem m2 t = ?k" using R(4) by simp
qed

lemmas frame_offsets = OFFSET_REG_def SIZEOF_REGS_CONTEXT_def SIZEOF_SWITCHTO_CONTEXT_def

text \<open>What \<^verbatim>\<open>init_tcb_stack\<close> leaves in memory, for a control block just above the frames.\<close>

lemma init_tcb_stack_mem:
  fixes k us entry a0 a1 a2 a3 m L
  defines "f \<equiv> k - 400" and "d \<equiv> dmem (init_tcb_stack L k us entry k a0 a1 a2 a3 m)"
  shows "ready_context d k f (ret_from_exception_at L)"
    and "d (f + SWITCH_TO_SIZE + OFFSET_REG SP) = us"
    and "d (f + SWITCH_TO_SIZE + OFFSET_REG A0) = a0"
    and "d (f + SWITCH_TO_SIZE + OFFSET_REG A1) = a1"
    and "d (f + SWITCH_TO_SIZE + OFFSET_REG A2) = a2"
    and "d (f + SWITCH_TO_SIZE + OFFSET_REG A3) = a3"
    and "d (f + SWITCH_TO_SIZE + OFFSET_REG_SEPC) = entry"
    and "d (k + PCB_USER_SP) = us"
  unfolding d_def f_def ready_context_def
  by (simp_all add: init_tcb_stack_def Let_def frame_offsets algebra_simps)

lemma init_tcb_stack_regs [simp]:
  "gpr (init_tcb_stack L k us entry t a0 a1 a2 a3 m) = gpr m"
  "csrs (init_tcb_stack L k us entry t a0 a1 a2 a3 m) = csrs m"
  by (simp_all add: init_tcb_stack_def Let_def)

text \<open>The same for \<^verbatim>\<open>init_pcb_stack\<close>, for a control block away from the frames.\<close>

lemma init_pcb_stack_mem:
  fixes k us entry p m L
  defines "f \<equiv> k - 400" and "d \<equiv> dmem (init_pcb_stack L k us entry p m)"
  assumes p: "p \<notin> switch_frame f \<union> trap_frame (f + SWITCH_TO_SIZE)"
    and p8: "p + 8 \<notin> switch_frame f \<union> trap_frame (f + SWITCH_TO_SIZE)"
  shows "ready_context d p f (ret_from_exception_at L)"
    and "d (f + SWITCH_TO_SIZE + OFFSET_REG SP) = us"
    and "d (f + SWITCH_TO_SIZE + OFFSET_REG_SEPC) = entry"
    and "d (p + PCB_USER_SP) = us"
proof -
  have ne: "p \<noteq> k - 400 \<and> p \<noteq> k - 392 \<and> p \<noteq> k - 272 \<and> p \<noteq> k - 256 \<and> p \<noteq> k - 24 \<and> p \<noteq> k - 32 \<and>
      p + 8 \<noteq> k - 400 \<and> p + 8 \<noteq> k - 392 \<and> p + 8 \<noteq> k - 272 \<and> p + 8 \<noteq> k - 256 \<and>
      p + 8 \<noteq> k - 24 \<and> p + 8 \<noteq> k - 32"
  proof -
    have "p \<noteq> f + SWITCH_TO_SIZE + OFFSET_REG r \<and> p + 8 \<noteq> f + SWITCH_TO_SIZE + OFFSET_REG r"
      if "r < 36" for r
      using p p8 that by (auto simp: trap_frame_def)
    from this [of 2] this [of 4] this [of 32] this [of 33]
    have t: "p \<noteq> k - 272 \<and> p \<noteq> k - 256 \<and> p \<noteq> k - 32 \<and> p \<noteq> k - 24 \<and>
        p + 8 \<noteq> k - 272 \<and> p + 8 \<noteq> k - 256 \<and> p + 8 \<noteq> k - 32 \<and> p + 8 \<noteq> k - 24"
      by (simp add: f_def OFFSET_REG_def algebra_simps)
    have "p \<noteq> f \<and> p \<noteq> f + 8 \<and> p + 8 \<noteq> f \<and> p + 8 \<noteq> f + 8"
      using p p8 by (auto simp: switch_frame_code)
    with t show ?thesis by (simp add: f_def algebra_simps)
  qed
  then show "ready_context d p f (ret_from_exception_at L)"
    and "d (f + SWITCH_TO_SIZE + OFFSET_REG SP) = us"
    and "d (f + SWITCH_TO_SIZE + OFFSET_REG_SEPC) = entry"
    and "d (p + PCB_USER_SP) = us"
    unfolding d_def f_def ready_context_def
    by (auto simp: init_pcb_stack_def Let_def frame_offsets algebra_simps)
qed

section \<open>What creating a thread does\<close>

lemma do_thread_create_simps:
  fixes s L func a0 a1 a2 a3
  defines "s' \<equiv> do_thread_create L func a0 a1 a2 a3 s"
  assumes n: "new_thread (mm s) = (mm1, t, us)"
  shows "mm s' = mm1" and "status s' = (status s)(t := TASK_READY)"
    and "pid s' = (pid s)(t := pid s (current_running s))"
    and "current_running s' = current_running s" and "mlocks s' = mlocks s"
    and "ls s' = list_add (pcb_thread_group t) (pcb_thread_group (current_running s))
                   (init_list_head (pcb_thread_group t) (init_list_head (pcb_list t) (ls s)))"
    and "dmem (mach s') = dmem (init_tcb_stack L t us func t a0 a1 a2 a3 (mach s))"
    and "gpr (mach s') = gpr (mach s)"
  using n by (simp_all add: s'_def do_thread_create_def Let_def current_running_def
      set_status_def on_lists_def)

lemma thread_group_ne_list: "pcb_thread_group p \<noteq> pcb_list p"
  by (simp add: pcb_thread_group_def pcb_list_def OFFSETOF_LIST_def OFFSETOF_THREAD_GROUP_def)

lemma create_rep:
  assumes h: "rep h Q" and g: "Q g = Some xs" and l: "l \<notin> nodes Q" and n: "n \<notin> nodes Q"
    and ln: "l \<noteq> n"
  shows "rep (list_add n g (init_list_head n (init_list_head l h))) (Q(l \<mapsto> [], g \<mapsto> n # xs))"
proof -
  have h1: "rep (init_list_head l h) (Q(l \<mapsto> []))" by (rule rep_init [OF h l])
  have gl: "g \<noteq> l" "g \<noteq> n" using g l n by (auto intro: nodes_root)
  have n1: "n \<notin> nodes (Q(l \<mapsto> []))"
    using n ln by (auto simp: nodes_def split: if_splits)
  have h2: "rep (init_list_head n (init_list_head l h)) (Q(l \<mapsto> [], n \<mapsto> []))"
    by (rule rep_init [OF h1 n1])
  have h3: "rep (init_list_head n (init_list_head l h)) (Q(l \<mapsto> []))"
    using rep_restrict [OF h2, of n] n ln fun_upd_idem [of "Q(l \<mapsto> [])" n None]
    by (cases "Q n") auto
  show ?thesis
    using rep_add [OF h3 _ n1, of g xs] gl g by (simp add: pushfront_def)
qed

text \<open>C12. \<^verbatim>\<open>do_thread_create\<close>: the new control block, on pages of its own, gets the creator's
  process id and is marked ready; its list node is alone and it follows the creator in the
  thread group. Nothing else changes in any queue: in particular the new thread is not put on
  the ready queue, so the scheduler never picks it and only \<^verbatim>\<open>do_thread_yield\<close> reaches it.\<close>

theorem do_thread_create_spec:
  assumes inv: "sched_inv L Q s" and run: "status s (current_running s) = TASK_RUNNING"
    and n: "new_thread (mm s) = (mm1, t, us)"
    and g: "Q (pcb_thread_group (current_running s)) = Some xs"
    and gh: "pcb_thread_group (current_running s) \<notin> heads L"
    and fresh: "pcb_list t \<notin> nodes Q" "pcb_thread_group t \<notin> nodes Q"
  shows "\<exists>s' Q'. s' = do_thread_create L func a0 a1 a2 a3 s \<and> sched_inv L Q' s' \<and>
     Q' (pcb_thread_group (current_running s)) = Some (pcb_thread_group t # xs) \<and>
     Q' (pcb_list t) = Some [] \<and>
     abs_sched L Q' s' = (abs_sched L Q s)\<lparr>stat := (status s)(t := TASK_READY)\<rparr> \<and>
     pid s' t = pid s (current_running s) \<and> mm s' = mm1 \<and> mlocks s' = mlocks s"
proof -
  let ?s = "do_thread_create L func a0 a1 a2 a3 s"
  let ?g = "pcb_thread_group (current_running s)" and ?c = "pcb_list (current_running s)"
  let ?Q = "Q(pcb_list t \<mapsto> [], ?g \<mapsto> pcb_thread_group t # xs)"
  note D = sched_invD [OF inv]
  note S = do_thread_create_simps [OF n, of L func a0 a1 a2 a3]
  have h: "rep (ls ?s) ?Q"
    unfolding S(6) using create_rep [OF D(2) g fresh] thread_group_ne_list [of t] by metis
  have q: "queue_of ?Q k = queue_of Q k" if k: "k \<in> heads L" for k
  proof -
    obtain ys where "Q k = Some ys" by (rule sched_inv_queue [OF inv k])
    then have "k \<noteq> pcb_list t" using fresh(1) by (auto intro: nodes_root)
    moreover have "k \<noteq> ?g" using gh k by auto
    ultimately show ?thesis by (simp add: queue_of_def)
  qed
  have tn: "list_entry_list m \<noteq> t" if k: "k \<in> heads L" and m: "m \<in> set (queue_of Q k)" for k m
  proof -
    obtain ys where "Q k = Some ys" "queue_of Q k = ys" by (rule sched_inv_queue [OF inv k])
    then have "m \<noteq> pcb_list t" using m fresh(1) by (auto intro: nodes_member)
    then show ?thesis by auto
  qed
  have c: "Q ?c = Some []" by (rule D(7) [OF run])
  then have "?c \<noteq> pcb_list t" using fresh(1) by (auto intro: nodes_root)
  then have tc: "t \<noteq> current_running s" and c': "?Q ?c = Some []"
    using c thread_group_ne_list [of "current_running s"] by auto
  have inv': "sched_inv L ?Q ?s"
  proof (rule sched_invI [OF D(1) h])
    show "heads L \<subseteq> dom ?Q" using D(3) by auto
    show "status ?s (list_entry_list m) = TASK_READY"
      if "m \<in> set (queue_of ?Q (ready_queue L))" for m
      using that D(5) [of m] q by (simp add: S)
    show "status ?s (list_entry_list m) = TASK_BLOCKED"
      if "k \<in> heads L" "k \<noteq> ready_queue L" "m \<in> set (queue_of ?Q k)" for k m
      using that D(6) [of k m] q tn by (simp add: S)
    show "status ?s p \<noteq> TASK_RUNNING" if "p \<noteq> current_running ?s" for p
      using that D(8) [of p] by (simp add: S)
    show "parked (pcb_list (current_running ?s)) ?Q"
      unfolding S(4) by (rule parked_alone [of ?Q, OF c'])
  qed (use D(4) c' in \<open>simp_all add: S\<close>)
  have "abs_sched L ?Q ?s = (abs_sched L Q s)\<lparr>stat := (status s)(t := TASK_READY)\<rparr>"
    using q by (simp add: abs_sched_def S cong: if_cong)
  moreover have "pcb_list t \<noteq> ?g" using fresh(1) g by (auto intro: nodes_root)
  ultimately show ?thesis using inv' by (intro exI [of _ ?s] exI [of _ ?Q]) (simp add: S)
qed

text \<open>C8. A new thread starts where it was told to: once a switch from \<open>c\<close> picks it, with its
  frames untouched since \<^verbatim>\<open>do_thread_create\<close>, \<^verbatim>\<open>switch_to\<close> lands in \<^verbatim>\<open>ret_from_exception\<close>, and that
  leaves the machine in user mode at the thread's function, on its own stack, with the four
  arguments in their registers, \<^verbatim>\<open>tp\<close> at its control block, and its kernel stack pointer reset.\<close>

theorem thread_launch:
  assumes n: "new_thread (mm s) = (mm1, t, us)"
    and kept: "\<And>p. p \<in> task_memory t (t - 400) \<Longrightarrow>
        dmem m p = dmem (mach (do_thread_create L func a0 a1 a2 a3 s)) p"
    and disj: "insert c (switch_frame (gpr m SP - SWITCH_TO_SIZE)) \<inter> task_memory t (t - 400) = {}"
  defines "m1 \<equiv> switch_to c t m"
  defines "m2 \<equiv> exec ret_from_exception m1"
  shows "pc m1 = ret_from_exception_at L \<and> pc m2 = func \<and> user_mode m2 \<and>
     gpr m2 SP = us \<and> gpr m2 TP = t \<and>
     gpr m2 A0 = a0 \<and> gpr m2 A1 = a1 \<and> gpr m2 A2 = a2 \<and> gpr m2 A3 = a3 \<and>
     dmem m2 t = t - SIZEOF_REGS_CONTEXT"
proof -
  note S = do_thread_create_simps(7) [OF n, of L func a0 a1 a2 a3]
  note I = init_tcb_stack_mem [where k = t and L = L and us = us and entry = func
      and ?a0.0 = a0 and ?a1.0 = a1 and ?a2.0 = a2 and ?a3.0 = a3 and m = "mach s"]
  note inm = task_memory_in [where t = t and f = "t - 400"]
  have d: "dmem m p = dmem (init_tcb_stack L t us func t a0 a1 a2 a3 (mach s)) p"
    if "p \<in> task_memory t (t - 400)" for p
    using kept [OF that] by (simp add: S)
  have tf: "dmem m (t - 400 + SWITCH_TO_SIZE + OFFSET_REG r) =
      dmem (init_tcb_stack L t us func t a0 a1 a2 a3 (mach s)) (t - 400 + SWITCH_TO_SIZE + OFFSET_REG r)"
    if "r < 36" for r
    by (rule d, rule inm(5) [OF that])
  have rc: "ready_context (dmem m) t (t - 400) (ret_from_exception_at L)"
    using I(1) d [OF inm(1)] d [OF inm(2)] d [OF inm(3)] d [OF inm(6)] tf [of TP]
    by (simp add: ready_context_def)
  note La = launch [OF rc disj, folded m1_def, folded m2_def]
  have ret: "dmem m (t - 400 + SWITCH_TO_SIZE + OFFSET_REG_SEPC) = func"
    using d [OF inm(7)] I(7) by simp
  have tp: "dmem m (t - 400 + SWITCH_TO_SIZE + OFFSET_REG TP) = t"
    using rc by (simp add: ready_context_def)
  have k: "t - 400 + SWITCH_TO_SIZE = t - SIZEOF_REGS_CONTEXT"
    by (simp add: SIZEOF_REGS_CONTEXT_def)
  show ?thesis
    using La(1,4,5,6) La(3) [of SP] La(3) [of TP] La(3) [of A0] La(3) [of A1] La(3) [of A2]
      La(3) [of A3] ret tp tf [of SP] tf [of A0] tf [of A1] tf [of A2] tf [of A3] I(2-6) k
    by simp
qed

section \<open>What yielding to a thread does\<close>

lemma do_thread_yield_simps:
  fixes s L
  defines "s' \<equiv> fst (do_thread_yield L s)"
  assumes nx: "nxt (ls s) (pcb_thread_group (current_running s)) = pcb_thread_group t"
  shows "current_running s' = t"
    and "status s' = (status s)(current_running s := TASK_READY, t := TASK_RUNNING)"
    and "ls s' = init_list_head (pcb_list t) (ls s)"
    and "mlocks s' = mlocks s" and "mm s' = mm s" and "pid s' = pid s"
    and "mach s' = switch_to (current_running s) t (wr RA (after_switch L) (wr TP t (mach s)))"
  using nx by (simp_all add: s'_def do_thread_yield_def Let_def)
     (simp add: call_switch_to_def set_current_def set_status_def on_lists_def current_running_def)

text \<open>\<^verbatim>\<open>do_thread_yield\<close> runs the next thread of the caller's group in the order of the ring:
  the caller becomes ready and leaves the processor without joining any queue, the next thread
  runs, and the scheduler's queues are as they were. A thread alone in its group yields to
  itself.\<close>

lemma do_thread_yield_spec:
  assumes inv: "sched_inv L Q s" and run: "status s (current_running s) = TASK_RUNNING"
    and g: "Q (pcb_thread_group (current_running s)) = Some ns"
    and t: "hd (ns @ [pcb_thread_group (current_running s)]) = pcb_thread_group t"
    and alone: "Q (pcb_list t) = Some []" and th: "pcb_list t \<notin> heads L"
  shows "\<exists>s'. do_thread_yield L s = (s', Switched) \<and> sched_inv L Q s' \<and>
     abs_sched L Q s' =
       (abs_sched L Q s)\<lparr>cur := t,
          stat := (status s)(current_running s := TASK_READY, t := TASK_RUNNING)\<rparr> \<and>
     mach s' = switch_to (current_running s) t (wr RA (after_switch L) (wr TP t (mach s)))"
proof -
  note D = sched_invD [OF inv]
  let ?s = "fst (do_thread_yield L s)"
  have nx: "nxt (ls s) (pcb_thread_group (current_running s)) = pcb_thread_group t"
    using dseg_nxt [of "ls s" _ ns] rep_queue_at [OF D(2) g] t by (auto simp: queue_at_def)
  note S = do_thread_yield_simps [OF nx, of L]
  have h: "rep (ls ?s) Q"
  proof -
    have "pcb_list t \<notin> nodes (Q(pcb_list t := None))"
      using rep_disjoint [OF D(2) _ alone] by (fastforce simp: nodes_def split: if_splits)
    from rep_init [OF rep_restrict [OF D(2)] this] alone show ?thesis
      unfolding S(3) by (simp add: fun_upd_idem)
  qed
  have nq: "list_entry_list m \<noteq> t \<and> list_entry_list m \<noteq> current_running s"
    if k: "k \<in> heads L" and m: "m \<in> set (queue_of Q k)" for k m
  proof -
    obtain ys where ys: "Q k = Some ys" "queue_of Q k = ys" by (rule sched_inv_queue [OF inv k])
    have "k \<noteq> pcb_list t" using th k by auto
    with rep_disjoint [OF D(2) ys(1) alone] have "m \<noteq> pcb_list t" using m ys(2) by auto
    moreover have "m \<noteq> pcb_list (current_running s)" using running_not_queued [OF inv run k] m by auto
    ultimately show ?thesis using pcb_list_entry [of m] by metis
  qed
  have "sched_inv L Q ?s"
  proof (rule sched_invI [OF D(1) h D(3)])
    show "status ?s (list_entry_list m) = TASK_READY"
      if "m \<in> set (queue_of Q (ready_queue L))" for m
      using D(5) [OF that] nq [OF _ that] by (simp add: S)
    show "status ?s (list_entry_list m) = TASK_BLOCKED"
      if "k \<in> heads L" "k \<noteq> ready_queue L" "m \<in> set (queue_of Q k)" for k m
      using D(6) [OF that] nq [OF that(1,3)] by (simp add: S)
    show "status ?s p \<noteq> TASK_RUNNING" if "p \<noteq> current_running ?s" for p
      using that D(8) [of p] by (auto simp: S)
  qed (use th alone in \<open>simp_all add: S parked_alone\<close>)
  moreover have "abs_sched L Q ?s = (abs_sched L Q s)\<lparr>cur := t,
      stat := (status s)(current_running s := TASK_READY, t := TASK_RUNNING)\<rparr>"
    by (simp add: abs_sched_def S)
  moreover have "do_thread_yield L s = (?s, Switched)"
    by (simp add: do_thread_yield_def Let_def)
  ultimately show ?thesis using S(7) by blast
qed

section \<open>Threads of a concrete system\<close>

definition demo_thread :: ptr where "demo_thread = 0x50501fb8"

lemma demo_new_thread: "new_thread (mm demo) =
    (\<lparr>kernMemCurr = 0x50502000, userMemCurr = 0x52510000\<rparr>, demo_thread, 0x52510000)"
  unfolding demo_def kstate.select_convs demo_thread_def by code_simp

lemma demo_group: "demo_rings (pcb_thread_group (pcb demo_layout i)) = Some []" if "i = 0 \<or> i = 1"
  using that by (auto simp: demo_rings_def fresh_rings_def demo_nodes_def)

lemma demo_group_head: "pcb_thread_group (pcb demo_layout 0) \<notin> heads demo_layout"
proof -
  have "pcb_thread_group (pcb demo_layout 0) \<notin> set (head_list demo_layout)" by code_simp
  then show ?thesis by (simp add: set_head_list)
qed

lemma demo_thread_fresh:
  "pcb_list demo_thread \<notin> nodes demo_rings" "pcb_thread_group demo_thread \<notin> nodes demo_rings"
  unfolding demo_rings_def nodes_fresh by code_simp+

lemma do_thread_create_spec_witness:
  "\<exists>s' Q'. s' = do_thread_create demo_layout 0x52000000 1 2 3 4 demo \<and>
     sched_inv demo_layout Q' s' \<and> status s' demo_thread = TASK_READY"
  using do_thread_create_spec [where func = "0x52000000" and ?a0.0 = 1 and ?a1.0 = 2 and ?a2.0 = 3 and ?a3.0 = 4,
      OF demo_inv _ demo_new_thread, of "[]"]
    demo_group demo_group_head demo_thread_fresh
  by (auto simp: abs_sched_def)

lemma do_thread_yield_spec_witness:
  "\<exists>s'. do_thread_yield demo_layout demo = (s', Switched) \<and> sched_inv demo_layout demo_rings s'"
proof -
  have "demo_rings (pcb_list (pcb demo_layout 0)) = Some []"
    by (simp add: demo_rings_def fresh_rings_def demo_nodes_def)
  then show ?thesis
    using do_thread_yield_spec [OF demo_inv, of "[]" "pcb demo_layout 0"] demo_group [of 0]
      demo_task1(2) by auto
qed

text \<open>The machine about to switch from the first task to the new thread.\<close>

definition demo_switching :: machine where
  "demo_switching = wr SP 0x50601000 (mach (do_thread_create demo_layout 0x52000000 1 2 3 4 demo))"

lemma thread_launch_witness:
  "pc (exec ret_from_exception (switch_to 0x3000 demo_thread demo_switching)) = 0x52000000 \<and>
   gpr (exec ret_from_exception (switch_to 0x3000 demo_thread demo_switching)) A3 = 4"
proof -
  have "insert 0x3000 (switch_frame (gpr demo_switching SP - SWITCH_TO_SIZE)) \<inter>
      task_memory demo_thread (demo_thread - 400) = {}"
  proof -
    have "gpr demo_switching SP = 0x50601000" by (simp add: demo_switching_def)
    moreover have "set (0x3000 # map (\<lambda>k. (0x50601000 :: u64) - SWITCH_TO_SIZE + 8 * of_nat k) [0..<14]) \<inter>
       set (demo_thread # map (\<lambda>k. demo_thread - 400 + 8 * of_nat k) [0..<14] @
         map (\<lambda>r. demo_thread - 400 + SWITCH_TO_SIZE + OFFSET_REG r) [0..<36]) = {}"
      by code_simp
    ultimately show ?thesis
      by (simp only: task_memory_def switch_frame_def trap_frame_def set_append set_map set_upt
          list.set atLeast0LessThan Un_insert_left)
  qed
  from thread_launch [where func = "0x52000000" and ?a0.0 = 1 and ?a1.0 = 2 and ?a2.0 = 3 and ?a3.0 = 4,
      OF demo_new_thread _ this, of demo_layout]
  show ?thesis by (simp add: demo_switching_def)
qed

end
