(* ===== verification/Kernel_String.thy ===== *)
theory Kernel_String
  imports Prelude
begin

text \<open>
  The string and memory functions of \<^verbatim>\<open>libs/string.c\<close> on byte memory. A loop that runs to a
  terminator may not end, so it is a partial function; a counted loop recurses on what is left
  of its count. Reads and writes go through the same memory, so overlapping arguments behave as
  in the code.
\<close>

type_synonym memory = "ptr \<Rightarrow> byte"

section \<open>The functions\<close>

fun memcpy_loop :: "nat \<Rightarrow> ptr \<Rightarrow> ptr \<Rightarrow> memory \<Rightarrow> memory" where
  "memcpy_loop 0 dest src m = m"
| "memcpy_loop (Suc len) dest src m = memcpy_loop len (dest + 1) (src + 1) (m(dest := m src))"

definition memcpy :: "ptr \<Rightarrow> ptr \<Rightarrow> u32 \<Rightarrow> memory \<Rightarrow> memory" where
  "memcpy dest src len m = memcpy_loop (unat len) dest src m"

fun memset_loop :: "nat \<Rightarrow> ptr \<Rightarrow> byte \<Rightarrow> memory \<Rightarrow> memory" where
  "memset_loop 0 dst val m = m"
| "memset_loop (Suc len) dst val m = memset_loop len (dst + 1) val (m(dst := val))"

definition memset :: "ptr \<Rightarrow> byte \<Rightarrow> u32 \<Rightarrow> memory \<Rightarrow> memory" where
  "memset dest val len m = memset_loop (unat len) dest val m"

definition bzero :: "ptr \<Rightarrow> u32 \<Rightarrow> memory \<Rightarrow> memory" where
  "bzero dest len m = memset dest 0 len m"

partial_function (option) strlen_loop :: "memory \<Rightarrow> ptr \<Rightarrow> cint \<Rightarrow> cint option" where
  "strlen_loop m src i = (if m (src + scast i) \<noteq> 0 then strlen_loop m src (i + 1) else Some i)"

definition strlen :: "ptr \<Rightarrow> memory \<Rightarrow> cint option" where
  "strlen src m = strlen_loop m src 0"

text \<open>\<^verbatim>\<open>char\<close> is unsigned, so the difference of two characters is taken of values 0 to 255.\<close>

definition char_diff :: "byte \<Rightarrow> byte \<Rightarrow> cint" where
  "char_diff a b = ucast a - ucast b"

partial_function (option) strcmp_loop :: "memory \<Rightarrow> ptr \<Rightarrow> ptr \<Rightarrow> cint option" where
  "strcmp_loop m str1 str2 =
     (if m str1 \<noteq> 0 \<and> m str2 \<noteq> 0
      then (if m str1 \<noteq> m str2 then Some (char_diff (m str1) (m str2))
            else strcmp_loop m (str1 + 1) (str2 + 1))
      else Some (char_diff (m str1) (m str2)))"

definition strcmp :: "ptr \<Rightarrow> ptr \<Rightarrow> memory \<Rightarrow> cint option" where
  "strcmp str1 str2 m = strcmp_loop m str1 str2"

fun strncmp_loop :: "nat \<Rightarrow> nat \<Rightarrow> ptr \<Rightarrow> ptr \<Rightarrow> memory \<Rightarrow> cint" where
  "strncmp_loop 0 i str1 str2 m = 0"
| "strncmp_loop (Suc k) i str1 str2 m =
     (if m (str1 + of_nat i) \<noteq> m (str2 + of_nat i)
      then char_diff (m (str1 + of_nat i)) (m (str2 + of_nat i))
      else strncmp_loop k (Suc i) str1 str2 m)"

definition strncmp :: "ptr \<Rightarrow> ptr \<Rightarrow> cint \<Rightarrow> memory \<Rightarrow> cint" where
  "strncmp str1 str2 n m = strncmp_loop (nat (sint n)) 0 str1 str2 m"

text \<open>\<^verbatim>\<open>while (*src) *dest++ = *src++;\<close>, then the terminator.\<close>

partial_function (option) strcpy_loop :: "ptr \<Rightarrow> ptr \<Rightarrow> memory \<Rightarrow> memory option" where
  "strcpy_loop dest src m =
     (if m src \<noteq> 0 then strcpy_loop (dest + 1) (src + 1) (m(dest := m src))
      else Some (m(dest := 0)))"

definition strcpy :: "ptr \<Rightarrow> ptr \<Rightarrow> memory \<Rightarrow> (memory \<times> ptr) option" where
  "strcpy dest src m = map_option (\<lambda>m1. (m1, dest)) (strcpy_loop dest src m)"

text \<open>
  The copying loop of \<^verbatim>\<open>strncpy\<close> with the count that is left when it stops: a stop at the
  terminator leaves the count for the padding loop, a stop at the count leaves nothing.
\<close>

fun strncpy_copy :: "nat \<Rightarrow> ptr \<Rightarrow> ptr \<Rightarrow> memory \<Rightarrow> memory \<times> ptr \<times> nat" where
  "strncpy_copy 0 dest src m = (m, dest, 0)"
| "strncpy_copy (Suc n) dest src m =
     (if m src \<noteq> 0 then strncpy_copy n (dest + 1) (src + 1) (m(dest := m src))
      else (m, dest, Suc n))"

definition strncpy :: "ptr \<Rightarrow> ptr \<Rightarrow> cint \<Rightarrow> memory \<Rightarrow> memory \<times> ptr" where
  "strncpy dest src n m =
     (let (m1, d, k) = strncpy_copy (nat (sint n)) dest src m in (memset_loop k d 0 m1, dest))"

partial_function (option) strcat_end :: "memory \<Rightarrow> ptr \<Rightarrow> ptr option" where
  "strcat_end m dest = (if m dest \<noteq> 0 then strcat_end m (dest + 1) else Some dest)"

definition strcat :: "ptr \<Rightarrow> ptr \<Rightarrow> memory \<Rightarrow> (memory \<times> ptr) option" where
  "strcat dest src m =
     (case strcat_end m dest of
        None \<Rightarrow> None
      | Some d \<Rightarrow> map_option (\<lambda>m1. (m1, dest)) (strcpy_loop d src m))"

text \<open>
  The user library has the same functions in \<^verbatim>\<open>tiny_libc/string.c\<close>, compiled for the tasks.
\<close>

definition libc_memcpy :: "ptr \<Rightarrow> ptr \<Rightarrow> u32 \<Rightarrow> memory \<Rightarrow> memory" where
  "libc_memcpy = memcpy"

definition libc_memset :: "ptr \<Rightarrow> byte \<Rightarrow> u32 \<Rightarrow> memory \<Rightarrow> memory" where
  "libc_memset = memset"

definition libc_bzero :: "ptr \<Rightarrow> u32 \<Rightarrow> memory \<Rightarrow> memory" where
  "libc_bzero = bzero"

definition libc_strlen :: "ptr \<Rightarrow> memory \<Rightarrow> cint option" where
  "libc_strlen = strlen"

definition libc_strcmp :: "ptr \<Rightarrow> ptr \<Rightarrow> memory \<Rightarrow> cint option" where
  "libc_strcmp = strcmp"

definition libc_strncmp :: "ptr \<Rightarrow> ptr \<Rightarrow> cint \<Rightarrow> memory \<Rightarrow> cint" where
  "libc_strncmp = strncmp"

definition libc_strcpy :: "ptr \<Rightarrow> ptr \<Rightarrow> memory \<Rightarrow> (memory \<times> ptr) option" where
  "libc_strcpy = strcpy"

definition libc_strncpy :: "ptr \<Rightarrow> ptr \<Rightarrow> cint \<Rightarrow> memory \<Rightarrow> memory \<times> ptr" where
  "libc_strncpy = strncpy"

definition libc_strcat :: "ptr \<Rightarrow> ptr \<Rightarrow> memory \<Rightarrow> (memory \<times> ptr) option" where
  "libc_strcat = strcat"

section \<open>Strings in memory\<close>

text \<open>The bytes of the string at \<open>p\<close>, up to its terminator.\<close>

partial_function (option) string_at :: "memory \<Rightarrow> ptr \<Rightarrow> byte list option" where
  "string_at m p = (if m p = 0 then Some [] else Option.bind (string_at m (p + 1)) (\<lambda>bs. Some (m p # bs)))"

fun c_string :: "memory \<Rightarrow> ptr \<Rightarrow> byte list \<Rightarrow> bool" where
  "c_string m p [] \<longleftrightarrow> m p = 0"
| "c_string m p (b # bs) \<longleftrightarrow> m p = b \<and> b \<noteq> 0 \<and> c_string m (p + 1) bs"

text \<open>The \<open>n\<close> bytes from \<open>p\<close> on.\<close>

fun range_at :: "ptr \<Rightarrow> nat \<Rightarrow> ptr list" where
  "range_at p 0 = []"
| "range_at p (Suc n) = p # range_at (p + 1) n"

lemma range_at_nth: "i < n \<Longrightarrow> range_at p n ! i = p + of_nat i"
  by (induction n arbitrary: p i) (auto simp: nth_Cons algebra_simps split: nat.splits)

lemma length_range_at [simp]: "length (range_at p n) = n"
  by (induction n arbitrary: p) auto

lemma set_range_at: "set (range_at p n) = (\<lambda>i. p + of_nat i) ` {..<n}"
  by (auto simp: set_conv_nth range_at_nth image_iff) (metis range_at_nth)

lemma c_string_nth:
  "c_string m p bs \<longleftrightarrow> (\<forall>i < length bs. m (p + of_nat i) = bs ! i \<and> bs ! i \<noteq> 0) \<and>
     m (p + of_nat (length bs)) = 0"
proof (induction bs arbitrary: p)
  case (Cons b bs)
  have "c_string m (p + 1) bs \<longleftrightarrow> (\<forall>i < length bs. m (p + of_nat (Suc i)) = bs ! i \<and> bs ! i \<noteq> 0) \<and>
     m (p + of_nat (Suc (length bs))) = 0"
    by (simp add: Cons algebra_simps)
  moreover have "(\<forall>i < Suc n. P i) \<longleftrightarrow> P 0 \<and> (\<forall>i < n. P (Suc i))" for P :: "nat \<Rightarrow> bool" and n
    using less_Suc_eq_0_disj by auto
  ultimately show ?case by auto
qed simp

lemma c_string_unique: "c_string m p bs \<Longrightarrow> c_string m p cs \<Longrightarrow> bs = cs"
proof (induction bs arbitrary: p cs)
  case Nil
  then show ?case by (cases cs) auto
next
  case (Cons b bs)
  then show ?case by (cases cs) auto
qed

lemma string_at_c_string: "c_string m p bs \<Longrightarrow> string_at m p = Some bs"
proof (induction bs arbitrary: p)
  case Nil
  then show ?case by (simp add: string_at.simps [of m p])
next
  case (Cons b bs)
  then show ?case by (simp add: string_at.simps [of m p])
qed

text \<open>A write outside a string leaves the string.\<close>

lemma c_string_upd:
  "q \<notin> set (range_at p (Suc (length bs))) \<Longrightarrow> c_string (m(q := v)) p bs = c_string m p bs"
  by (induction bs arbitrary: p) auto

section \<open>Copying and filling\<close>

lemma memset_loop_eq:
  "memset_loop n p v m = (\<lambda>a. if a \<in> set (range_at p n) then v else m a)"
  by (induction n arbitrary: p m) (auto simp: fun_eq_iff)

lemma range_at_step: "n < 2 ^ 64 \<Longrightarrow> p \<notin> set (range_at (p + 1) n)"
proof
  assume n: "n < 2 ^ 64" and "p \<in> set (range_at (p + 1) n)"
  then obtain i where i: "i < n" and e: "p = p + 1 + of_nat i" by (auto simp: set_range_at)
  then have "(of_nat (Suc i) :: ptr) = 0" by (simp add: algebra_simps)
  then have "unat (of_nat (Suc i) :: ptr) = 0" by simp
  moreover have "unat (of_nat (Suc i) :: ptr) = Suc i" using i n by (intro unat_of_nat_u64) simp
  ultimately show False by simp
qed

lemma memcpy_loop_out: "a \<notin> set (range_at d n) \<Longrightarrow> memcpy_loop n d s m a = m a"
  by (induction n arbitrary: d s m) auto

lemma memcpy_loop_in:
  assumes "n \<le> 2 ^ 64" and "set (range_at d n) \<inter> set (range_at s n) = {}" and "i < n"
  shows "memcpy_loop n d s m (d + of_nat i) = m (s + of_nat i)"
  using assms
proof (induction n arbitrary: d s m i)
  case (Suc n)
  show ?case
  proof (cases i)
    case 0
    have "d \<notin> set (range_at (d + 1) n)" using Suc.prems(1) by (intro range_at_step) simp
    then show ?thesis using 0 by (simp add: memcpy_loop_out)
  next
    case (Suc j)
    then have "j < n" using Suc.prems by simp
    then have "d \<noteq> s + 1 + of_nat j" using Suc.prems(2) by (auto simp: set_range_at)
    moreover have "memcpy_loop n (d + 1) (s + 1) (m(d := m s)) (d + 1 + of_nat j) =
        (m(d := m s)) (s + 1 + of_nat j)"
      using Suc.prems \<open>j < n\<close> by (intro Suc.IH) auto
    ultimately show ?thesis using Suc by (simp add: algebra_simps)
  qed
qed simp

text \<open>\<^verbatim>\<open>memcpy\<close> between ranges that do not overlap copies \<open>len\<close> bytes and changes nothing
  else.\<close>

lemma memcpy_copies:
  assumes "set (range_at dest (unat len)) \<inter> set (range_at src (unat len)) = {}"
  shows "(\<forall>i < unat len. memcpy dest src len m (dest + of_nat i) = m (src + of_nat i)) \<and>
     (\<forall>a. a \<notin> set (range_at dest (unat len)) \<longrightarrow> memcpy dest src len m a = m a)"
proof -
  have "unat len < 2 ^ LENGTH(32)" by (rule unsigned_less)
  then have "unat len \<le> 2 ^ 64" by simp
  then show ?thesis
    using memcpy_loop_in [OF _ assms] memcpy_loop_out by (simp add: memcpy_def)
qed

section \<open>Measuring and comparing\<close>

lemma scast_Suc:
  assumes "unat (i :: cint) + 1 < 2 ^ 31"
  shows "(scast (i + 1) :: ptr) = scast i + 1" and "unat (i + 1) = unat i + 1"
proof -
  show s: "unat (i + 1) = unat i + 1"
    using assms by (simp add: unat_word_ariths)
  then show "(scast (i + 1) :: ptr) = scast i + 1"
    using assms by (simp add: scast_small del: of_nat_unat)
qed

lemma strlen_loop_counts:
  "c_string m (src + scast i) bs \<Longrightarrow> unat i + length bs < 2 ^ 31 \<Longrightarrow>
   strlen_loop m src i = Some (i + of_nat (length bs))"
proof (induction bs arbitrary: i)
  case Nil
  then show ?case by (subst strlen_loop.simps) simp
next
  case (Cons b bs)
  have i: "(scast (i + 1) :: ptr) = scast i + 1" "unat (i + 1) = unat i + 1"
    using Cons.prems(2) by (simp_all add: scast_Suc)
  have "strlen_loop m src (i + 1) = Some (i + 1 + of_nat (length bs))"
  proof (rule Cons.IH)
    show "c_string m (src + scast (i + 1)) bs" using Cons.prems(1) by (simp add: i(1) add.assoc)
    show "unat (i + 1) + length bs < 2 ^ 31" using Cons.prems(2) unfolding i(2) by simp
  qed
  then show ?case using Cons.prems(1) by (subst strlen_loop.simps) (simp add: algebra_simps)
qed

lemma strlen_counts: "c_string m src bs \<Longrightarrow> length bs < 2 ^ 31 \<Longrightarrow> strlen src m = Some (of_nat (length bs))"
  using strlen_loop_counts [of m src 0 bs] by (simp add: strlen_def)

lemma char_diff_sint: "sint (char_diff a b) = uint a - uint b"
proof -
  have "uint a < 2 ^ LENGTH(8)" "uint b < 2 ^ LENGTH(8)" by (rule unsigned_less)+
  then have ab: "uint a < 256" "uint b < 256" by simp_all
  have d: "char_diff a b = word_of_int (uint a - uint b)"
    by (simp only: char_diff_def ucast_eq of_int_diff)
  have "sint (char_diff a b) = signed_take_bit (LENGTH(32) - 1) (uint a - uint b)"
    unfolding d by (rule sint_sbintrunc')
  also have "\<dots> = signed_take_bit 31 (uint a - uint b)" by simp
  also have "\<dots> = uint a - uint b"
  proof (rule signed_take_bit_int_eq_self)
    have "- 2147483648 \<le> uint a - uint b" "uint a - uint b < 2147483648"
      using ab uint_ge_0 [of a] uint_ge_0 [of b] by linarith+
    then show "- (2 ^ 31) \<le> uint a - uint b" "uint a - uint b < 2 ^ 31" by simp_all
  qed
  finally show ?thesis .
qed

lemma char_diff_zero: "char_diff a b = 0 \<longleftrightarrow> a = b"
proof
  assume "char_diff a b = 0"
  then have "uint a = uint b" using char_diff_sint [of a b] by simp
  then show "a = b" by (simp add: word_uint_eq_iff)
qed (simp add: char_diff_def)

lemma char_diff_neg: "sint (char_diff a b) < 0 \<longleftrightarrow> a < b"
  by (simp add: char_diff_sint word_less_def)

lemma strcmp_loop_compares:
  "c_string m p as \<Longrightarrow> c_string m q bs \<Longrightarrow>
   \<exists>r. strcmp_loop m p q = Some r \<and> (r = 0 \<longleftrightarrow> as = bs) \<and> (sint r < 0 \<longleftrightarrow> ord_class.lexordp as bs)"
proof (induction as arbitrary: p q bs)
  case Nil
  then show ?case
    by (cases bs) (auto simp: strcmp_loop.simps char_diff_zero char_diff_neg word_gt_0)
next
  case (Cons a as)
  show ?case
  proof (cases bs)
    case Nil
    with Cons.prems show ?thesis
      by (auto simp: strcmp_loop.simps [of m p q] char_diff_zero char_diff_neg)
  next
    case bs: (Cons b cs)
    show ?thesis
    proof (cases "a = b")
      case True
      with Cons.prems bs Cons.IH [of "p + 1" "q + 1" cs] show ?thesis
        by (auto simp: strcmp_loop.simps [of m p q])
    next
      case False
      with Cons.prems bs show ?thesis
        by (auto simp: strcmp_loop.simps [of m p q] char_diff_zero char_diff_neg)
    qed
  qed
qed

text \<open>\<^verbatim>\<open>strcmp\<close> on two terminated strings always returns: zero exactly on equal strings, a
  negative number exactly when the first is smaller in the dictionary order of unsigned
  characters.\<close>

lemma strcmp_compares:
  assumes "c_string m str1 as" and "c_string m str2 bs"
  shows "\<exists>r. strcmp str1 str2 m = Some r \<and> (r = 0 \<longleftrightarrow> as = bs) \<and> (sint r < 0 \<longleftrightarrow> ord_class.lexordp as bs)"
  unfolding strcmp_def by (rule strcmp_loop_compares [OF assms])

lemma strcmp_compares_witness:
  "\<exists>r. strcmp 0x10 0x20 (\<lambda>a. if a = 0x10 then 97 else if a = 0x20 then 98 else 0) = Some r \<and> sint r < 0"
  using strcmp_compares [of "\<lambda>a. if a = 0x10 then 97 else if a = 0x20 then 98 else 0" "0x10" "[97]" "0x20" "[98]"]
  by auto

lemma strncmp_loop_zero:
  "strncmp_loop k i p q m = 0 \<longleftrightarrow> (\<forall>j < k. m (p + of_nat (i + j)) = m (q + of_nat (i + j)))"
proof (induction k arbitrary: i)
  case (Suc k)
  have e: "(\<forall>j < Suc k. P (i + j)) \<longleftrightarrow> P i \<and> (\<forall>j < k. P (Suc i + j))" for P :: "nat \<Rightarrow> bool"
    using less_Suc_eq_0_disj by auto
  show ?case
    unfolding strncmp_loop.simps e [of "\<lambda>j. m (p + of_nat j) = m (q + of_nat j)"]
    by (simp only: Suc char_diff_zero split: if_split) blast
qed simp

text \<open>\<^verbatim>\<open>strncmp\<close> compares all \<open>n\<close> bytes: unlike the function of the C library it does not stop
  at a terminator, so it returns zero exactly when the two ranges are equal byte by byte.\<close>

lemma strncmp_compares_all:
  "strncmp str1 str2 n m = 0 \<longleftrightarrow>
     (\<forall>j. int j < sint n \<longrightarrow> m (str1 + of_nat j) = m (str2 + of_nat j))"
proof -
  have "int j < sint n \<longleftrightarrow> j < nat (sint n)" for j by linarith
  then show ?thesis
    using strncmp_loop_zero [of "nat (sint n)" 0 str1 str2 m] by (simp add: strncmp_def)
qed

lemma strncmp_compares_all_witness:
  "strncmp 0x10 0x20 4 (\<lambda>a. if a = 0x12 then 1 else 0) \<noteq> 0"
proof -
  have "\<exists>j. int j < sint (4 :: cint) \<and> (0x10 :: ptr) + of_nat j = 0x12"
    by (intro exI [of _ 2]) simp
  then show ?thesis
    by (subst strncmp_compares_all) auto
qed

section \<open>Copying strings\<close>

text \<open>A string depends on its own bytes only.\<close>

lemma c_string_cong:
  assumes "\<And>a. a \<in> set (range_at p (Suc (length bs))) \<Longrightarrow> m' a = m a"
  shows "c_string m' p bs = c_string m p bs"
proof -
  have "m' (p + of_nat i) = m (p + of_nat i)" if "i \<le> length bs" for i
    using that by (intro assms) (auto simp: set_range_at simp del: range_at.simps)
  then show ?thesis by (simp add: c_string_nth)
qed

lemma strcpy_loop_copies:
  assumes "c_string m src bs" and "length bs < 2 ^ 64"
    and "set (range_at dest (Suc (length bs))) \<inter> set (range_at src (Suc (length bs))) = {}"
  shows "\<exists>m'. strcpy_loop dest src m = Some m' \<and> c_string m' dest bs \<and>
     (\<forall>a. a \<notin> set (range_at dest (Suc (length bs))) \<longrightarrow> m' a = m a)"
  using assms
proof (induction bs arbitrary: dest src m)
  case Nil
  then show ?case by (subst strcpy_loop.simps) auto
next
  case (Cons b bs)
  let ?m = "m(dest := m src)"
  have mb: "m src = b" "b \<noteq> 0" "c_string m (src + 1) bs" using Cons.prems(1) by auto
  let ?R = "\<lambda>p. set (range_at p (Suc (length bs)))"
  have R: "set (range_at p (Suc (length (b # bs)))) = insert p (?R (p + 1))" for p by simp
  note disj = Cons.prems(3) [unfolded R]
  have str: "c_string ?m (src + 1) bs"
    using disj mb(3) c_string_upd [of dest "src + 1" bs m "m src"] by blast
  have len: "length bs < 2 ^ 64" using Cons.prems(2) by simp
  have "?R (dest + 1) \<inter> ?R (src + 1) = {}" using disj by blast
  from Cons.IH [OF str len this] obtain m' where m': "strcpy_loop (dest + 1) (src + 1) ?m = Some m'"
    "c_string m' (dest + 1) bs"
    and out: "\<And>a. a \<notin> ?R (dest + 1) \<Longrightarrow> m' a = ?m a"
    by blast
  have "dest \<notin> set (range_at (dest + 1) (Suc (length bs)))"
  proof (rule range_at_step)
    show "Suc (length bs) < 2 ^ 64" using Cons.prems(2) by simp
  qed
  from out [OF this] have "m' dest = b" by (simp add: mb)
  then have "c_string m' dest (b # bs)" using m'(2) mb by simp
  moreover have "strcpy_loop dest src m = Some m'"
    using m'(1) mb by (subst strcpy_loop.simps) simp
  moreover have "m' a = m a" if "a \<notin> set (range_at dest (Suc (length (b # bs))))" for a
    using out [of a] that unfolding R by simp
  ultimately show ?case by blast
qed

lemma strcpy_copies_aux:
  assumes "c_string m src bs" and "length bs < 2 ^ 64"
    and "set (range_at dest (Suc (length bs))) \<inter> set (range_at src (Suc (length bs))) = {}"
  shows "\<exists>m'. strcpy dest src m = Some (m', dest) \<and> c_string m' dest bs \<and> c_string m' src bs"
proof -
  obtain m' where m': "strcpy_loop dest src m = Some m'" "c_string m' dest bs"
    and out: "\<forall>a. a \<notin> set (range_at dest (Suc (length bs))) \<longrightarrow> m' a = m a"
    using strcpy_loop_copies [OF assms] by blast
  have "c_string m' src bs = c_string m src bs"
    using out assms(3) by (intro c_string_cong) blast
  with m' assms(1) show ?thesis by (auto simp: strcpy_def)
qed

text \<open>\<^verbatim>\<open>strcpy\<close> to a place that does not overlap the source makes an equal string there, with
  its terminator: \<^verbatim>\<open>strcmp\<close> of the two is zero afterwards and \<^verbatim>\<open>strlen\<close> of the copy is the length of
  the source.\<close>

lemma strcpy_round_trip:
  assumes src: "c_string m src bs" and len: "length bs < 2 ^ 31"
    and disj: "set (range_at dest (Suc (length bs))) \<inter> set (range_at src (Suc (length bs))) = {}"
  shows "\<exists>m'. strcpy dest src m = Some (m', dest) \<and> strcmp dest src m' = Some 0 \<and>
     strlen dest m' = Some (of_nat (length bs))"
proof -
  have "length bs < 2 ^ 64" using len by simp
  from strcpy_copies_aux [OF src this disj] obtain m' where m': "strcpy dest src m = Some (m', dest)"
    "c_string m' dest bs" "c_string m' src bs"
    by blast
  have "strcmp dest src m' = Some 0"
    using strcmp_loop_compares [OF m'(2,3)] by (auto simp: strcmp_def)
  with m' strlen_counts [OF m'(2) len] show ?thesis by blast
qed

lemma strcpy_round_trip_witness:
  "\<exists>m'. strcpy 0x20 0x10 (\<lambda>a. if a = 0x10 then 97 else 0) = Some (m', 0x20) \<and>
     strlen 0x20 m' = Some 1"
proof -
  have "set (range_at 0x20 (Suc (length [97 :: byte]))) \<inter> set (range_at 0x10 (Suc (length [97 :: byte]))) = {}"
    by code_simp
  from strcpy_round_trip [OF _ _ this, of "\<lambda>a. if a = 0x10 then 97 else 0"] show ?thesis
    by auto
qed

text \<open>The two loops of \<^verbatim>\<open>strncpy\<close> together.\<close>

definition strncpy_loops :: "nat \<Rightarrow> ptr \<Rightarrow> ptr \<Rightarrow> memory \<Rightarrow> memory" where
  "strncpy_loops k dest src m = (let (m1, d, r) = strncpy_copy k dest src m in memset_loop r d 0 m1)"

lemma strncpy_loops_Suc:
  "strncpy_loops (Suc k) dest src m =
     (if m src \<noteq> 0 then strncpy_loops k (dest + 1) (src + 1) (m(dest := m src))
      else memset_loop (Suc k) dest 0 m)"
  by (simp add: strncpy_loops_def)

lemma strncpy_loops_copy:
  assumes "c_string m src bs" and "k < 2 ^ 64"
    and "set (range_at dest k) \<inter> set (range_at src (Suc (length bs))) = {}"
  shows "(\<forall>i < k. strncpy_loops k dest src m (dest + of_nat i) = (if i < length bs then bs ! i else 0)) \<and>
     (\<forall>a. a \<notin> set (range_at dest k) \<longrightarrow> strncpy_loops k dest src m a = m a)"
  using assms
proof (induction k arbitrary: bs dest src m)
  case 0
  then show ?case by (simp add: strncpy_loops_def)
next
  case (Suc k)
  show ?case
  proof (cases bs)
    case Nil
    then have "strncpy_loops (Suc k) dest src m = memset_loop (Suc k) dest 0 m"
      using Suc.prems(1) by (simp add: strncpy_loops_Suc)
    moreover have "dest + of_nat i \<in> set (range_at dest (Suc k))" if "i < Suc k" for i
      using that unfolding set_range_at by blast
    ultimately show ?thesis using Nil by (simp only: memset_loop_eq) simp
  next
    case (Cons b cs)
    let ?m = "m(dest := m src)"
    have m: "m src = b" "b \<noteq> 0" "c_string m (src + 1) cs" using Suc.prems(1) Cons by auto
    then have w: "strncpy_loops (Suc k) dest src m = strncpy_loops k (dest + 1) (src + 1) ?m"
      by (simp add: strncpy_loops_Suc)
    have disj: "insert dest (set (range_at (dest + 1) k)) \<inter>
        insert src (set (range_at (src + 1) (Suc (length cs)))) = {}"
      using Suc.prems(3) Cons by (simp only: list.size set_simps range_at.simps add_Suc_right add_0_right)
    have str: "c_string ?m (src + 1) cs"
      using disj m(3) c_string_upd [of dest "src + 1" cs m "m src"] by blast
    have k: "k < 2 ^ 64" using Suc.prems(2) by simp
    have "set (range_at (dest + 1) k) \<inter> set (range_at (src + 1) (Suc (length cs))) = {}"
      using disj by blast
    note IH = Suc.IH [OF str k this]
    have d: "dest \<notin> set (range_at (dest + 1) k)" by (rule range_at_step [OF k])
    have "strncpy_loops k (dest + 1) (src + 1) ?m (dest + of_nat i) = (if i < length bs then bs ! i else 0)"
      if i: "i < Suc k" for i
    proof (cases i)
      case 0
      have "strncpy_loops k (dest + 1) (src + 1) ?m dest = ?m dest" using IH d by blast
      then show ?thesis using 0 m Cons by simp
    next
      case (Suc j)
      have e: "dest + of_nat i = dest + 1 + of_nat j" by (simp add: Suc algebra_simps)
      have "strncpy_loops k (dest + 1) (src + 1) ?m (dest + 1 + of_nat j) = (if j < length cs then cs ! j else 0)"
        using IH i Suc by blast
      then show ?thesis unfolding e using Suc Cons by simp
    qed
    moreover have "strncpy_loops k (dest + 1) (src + 1) ?m a = m a" if "a \<notin> set (range_at dest (Suc k))" for a
    proof -
      have a: "a \<noteq> dest" "a \<notin> set (range_at (dest + 1) k)" using that by simp_all
      then have "strncpy_loops k (dest + 1) (src + 1) ?m a = ?m a" using IH by blast
      then show ?thesis using a by simp
    qed
    ultimately show ?thesis unfolding w by blast
  qed
qed

text \<open>\<^verbatim>\<open>strncpy\<close> writes exactly \<open>n\<close> bytes: the source up to its terminator, then zeros; a source
  of \<open>n\<close> bytes or more leaves a copy without a terminator.\<close>

lemma strncpy_copies:
  assumes src: "c_string m src bs"
    and disj: "set (range_at dest (nat (sint n))) \<inter> set (range_at src (Suc (length bs))) = {}"
  shows "(\<forall>i. int i < sint n \<longrightarrow>
            fst (strncpy dest src n m) (dest + of_nat i) = (if i < length bs then bs ! i else 0)) \<and>
     (\<forall>a. a \<notin> set (range_at dest (nat (sint n))) \<longrightarrow> fst (strncpy dest src n m) a = m a)"
proof -
  have w: "fst (strncpy dest src n m) = strncpy_loops (nat (sint n)) dest src m"
    by (simp add: strncpy_def strncpy_loops_def split: prod.split)
  have "sint n < 2 ^ (LENGTH(32) - 1)" by (rule sint_lt)
  then have k: "nat (sint n) < 2 ^ 64" by simp
  have "int i < sint n \<longleftrightarrow> i < nat (sint n)" for i by linarith
  then show ?thesis unfolding w using strncpy_loops_copy [OF src k disj] by simp
qed

lemma strncpy_copies_witness:
  "fst (strncpy 0x20 0x10 2 (\<lambda>a. if a = 0x10 then 97 else 0)) 0x20 = 97"
proof -
  have "set (range_at 0x20 (nat (sint (2 :: cint)))) \<inter> set (range_at 0x10 (Suc (length [97 :: byte]))) = {}"
    by code_simp
  from strncpy_copies [OF _ this, of "\<lambda>a. if a = 0x10 then 97 else 0"] show ?thesis
    by (auto dest: spec [of _ 0])
qed

lemma strcat_end_finds: "c_string m p bs \<Longrightarrow> strcat_end m p = Some (p + of_nat (length bs))"
proof (induction bs arbitrary: p)
  case (Cons b bs)
  have "strcat_end m p = strcat_end m (p + 1)"
    using Cons.prems by (subst strcat_end.simps) simp
  then show ?case using Cons by simp
qed (simp add: strcat_end.simps)

lemma c_string_append:
  "c_string m p (as @ bs) \<longleftrightarrow> (\<forall>i < length as. m (p + of_nat i) = as ! i \<and> as ! i \<noteq> 0) \<and>
     c_string m (p + of_nat (length as)) bs"
proof (induction as arbitrary: p)
  case (Cons a as)
  have e: "(\<forall>i < Suc n. P i) \<longleftrightarrow> P 0 \<and> (\<forall>i < n. P (Suc i))" for P :: "nat \<Rightarrow> bool" and n
    using less_Suc_eq_0_disj by auto
  show ?case
    using Cons [of "p + 1"] by (auto simp: e algebra_simps)
qed simp

text \<open>\<^verbatim>\<open>strcat\<close> appends: when the source overlaps neither the destination string nor the room
  behind it, the destination afterwards is the concatenation.\<close>

lemma strcat_appends:
  assumes d: "c_string m dest as" and s: "c_string m src bs" and len: "length as + length bs < 2 ^ 64"
    and disj: "set (range_at (dest + of_nat (length as)) (Suc (length bs))) \<inter>
               set (range_at src (Suc (length bs))) = {}"
  shows "\<exists>m'. strcat dest src m = Some (m', dest) \<and> c_string m' dest (as @ bs)"
proof -
  let ?e = "dest + of_nat (length as)"
  obtain m' where m': "strcpy_loop ?e src m = Some m'" "c_string m' ?e bs"
    and out: "\<And>a. a \<notin> set (range_at ?e (Suc (length bs))) \<Longrightarrow> m' a = m a"
    using strcpy_loop_copies [OF s _ disj] len by auto
  have keep: "m' (dest + of_nat i) = m (dest + of_nat i)" if i: "i < length as" for i
  proof (rule out)
    show "dest + of_nat i \<notin> set (range_at ?e (Suc (length bs)))"
    proof
      assume "dest + of_nat i \<in> set (range_at ?e (Suc (length bs)))"
      then obtain j where j: "j \<le> length bs" and "dest + of_nat i = ?e + of_nat j"
        unfolding set_range_at image_iff Bex_def lessThan_iff less_Suc_eq_le by blast
      then have e: "(of_nat i :: ptr) = of_nat (length as + j)" by simp
      have "i = length as + j"
        using e i j len by (subst (asm) of_nat_u64_eq_iff) simp_all
      with i show False by simp
    qed
  qed
  have "c_string m' dest (as @ bs)"
    unfolding c_string_append using d keep m'(2) by (simp add: c_string_nth)
  then show ?thesis using m'(1) by (simp add: strcat_def strcat_end_finds [OF d])
qed

end
