(* ===== verification/Bios.thy ===== *)
theory Bios
  imports Kernel_State Kernel_String
begin

text \<open>
  The firmware's services (\<^verbatim>\<open>arch/riscv/bios/common.c\<close>) and the jump table through which the
  kernel calls them (\<^verbatim>\<open>include/os/kernel.h\<close>). The firmware itself is the parameter \<open>firmware\<close> of
  the state; every call is logged with its service number and arguments. A string argument is
  given by the bytes up to its terminator.
\<close>

section \<open>Service numbers and calls\<close>

text \<open>\<^verbatim>\<open>biosdef.h\<close>.\<close>

primrec bios_number :: "bios_fn \<Rightarrow> u64" where
  "bios_number Set_timer = 0"
| "bios_number Port_write_ch = 1"
| "bios_number Port_read_ch = 2"
| "bios_number Port_write = 9"
| "bios_number Sd_write = 10"
| "bios_number Sd_read = 11"
| "bios_number Read_fdt = 12"
| "bios_number Qemu_logging = 14"

definition bios_event :: "bios_event \<Rightarrow> kstate \<Rightarrow> kstate \<times> u64" where
  "bios_event e s =
     (let (m, r) = firmware s (length (bios_log s)) e (bytes s)
      in (s\<lparr>bytes := m, bios_log := bios_log s @ [e]\<rparr>, r))"

definition call_bios :: "u64 \<Rightarrow> u64 \<Rightarrow> u64 \<Rightarrow> u64 \<Rightarrow> u64 \<Rightarrow> u64 \<Rightarrow> kstate \<Rightarrow> kstate \<times> u64" where
  "call_bios which a0 a1 a2 a3 a4 = bios_event (Bios which [a0, a1, a2, a3, a4])"

definition port_write_ch :: "byte \<Rightarrow> kstate \<Rightarrow> kstate" where
  "port_write_ch ch s = fst (call_bios (bios_number Port_write_ch) (ucast ch) 0 0 0 0 s)"

definition port_write :: "byte list \<Rightarrow> kstate \<Rightarrow> kstate" where
  "port_write str s = fst (bios_event (Bios_str (bios_number Port_write) str) s)"

definition port_read_ch :: "kstate \<Rightarrow> kstate \<times> cint" where
  "port_read_ch s = map_prod id ucast (call_bios (bios_number Port_read_ch) 0 0 0 0 0 s)"

definition sd_read :: "u32 \<Rightarrow> u32 \<Rightarrow> u32 \<Rightarrow> kstate \<Rightarrow> kstate \<times> cint" where
  "sd_read mem_address num_of_blocks block_id s =
     map_prod id ucast
       (call_bios (bios_number Sd_read) (ucast mem_address) (ucast num_of_blocks) (ucast block_id) 0 0 s)"

definition sd_write :: "u32 \<Rightarrow> u32 \<Rightarrow> u32 \<Rightarrow> kstate \<Rightarrow> kstate \<times> cint" where
  "sd_write mem_address num_of_blocks block_id s =
     map_prod id ucast
       (call_bios (bios_number Sd_write) (ucast mem_address) (ucast num_of_blocks) (ucast block_id) 0 0 s)"

definition set_timer :: "u64 \<Rightarrow> kstate \<Rightarrow> kstate" where
  "set_timer stime_value s = fst (call_bios (bios_number Set_timer) stime_value 0 0 0 0 s)"

definition read_fdt :: "u32 \<Rightarrow> kstate \<Rightarrow> kstate \<times> u64" where
  "read_fdt fdt_type s = call_bios (bios_number Read_fdt) (ucast fdt_type) 0 0 0 0 s"

definition qemu_logging :: "byte list \<Rightarrow> kstate \<Rightarrow> kstate" where
  "qemu_logging str s = fst (bios_event (Bios_str (bios_number Qemu_logging) str) s)"

section \<open>The jump table\<close>

datatype jmptab_idx = CONSOLE_PUTSTR | CONSOLE_PUTCHAR | CONSOLE_GETCHAR | SD_READ | SD_WRITE
  | QEMU_LOGGING | SET_TIMER | READ_FDT | MOVE_CURSOR | PRINT | YIELD | MUTEX_INIT | MUTEX_ACQ
  | MUTEX_RELEASE | NUM_ENTRIES | WRITE | REFLUSH | SLEEP | GET_TIMEBASE | GET_TICK

primrec jmptab_index :: "jmptab_idx \<Rightarrow> nat" where
  "jmptab_index CONSOLE_PUTSTR = 0"
| "jmptab_index CONSOLE_PUTCHAR = 1"
| "jmptab_index CONSOLE_GETCHAR = 2"
| "jmptab_index SD_READ = 3"
| "jmptab_index SD_WRITE = 4"
| "jmptab_index QEMU_LOGGING = 5"
| "jmptab_index SET_TIMER = 6"
| "jmptab_index READ_FDT = 7"
| "jmptab_index MOVE_CURSOR = 8"
| "jmptab_index PRINT = 9"
| "jmptab_index YIELD = 10"
| "jmptab_index MUTEX_INIT = 11"
| "jmptab_index MUTEX_ACQ = 12"
| "jmptab_index MUTEX_RELEASE = 13"
| "jmptab_index NUM_ENTRIES = 14"
| "jmptab_index WRITE = 15"
| "jmptab_index REFLUSH = 16"
| "jmptab_index SLEEP = 17"
| "jmptab_index GET_TIMEBASE = 18"
| "jmptab_index GET_TICK = 19"

text \<open>
  What a service does with the five words it is called with: parameters narrower than a word
  are cut off, an \<^verbatim>\<open>int\<close> result is sign-extended, a string is read from memory, and a \<^verbatim>\<open>void\<close>
  service leaves the return register undetermined.
\<close>

definition with_string :: "u64 \<Rightarrow> (byte list \<Rightarrow> kstate \<Rightarrow> kstate) \<Rightarrow> kstate \<Rightarrow> (kstate \<times> u64) res" where
  "with_string p f s =
     bind_res (ends (string_at (bytes s) p)) (\<lambda>bs. Inr (f bs s, void_ret s))"

primrec bios_service :: "bios_fn \<Rightarrow> u64 \<Rightarrow> u64 \<Rightarrow> u64 \<Rightarrow> kstate \<Rightarrow> (kstate \<times> u64) res" where
  "bios_service Port_write a0 a1 a2 s = with_string a0 port_write s"
| "bios_service Port_write_ch a0 a1 a2 s = Inr (port_write_ch (ucast a0) s, void_ret s)"
| "bios_service Port_read_ch a0 a1 a2 s = Inr (map_prod id scast (port_read_ch s))"
| "bios_service Sd_read a0 a1 a2 s = Inr (map_prod id scast (sd_read (ucast a0) (ucast a1) (ucast a2) s))"
| "bios_service Sd_write a0 a1 a2 s = Inr (map_prod id scast (sd_write (ucast a0) (ucast a1) (ucast a2) s))"
| "bios_service Qemu_logging a0 a1 a2 s = with_string a0 qemu_logging s"
| "bios_service Set_timer a0 a1 a2 s = Inr (set_timer a0 s, void_ret s)"
| "bios_service Read_fdt a0 a1 a2 s = Inr (read_fdt (ucast a0) s)"

definition call_jmptab :: "jmptab_idx \<Rightarrow> u64 \<Rightarrow> u64 \<Rightarrow> u64 \<Rightarrow> u64 \<Rightarrow> u64 \<Rightarrow> kstate \<Rightarrow> (kstate \<times> u64) res" where
  "call_jmptab which a0 a1 a2 a3 a4 s =
     (case jmptab s (jmptab_index which) of
        None \<Rightarrow> Inl BadJump
      | Some (Bios_fn f) \<Rightarrow> bios_service f a0 a1 a2 s
      | Some (Kernel_fn f) \<Rightarrow> Inl (KernelCall f [a0, a1, a2, a3, a4]))"

text \<open>A call whose first argument is a string the kernel has at hand.\<close>

definition call_jmptab_str :: "jmptab_idx \<Rightarrow> byte list \<Rightarrow> kstate \<Rightarrow> kstate res" where
  "call_jmptab_str which str s =
     (case jmptab s (jmptab_index which) of
        Some (Bios_fn Port_write) \<Rightarrow> Inr (port_write str s)
      | Some (Bios_fn Qemu_logging) \<Rightarrow> Inr (qemu_logging str s)
      | _ \<Rightarrow> Inl BadJump)"

definition bios_putstr :: "byte list \<Rightarrow> kstate \<Rightarrow> kstate res" where
  "bios_putstr str = call_jmptab_str CONSOLE_PUTSTR str"

definition bios_putchar :: "cint \<Rightarrow> kstate \<Rightarrow> kstate res" where
  "bios_putchar ch s = bind_res (call_jmptab CONSOLE_PUTCHAR (scast ch) 0 0 0 0 s) (\<lambda>(s, r). Inr s)"

definition bios_getchar :: "kstate \<Rightarrow> (kstate \<times> cint) res" where
  "bios_getchar s = bind_res (call_jmptab CONSOLE_GETCHAR 0 0 0 0 0 s) (\<lambda>(s, r). Inr (s, ucast r))"

definition bios_sd_read :: "u32 \<Rightarrow> u32 \<Rightarrow> u32 \<Rightarrow> kstate \<Rightarrow> (kstate \<times> cint) res" where
  "bios_sd_read mem_address num_of_blocks block_id s =
     bind_res (call_jmptab SD_READ (ucast mem_address) (ucast num_of_blocks) (ucast block_id) 0 0 s)
       (\<lambda>(s, r). Inr (s, ucast r))"

definition bios_sd_write :: "u32 \<Rightarrow> u32 \<Rightarrow> u32 \<Rightarrow> kstate \<Rightarrow> (kstate \<times> cint) res" where
  "bios_sd_write mem_address num_of_blocks block_id s =
     bind_res (call_jmptab SD_WRITE (ucast mem_address) (ucast num_of_blocks) (ucast block_id) 0 0 s)
       (\<lambda>(s, r). Inr (s, ucast r))"

definition bios_logging :: "byte list \<Rightarrow> kstate \<Rightarrow> kstate res" where
  "bios_logging str = call_jmptab_str QEMU_LOGGING str"

definition bios_set_timer :: "u64 \<Rightarrow> kstate \<Rightarrow> kstate res" where
  "bios_set_timer stime_value s =
     bind_res (call_jmptab SET_TIMER stime_value 0 0 0 0 s) (\<lambda>(s, r). Inr s)"

definition bios_read_fdt :: "u32 \<Rightarrow> kstate \<Rightarrow> (kstate \<times> u64) res" where
  "bios_read_fdt fdt_type = call_jmptab READ_FDT (ucast fdt_type) 0 0 0 0"

section \<open>A table whose first eight entries are the services\<close>

definition bios_ready :: "kstate \<Rightarrow> bool" where
  "bios_ready s \<longleftrightarrow> map (jmptab s) [0..<8] =
     map (Some \<circ> Bios_fn) [Port_write, Port_write_ch, Port_read_ch, Sd_read, Sd_write, Qemu_logging,
       Set_timer, Read_fdt]"

text \<open>The state after a call of the firmware.\<close>

definition called :: "bios_event \<Rightarrow> kstate \<Rightarrow> kstate" where
  "called e s = fst (bios_event e s)"

lemma called_simps [simp]:
  "ls (called e s) = ls s" "mach (called e s) = mach s" "status (called e s) = status s"
  "current_running (called e s) = current_running s"
  "wakeup_time (called e s) = wakeup_time s" "mlocks (called e s) = mlocks s"
  "rd_pos (called e s) = rd_pos s" "rdtime (called e s) = rdtime s"
  "time_base (called e s) = time_base s" "pid (called e s) = pid s"
  "mm (called e s) = mm s" "void_ret (called e s) = void_ret s"
  "cursor_x (called e s) = cursor_x s" "cursor_y (called e s) = cursor_y s"
  "time_elapsed (called e s) = time_elapsed s"
  "bios_log (called e s) = bios_log s @ [e]" "firmware (called e s) = firmware s"
  "jmptab (called e s) = jmptab s" "syscall_tab (called e s) = syscall_tab s"
  "irq_table (called e s) = irq_table s" "exc_table (called e s) = exc_table s"
  "new_screen (called e s) = new_screen s" "old_screen (called e s) = old_screen s"
  "bios_ready (called e s) = bios_ready s"
  by (simp_all add: called_def bios_event_def current_running_def bios_ready_def split: prod.split)

lemma called_mem: "bytes (called e s) = fst (firmware s (length (bios_log s)) e (bytes s))"
  by (simp add: called_def bios_event_def split: prod.split)

lemma called_upd:
  "called e s =
     s\<lparr>bytes := fst (firmware s (length (bios_log s)) e (bytes s)), bios_log := bios_log s @ [e]\<rparr>"
  by (simp add: called_def bios_event_def split: prod.split)

text \<open>With such a table every wrapper reaches its service.\<close>

lemma bios_readyD:
  assumes "bios_ready s"
  shows "jmptab s 0 = Some (Bios_fn Port_write)" "jmptab s 1 = Some (Bios_fn Port_write_ch)"
    "jmptab s 2 = Some (Bios_fn Port_read_ch)" "jmptab s 3 = Some (Bios_fn Sd_read)"
    "jmptab s 4 = Some (Bios_fn Sd_write)" "jmptab s 5 = Some (Bios_fn Qemu_logging)"
    "jmptab s 6 = Some (Bios_fn Set_timer)" "jmptab s 7 = Some (Bios_fn Read_fdt)"
  using assms by (simp_all add: bios_ready_def upt_rec numeral_eq_Suc One_nat_def)

lemma bios_calls:
  assumes "bios_ready s"
  shows "bios_putstr str s = Inr (called (Bios_str 9 str) s)"
    and "bios_logging str s = Inr (called (Bios_str 14 str) s)"
    and "bios_putchar (ucast (ch :: byte)) s = Inr (called (Bios 1 [ucast ch, 0, 0, 0, 0]) s)"
    and "bios_set_timer t s = Inr (called (Bios 0 [t, 0, 0, 0, 0]) s)"
    and "bios_sd_read a n b s = Inr (called (Bios 11 [ucast a, ucast n, ucast b, 0, 0]) s,
           ucast (snd (bios_event (Bios 11 [ucast a, ucast n, ucast b, 0, 0]) s)))"
    and "bios_read_fdt k s = Inr (bios_event (Bios 12 [ucast k, 0, 0, 0, 0]) s)"
proof -
  note r = bios_readyD [OF assms]
  note defs = call_jmptab_str_def call_jmptab_def call_bios_def called_def
  show "bios_putstr str s = Inr (called (Bios_str 9 str) s)"
    by (simp add: r defs bios_putstr_def port_write_def)
  show "bios_logging str s = Inr (called (Bios_str 14 str) s)"
    by (simp add: r defs bios_logging_def qemu_logging_def)
  have c: "(ucast (scast (ucast ch :: cint) :: u64) :: byte) = ch"
    by (rule bit_word_eqI) (auto simp: bit_simps)
  show "bios_putchar (ucast ch) s = Inr (called (Bios 1 [ucast ch, 0, 0, 0, 0]) s)"
    by (simp add: r defs bios_putchar_def port_write_ch_def c)
  show "bios_set_timer t s = Inr (called (Bios 0 [t, 0, 0, 0, 0]) s)"
    by (simp add: r defs bios_set_timer_def set_timer_def)
  have w: "(ucast (ucast (x :: u32) :: u64) :: u32) = x" for x
    by (rule bit_word_eqI) (auto simp: bit_simps)
  have w': "(ucast (scast (ucast (x :: u64) :: cint) :: u64) :: cint) = ucast x" for x
    by (rule bit_word_eqI) (auto simp: bit_simps)
  show "bios_sd_read a n b s = Inr (called (Bios 11 [ucast a, ucast n, ucast b, 0, 0]) s,
           ucast (snd (bios_event (Bios 11 [ucast a, ucast n, ucast b, 0, 0]) s)))"
    by (cases "bios_event (Bios 11 [ucast a, ucast n, ucast b, 0, 0]) s")
      (simp add: r defs bios_sd_read_def sd_read_def w w')
  show "bios_read_fdt k s = Inr (bios_event (Bios 12 [ucast k, 0, 0, 0, 0]) s)"
    by (simp add: r defs bios_read_fdt_def read_fdt_def w split: prod.split)
qed

end
