(* ===== verification/Format.thy ===== *)
theory Format
  imports Kernel_State "HOL-Library.Signed_Division"
begin

text \<open>
  The minimal formatter of \<^verbatim>\<open>libs/printk.c\<close>: numbers to text, the bounded output buffer, and the
  interpretation of a format. Formats and string arguments are given by their bytes up to the
  terminator, an output buffer by the characters written so far and its size. The scratch array
  \<^verbatim>\<open>bf[24]\<close> has a real bound: a number that does not fit is a fault.
\<close>

section \<open>Division as the processor does it\<close>

definition remu :: "u64 \<Rightarrow> u64 \<Rightarrow> u64" where
  "remu a b = (if b = 0 then a else a mod b)"

definition sdivw :: "u64 \<Rightarrow> u64 \<Rightarrow> u64" where
  "sdivw a b = (if b = 0 then - 1 else word_of_int (sint a sdiv sint b))"

definition sremw :: "u64 \<Rightarrow> u64 \<Rightarrow> u64" where
  "sremw a b = (if b = 0 then a else word_of_int (sint a smod sint b))"

section \<open>Numbers\<close>

definition digit_char :: "bool \<Rightarrow> cint \<Rightarrow> byte" where
  "digit_char uppercase digit =
     ucast (if sint digit < 10 then 48 + digit else (if uppercase then 65 else 97) + digit - 10)"

text \<open>The \<^verbatim>\<open>do ... while (value != 0)\<close> loop, which makes the digits from the last to the first.\<close>

partial_function (option) itoa_digits :: "u64 \<Rightarrow> bool \<Rightarrow> bool \<Rightarrow> u64 \<Rightarrow> byte list option" where
  "itoa_digits radix uppercase unsig value =
     (let digit = ucast (if unsig then remu value radix else sremw value radix);
          rest = (if unsig then divu value radix else sdivw value radix)
      in if rest = 0 then Some [digit_char uppercase digit]
         else Option.bind (itoa_digits radix uppercase unsig rest)
                (\<lambda>ds. Some (digit_char uppercase digit # ds)))"

declare itoa_digits.simps [code]

text \<open>The exchange loop that reverses the buffer.\<close>

fun reverse_loop :: "nat \<Rightarrow> nat \<Rightarrow> byte list \<Rightarrow> byte list" where
  "reverse_loop 0 i buffer = buffer"
| "reverse_loop (Suc k) i buffer =
     reverse_loop k (Suc i)
       (buffer[i := buffer ! (length buffer - i - 1), length buffer - i - 1 := buffer ! i])"

definition mini_itoa :: "u64 \<Rightarrow> u32 \<Rightarrow> bool \<Rightarrow> bool \<Rightarrow> u32 \<Rightarrow> byte list option" where
  "mini_itoa value radix uppercase unsig zero_pad =
     (if 16 < radix then Some []
      else let negative = sint value < 0 \<and> \<not> unsig;
               value = (if negative then - value else value)
           in Option.bind (itoa_digits (ucast radix) uppercase unsig value)
                (\<lambda>ds. let buffer = ds @ replicate (unat zero_pad - length ds) 48 @
                                       (if negative then [45] else [])
                       in Some (reverse_loop (length buffer div 2) 0 buffer)))"

section \<open>The output buffer\<close>

record mini_buff =
  chars :: "byte list"
  buffer_len :: u32

definition putc_buff :: "cint \<Rightarrow> mini_buff \<Rightarrow> mini_buff \<times> cint" where
  "putc_buff ch b =
     (if buffer_len b \<le> of_nat (length (chars b) + 1) then (b, 0)
      else (b\<lparr>chars := chars b @ [ucast ch]\<rparr>, 1))"

text \<open>The room that is left is computed with 64 bits and a sign, and the length is cut to it. The
  loop then copies that many bytes of the string, with no check of its own on the buffer; reading
  past the end of the string is an error.\<close>

definition puts_buff :: "byte list \<Rightarrow> u32 \<Rightarrow> mini_buff \<Rightarrow> (mini_buff \<times> u32) res" where
  "puts_buff s len b =
     (let room = uint (buffer_len b) - int (length (chars b)) - 1;
          len = (if room < uint len then word_of_int room else len)
      in if unat len \<le> length s
         then Inr (b\<lparr>chars := chars b @ take (unat len) s\<rparr>, len)
         else Inl OutOfBounds)"

section \<open>Formats\<close>

datatype fmt_arg = Arg u64 | Arg_str "byte list"

definition next_ch :: "byte list \<Rightarrow> byte \<times> byte list" where
  "next_ch fmt = (case fmt of [] \<Rightarrow> (0, []) | ch # rest \<Rightarrow> (ch, rest))"

text \<open>The digits after \<^verbatim>\<open>%0\<close>: the padding, modulo 256, and the character after them.\<close>

fun zero_pad_loop :: "byte \<Rightarrow> byte list \<Rightarrow> byte \<times> byte \<times> byte list" where
  "zero_pad_loop zero_pad [] = (zero_pad, 0, [])"
| "zero_pad_loop zero_pad (ch # fmt) =
     (if ch = 0 then (zero_pad, 0, fmt)
      else if 48 \<le> ch \<and> ch \<le> 57 then zero_pad_loop (zero_pad * 10 + ch - 48) fmt
      else (zero_pad, ch, fmt))"

text \<open>What follows a \<^verbatim>\<open>%\<close>: the padding, the flag \<^verbatim>\<open>l\<close>, the conversion and the rest of the format.\<close>

definition directive :: "byte list \<Rightarrow> byte \<times> bool \<times> byte \<times> byte list" where
  "directive fmt =
     (let (ch, fmt) = next_ch fmt;
          (zero_pad, ch, fmt) = (if ch = 48 then zero_pad_loop 0 fmt else (0, ch, fmt));
          longflag = (ch = 108);
          (ch, fmt) = (if longflag then next_ch fmt else (ch, fmt))
      in (zero_pad, longflag, ch, fmt))"

definition BF_SIZE :: nat where "BF_SIZE = 24"

definition put_number :: "bool \<Rightarrow> u64 \<Rightarrow> u32 \<Rightarrow> bool \<Rightarrow> bool \<Rightarrow> byte \<Rightarrow> mini_buff \<Rightarrow> mini_buff res" where
  "put_number longflag arg radix uppercase unsig zero_pad b =
     bind_res (ends (mini_itoa (if longflag then arg else ucast (ucast arg :: u32)) radix uppercase unsig
                       (ucast zero_pad)))
       (\<lambda>bf. if length bf < BF_SIZE
              then bind_res (puts_buff bf (of_nat (length bf)) b) (\<lambda>(b, n). Inr b)
              else Inl OutOfBounds)"

text \<open>The \<^verbatim>\<open>switch\<close> on the conversion, with the arguments that are left.\<close>

definition convert :: "byte \<Rightarrow> bool \<Rightarrow> byte \<Rightarrow> fmt_arg list \<Rightarrow> mini_buff \<Rightarrow> (fmt_arg list \<times> mini_buff) res" where
  "convert zero_pad longflag ch va b =
     (if ch = 108 then Inr (va, b)
      else if ch = 117 \<or> ch = 100 then
        (case va of Arg w # va \<Rightarrow>
           bind_res (put_number longflag w 10 False (ch = 117) zero_pad b) (\<lambda>b. Inr (va, b))
         | _ \<Rightarrow> Inl BadArgument)
      else if ch = 120 \<or> ch = 88 then
        (case va of Arg w # va \<Rightarrow>
           bind_res (put_number longflag w 16 (ch = 88) True zero_pad b) (\<lambda>b. Inr (va, b))
         | _ \<Rightarrow> Inl BadArgument)
      else if ch = 99 then
        (case va of Arg w # va \<Rightarrow> Inr (va, fst (putc_buff (ucast (ucast w :: byte)) b))
         | _ \<Rightarrow> Inl BadArgument)
      else if ch = 115 then
        (case va of Arg_str s # va \<Rightarrow>
           bind_res (puts_buff s (of_nat (length s)) b) (\<lambda>(b, n). Inr (va, b))
         | _ \<Rightarrow> Inl BadArgument)
      else Inr (va, fst (putc_buff (ucast ch) b)))"

lemma next_ch_length: "length (snd (next_ch fmt)) \<le> length fmt"
  by (cases fmt) (auto simp: next_ch_def)

lemma zero_pad_loop_length: "length (snd (snd (zero_pad_loop z fmt))) \<le> length fmt"
  by (induction z fmt rule: zero_pad_loop.induct) auto

lemma directive_length: "length (snd (snd (snd (directive fmt)))) \<le> length fmt"
proof -
  obtain ch1 f1 where 1: "next_ch fmt = (ch1, f1)" by fastforce
  obtain z ch2 f2 where 2: "(if ch1 = 48 then zero_pad_loop 0 f1 else (0, ch1, f1)) = (z, ch2, f2)"
    by (metis prod_cases3)
  have "length f1 \<le> length fmt" using next_ch_length [of fmt] 1 by simp
  moreover have "length f2 \<le> length f1"
    using zero_pad_loop_length [of 0 f1] 2 by (auto split: if_splits)
  moreover have "length (snd (next_ch f2)) \<le> length f2" by (rule next_ch_length)
  ultimately show ?thesis
    unfolding directive_def 1 2 Let_def by (simp add: 2 split: prod.split)
qed

lemma directive_shrinks: "(zero_pad, longflag, ch, rest) = directive fmt \<Longrightarrow> length rest \<le> length fmt"
  using directive_length [of fmt] by (metis snd_conv)

function vsnprintf_loop :: "byte list \<Rightarrow> fmt_arg list \<Rightarrow> mini_buff \<Rightarrow> mini_buff res" where
  "vsnprintf_loop [] va b = Inr b"
| "vsnprintf_loop (ch # fmt) va b =
     (if ch = 0 \<or> buffer_len b \<le> of_nat (length (chars b) + 1) then Inr b
      else if ch \<noteq> 37 then vsnprintf_loop fmt va (fst (putc_buff (ucast ch) b))
      else case directive fmt of (zero_pad, longflag, conv, rest) \<Rightarrow>
             if conv = 0 then Inr b
             else bind_res (convert zero_pad longflag conv va b)
                    (\<lambda>(va, b). vsnprintf_loop rest va b))"
  by pat_completeness auto
termination
  by (relation "measure (\<lambda>(fmt, va, b). length fmt)") (auto simp: less_Suc_eq_le directive_shrinks)

text \<open>The text without its terminator; its length is the result of the code.\<close>

definition mini_vsnprintf :: "u32 \<Rightarrow> byte list \<Rightarrow> fmt_arg list \<Rightarrow> byte list res" where
  "mini_vsnprintf n fmt va =
     bind_res (vsnprintf_loop fmt va \<lparr>chars = [], buffer_len = n\<rparr>) (\<lambda>b. Inr (chars b))"

section \<open>Reversing\<close>

lemma reverse_loop_rev:
  assumes "i + k = length xs div 2"
    and "length ys = length xs"
    and "\<forall>j < length xs. ys ! j = (if j < i \<or> length xs - i \<le> j then rev xs ! j else xs ! j)"
  shows "reverse_loop k i ys = rev xs"
  using assms
proof (induction k arbitrary: i ys)
  case 0
  have "ys ! j = rev xs ! j" if j: "j < length xs" for j
  proof (cases "j < i \<or> length xs - i \<le> j")
    case True
    then show ?thesis using 0 j by simp
  next
    case False
    then have "length xs - Suc j = j" using 0(1) by (auto simp: not_less not_le)
    then show ?thesis using False 0(3) j by (simp add: rev_nth)
  qed
  then show ?case using 0(2) by (intro nth_equalityI) auto
next
  case (Suc k)
  let ?n = "length xs"
  let ?ys = "ys[i := ys ! (?n - i - 1), ?n - i - 1 := ys ! i]"
  have i: "i < ?n - i - 1" using Suc.prems(1) by linarith
  have "reverse_loop k (Suc i) ?ys = rev xs"
  proof (rule Suc.IH)
    show "Suc i + k = ?n div 2" using Suc.prems(1) by simp
    show "length ?ys = ?n" using Suc.prems(2) by simp
    show "\<forall>j < ?n. ?ys ! j = (if j < Suc i \<or> ?n - Suc i \<le> j then rev xs ! j else xs ! j)"
    proof (intro allI impI)
      fix j assume j: "j < ?n"
      have a: "ys ! i = xs ! i" "ys ! (?n - i - 1) = xs ! (?n - i - 1)" using i Suc.prems(3) by auto
      consider (lo) "j = i" | (hi) "j = ?n - i - 1" | (other) "j \<noteq> i" "j \<noteq> ?n - i - 1" by blast
      then show "?ys ! j = (if j < Suc i \<or> ?n - Suc i \<le> j then rev xs ! j else xs ! j)"
      proof cases
        case lo
        then show ?thesis using i a Suc.prems(2) by (simp add: rev_nth nth_list_update)
      next
        case hi
        then show ?thesis using i a Suc.prems(2) by (simp add: rev_nth nth_list_update)
      next
        case other
        then have "(j < Suc i \<or> ?n - Suc i \<le> j) = (j < i \<or> ?n - i \<le> j)" using i j by auto
        then show ?thesis using other Suc.prems(3) j by simp
      qed
    qed
  qed
  then show ?case using Suc.prems(2) by simp
qed

lemma reverse_loop_reverses: "reverse_loop (length xs div 2) 0 xs = rev xs"
  by (rule reverse_loop_rev) auto

section \<open>Unsigned numbers\<close>

text \<open>The digit a character stands for, and the value of a text.\<close>

definition digit_value :: "byte \<Rightarrow> nat" where
  "digit_value c = (let k = unat c in if k < 58 then k - 48 else if k < 91 then k - 55 else k - 87)"

definition number_value :: "nat \<Rightarrow> byte list \<Rightarrow> nat" where
  "number_value radix cs = foldl (\<lambda>v c. v * radix + digit_value c) 0 cs"

fun digits_of :: "nat \<Rightarrow> nat \<Rightarrow> nat list" where
  "digits_of radix n = (if n < radix \<or> radix < 2 then [n] else n mod radix # digits_of radix (n div radix))"

declare digits_of.simps [simp del]

lemma digit_char_small:
  assumes "k < 16"
  shows "digit_char uppercase (of_nat k) =
     of_nat (if k < 10 then 48 + k else (if uppercase then 55 else 87) + k)"
proof -
  have "\<forall>k \<in> set [0..<16]. \<forall>u \<in> {True, False}.
      digit_char u (of_nat k) = of_nat (if k < 10 then 48 + k else (if u then 55 else 87) + k)"
    by code_simp
  then show ?thesis using assms by (cases uppercase) auto
qed

lemma digit_char_large: "k < 16 \<Longrightarrow> 48 \<le> digit_char uppercase (of_nat k)"
proof -
  assume k: "k < 16"
  have "\<forall>k \<in> set [0..<16]. \<forall>u \<in> {True, False}. 48 \<le> digit_char u (of_nat k)"
    by code_simp
  then show ?thesis using k by (cases uppercase) auto
qed

lemma digit_value_char:
  assumes "k < 16"
  shows "digit_value (digit_char uppercase (of_nat k)) = k"
proof -
  have "\<forall>k \<in> set [0..<16]. \<forall>u \<in> {True, False}. digit_value (digit_char u (of_nat k)) = k"
    by code_simp
  then show ?thesis using assms by (cases uppercase) auto
qed

lemma itoa_digits_unsigned:
  assumes radix: "2 \<le> unat radix" "unat radix \<le> 16"
  shows "itoa_digits radix uppercase True v =
     Some (map (\<lambda>k. digit_char uppercase (of_nat k)) (digits_of (unat radix) (unat v)))"
proof (induction "unat v" arbitrary: v rule: less_induct)
  case less
  let ?r = "unat radix" and ?v = "unat v"
  have r0: "radix \<noteq> 0" using radix by auto
  have m: "unat (remu v radix) = ?v mod ?r" "unat (divu v radix) = ?v div ?r"
    using r0 by (simp_all add: remu_def unat_mod unat_div)
  have digit: "(ucast (remu v radix) :: cint) = of_nat (?v mod ?r)"
    unfolding m(1) [symmetric] by simp
  have zero: "divu v radix = 0 \<longleftrightarrow> ?v < ?r"
    using m(2) radix by (simp add: unat_eq_0 [symmetric] div_eq_0_iff del: unat_eq_0)
  show ?case
  proof (cases "?v < ?r")
    case True
    then show ?thesis
      using digit zero by (subst itoa_digits.simps) (simp add: Let_def digits_of.simps [of ?r ?v])
  next
    case False
    then have "?v div ?r < ?v" using radix by (intro div_less_dividend) auto
    then have "itoa_digits radix uppercase True (divu v radix) =
        Some (map (\<lambda>k. digit_char uppercase (of_nat k)) (digits_of ?r (?v div ?r)))"
      using less [of "divu v radix"] m(2) by simp
    then show ?thesis
      using False digit zero radix by (subst itoa_digits.simps) (simp add: Let_def digits_of.simps [of ?r ?v])
  qed
qed

lemma digits_of_less: "2 \<le> r \<Longrightarrow> k \<in> set (digits_of r n) \<Longrightarrow> k < r"
proof (induction r n rule: digits_of.induct)
  case (1 r n)
  then show ?case by (cases "n < r") (auto simp: digits_of.simps [of r n])
qed

lemma digits_of_value:
  assumes "2 \<le> r" and "r \<le> 16"
  shows "foldr (\<lambda>c v. v * r + digit_value c) (map (\<lambda>k. digit_char u (of_nat k)) (digits_of r n)) 0 = n"
  using assms
proof (induction r n rule: digits_of.induct)
  case (1 r n)
  have "n mod r < r" using 1(2) by (intro mod_less_divisor) simp
  then have "n mod r < 16" using 1(3) by linarith
  then show ?case
    using 1 by (subst digits_of.simps) (simp add: digit_value_char)
qed

lemma digits_of_last: "2 \<le> r \<Longrightarrow> last (digits_of r n) = 0 \<longleftrightarrow> n = 0"
proof (induction r n rule: digits_of.induct)
  case (1 r n)
  have "digits_of r m \<noteq> []" for m by (subst digits_of.simps) simp
  then show ?case using 1 by (subst digits_of.simps) (auto simp: div_eq_0_iff)
qed

lemma number_value_zeros: "number_value r (replicate k 48 @ cs) = number_value r cs"
proof -
  have "foldl (\<lambda>v c. v * r + digit_value c) 0 (replicate k 48) = 0"
    by (induction k) (simp_all add: digit_value_def)
  then show ?thesis by (simp add: number_value_def)
qed

lemma mini_itoa_unsigned_text:
  assumes "2 \<le> unat radix" and "unat radix \<le> 16"
  shows "mini_itoa v radix uppercase True zero_pad =
    (let ds = map (\<lambda>k. digit_char uppercase (of_nat k)) (digits_of (unat radix) (unat v))
     in Some (replicate (unat zero_pad - length ds) 48 @ rev ds))"
proof -
  have "unat (ucast radix :: u64) = unat radix" by (rule unat_ucast_u64)
  moreover have "\<not> 16 < radix" using assms by (simp add: word_less_nat_alt)
  ultimately show ?thesis
    using assms itoa_digits_unsigned [of "ucast radix" uppercase v]
    by (simp add: mini_itoa_def Let_def reverse_loop_reverses)
qed

lemma mini_itoa_unsigned_aux:
  assumes "2 \<le> unat radix" and "unat radix \<le> 16"
  shows "\<exists>cs. mini_itoa v radix uppercase True zero_pad = Some cs \<and>
     number_value (unat radix) cs = unat v \<and> unat zero_pad \<le> length cs \<and>
     (hd cs = 48 \<longrightarrow> length cs = unat zero_pad \<or> v = 0) \<and>
     cs \<noteq> [] \<and> (\<forall>c \<in> set cs. 48 \<le> c)"
proof -
  let ?ns = "digits_of (unat radix) (unat v)"
  let ?ds = "map (\<lambda>k. digit_char uppercase (of_nat k)) ?ns"
  let ?cs = "replicate (unat zero_pad - length ?ds) 48 @ rev ?ds"
  have ne: "?ns \<noteq> []" by (subst digits_of.simps) simp
  have "number_value (unat radix) (rev ?ds) = unat v"
    using digits_of_value [OF assms, of uppercase "unat v"]
    by (simp add: number_value_def foldr_conv_foldl)
  then have "number_value (unat radix) ?cs = unat v" by (simp only: number_value_zeros)
  moreover have "unat zero_pad \<le> length ?cs" by simp
  moreover have "v = 0" if "hd ?cs = 48" and "length ?cs \<noteq> unat zero_pad"
  proof -
    have "hd (rev ?ds) = 48" using that by (cases "unat zero_pad - length ?ds") auto
    then have "digit_char uppercase (of_nat (last ?ns)) = 48"
      using ne by (simp add: hd_rev last_map)
    moreover have "last ?ns < 16" using digits_of_less [OF assms(1), of "last ?ns" "unat v"] last_in_set ne assms(2) by simp
    ultimately have "last ?ns = 0"
      using digit_value_char [of "last ?ns" uppercase] by (simp add: digit_value_def)
    then show "v = 0" using digits_of_last [OF assms(1)] by (simp add: unat_eq_0)
  qed
  moreover have "?cs \<noteq> []" using ne by simp
  moreover have "\<forall>c \<in> set ?cs. 48 \<le> c"
  proof -
    have "48 \<le> digit_char uppercase (of_nat k)" if "k \<in> set ?ns" for k
      using digits_of_less [OF assms(1) that] assms(2) digit_char_large [of k uppercase] by simp
    then show ?thesis by auto
  qed
  ultimately show ?thesis
    using mini_itoa_unsigned_text [OF assms, of v uppercase zero_pad]
    unfolding Let_def by blast
qed

text \<open>C28. \<^verbatim>\<open>mini_itoa\<close> on an unsigned number returns its numeral in the given radix: reading the text
  back gives the number, the text has at least the padded width, and it starts with a zero only
  when it was padded to that width or the number is zero.\<close>

theorem mini_itoa_unsigned:
  assumes "2 \<le> unat radix" and "unat radix \<le> 16"
  shows "\<exists>cs. mini_itoa v radix uppercase True zero_pad = Some cs \<and>
     number_value (unat radix) cs = unat v \<and> unat zero_pad \<le> length cs \<and>
     (hd cs = 48 \<longrightarrow> length cs = unat zero_pad \<or> v = 0)"
  using mini_itoa_unsigned_aux [OF assms, of v uppercase zero_pad] by blast

lemma mini_itoa_unsigned_witness:
  "mini_itoa 0xfe 16 False True 4 = Some [48, 48, 102, 101] \<and>
   (\<exists>cs. mini_itoa 0xfe 16 False True 4 = Some cs \<and> number_value 16 cs = 0xfe)"
proof
  show "mini_itoa 0xfe 16 False True 4 = Some [48, 48, 102, 101]" by code_simp
  show "\<exists>cs. mini_itoa 0xfe 16 False True 4 = Some cs \<and> number_value 16 cs = 0xfe"
    using mini_itoa_unsigned [of 16 "0xfe" False 4] by auto
qed

section \<open>Signed numbers\<close>

lemma sint_eq_uint_small: "uint (a :: u64) < 2 ^ 63 \<Longrightarrow> sint a = uint a"
proof -
  assume a: "uint a < 2 ^ 63"
  have "- (2 ^ 63) \<le> uint a" by (rule order_trans [OF _ uint_ge_0]) simp
  then have "signed_take_bit 63 (uint a) = uint a" using a by (rule signed_take_bit_int_eq_self)
  then show ?thesis by (simp add: sint_uint)
qed

lemma sint_nonneg:
  assumes "0 \<le> sint (a :: u64)"
  shows "sint a = uint a" and "uint a < 2 ^ 63"
proof -
  have "sint a = signed_take_bit 63 (uint a)" by (simp add: sint_uint)
  then have "\<not> bit (uint a) 63" using assms by (simp only: signed_take_bit_nonnegative_iff) simp
  moreover have "take_bit (Suc 63) (uint a) = uint a"
    using uint_lt2p [of a] by (intro take_bit_int_eq_self) simp_all
  ultimately have "take_bit 63 (uint a) = uint a"
    using take_bit_Suc_from_most [of 63 "uint a"] by simp
  moreover have "take_bit 63 (uint a) < 2 ^ 63" by (rule take_bit_int_less_exp)
  ultimately show "uint a < 2 ^ 63" by simp
  then show "sint a = uint a" by (rule sint_eq_uint_small)
qed

lemma signed_division_nonneg:
  assumes a: "0 \<le> sint a" and r: "0 < sint r"
  shows "sremw a r = remu a r" and "sdivw a r = divu a r" and "0 \<le> sint (divu a r)"
proof -
  have u: "sint a = uint a" "sint r = uint r" using a r by (simp_all add: sint_nonneg)
  have r0: "r \<noteq> 0" using r by auto
  show "sremw a r = remu a r"
    using r0 u a by (simp add: sremw_def remu_def smod_int_alt_def word_mod_def)
  show "sdivw a r = divu a r"
    using r0 a r u by (simp add: sdivw_def divu_def word_div_def signed_divide_int_def)
  have "uint (a div r) \<le> uint a"
    using zdiv_mono2 [of "uint a" 1 "uint r"] r u by (simp add: uint_div)
  then have "uint (divu a r) < 2 ^ 63"
    using r0 sint_nonneg(2) [OF a] by simp
  then show "0 \<le> sint (divu a r)" by (simp add: sint_eq_uint_small)
qed

lemma itoa_digits_signed_nonneg:
  assumes "2 \<le> unat radix" and "unat radix \<le> 16" and "0 \<le> sint v"
  shows "itoa_digits radix uppercase False v = itoa_digits radix uppercase True v"
  using assms(3)
proof (induction "unat v" arbitrary: v rule: less_induct)
  case less
  have "uint radix = int (unat radix)" by simp
  then have "uint radix \<le> 16" "2 \<le> uint radix" using assms(1,2) by (simp_all del: of_nat_unat uint_nat)
  then have "0 < sint radix" by (subst sint_eq_uint_small) simp_all
  note d = signed_division_nonneg [OF less.prems this]
  show ?case
  proof (cases "divu v radix = 0")
    case True
    then show ?thesis
      by (subst (1 2) itoa_digits.simps) (simp add: d Let_def)
  next
    case False
    have r0: "radix \<noteq> 0" using assms(1) by auto
    then have "v \<noteq> 0" using False by auto
    then have "unat (divu v radix) < unat v"
      using r0 assms(1) by (simp add: unat_div unat_gt_0 div_less_dividend)
    from less.hyps [OF this d(3)] show ?thesis
      using False by (subst (1 2) itoa_digits.simps) (simp add: d Let_def)
  qed
qed

lemma sint_minus_u64:
  assumes "sint (v :: u64) \<noteq> - (2 ^ 63)"
  shows "sint (- v) = - sint v"
proof -
  have b: "- (2 ^ 63) \<le> sint v" "sint v < 2 ^ 63"
    using sint_ge [of v] sint_lt [of v] by simp_all
  have "sint (- v) = signed_take_bit 63 (- sint v)"
    using sint_sbintrunc' [where 'a = 64, of "- sint v"] by simp
  also have "\<dots> = - sint v"
    using b assms by (intro signed_take_bit_int_eq_self) linarith+
  finally show ?thesis .
qed

lemma mini_itoa_signed_text:
  assumes "2 \<le> unat radix" and "unat radix \<le> 16" and "sint v \<noteq> - (2 ^ 63)"
  shows "mini_itoa v radix uppercase False zero_pad =
    (if sint v < 0 then map_option ((#) 45) (mini_itoa (- v) radix uppercase True zero_pad)
     else mini_itoa v radix uppercase True zero_pad)"
proof -
  let ?w = "if sint v < 0 then - v else v"
  have "0 \<le> sint ?w" using sint_minus_u64 [OF assms(3)] by auto
  then have d: "itoa_digits (ucast radix) uppercase False ?w = itoa_digits (ucast radix) uppercase True ?w"
    using assms(1,2) by (intro itoa_digits_signed_nonneg) (simp_all only: unat_ucast_u64)
  have "\<not> 16 < radix" using assms(1,2) by (simp add: word_less_nat_alt)
  moreover obtain ds where "itoa_digits (ucast radix) uppercase True ?w = Some ds"
    using itoa_digits_unsigned [of "ucast radix" uppercase ?w] assms(1,2)
    by (simp only: unat_ucast_u64)
  ultimately show ?thesis
    using d by (cases "sint v < 0")
      (simp_all add: mini_itoa_def Let_def reverse_loop_reverses del: length_append)
qed

text \<open>The value of a text that may start with a minus sign.\<close>

definition signed_value :: "nat \<Rightarrow> byte list \<Rightarrow> int" where
  "signed_value radix cs =
     (if hd cs = 45 then - int (number_value radix (tl cs)) else int (number_value radix cs))"

text \<open>\<^verbatim>\<open>mini_itoa\<close> on a signed number other than the least 64-bit integer returns a text whose
  value is the number, with a minus sign exactly when the number is negative.\<close>

lemma mini_itoa_signed:
  assumes "2 \<le> unat radix" and "unat radix \<le> 16" and "sint v \<noteq> - (2 ^ 63)"
  shows "\<exists>cs. mini_itoa v radix uppercase False zero_pad = Some cs \<and>
     signed_value (unat radix) cs = sint v \<and> (hd cs = 45 \<longleftrightarrow> sint v < 0)"
proof -
  have pos: "\<exists>cs. mini_itoa w radix uppercase True zero_pad = Some cs \<and>
      number_value (unat radix) cs = unat w \<and> hd cs \<noteq> 45" for w
  proof -
    obtain cs where "mini_itoa w radix uppercase True zero_pad = Some cs"
      "number_value (unat radix) cs = unat w" "cs \<noteq> []" "\<forall>c \<in> set cs. 48 \<le> c"
      using mini_itoa_unsigned_aux [OF assms(1,2)] by blast
    moreover have "hd cs \<noteq> 45" using calculation(3,4) by (cases cs) auto
    ultimately show ?thesis by blast
  qed
  show ?thesis
  proof (cases "sint v < 0")
    case True
    obtain cs where "mini_itoa (- v) radix uppercase True zero_pad = Some cs"
      "number_value (unat radix) cs = unat (- v)"
      using pos by blast
    moreover have "int (unat (- v)) = - sint v"
      using sint_minus_u64 [OF assms(3)] sint_nonneg [of "- v"] True by simp
    ultimately show ?thesis
      using True mini_itoa_signed_text [OF assms, of uppercase zero_pad] by (auto simp: signed_value_def)
  next
    case False
    obtain cs where "mini_itoa v radix uppercase True zero_pad = Some cs"
      "number_value (unat radix) cs = unat v" "hd cs \<noteq> 45"
      using pos by blast
    moreover have "int (unat v) = sint v" using sint_nonneg [of v] False by simp
    ultimately show ?thesis
      using False mini_itoa_signed_text [OF assms, of uppercase zero_pad] by (auto simp: signed_value_def)
  qed
qed

lemma mini_itoa_signed_witness:
  "\<exists>cs. mini_itoa (- 42) 10 False False 0 = Some cs \<and> signed_value 10 cs = - 42 \<and> hd cs = 45"
proof -
  have "sint (- 42 :: u64) = - 42" by simp
  then show ?thesis using mini_itoa_signed [of 10 "- 42" False 0] by simp
qed

text \<open>The least 64-bit integer has no negation, so its digits come out negative: the text of
  \<^verbatim>\<open>%ld\<close> for it is a minus sign followed by characters below the digits, not its numeral.\<close>

lemma mini_itoa_least:
  "mini_itoa 0x8000000000000000 10 False False 0 =
     Some [45, 39, 46, 46, 45, 45, 41, 46, 48, 45, 42, 40, 43, 44, 41, 41, 43, 40, 48, 40]"
  by code_simp

section \<open>Formatted text stays inside the buffer\<close>

definition fits :: "mini_buff \<Rightarrow> bool" where
  "fits b \<longleftrightarrow> length (chars b) < unat (buffer_len b)"

lemma putc_fits: "fits b \<Longrightarrow> fits (fst (putc_buff ch b)) \<and> buffer_len (fst (putc_buff ch b)) = buffer_len b"
proof -
  assume f: "fits b"
  have "unat (buffer_len b) < 2 ^ LENGTH(32)" by (rule unsigned_less)
  then have "unat (of_nat (length (chars b) + 1) :: u32) = length (chars b) + 1"
    using f unfolding fits_def by (intro unat_of_nat_u32) simp
  then show ?thesis
    using f unfolding putc_buff_def word_le_nat_alt by (simp add: fits_def)
qed

lemma clamp_fits:
  assumes f: "fits b" and "room = uint (buffer_len b) - int (length (chars b)) - 1"
  shows "length (chars b) + unat (if room < uint len then word_of_int room else len :: u32) < unat (buffer_len b)"
proof -
  have u: "int (unat (buffer_len b)) = uint (buffer_len b)" by simp
  have "uint (buffer_len b) < 2 ^ LENGTH(32)" by (rule unsigned_less)
  then have "uint (buffer_len b) < 4294967296" by simp
  then have r: "0 \<le> room" "room < 4294967296" "int (unat (buffer_len b)) = int (length (chars b)) + room + 1"
    using f assms(2) u unfolding fits_def by linarith+
  show ?thesis
  proof (cases "room < uint len")
    case True
    have "int (unat (word_of_int room :: u32)) = room"
      using r(1,2) by (simp add: uint_word_of_int_eq take_bit_int_eq_self)
    with True r(3) show ?thesis by (simp only: if_True)
  next
    case False
    moreover have "int (unat len) = uint len" by simp
    ultimately show ?thesis using r(3) by (simp only: if_False)
  qed
qed

lemma puts_fits:
  assumes "fits b" and "puts_buff s len b = Inr (b', n)"
  shows "fits b' \<and> buffer_len b' = buffer_len b"
  using clamp_fits [OF assms(1) refl, of len] assms(2)
  unfolding puts_buff_def Let_def fits_def by (auto split: if_splits)

lemma put_number_fits:
  "fits b \<Longrightarrow> put_number longflag arg radix uppercase unsig zero_pad b = Inr b' \<Longrightarrow>
   fits b' \<and> buffer_len b' = buffer_len b"
  using puts_fits by (auto simp: put_number_def bind_res_def split: sum.splits if_splits)

lemma convert_fits:
  assumes "fits b" and "convert zero_pad longflag ch va b = Inr (va', b')"
  shows "fits b' \<and> buffer_len b' = buffer_len b"
  using assms putc_fits [OF assms(1)]
  by (auto simp: convert_def bind_res_def split: if_splits list.splits fmt_arg.splits sum.splits
      dest: put_number_fits [OF assms(1)] puts_fits [OF assms(1)])

lemma vsnprintf_loop_fits:
  "fits b \<Longrightarrow> vsnprintf_loop fmt va b = Inr b' \<Longrightarrow> fits b' \<and> buffer_len b' = buffer_len b"
proof (induction fmt va b arbitrary: b' rule: vsnprintf_loop.induct)
  case (2 ch fmt va b)
  obtain z l c rest where d: "directive fmt = (z, l, c, rest)" by (metis prod_cases4)
  consider (stop) "ch = 0 \<or> buffer_len b \<le> of_nat (length (chars b) + 1)"
    | (plain) "\<not> (ch = 0 \<or> buffer_len b \<le> of_nat (length (chars b) + 1))" "ch \<noteq> 37"
    | (conv) "\<not> (ch = 0 \<or> buffer_len b \<le> of_nat (length (chars b) + 1))" "ch = 37"
    by blast
  then show ?case
  proof cases
    case stop
    then show ?thesis using 2(3,4) by (simp only: vsnprintf_loop.simps if_True) simp
  next
    case plain
    let ?b = "fst (putc_buff (ucast ch) b)"
    have "vsnprintf_loop fmt va ?b = Inr b'"
      using 2(4) plain unfolding vsnprintf_loop.simps by (simp only: if_False not_False_eq_True if_True)
    then show ?thesis using 2(1) [OF plain] putc_fits [OF 2(3)] by simp
  next
    case conv
    then have e: "(if c = 0 then Inr b else bind_res (convert z l c va b) (\<lambda>(va, b). vsnprintf_loop rest va b)) =
        Inr b'"
      using 2(4) unfolding vsnprintf_loop.simps d prod.case by (simp only: if_False simp_thms)
    show ?thesis
    proof (cases "c = 0")
      case True
      then show ?thesis using e 2(3) by simp
    next
      case c: False
      from e c obtain va1 b1 where 1: "convert z l c va b = Inr (va1, b1)"
        "vsnprintf_loop rest va1 b1 = Inr b'"
        by (cases "convert z l c va b") auto
      from convert_fits [OF 2(3) 1(1)] have b1: "fits b1" "buffer_len b1 = buffer_len b" by simp_all
      have "\<not> ch \<noteq> 37" using conv by simp
      from 2(2) [OF conv(1) this d [symmetric] refl refl c b1(1) 1(2)] b1(2)
      show ?thesis by simp
    qed
  qed
qed simp

text \<open>C27. \<^verbatim>\<open>mini_vsnprintf\<close> never writes past the end of its output: whatever the format and its
  arguments, the text and its terminator fit the given size.\<close>

theorem mini_vsnprintf_bounded:
  assumes "0 < n" and "mini_vsnprintf n fmt va = Inr cs"
  shows "length cs < unat n"
proof -
  have "fits \<lparr>chars = [], buffer_len = n\<rparr>" using assms(1) by (simp add: fits_def word_less_nat_alt)
  moreover obtain b where "vsnprintf_loop fmt va \<lparr>chars = [], buffer_len = n\<rparr> = Inr b" "cs = chars b"
    using assms(2) by (auto simp: mini_vsnprintf_def bind_res_def split: sum.splits)
  ultimately show ?thesis
    using vsnprintf_loop_fits [of "\<lparr>chars = [], buffer_len = n\<rparr>" fmt va b] by (auto simp: fits_def)
qed

lemma mini_vsnprintf_bounded_witness:
  "mini_vsnprintf 4 [97, 37, 100, 33] [Arg 1234] = Inr [97, 49, 50] \<and> length [97, 49, 50 :: byte] < unat (4 :: u32)"
proof
  show "mini_vsnprintf 4 [97, 37, 100, 33] [Arg 1234] = Inr [97, 49, 50]" by code_simp
  from mini_vsnprintf_bounded [OF _ this] show "length [97, 49, 50 :: byte] < unat (4 :: u32)" by simp
qed

end
