(* ===== verification/Screen.thy ===== *)
theory Screen
  imports Bios Format
begin

text \<open>
  Printing (\<^verbatim>\<open>libs/printk.c\<close>) and the screen driver (\<^verbatim>\<open>drivers/screen.c\<close>): a buffer of fifty lines
  of eighty characters, what the terminal was last sent, and the refresh that sends only the
  difference. The driver's output is the list of its calls of the firmware; what a terminal makes
  of them is outside the model.
\<close>

section \<open>Printing to the console and to the log\<close>

definition bytes_of :: "string \<Rightarrow> byte list" where
  "bytes_of = List.map of_char"

definition vprint ::
  "byte list \<Rightarrow> fmt_arg list \<Rightarrow> (byte list \<Rightarrow> kstate \<Rightarrow> kstate res) \<Rightarrow> kstate \<Rightarrow> (kstate \<times> cint) res" where
  "vprint fmt va output s =
     bind_res (mini_vsnprintf 256 fmt va) (\<lambda>buff.
     bind_res (output (takeWhile (\<lambda>c. c \<noteq> 0) buff) s) (\<lambda>s.
     Inr (s, of_nat (length buff))))"

definition printv :: "byte list \<Rightarrow> fmt_arg list \<Rightarrow> kstate \<Rightarrow> (kstate \<times> cint) res" where
  "printv fmt va = vprint fmt va bios_putstr"

definition printl :: "byte list \<Rightarrow> fmt_arg list \<Rightarrow> kstate \<Rightarrow> (kstate \<times> cint) res" where
  "printl fmt va = vprint fmt va bios_logging"

section \<open>The screen driver\<close>

definition SCREEN_WIDTH :: nat where "SCREEN_WIDTH = 80"
definition SCREEN_HEIGHT :: nat where "SCREEN_HEIGHT = 50"
definition SCREEN_SIZE :: nat where "SCREEN_SIZE = SCREEN_HEIGHT * SCREEN_WIDTH"

definition SCREEN_LOC :: "cint \<Rightarrow> cint \<Rightarrow> cint" where
  "SCREEN_LOC x y = y * of_nat SCREEN_WIDTH + x"

definition vt100_move_cursor :: "cint \<Rightarrow> cint \<Rightarrow> kstate \<Rightarrow> kstate res" where
  "vt100_move_cursor x y s =
     bind_res (printv (bytes_of ''%c[%d;%dH'') [Arg 27, Arg (scast y), Arg (scast x)] s) (\<lambda>(s, r). Inr s)"

definition vt100_clear :: "kstate \<Rightarrow> kstate res" where
  "vt100_clear s = bind_res (printv (bytes_of ''%c[2J'') [Arg 27] s) (\<lambda>(s, r). Inr s)"

definition vt100_hidden_cursor :: "kstate \<Rightarrow> kstate res" where
  "vt100_hidden_cursor s = bind_res (printv (bytes_of ''%c[?25l'') [Arg 27] s) (\<lambda>(s, r). Inr s)"

definition screen_write_ch :: "byte \<Rightarrow> kstate \<Rightarrow> kstate res" where
  "screen_write_ch ch s =
     (let p = current_running s in
      if ch = 10
      then Inr (s\<lparr>cursor_x := (cursor_x s)(p := 0), cursor_y := (cursor_y s)(p := cursor_y s p + 1)\<rparr>)
      else bind_res (array_index SCREEN_SIZE (SCREEN_LOC (cursor_x s p) (cursor_y s p))) (\<lambda>i.
           Inr (s\<lparr>new_screen := (new_screen s)[i := ch], cursor_x := (cursor_x s)(p := cursor_x s p + 1)\<rparr>)))"

fun screen_write :: "byte list \<Rightarrow> kstate \<Rightarrow> kstate res" where
  "screen_write [] s = Inr s"
| "screen_write (ch # buff) s = bind_res (screen_write_ch ch s) (screen_write buff)"

text \<open>The two nested loops over the cells, row by row.\<close>

definition cells :: "(nat \<times> nat) list" where
  "cells = List.product [0..<SCREEN_HEIGHT] [0..<SCREEN_WIDTH]"

definition reflush_cell :: "nat \<times> nat \<Rightarrow> kstate \<Rightarrow> kstate res" where
  "reflush_cell c s =
     (let (i, j) = c; k = i * SCREEN_WIDTH + j in
      if new_screen s ! k \<noteq> old_screen s ! k
      then bind_res (vt100_move_cursor (of_nat j + 1) (of_nat i + 1) s) (\<lambda>s.
           bind_res (bios_putchar (ucast (new_screen s ! k)) s) (\<lambda>s.
           Inr (s\<lparr>old_screen := (old_screen s)[k := new_screen s ! k]\<rparr>)))
      else Inr s)"

fun reflush_cells :: "(nat \<times> nat) list \<Rightarrow> kstate \<Rightarrow> kstate res" where
  "reflush_cells [] s = Inr s"
| "reflush_cells (c # cs) s = bind_res (reflush_cell c s) (reflush_cells cs)"

definition screen_reflush :: "kstate \<Rightarrow> kstate res" where
  "screen_reflush s =
     bind_res (reflush_cells cells s) (\<lambda>s.
     vt100_move_cursor (cursor_x s (current_running s)) (cursor_y s (current_running s)) s)"

definition screen_clear :: "kstate \<Rightarrow> kstate res" where
  "screen_clear s =
     screen_reflush
       (s\<lparr>new_screen := fold (\<lambda>(i, j) scr. scr[i * SCREEN_WIDTH + j := 32]) cells (new_screen s),
          cursor_x := (cursor_x s)(current_running s := 0),
          cursor_y := (cursor_y s)(current_running s := 0)\<rparr>)"

definition init_screen :: "kstate \<Rightarrow> kstate res" where
  "init_screen s = bind_res (vt100_hidden_cursor s) (\<lambda>s. bind_res (vt100_clear s) screen_clear)"

definition screen_move_cursor :: "cint \<Rightarrow> cint \<Rightarrow> kstate \<Rightarrow> kstate res" where
  "screen_move_cursor x y s =
     vt100_move_cursor (x + 1) (y + 1)
       (s\<lparr>cursor_x := (cursor_x s)(current_running s := x),
          cursor_y := (cursor_y s)(current_running s := y)\<rparr>)"

section \<open>Printing to the screen\<close>

definition output_wrapper :: "byte list \<Rightarrow> kstate \<Rightarrow> kstate res" where
  "output_wrapper buff s = bind_res (screen_write buff s) screen_reflush"

definition vprintk :: "byte list \<Rightarrow> fmt_arg list \<Rightarrow> kstate \<Rightarrow> (kstate \<times> cint) res" where
  "vprintk fmt va = vprint fmt va output_wrapper"

definition printk :: "byte list \<Rightarrow> fmt_arg list \<Rightarrow> kstate \<Rightarrow> (kstate \<times> cint) res" where
  "printk fmt va = vprintk fmt va"

section \<open>The text of a cursor movement\<close>

definition decimal :: "nat \<Rightarrow> byte list" where
  "decimal n = rev (List.map (\<lambda>k. digit_char False (of_nat k)) (digits_of 10 n))"

definition move_text :: "nat \<Rightarrow> nat \<Rightarrow> byte list" where
  "move_text y x = [27, 91] @ decimal y @ [59] @ decimal x @ [72]"

lemma decimal_digits: "c \<in> set (decimal n) \<Longrightarrow> 48 \<le> c \<and> c \<le> 57"
proof -
  assume "c \<in> set (decimal n)"
  then obtain k where k: "k \<in> set (digits_of 10 n)" and c: "c = digit_char False (of_nat k)"
    by (auto simp: decimal_def)
  have "\<forall>k \<in> set [0..<10]. 48 \<le> digit_char False (of_nat k) \<and> digit_char False (of_nat k) \<le> 57"
    by code_simp
  then show ?thesis using digits_of_less [OF _ k] c by auto
qed

lemma length_digits: "n < r ^ Suc k \<Longrightarrow> 2 \<le> r \<Longrightarrow> length (digits_of r n) \<le> Suc k"
proof (induction k arbitrary: n)
  case 0
  then show ?case by (subst digits_of.simps) simp
next
  case (Suc k)
  then have "n div r < r ^ Suc k" by (intro less_mult_imp_div_less) (simp add: mult.commute)
  then show ?case using Suc by (subst digits_of.simps) auto
qed

lemma length_decimal: "n < 2 ^ 32 \<Longrightarrow> length (decimal n) \<le> 10"
  using length_digits [of n 10 9] by (simp add: decimal_def)

lemma decimal_value: "number_value 10 (decimal n) = n"
  using digits_of_value [of 10 False n] by (simp add: number_value_def decimal_def foldr_conv_foldl)

text \<open>\<^verbatim>\<open>%d\<close> without a flag prints the 32 bits of its argument without a sign.\<close>

lemma puts_all:
  assumes "length (chars b) + length s < unat (buffer_len b)"
  shows "puts_buff s (of_nat (length s)) b = Inr (b\<lparr>chars := chars b @ s\<rparr>, of_nat (length s))"
proof -
  have "unat (buffer_len b) < 2 ^ LENGTH(32)" by (rule unsigned_less)
  then have l: "unat (of_nat (length s) :: u32) = length s"
    using assms by (intro unat_of_nat_u32) simp
  moreover have "uint (buffer_len b) = int (unat (buffer_len b))"
    "uint (of_nat (length s) :: u32) = int (length s)"
    by (simp, simp only: uint_nat l)
  then have "\<not> uint (buffer_len b) - int (length (chars b)) - 1 < uint (of_nat (length s) :: u32)"
    using assms by linarith
  ultimately show ?thesis using assms unfolding puts_buff_def Let_def by simp
qed

lemma put_number_int:
  assumes "length (chars b) + 10 < unat (buffer_len b)"
  shows "put_number False (scast (x :: cint)) 10 False False 0 b =
    Inr (b\<lparr>chars := chars b @ decimal (unat x)\<rparr>)"
proof -
  let ?v = "ucast (ucast (scast x :: u64) :: u32) :: u64"
  have v: "?v = ucast x"
  proof (rule bit_word_eqI)
    fix n
    have "n < 32" if "bit x n" using bit_imp_le_length [OF that] by simp
    moreover have "min 31 n = n" if "n < 32" using that by linarith
    ultimately show "bit ?v n = bit (ucast x :: u64) n" by (cases "n < 32") (auto simp: bit_simps)
  qed
  have x: "unat x < 2 ^ 32" by (rule unat_lt_u32)
  then have u: "unat (ucast x :: u64) = unat x" "uint (ucast x :: u64) < 2 ^ 63"
    using unat_ucast_u64 [of x] by (simp_all add: uint_nat del: of_nat_unat)
  then have s: "\<not> sint (ucast x :: u64) < 0" by (simp add: sint_eq_uint_small)
  have r: "2 \<le> unat (10 :: u32)" "unat (10 :: u32) \<le> 16" by simp_all
  have "sint (ucast x :: u64) \<noteq> - (2 ^ 63)" using s by auto
  from mini_itoa_signed_text [OF r this, of False 0]
  have "mini_itoa (ucast x) 10 False False 0 = Some (decimal (unat x))"
    using s u(1) mini_itoa_unsigned_text [OF r, of "ucast x" False 0] by (simp add: decimal_def Let_def)
  moreover have "length (decimal (unat x)) \<le> 10" using length_decimal [OF x] .
  ultimately show ?thesis
    using assms puts_all [of b "decimal (unat x)"] unfolding put_number_def v
    by (simp add: BF_SIZE_def)
qed

text \<open>The steps of the formatter while there is room.\<close>

lemma room_left:
  assumes "length (chars b) + 1 < unat (buffer_len b)"
  shows "\<not> buffer_len b \<le> of_nat (length (chars b) + 1)"
proof -
  have "unat (buffer_len b) < 2 ^ LENGTH(32)" by (rule unsigned_less)
  then have "unat (of_nat (length (chars b) + 1) :: u32) = length (chars b) + 1"
    using assms by (intro unat_of_nat_u32) simp
  then show ?thesis using assms unfolding word_le_nat_alt by simp
qed

lemma putc_room:
  "length (chars b) + 1 < unat (buffer_len b) \<Longrightarrow>
   putc_buff (ucast (ch :: byte)) b = (b\<lparr>chars := chars b @ [ch]\<rparr>, 1)"
proof -
  assume "length (chars b) + 1 < unat (buffer_len b)"
  moreover have "(ucast (ucast ch :: cint) :: byte) = ch" by (rule bit_word_eqI) (auto simp: bit_simps)
  ultimately show ?thesis using room_left [of b] by (simp only: putc_buff_def if_False)
qed

lemma format_plain:
  assumes "length (chars b) + 1 < unat (buffer_len b)" and "ch \<noteq> 0" and "ch \<noteq> 37"
  shows "vsnprintf_loop (ch # fmt) va b = vsnprintf_loop fmt va (b\<lparr>chars := chars b @ [ch]\<rparr>)"
  using assms(2,3) room_left [OF assms(1)] by (simp only: vsnprintf_loop.simps putc_room [OF assms(1)]) simp

lemma format_int:
  assumes "length (chars b) + 10 < unat (buffer_len b)"
  shows "vsnprintf_loop (37 # 100 # fmt) (Arg (scast (x :: cint)) # va) b =
    vsnprintf_loop fmt va (b\<lparr>chars := chars b @ decimal (unat x)\<rparr>)"
proof -
  have "length (chars b) + 1 < unat (buffer_len b)" using assms by simp
  note r = room_left [OF this]
  have "directive (100 # fmt) = (0, False, 100, fmt)" by (simp add: directive_def next_ch_def)
  then show ?thesis
    using r by (simp only: vsnprintf_loop.simps) (simp add: convert_def put_number_int [OF assms])
qed

lemma format_char:
  assumes "length (chars b) + 1 < unat (buffer_len b)"
  shows "vsnprintf_loop (37 # 99 # fmt) (Arg w # va) b =
    vsnprintf_loop fmt va (b\<lparr>chars := chars b @ [ucast w]\<rparr>)"
proof -
  have "directive (99 # fmt) = (0, False, 99, fmt)" by (simp add: directive_def next_ch_def)
  then show ?thesis
    using room_left [OF assms]
    by (simp only: vsnprintf_loop.simps) (simp add: convert_def putc_room [OF assms])
qed

lemma move_text_printed:
  "mini_vsnprintf 256 (bytes_of ''%c[%d;%dH'') [Arg 27, Arg (scast (y :: cint)), Arg (scast (x :: cint))] =
     Inr (move_text (unat y) (unat x))"
proof -
  have "unat y < 2 ^ 32" "unat x < 2 ^ 32"
    by (simp_all only: unat_lt_u32)
  then have l: "length (decimal (unat y)) \<le> 10" "length (decimal (unat x)) \<le> 10"
    by (simp_all only: length_decimal)
  have "bytes_of ''%c[%d;%dH'' = [37, 99, 91, 37, 100, 59, 37, 100, 72]" by code_simp
  then show ?thesis
    using l by (simp add: mini_vsnprintf_def format_plain format_int format_char move_text_def
        del: vsnprintf_loop.simps(2))
qed

section \<open>The refresh\<close>

lemma move_text_no_nul: "takeWhile (\<lambda>c. c \<noteq> 0) (move_text y x) = move_text y x"
  using decimal_digits by (force simp: move_text_def)

lemma vt100_move_cursor_event:
  assumes "bios_ready s"
  shows "vt100_move_cursor x y s = Inr (called (Bios_str 9 (move_text (unat y) (unat x))) s)"
  by (simp add: vt100_move_cursor_def printv_def vprint_def move_text_printed move_text_no_nul
      bios_calls [OF assms])

definition cell_index :: "nat \<times> nat \<Rightarrow> nat" where
  "cell_index c = fst c * SCREEN_WIDTH + snd c"

definition on_screen :: "nat \<times> nat \<Rightarrow> bool" where
  "on_screen c \<longleftrightarrow> fst c < SCREEN_HEIGHT \<and> snd c < SCREEN_WIDTH"

lemma set_cells: "set cells = {c. on_screen c}"
  by (auto simp: cells_def on_screen_def)

lemma distinct_cells: "distinct cells"
  by (simp add: cells_def distinct_product)

lemma cell_index_less: "on_screen c \<Longrightarrow> cell_index c < SCREEN_SIZE"
  by (auto simp: on_screen_def cell_index_def SCREEN_SIZE_def SCREEN_WIDTH_def SCREEN_HEIGHT_def)

lemma cell_index_inj: "on_screen c \<Longrightarrow> on_screen d \<Longrightarrow> cell_index c = cell_index d \<longleftrightarrow> c = d"
proof
  assume o: "on_screen c" "on_screen d" and e: "cell_index c = cell_index d"
  have "cell_index c div SCREEN_WIDTH = fst c" "cell_index c mod SCREEN_WIDTH = snd c"
    if "on_screen c" for c using that by (auto simp: on_screen_def cell_index_def)
  from this(1) [OF o(1)] this(2) [OF o(1)] this(1) [OF o(2)] this(2) [OF o(2)] e
  show "c = d" by (auto intro: prod_eqI)
qed simp

lemma cell_of_index: "k < SCREEN_SIZE \<Longrightarrow> \<exists>c. on_screen c \<and> cell_index c = k"
  by (intro exI [of _ "(k div SCREEN_WIDTH, k mod SCREEN_WIDTH)"])
    (auto simp: on_screen_def cell_index_def SCREEN_SIZE_def SCREEN_WIDTH_def SCREEN_HEIGHT_def)

lemma fold_cells_nth:
  assumes "\<forall>c \<in> set cs. cell_index c < length scr"
  shows "length (fold (\<lambda>c scr. scr[cell_index c := f (cell_index c)]) cs scr) = length scr \<and>
    (k < length scr \<longrightarrow> fold (\<lambda>c scr. scr[cell_index c := f (cell_index c)]) cs scr ! k =
       (if k \<in> cell_index ` set cs then f k else scr ! k))"
  using assms by (induction cs arbitrary: scr) (auto simp: nth_list_update)

lemma fold_cells:
  assumes "length scr = SCREEN_SIZE"
  shows "fold (\<lambda>c scr. scr[cell_index c := f (cell_index c)]) cells scr = List.map f [0..<SCREEN_SIZE]"
proof (rule nth_equalityI)
  have c: "\<forall>c \<in> set cells. cell_index c < length scr"
    using assms cell_index_less by (auto simp: set_cells)
  show "length (fold (\<lambda>c scr. scr[cell_index c := f (cell_index c)]) cells scr) =
      length (List.map f [0..<SCREEN_SIZE])"
    using fold_cells_nth [OF c] assms by simp
  fix k assume "k < length (fold (\<lambda>c scr. scr[cell_index c := f (cell_index c)]) cells scr)"
  then have k: "k < SCREEN_SIZE" using fold_cells_nth [OF c] assms by simp
  then have "k \<in> cell_index ` set cells" using cell_of_index by (force simp: set_cells)
  then show "fold (\<lambda>c scr. scr[cell_index c := f (cell_index c)]) cells scr ! k =
      List.map f [0..<SCREEN_SIZE] ! k"
    using fold_cells_nth [OF c] assms k by simp
qed

text \<open>The calls of the firmware for one changed cell, and for all of them.\<close>

definition cell_events :: "byte list \<Rightarrow> nat \<times> nat \<Rightarrow> bios_event list" where
  "cell_events scr c =
     [Bios_str 9 (move_text (fst c + 1) (snd c + 1)), Bios 1 [ucast (scr ! cell_index c), 0, 0, 0, 0]]"

definition refresh_events :: "byte list \<Rightarrow> byte list \<Rightarrow> (nat \<times> nat) list \<Rightarrow> bios_event list" where
  "refresh_events new old cs =
     concat (List.map (cell_events new) (filter (\<lambda>c. new ! cell_index c \<noteq> old ! cell_index c) cs))"

lemma reflush_cell_spec:
  assumes "bios_ready s" and c: "on_screen c" and old: "length (old_screen s) = SCREEN_SIZE"
  shows "\<exists>m. reflush_cell c s = Inr (s\<lparr>bytes := m,
      bios_log := bios_log s @ refresh_events (new_screen s) (old_screen s) [c],
      old_screen := (old_screen s)[cell_index c := new_screen s ! cell_index c]\<rparr>)"
proof (cases "new_screen s ! cell_index c = old_screen s ! cell_index c")
  case True
  then show ?thesis
    by (cases c, intro exI [of _ "bytes s"])
      (simp add: reflush_cell_def refresh_events_def Let_def cell_index_def)
next
  case False
  let ?e1 = "Bios_str 9 (move_text (fst c + 1) (snd c + 1))"
  let ?e2 = "Bios 1 [ucast (new_screen s ! cell_index c), 0, 0, 0, 0]"
  obtain i j where ij: "c = (i, j)" by fastforce
  have u: "unat (of_nat i + 1 :: cint) = Suc i" "unat (of_nat j + 1 :: cint) = Suc j"
    using c ij unat_of_nat_u32 [of "i + 1"] unat_of_nat_u32 [of "j + 1"]
    by (auto simp: on_screen_def SCREEN_HEIGHT_def SCREEN_WIDTH_def add.commute)
  have "reflush_cell c s = Inr ((called ?e2 (called ?e1 s))
      \<lparr>old_screen := (old_screen s)[cell_index c := new_screen s ! cell_index c]\<rparr>)"
    using False by (simp add: ij reflush_cell_def cell_index_def Let_def
        vt100_move_cursor_event [OF assms(1)] bios_calls assms(1) u)
  moreover have "\<exists>m. called ?e2 (called ?e1 s) = s\<lparr>bytes := m, bios_log := bios_log s @ [?e1, ?e2]\<rparr>"
    by (auto simp: called_def bios_event_def split: prod.split)
  ultimately show ?thesis using False by (auto simp: refresh_events_def cell_events_def)
qed

lemma refresh_events_Cons:
  "refresh_events new old (c # cs) = refresh_events new old [c] @ refresh_events new old cs"
  by (simp add: refresh_events_def)

lemma refresh_events_upd:
  assumes "on_screen c" and "\<forall>d \<in> set cs. on_screen d" and "c \<notin> set cs"
  shows "refresh_events new (old[cell_index c := v]) cs = refresh_events new old cs"
proof -
  have "old[cell_index c := v] ! cell_index d = old ! cell_index d" if "d \<in> set cs" for d
    using assms that cell_index_inj [of c d] by (metis nth_list_update_neq)
  then show ?thesis
    unfolding refresh_events_def by (intro arg_cong [of _ _ concat] arg_cong [of _ _ "List.map _"] filter_cong) simp_all
qed

lemma reflush_cells_spec:
  assumes "bios_ready s" and "\<forall>c \<in> set cs. on_screen c" and "distinct cs"
    and "length (old_screen s) = SCREEN_SIZE"
  shows "\<exists>m. reflush_cells cs s = Inr (s\<lparr>bytes := m,
      bios_log := bios_log s @ refresh_events (new_screen s) (old_screen s) cs,
      old_screen := fold (\<lambda>c scr. scr[cell_index c := new_screen s ! cell_index c]) cs (old_screen s)\<rparr>)"
  using assms
proof (induction cs arbitrary: s)
  case Nil
  then show ?case by (intro exI [of _ "bytes s"]) (simp add: refresh_events_def)
next
  case (Cons c cs)
  let ?o = "(old_screen s)[cell_index c := new_screen s ! cell_index c]"
  have c: "on_screen c" "\<forall>d \<in> set cs. on_screen d" "c \<notin> set cs" using Cons.prems(2,3) by auto
  obtain m where 1: "reflush_cell c s = Inr (s\<lparr>bytes := m,
      bios_log := bios_log s @ refresh_events (new_screen s) (old_screen s) [c], old_screen := ?o\<rparr>)"
    (is "_ = Inr ?s")
    using reflush_cell_spec [OF Cons.prems(1) c(1) Cons.prems(4)] by blast
  have "bios_ready ?s" using Cons.prems(1) by (simp add: bios_ready_def)
  from Cons.IH [OF this c(2)] Cons.prems(3,4) obtain m' where
    "reflush_cells cs ?s = Inr (?s\<lparr>bytes := m',
      bios_log := bios_log ?s @ refresh_events (new_screen ?s) (old_screen ?s) cs,
      old_screen := fold (\<lambda>c scr. scr[cell_index c := new_screen ?s ! cell_index c]) cs (old_screen ?s)\<rparr>)"
    by auto
  then show ?case
    using 1 refresh_events_upd [OF c] refresh_events_Cons [of "new_screen s" "old_screen s" c cs]
    by (intro exI [of _ m']) simp
qed

lemma screen_reflush_exact_aux:
  assumes "bios_ready s"
    and "length (new_screen s) = SCREEN_SIZE" and "length (old_screen s) = SCREEN_SIZE"
  shows "\<exists>m. screen_reflush s = Inr (s\<lparr>bytes := m,
      bios_log := bios_log s @ refresh_events (new_screen s) (old_screen s) cells @
        [Bios_str 9 (move_text (unat (cursor_y s (current_running s))) (unat (cursor_x s (current_running s))))],
      old_screen := new_screen s\<rparr>)"
proof -
  have new: "fold (\<lambda>c scr. scr[cell_index c := new_screen s ! cell_index c]) cells (old_screen s) = new_screen s"
    using fold_cells [OF assms(3), of "\<lambda>k. new_screen s ! k"] assms(2) map_nth [of "new_screen s"] by simp
  obtain m where 1: "reflush_cells cells s = Inr (s\<lparr>bytes := m,
      bios_log := bios_log s @ refresh_events (new_screen s) (old_screen s) cells,
      old_screen := new_screen s\<rparr>)" (is "_ = Inr ?s")
    using reflush_cells_spec [OF assms(1) _ distinct_cells assms(3)] unfolding new by (auto simp: set_cells)
  have "bios_ready ?s" using assms(1) by (simp add: bios_ready_def)
  note 2 = vt100_move_cursor_event [OF this]
  let ?e = "Bios_str 9 (move_text (unat (cursor_y s (current_running s))) (unat (cursor_x s (current_running s))))"
  obtain m' where "called ?e ?s = ?s\<lparr>bytes := m', bios_log := bios_log ?s @ [?e]\<rparr>"
    unfolding called_upd by blast
  moreover have "current_running ?s = current_running s" by (simp add: current_running_def)
  ultimately show ?thesis unfolding screen_reflush_def 1 bind_res_simps 2 by (intro exI [of _ m']) simp
qed

text \<open>C25. \<^verbatim>\<open>screen_reflush\<close> sends the terminal exactly the cells that differ from what was sent
  before, in row order, each as a movement and one character, then puts the cursor back; the
  record of what was sent becomes the buffer, and nothing else of the kernel changes but what the
  firmware does to memory.\<close>

theorem screen_reflush_exact:
  assumes "bios_ready s"
    and "length (new_screen s) = SCREEN_SIZE" and "length (old_screen s) = SCREEN_SIZE"
  shows "\<exists>m. screen_reflush s = Inr (s\<lparr>bytes := m,
      bios_log := bios_log s @ refresh_events (new_screen s) (old_screen s) cells @
        [Bios_str 9 (move_text (unat (cursor_y s (current_running s))) (unat (cursor_x s (current_running s))))],
      old_screen := new_screen s\<rparr>)"
  by (rule screen_reflush_exact_aux [OF assms])

section \<open>Writing to the buffer\<close>

lemma current_running_screen [simp]:
  "current_running (s\<lparr>new_screen := scr\<rparr>) = current_running s"
  "current_running (s\<lparr>old_screen := scr\<rparr>) = current_running s"
  "current_running (s\<lparr>cursor_x := f\<rparr>) = current_running s"
  "current_running (s\<lparr>cursor_y := f\<rparr>) = current_running s"
  "current_running (s\<lparr>bytes := m\<rparr>) = current_running s"
  "current_running (s\<lparr>bios_log := es\<rparr>) = current_running s"
  by (simp_all add: current_running_def)

lemma SCREEN_LOC_nat: "SCREEN_LOC (of_nat a) (of_nat b) = of_nat (b * SCREEN_WIDTH + a)"
  by (simp add: SCREEN_LOC_def)

lemma screen_index:
  "k < SCREEN_SIZE \<Longrightarrow> array_index SCREEN_SIZE (of_nat k) = Inr k"
  "SCREEN_SIZE \<le> k \<Longrightarrow> k < 2 ^ 31 \<Longrightarrow> array_index SCREEN_SIZE (of_nat k) = Inl OutOfBounds"
  by (simp_all add: array_index_def sint_of_nat_u32 SCREEN_SIZE_def SCREEN_WIDTH_def SCREEN_HEIGHT_def)

lemma screen_write_line_aux:
  fixes a b :: nat
  defines "k \<equiv> b * SCREEN_WIDTH + a"
  assumes "cursor_x s (current_running s) = of_nat a" and "cursor_y s (current_running s) = of_nat b"
    and "length (new_screen s) = SCREEN_SIZE" and "k + length buff \<le> SCREEN_SIZE" and "10 \<notin> set buff"
  shows "screen_write buff s = Inr (s
     \<lparr>new_screen := take k (new_screen s) @ buff @ drop (k + length buff) (new_screen s),
      cursor_x := (cursor_x s)(current_running s := of_nat (a + length buff))\<rparr>)"
  using assms(2-)
  unfolding k_def
proof (induction buff arbitrary: s a)
  case Nil
  then show ?case by (simp add: fun_upd_idem)
next
  case (Cons ch buff)
  let ?k = "b * SCREEN_WIDTH + a" and ?p = "current_running s"
  let ?s = "s\<lparr>new_screen := (new_screen s)[?k := ch],
      cursor_x := (cursor_x s)(?p := cursor_x s ?p + 1)\<rparr>"
  have k: "?k < SCREEN_SIZE" "ch \<noteq> 10" using Cons.prems(4,5) by auto
  have "screen_write_ch ch s = Inr ?s"
    using k by (simp add: screen_write_ch_def Let_def Cons.prems(1,2) SCREEN_LOC_nat screen_index
        del: of_nat_add of_nat_mult)
  moreover have "screen_write buff ?s = Inr (?s
     \<lparr>new_screen := take (b * SCREEN_WIDTH + Suc a) (new_screen ?s) @ buff @
        drop (b * SCREEN_WIDTH + Suc a + length buff) (new_screen ?s),
      cursor_x := (cursor_x ?s)(current_running ?s := of_nat (Suc a + length buff))\<rparr>)"
    by (rule Cons.IH) (use Cons.prems in \<open>simp_all\<close>)
  moreover have "take (Suc ?k) ((new_screen s)[?k := ch]) = take ?k (new_screen s) @ [ch]"
    using k Cons.prems(3) by (simp add: take_Suc_conv_app_nth)
  ultimately show ?case
    using k Cons.prems(3) by (simp add: fun_upd_def cong: if_cong)
qed

text \<open>\<^verbatim>\<open>screen_write\<close> of text without line breaks, where the rest of the screen has room for it,
  puts the text into the buffer from the cursor on, moves the cursor behind it and changes nothing
  else; it does not break lines, so text that passes column eighty continues on the next line.\<close>

lemma screen_write_line:
  fixes a b :: nat
  defines "k \<equiv> b * SCREEN_WIDTH + a"
  assumes "cursor_x s (current_running s) = of_nat a" and "cursor_y s (current_running s) = of_nat b"
    and "length (new_screen s) = SCREEN_SIZE" and "k + length buff \<le> SCREEN_SIZE" and "10 \<notin> set buff"
  shows "screen_write buff s = Inr (s
     \<lparr>new_screen := take k (new_screen s) @ buff @ drop (k + length buff) (new_screen s),
      cursor_x := (cursor_x s)(current_running s := of_nat (a + length buff))\<rparr>)"
  using assms(2-) unfolding k_def by (rule screen_write_line_aux)

text \<open>The screen neither scrolls nor checks the line: a character written below the last line
  is stored outside the buffer.\<close>

lemma screen_write_below:
  assumes "cursor_x s (current_running s) = of_nat a" and "cursor_y s (current_running s) = of_nat b"
    and "SCREEN_HEIGHT \<le> b" and "a < SCREEN_WIDTH" and "b < 2 ^ 20" and "ch \<noteq> 10"
  shows "screen_write (ch # buff) s = Inl OutOfBounds"
proof -
  have "SCREEN_SIZE \<le> b * SCREEN_WIDTH + a" "b * SCREEN_WIDTH + a < 2 ^ 31"
    using assms(3-5) by (simp_all add: SCREEN_SIZE_def SCREEN_WIDTH_def SCREEN_HEIGHT_def)
  from screen_index(2) [OF this] show ?thesis
    using assms(6) by (simp add: screen_write_ch_def Let_def assms(1,2) SCREEN_LOC_nat
        del: of_nat_add of_nat_mult)
qed

lemma screen_clear_buffer:
  assumes "length (new_screen s) = SCREEN_SIZE"
  shows "fold (\<lambda>(i, j) scr. scr[i * SCREEN_WIDTH + j := 32]) cells (new_screen s) = replicate SCREEN_SIZE 32"
proof -
  have "(\<lambda>(i, j) scr. scr[i * SCREEN_WIDTH + j := (32 :: byte)]) = (\<lambda>c scr. scr[cell_index c := 32])"
    by (auto simp: fun_eq_iff cell_index_def)
  then show ?thesis using fold_cells [OF assms, of "\<lambda>k. 32"] by (simp add: map_replicate_const)
qed

end
