(* ===== verification/Syscall.thy ===== *)
theory Syscall
  imports Screen Thread Lock_Spec
begin

text \<open>
  Traps in C: the dispatch of interrupts and exceptions (\<^verbatim>\<open>kernel/irq/irq.c\<close>) and of system calls
  (\<^verbatim>\<open>kernel/syscall/syscall.c\<close>). The saved registers are the doublewords of the trap frame the
  assembly has written. A handler that ends in \<^verbatim>\<open>switch_to\<close> is \<open>Switched\<close>: the rest of it,
  \<open>syscall_return\<close> for a system call, runs when its task is switched back to.
\<close>

section \<open>Numbers (irq.h, unistd.h, time.h, csr.h)\<close>

datatype irq_code = IRQC_U_SOFT | IRQC_S_SOFT | IRQC_M_SOFT | IRQC_U_TIMER | IRQC_S_TIMER
  | IRQC_M_TIMER | IRQC_U_EXT | IRQC_S_EXT | IRQC_M_EXT | IRQC_COUNT

primrec irq_number :: "irq_code \<Rightarrow> nat" where
  "irq_number IRQC_U_SOFT = 0"
| "irq_number IRQC_S_SOFT = 1"
| "irq_number IRQC_M_SOFT = 3"
| "irq_number IRQC_U_TIMER = 4"
| "irq_number IRQC_S_TIMER = 5"
| "irq_number IRQC_M_TIMER = 7"
| "irq_number IRQC_U_EXT = 8"
| "irq_number IRQC_S_EXT = 9"
| "irq_number IRQC_M_EXT = 11"
| "irq_number IRQC_COUNT = 12"

datatype exc_code = EXCC_INST_MISALIGNED | EXCC_INST_ACCESS | EXCC_BREAKPOINT | EXCC_LOAD_ACCESS
  | EXCC_STORE_ACCESS | EXCC_SYSCALL | EXCC_INST_PAGE_FAULT | EXCC_LOAD_PAGE_FAULT
  | EXCC_STORE_PAGE_FAULT | EXCC_COUNT

primrec exc_number :: "exc_code \<Rightarrow> nat" where
  "exc_number EXCC_INST_MISALIGNED = 0"
| "exc_number EXCC_INST_ACCESS = 1"
| "exc_number EXCC_BREAKPOINT = 3"
| "exc_number EXCC_LOAD_ACCESS = 5"
| "exc_number EXCC_STORE_ACCESS = 7"
| "exc_number EXCC_SYSCALL = 8"
| "exc_number EXCC_INST_PAGE_FAULT = 12"
| "exc_number EXCC_LOAD_PAGE_FAULT = 13"
| "exc_number EXCC_STORE_PAGE_FAULT = 15"
| "exc_number EXCC_COUNT = 16"

primrec syscall_number :: "sys_fn \<Rightarrow> nat option" where
  "syscall_number Sys_exit = Some 1"
| "syscall_number Sys_sleep = Some 2"
| "syscall_number Sys_yield = Some 7"
| "syscall_number Sys_write = Some 20"
| "syscall_number Sys_cursor = Some 22"
| "syscall_number Sys_reflush = Some 23"
| "syscall_number Sys_get_timebase = Some 30"
| "syscall_number Sys_get_tick = Some 31"
| "syscall_number Sys_lock_init = Some 40"
| "syscall_number Sys_lock_acq = Some 41"
| "syscall_number Sys_lock_release = Some 42"
| "syscall_number Sys_thread_create = Some 50"
| "syscall_number Sys_thread_yield = Some 51"
| "syscall_number Sys_printk = None"

definition NUM_SYSCALLS :: nat where "NUM_SYSCALLS = 96"
definition TIMER_INTERVAL :: u64 where "TIMER_INTERVAL = 150000"
definition SCAUSE_IRQ_FLAG :: u64 where "SCAUSE_IRQ_FLAG = push_bit 63 1"

section \<open>System calls\<close>

text \<open>
  The kernel call behind a table entry, called with five words: parameters narrower than a word
  are cut off, \<^verbatim>\<open>int\<close> results sign-extended, and a \<^verbatim>\<open>void\<close> function leaves the return register
  as it happens to be. \<^verbatim>\<open>printk\<close> is in the firmware's table only.
\<close>

definition void_call :: "kstate res \<Rightarrow> (kstate \<times> u64 \<times> ctl) res" where
  "void_call r = bind_res r (\<lambda>s. Inr (s, void_ret s, Returned))"

definition void_ctl :: "(kstate \<times> ctl) res \<Rightarrow> (kstate \<times> u64 \<times> ctl) res" where
  "void_ctl r = bind_res r (\<lambda>(s, c). Inr (s, void_ret s, c))"

primrec kernel_call ::
  "layout \<Rightarrow> sys_fn \<Rightarrow> u64 \<Rightarrow> u64 \<Rightarrow> u64 \<Rightarrow> u64 \<Rightarrow> u64 \<Rightarrow> kstate \<Rightarrow> (kstate \<times> u64 \<times> ctl) res" where
  "kernel_call L Sys_sleep a0 a1 a2 a3 a4 s = void_ctl (ends (do_sleep L (ucast a0) s))"
| "kernel_call L Sys_yield a0 a1 a2 a3 a4 s = void_ctl (ends (do_scheduler L s))"
| "kernel_call L Sys_write a0 a1 a2 a3 a4 s =
     void_call (bind_res (ends (string_at (bytes s) a0)) (\<lambda>buff. screen_write buff s))"
| "kernel_call L Sys_cursor a0 a1 a2 a3 a4 s = void_call (screen_move_cursor (ucast a0) (ucast a1) s)"
| "kernel_call L Sys_reflush a0 a1 a2 a3 a4 s = void_call (screen_reflush s)"
| "kernel_call L Sys_get_timebase a0 a1 a2 a3 a4 s =
     (let (s, t) = get_time_base s in Inr (s, t, Returned))"
| "kernel_call L Sys_get_tick a0 a1 a2 a3 a4 s = (let (s, t) = get_ticks s in Inr (s, t, Returned))"
| "kernel_call L Sys_lock_init a0 a1 a2 a3 a4 s =
     (let (s, i) = do_mutex_lock_init (ucast a0) s in Inr (s, scast i, Returned))"
| "kernel_call L Sys_lock_acq a0 a1 a2 a3 a4 s = void_ctl (do_mutex_lock_acquire L (ucast a0) s)"
| "kernel_call L Sys_lock_release a0 a1 a2 a3 a4 s = void_call (do_mutex_lock_release L (ucast a0) s)"
| "kernel_call L Sys_exit a0 a1 a2 a3 a4 s = void_ctl (ends (do_exit L s))"
| "kernel_call L Sys_thread_create a0 a1 a2 a3 a4 s =
     void_call (Inr (do_thread_create L a0 a1 a2 a3 a4 s))"
| "kernel_call L Sys_thread_yield a0 a1 a2 a3 a4 s = void_ctl (Inr (do_thread_yield L s))"
| "kernel_call L Sys_printk a0 a1 a2 a3 a4 s = Inl (KernelCall Sys_printk [a0, a1, a2, a3, a4])"

definition saved_reg :: "ptr \<Rightarrow> nat \<Rightarrow> kstate \<Rightarrow> reg" where
  "saved_reg regs r s = dmem (mach s) (regs + OFFSET_REG r)"

definition set_saved :: "ptr \<Rightarrow> u64 \<Rightarrow> reg \<Rightarrow> kstate \<Rightarrow> kstate" where
  "set_saved regs off v s = s\<lparr>mach := st64 (regs + off) v (mach s)\<rparr>"

text \<open>An index of 64 bits into a table of routines: nothing checks it.\<close>

definition table_entry :: "'a option list \<Rightarrow> u64 \<Rightarrow> 'a res" where
  "table_entry tab i =
     (if unat i < length tab then (case tab ! unat i of None \<Rightarrow> Inl BadJump | Some f \<Rightarrow> Inr f)
      else Inl OutOfBounds)"

text \<open>The result goes to the saved \<^verbatim>\<open>a0\<close>, and the saved \<^verbatim>\<open>sepc\<close> moves past the \<^verbatim>\<open>ecall\<close>.\<close>

definition syscall_return :: "ptr \<Rightarrow> u64 \<Rightarrow> kstate \<Rightarrow> kstate" where
  "syscall_return regs retval s =
     (let s = set_saved regs (OFFSET_REG A0) retval s
      in set_saved regs OFFSET_REG_SEPC (dmem (mach s) (regs + OFFSET_REG_SEPC) + 4) s)"

definition handle_syscall :: "layout \<Rightarrow> ptr \<Rightarrow> kstate \<Rightarrow> (kstate \<times> ctl) res" where
  "handle_syscall L regs s =
     bind_res (table_entry (syscall_tab s) (saved_reg regs A7 s)) (\<lambda>f.
     bind_res (kernel_call L f (saved_reg regs A0 s) (saved_reg regs A1 s) (saved_reg regs A2 s)
                 (saved_reg regs A3 s) (saved_reg regs A4 s) s) (\<lambda>(s, retval, c).
     case c of Returned \<Rightarrow> Inr (syscall_return regs retval s, Returned)
             | Switched \<Rightarrow> Inr (s, Switched)))"

section \<open>Interrupts and exceptions\<close>

definition handle_irq_timer :: "layout \<Rightarrow> kstate \<Rightarrow> (kstate \<times> ctl) res" where
  "handle_irq_timer L s =
     (let (s, t) = get_ticks s in
      bind_res (bios_set_timer (t + TIMER_INTERVAL) s) (\<lambda>s. ends (do_scheduler L s)))"

definition reg_name :: "string list" where
  "reg_name =
     [''zero '', '' ra  '', '' sp  '', '' gp  '', '' tp  '',
      '' t0  '', '' t1  '', '' t2  '', ''s0/fp'', '' s1  '',
      '' a0  '', '' a1  '', '' a2  '', '' a3  '', '' a4  '',
      '' a5  '', '' a6  '', '' a7  '', '' s2  '', '' s3  '',
      '' s4  '', '' s5  '', '' s6  '', '' s7  '', '' s8  '',
      '' s9  '', '' s10 '', '' s11 '', '' t3  '', '' t4  '',
      '' t5  '', '' t6  '']"

definition print :: "byte list \<Rightarrow> fmt_arg list \<Rightarrow> kstate \<Rightarrow> kstate res" where
  "print fmt va s = bind_res (printk fmt va s) (\<lambda>(s, n). Inr s)"

fun in_turn :: "(kstate \<Rightarrow> kstate res) list \<Rightarrow> kstate \<Rightarrow> kstate res" where
  "in_turn [] s = Inr s"
| "in_turn (f # fs) s = bind_res (f s) (in_turn fs)"

text \<open>
  The register dump: eleven lines of up to three registers, then the special registers. The
  assertion that ends it always fails, so the handler does not return.
\<close>

definition dump_line :: "ptr \<Rightarrow> nat \<Rightarrow> kstate \<Rightarrow> kstate res" where
  "dump_line regs i =
     in_turn (List.map (\<lambda>r s. print (bytes_of ''%s : %016lx '')
                                [Arg_str (bytes_of (reg_name ! r)), Arg (saved_reg regs r s)] s)
                [i..<min (i + 3) 32] @
              [print [10, 13] []])"

definition handle_other :: "ptr \<Rightarrow> u64 \<Rightarrow> u64 \<Rightarrow> kstate \<Rightarrow> (kstate \<times> ctl) res" where
  "handle_other regs stval scause s =
     bind_res (in_turn
       (List.map (\<lambda>i. dump_line regs (3 * i)) [0..<11] @
        [\<lambda>s. print (bytes_of ''sstatus: 0x%lx sbadaddr: 0x%lx scause: %lu'' @ [10, 13])
                [Arg (saved_reg regs 32 s), Arg (saved_reg regs 34 s), Arg (saved_reg regs 35 s)] s,
         \<lambda>s. print (bytes_of ''sepc: 0x%lx'' @ [10, 13]) [Arg (saved_reg regs 33 s)] s,
         print (bytes_of ''tval: 0x%lx cause: 0x%lx'' @ [10]) [Arg stval, Arg scause]]) s)
       (\<lambda>s. Inl AssertFailed)"

primrec run_handler :: "handler \<Rightarrow> layout \<Rightarrow> ptr \<Rightarrow> u64 \<Rightarrow> u64 \<Rightarrow> kstate \<Rightarrow> (kstate \<times> ctl) res" where
  "run_handler Handle_syscall L regs stval scause s = handle_syscall L regs s"
| "run_handler Handle_irq_timer L regs stval scause s = handle_irq_timer L s"
| "run_handler Handle_other L regs stval scause s = handle_other regs stval scause s"

definition find_handler :: "u64 \<Rightarrow> kstate \<Rightarrow> handler res" where
  "find_handler scause s =
     (if scause AND SCAUSE_IRQ_FLAG \<noteq> 0
      then table_entry (irq_table s) (scause AND NOT SCAUSE_IRQ_FLAG)
      else table_entry (exc_table s) scause)"

definition interrupt_helper :: "layout \<Rightarrow> ptr \<Rightarrow> u64 \<Rightarrow> u64 \<Rightarrow> kstate \<Rightarrow> (kstate \<times> ctl) res" where
  "interrupt_helper L regs stval scause s =
     bind_res (find_handler scause s) (\<lambda>h. run_handler h L regs stval scause s)"

definition init_exception :: "layout \<Rightarrow> kstate \<Rightarrow> kstate" where
  "init_exception L s =
     s\<lparr>exc_table := (exc_table s)
         [exc_number EXCC_SYSCALL := Some Handle_syscall,
          exc_number EXCC_INST_MISALIGNED := Some Handle_other,
          exc_number EXCC_INST_ACCESS := Some Handle_other,
          exc_number EXCC_BREAKPOINT := Some Handle_other,
          exc_number EXCC_LOAD_ACCESS := Some Handle_other,
          exc_number EXCC_STORE_ACCESS := Some Handle_other,
          exc_number EXCC_INST_PAGE_FAULT := Some Handle_other,
          exc_number EXCC_LOAD_PAGE_FAULT := Some Handle_other,
          exc_number EXCC_STORE_PAGE_FAULT := Some Handle_other],
       irq_table := (irq_table s)
         [irq_number IRQC_U_SOFT := Some Handle_other,
          irq_number IRQC_S_SOFT := Some Handle_other,
          irq_number IRQC_M_SOFT := Some Handle_other,
          irq_number IRQC_U_TIMER := Some Handle_other,
          irq_number IRQC_S_TIMER := Some Handle_irq_timer,
          irq_number IRQC_M_TIMER := Some Handle_other,
          irq_number IRQC_U_EXT := Some Handle_other,
          irq_number IRQC_S_EXT := Some Handle_other,
          irq_number IRQC_M_EXT := Some Handle_other],
       mach := exec (setup_exception (exception_handler_entry_at L) (enable_interrupt_at L)
                       (after_enable_interrupt L)) (mach s)\<rparr>"

end
