(* ===== verification/Syscall_Spec.thy ===== *)
theory Syscall_Spec
  imports Syscall Demo_System
begin

text \<open>
  What traps promise: which handler every cause reaches, that printing and the screen leave the
  scheduler's state alone, that system calls keep the invariant of the queues, and what a task
  sees of a system call and of a timer interrupt.
\<close>

section \<open>Printing does not touch the scheduler\<close>

definition same_sched :: "kstate \<Rightarrow> kstate \<Rightarrow> bool" where
  "same_sched s s' \<longleftrightarrow> ls s' = ls s \<and> status s' = status s \<and> mach s' = mach s \<and> mlocks s' = mlocks s"

definition keeps :: "(kstate \<Rightarrow> kstate res) \<Rightarrow> bool" where
  "keeps f \<longleftrightarrow> (\<forall>s s'. f s = Inr s' \<longrightarrow> same_sched s s')"

lemma same_sched_refl [simp]: "same_sched s s"
  by (simp add: same_sched_def)

lemma same_sched_trans: "same_sched s t \<Longrightarrow> same_sched t u \<Longrightarrow> same_sched s u"
  by (simp add: same_sched_def)

lemma same_sched_inv:
  assumes "same_sched s s'"
  shows "sched_inv L Q s' = sched_inv L Q s" and "current_running s' = current_running s"
proof -
  show c: "current_running s' = current_running s"
    using assms by (simp add: same_sched_def current_running_def)
  show "sched_inv L Q s' = sched_inv L Q s"
    using assms c by (intro sched_inv_cong) (simp_all add: same_sched_def)
qed

lemma same_sched_upd [simp]:
  "same_sched s (called e s)" "same_sched s (s\<lparr>new_screen := scr\<rparr>)" "same_sched s (s\<lparr>old_screen := scr\<rparr>)"
  "same_sched s (s\<lparr>cursor_x := f\<rparr>)" "same_sched s (s\<lparr>cursor_x := f, cursor_y := g\<rparr>)"
  "same_sched s (s\<lparr>new_screen := scr, cursor_x := f\<rparr>)"
  "same_sched s (s\<lparr>new_screen := scr, cursor_x := f, cursor_y := g\<rparr>)"
  by (simp_all add: same_sched_def)

lemma bind_res_Inr: "bind_res r f = Inr y \<longleftrightarrow> (\<exists>x. r = Inr x \<and> f x = Inr y)"
  by (cases r) auto

lemma event_keeps: "same_sched s (fst (bios_event e s))"
  using same_sched_upd(1) [of s e] by (simp add: called_def)

lemma event_keeps': "bios_event e s = (s', r) \<Longrightarrow> same_sched s s'"
  using event_keeps [of s e] by simp

lemma service_keeps: "bios_service f a0 a1 a2 s = Inr (s', r) \<Longrightarrow> same_sched s s'"
  by (cases f)
    (auto simp: with_string_def bind_res_Inr port_write_def port_write_ch_def port_read_ch_def sd_read_def
      sd_write_def qemu_logging_def set_timer_def read_fdt_def call_bios_def map_prod_def
      event_keeps intro: event_keeps' split: prod.splits)

lemma call_jmptab_keeps: "call_jmptab i a0 a1 a2 a3 a4 s = Inr (s', r) \<Longrightarrow> same_sched s s'"
  by (auto simp: call_jmptab_def intro: service_keeps split: option.splits kfun.splits)

lemma putstr_keeps: "keeps (bios_putstr bs)"
  by (auto simp: keeps_def bios_putstr_def call_jmptab_str_def port_write_def qemu_logging_def event_keeps
      split: option.splits kfun.splits bios_fn.splits)

lemma putchar_keeps: "keeps (bios_putchar ch)"
  by (auto simp: keeps_def bios_putchar_def bind_res_Inr intro: call_jmptab_keeps)

lemma set_timer_keeps: "keeps (bios_set_timer t)"
  by (auto simp: keeps_def bios_set_timer_def bind_res_Inr intro: call_jmptab_keeps)

lemma keepsD: "keeps f \<Longrightarrow> f s = Inr s' \<Longrightarrow> same_sched s s'"
  by (simp add: keeps_def)

lemma vprint_keeps: "(\<And>bs. keeps (out bs)) \<Longrightarrow> vprint fmt va out s = Inr (s', n) \<Longrightarrow> same_sched s s'"
  by (auto simp: vprint_def bind_res_Inr dest: keepsD)

lemma vt100_keeps: "keeps (vt100_move_cursor x y)"
  by (auto simp: keeps_def vt100_move_cursor_def printv_def bind_res_Inr
      intro: vprint_keeps [OF putstr_keeps])

lemma reflush_cells_keeps: "keeps (reflush_cells cs)"
proof -
  have c: "reflush_cell c s = Inr s' \<Longrightarrow> same_sched s s'" for c s s'
  proof -
    assume "reflush_cell c s = Inr s'"
    then consider "s' = s" | s1 s2 where "same_sched s s1" "same_sched s1 s2"
      "s' = s2\<lparr>old_screen := (old_screen s2)[cell_index c := new_screen s2 ! cell_index c]\<rparr>"
      by (auto simp: reflush_cell_def Let_def bind_res_Inr cell_index_def split: prod.splits if_splits
          dest: keepsD [OF vt100_keeps] keepsD [OF putchar_keeps])
    then show ?thesis
      using same_sched_trans by cases (simp, metis same_sched_upd(3))
  qed
  have "reflush_cells cs s = Inr s' \<Longrightarrow> same_sched s s'" for s s'
    by (induction cs arbitrary: s) (auto simp: bind_res_Inr dest: c intro: same_sched_trans)
  then show ?thesis by (simp add: keeps_def)
qed

lemma reflush_keeps: "keeps screen_reflush"
  by (auto simp: keeps_def screen_reflush_def bind_res_Inr
      intro: same_sched_trans dest!: keepsD [OF reflush_cells_keeps] keepsD [OF vt100_keeps])

lemma screen_write_keeps: "keeps (screen_write bs)"
proof -
  have c: "screen_write_ch c s = Inr s' \<Longrightarrow> same_sched s s'" for c s s'
    by (auto simp: screen_write_ch_def Let_def bind_res_Inr split: if_splits)
  have "screen_write bs s = Inr s' \<Longrightarrow> same_sched s s'" for s s'
  proof (induction bs arbitrary: s)
    case (Cons b bs)
    then obtain s1 where "screen_write_ch b s = Inr s1" "screen_write bs s1 = Inr s'"
      by (auto simp: bind_res_Inr)
    with c Cons.IH show ?case by (blast intro: same_sched_trans)
  qed simp
  then show ?thesis by (simp add: keeps_def)
qed

lemma move_cursor_keeps: "keeps (screen_move_cursor x y)"
proof -
  have "same_sched s s'" if "screen_move_cursor x y s = Inr s'" for s s'
    using keepsD [OF vt100_keeps that [unfolded screen_move_cursor_def]]
    by (rule same_sched_trans [OF same_sched_upd(5)])
  then show ?thesis by (simp add: keeps_def)
qed

section \<open>System calls keep the invariant\<close>

lemma same_sched_kept:
  assumes "same_sched s s'" and "sched_inv L Q s" and "length (mlocks s) = LOCK_NUM"
  shows "\<exists>Q'. sched_inv L Q' s' \<and> length (mlocks s') = LOCK_NUM"
  using assms(2,3) same_sched_inv(1) [OF assms(1), of L Q] assms(1) by (auto simp: same_sched_def)

lemma array_index_Inr:
  assumes "array_index n i = Inr k"
  shows "i = of_nat k" and "k < n"
proof -
  have k: "0 \<le> sint i" "sint i < int n" "k = nat (sint i)"
    using assms by (auto simp: array_index_def split: if_splits)
  then have "(of_nat k :: cint) = word_of_int (sint i)" by simp
  then show "i = of_nat k" by simp
  show "k < n" using k by linarith
qed

lemma acquire_inv:
  assumes inv: "sched_inv L Q s" and run: "status s (current_running s) = TASK_RUNNING"
    and len: "length (mlocks s) = LOCK_NUM" and r: "do_mutex_lock_acquire L x s = Inr (s', c)"
  shows "\<exists>Q'. sched_inv L Q' s' \<and> length (mlocks s') = LOCK_NUM"
proof -
  obtain i where "array_index LOCK_NUM x = Inr i"
    using r by (auto simp: do_mutex_lock_acquire_def bind_res_Inr)
  note i = array_index_Inr [OF this] this
  show ?thesis
  proof (cases "key (mlocks s ! i) = - 1")
    case True
    then have "s' = s" using r i by (simp add: do_mutex_lock_acquire_def)
    then show ?thesis using inv len by blast
  next
    case k: False
    show ?thesis
    proof (cases "lock (mlocks s ! i)")
      case UNLOCKED
      then have "s' = set_lock i LOCKED s" using acquire_free [OF i(2) k, of L] r i(1) by simp
      then show ?thesis using inv len by auto
    next
      case LOCKED
      then show ?thesis using r i(1) len by (cases rule: acquire_held [OF inv run i(2) len k]) auto
    qed
  qed
qed

lemma release_inv:
  assumes inv: "sched_inv L Q s"
    and len: "length (mlocks s) = LOCK_NUM" and r: "do_mutex_lock_release L x s = Inr s'"
  shows "\<exists>Q'. sched_inv L Q' s' \<and> length (mlocks s') = LOCK_NUM"
proof -
  obtain i where "array_index LOCK_NUM x = Inr i"
    using r by (auto simp: do_mutex_lock_release_def bind_res_Inr)
  note i = array_index_Inr [OF this] this
  show ?thesis
  proof (cases "key (mlocks s ! i) = - 1")
    case True
    then have "s' = s" using r i by (simp add: do_mutex_lock_release_def)
    then show ?thesis using inv len by blast
  next
    case k: False
    show ?thesis
    proof (cases "queue_of Q (block_queue L i)")
      case Nil
      then have "s' = set_lock i UNLOCKED s" using release_free [OF inv i(2) k] r i(1) by simp
      then show ?thesis using inv len by auto
    next
      case (Cons n ns)
      note w = release_waiting [OF inv i(2) k Cons]
      then have "s' = do_unblock L n s" using r i(1) by simp
      then show ?thesis using w(2) len by (auto simp: do_unblock_def Let_def)
    qed
  qed
qed

lemma kernel_call_inv:
  assumes inv: "sched_inv L Q s" and run: "status s (current_running s) = TASK_RUNNING"
    and len: "length (mlocks s) = LOCK_NUM" and f: "f \<notin> {Sys_thread_create, Sys_thread_yield}"
    and r: "kernel_call L f a0 a1 a2 a3 a4 s = Inr (s', v, c)"
  shows "\<exists>Q'. sched_inv L Q' s' \<and> length (mlocks s') = LOCK_NUM"
proof (cases f)
  case Sys_sleep
  then show ?thesis
    using r do_sleep_refines_aux [OF inv run, of "ucast a0"] len
    by (auto simp: void_ctl_def bind_res_Inr)
next
  case Sys_yield
  then show ?thesis
    using r len by (cases rule: do_scheduler_step [OF inv]) (auto simp: void_ctl_def bind_res_Inr data_frame_def)
next
  case Sys_exit
  then show ?thesis
    using r do_exit_refines_aux [OF inv run] len by (auto simp: void_ctl_def bind_res_Inr)
next
  case Sys_write
  then have "same_sched s s'"
    using r by (auto simp: void_call_def bind_res_Inr dest: keepsD [OF screen_write_keeps])
  then show ?thesis using inv len by (rule same_sched_kept)
next
  case Sys_cursor
  then have "same_sched s s'"
    using r by (auto simp: void_call_def bind_res_Inr dest: keepsD [OF move_cursor_keeps])
  then show ?thesis using inv len by (rule same_sched_kept)
next
  case Sys_reflush
  then have "same_sched s s'"
    using r by (auto simp: void_call_def bind_res_Inr dest: keepsD [OF reflush_keeps])
  then show ?thesis using inv len by (rule same_sched_kept)
next
  case Sys_get_timebase
  then show ?thesis using r inv len by (auto simp: get_time_base_def)
next
  case Sys_get_tick
  then have "same_sched s s'" using r by (auto simp: get_ticks_def Let_def same_sched_def)
  then show ?thesis using inv len by (rule same_sched_kept)
next
  case Sys_lock_init
  then have "ls s' = ls s" "status s' = status s" "mach s' = mach s" "length (mlocks s') = length (mlocks s)"
    using r by (auto simp: do_mutex_lock_init_def split: option.splits)
  then show ?thesis using inv len sched_inv_cong(1) [of s' s] by (auto simp: current_running_def)
next
  case Sys_lock_acq
  then show ?thesis
    using r acquire_inv [OF inv run len, of "ucast a0"] by (auto simp: void_ctl_def bind_res_Inr)
next
  case Sys_lock_release
  then show ?thesis
    using r release_inv [OF inv len, of "ucast a0"] by (auto simp: void_call_def bind_res_Inr)
qed (use f r in auto)

lemma syscall_return_same:
  "ls (syscall_return regs v s) = ls s" "status (syscall_return regs v s) = status s"
  "current_running (syscall_return regs v s) = current_running s"
  "mlocks (syscall_return regs v s) = mlocks s"
  by (simp_all add: syscall_return_def set_saved_def Let_def current_running_def st64_def)

text \<open>C21. A system call by a running task, other than those on threads, leaves the queues and the
  task states consistent, whether it returns or switches to another task: the invariant of the
  scheduler holds again.\<close>

theorem handle_syscall_keeps_inv:
  assumes inv: "sched_inv L Q s" and run: "status s (current_running s) = TASK_RUNNING"
    and len: "length (mlocks s) = LOCK_NUM"
    and f: "table_entry (syscall_tab s) (saved_reg regs A7 s) = Inr f"
      "f \<notin> {Sys_thread_create, Sys_thread_yield}"
    and r: "handle_syscall L regs s = Inr (s', c)"
  shows "\<exists>Q'. sched_inv L Q' s' \<and> length (mlocks s') = LOCK_NUM"
proof -
  obtain s1 v c1 where k: "kernel_call L f (saved_reg regs A0 s) (saved_reg regs A1 s) (saved_reg regs A2 s)
      (saved_reg regs A3 s) (saved_reg regs A4 s) s = Inr (s1, v, c1)"
    and e: "(case c1 of Returned \<Rightarrow> Inr (syscall_return regs v s1, Returned)
             | Switched \<Rightarrow> Inr (s1, Switched)) = (Inr (s', c) :: (kstate \<times> ctl) res)"
    using r f(1) by (auto simp: handle_syscall_def bind_res_Inr)
  then have s': "s' = s1 \<or> s' = syscall_return regs v s1" by (cases c1) auto
  obtain Q' where "sched_inv L Q' s1" "length (mlocks s1) = LOCK_NUM"
    using kernel_call_inv [OF inv run len f(2) k] by blast
  moreover have "sched_inv L Q' (syscall_return regs v s1) = sched_inv L Q' s1"
    by (intro sched_inv_cong) (simp_all add: syscall_return_same)
  ultimately show ?thesis using s' by (auto simp: syscall_return_same)
qed

section \<open>Which handler a cause reaches\<close>

text \<open>C23. With the tables \<^verbatim>\<open>init_exception\<close> makes, a trap reaches the timer handler for interrupt 5, the
  system call handler for exception 8 and the register dump for the other registered causes. The
  gaps of the tables hold no handler, so an illegal instruction (exception 2), a misaligned access
  (4, 6) or an environment call of the kernel (9) jumps through a null pointer; a cause past the
  end of its table reads behind it.\<close>

theorem find_handler_complete:
  assumes "irq_table s = replicate (irq_number IRQC_COUNT) None"
    and "exc_table s = replicate (exc_number EXCC_COUNT) None"
  shows "find_handler c (init_exception L s) =
    (if c AND SCAUSE_IRQ_FLAG \<noteq> 0
     then let k = unat (c AND NOT SCAUSE_IRQ_FLAG) in
          if k = 5 then Inr Handle_irq_timer
          else if k \<in> {0, 1, 3, 4, 7, 8, 9, 11} then Inr Handle_other
          else if k \<in> {2, 6, 10} then Inl BadJump else Inl OutOfBounds
     else if unat c = 8 then Inr Handle_syscall
          else if unat c \<in> {0, 1, 3, 5, 7, 12, 13, 15} then Inr Handle_other
          else if unat c \<in> {2, 4, 6, 9, 10, 11, 14} then Inl BadJump else Inl OutOfBounds)"
proof -
  have irq: "irq_table (init_exception L s) =
      [Some Handle_other, Some Handle_other, None, Some Handle_other, Some Handle_other,
       Some Handle_irq_timer, None, Some Handle_other, Some Handle_other, Some Handle_other, None,
       Some Handle_other]"
    by (simp add: init_exception_def assms(1) numeral_eq_Suc One_nat_def)
  have exc: "exc_table (init_exception L s) =
      [Some Handle_other, Some Handle_other, None, Some Handle_other, None, Some Handle_other, None,
       Some Handle_other, Some Handle_syscall, None, None, None, Some Handle_other,
       Some Handle_other, None, Some Handle_other]"
    by (simp add: init_exception_def assms(2) numeral_eq_Suc One_nat_def)
  have i: "table_entry (irq_table (init_exception L s)) w =
      (if unat w = 5 then Inr Handle_irq_timer
       else if unat w \<in> {0, 1, 3, 4, 7, 8, 9, 11} then Inr Handle_other
       else if unat w \<in> {2, 6, 10} then Inl BadJump else Inl OutOfBounds)" for w
  proof (cases "unat w < 12")
    case True
    then have "unat w \<in> {0, 1, 2, 3, 4, 5, 6, 7, 8, 9, 10, 11}" by (simp only: insert_iff empty_iff) presburger
    then show ?thesis unfolding table_entry_def irq by auto
  qed (auto simp: table_entry_def irq)
  have e: "table_entry (exc_table (init_exception L s)) w =
      (if unat w = 8 then Inr Handle_syscall
       else if unat w \<in> {0, 1, 3, 5, 7, 12, 13, 15} then Inr Handle_other
       else if unat w \<in> {2, 4, 6, 9, 10, 11, 14} then Inl BadJump else Inl OutOfBounds)" for w
  proof (cases "unat w < 16")
    case True
    then have "unat w \<in> {0, 1, 2, 3, 4, 5, 6, 7, 8, 9, 10, 11, 12, 13, 14, 15}"
      by (simp only: insert_iff empty_iff) presburger
    then show ?thesis unfolding table_entry_def exc by auto
  qed (auto simp: table_entry_def exc)
  show ?thesis by (simp only: find_handler_def i e Let_def)
qed

lemma find_handler_complete_witness:
  "find_handler 2 (init_exception demo_layout demo) = Inl BadJump"
proof -
  have "(2 :: u64) AND SCAUSE_IRQ_FLAG = 0" by code_simp
  then show ?thesis by (subst find_handler_complete) (simp_all add: demo_def)
qed

section \<open>What a task sees of a system call\<close>

text \<open>C22. A system call that returns, from the \<^verbatim>\<open>ecall\<close> to the \<^verbatim>\<open>sret\<close>: the trap entry saves the task's
  registers, the dispatch calls the routine numbered by \<^verbatim>\<open>a7\<close> with the values of \<^verbatim>\<open>a0\<close> to \<^verbatim>\<open>a4\<close>, and
  the task continues behind its \<^verbatim>\<open>ecall\<close> with the result in \<^verbatim>\<open>a0\<close> and every other register as it
  was, provided the routine left the saved frame alone.\<close>

theorem system_call_returns:
  fixes s :: kstate and rfe h :: u64
  defines "m \<equiv> mach s"
  defines "k \<equiv> dmem m (gpr m TP)"
  defines "s1 \<equiv> s\<lparr>mach := exec (exception_handler_entry rfe h) m\<rparr>"
  assumes c: "find_handler (csrs m SCAUSE) s = Inr Handle_syscall"
    and f: "table_entry (syscall_tab s) (gpr m A7) = Inr f"
    and call: "kernel_call L f (gpr m A0) (gpr m A1) (gpr m A2) (gpr m A3) (gpr m A4) s1 =
        Inr (s2, v, Returned)"
    and kept: "gpr (mach s2) SP = k" "\<And>p. p \<in> trap_frame k \<Longrightarrow> dmem (mach s2) p = dmem (mach s1) p"
    and tp: "gpr m TP \<noteq> k + OFFSET_REG SP"
  shows "\<exists>s'. interrupt_helper L (gpr (mach s1) A0) (gpr (mach s1) A1) (gpr (mach s1) A2) s1 = Inr (s', Returned) \<and>
     pc (exec ret_from_exception (mach s')) = csrs m SEPC + 4 \<and>
     (user_mode (exec ret_from_exception (mach s')) \<longleftrightarrow> csrs m SSTATUS AND SR_SPP = 0) \<and>
     gpr (exec ret_from_exception (mach s')) A0 = v \<and>
     (\<forall>r. 1 \<le> r \<and> r < 32 \<and> r \<noteq> A0 \<longrightarrow> gpr (exec ret_from_exception (mach s')) r = gpr m r)"
proof -
  note S = SAVE_CONTEXT_mem [where m = m, folded k_def]
  have e: "dmem (mach s1) = dmem (exec SAVE_CONTEXT m)" "gpr (mach s1) A0 = k"
    "gpr (mach s1) A2 = csrs (exec SAVE_CONTEXT m) SCAUSE"
    using S(1) by (simp_all add: s1_def exception_handler_entry_def rd_simps)
  have cause: "csrs (exec SAVE_CONTEXT m) SCAUSE = csrs m SCAUSE"
    by (simp add: SAVE_CONTEXT_def sd_reg_def rd_simps)
  have inf: "i < 36 \<Longrightarrow> k + OFFSET_REG i \<in> trap_frame k" for i by (simp add: trap_frame_def)
  have saved: "saved_reg k r s1 = gpr m r" if "1 \<le> r" "r < 32" for r
    using S(2) [OF that] by (simp add: saved_reg_def e)
  have tab: "syscall_tab s1 = syscall_tab s" "find_handler (csrs m SCAUSE) s1 = Inr Handle_syscall"
    using c by (auto simp: s1_def find_handler_def)
  let ?s' = "syscall_return k v s2"
  have h: "interrupt_helper L (gpr (mach s1) A0) (gpr (mach s1) A1) (gpr (mach s1) A2) s1 = Inr (?s', Returned)"
    using f call by (simp add: interrupt_helper_def e(2,3) cause tab handle_syscall_def saved)
  let ?d = "dmem (mach ?s')"
  have d: "?d = (dmem (mach s2))(k + OFFSET_REG A0 := v,
      k + OFFSET_REG_SEPC := dmem (mach s2) (k + OFFSET_REG_SEPC) + 4)"
    using OFFSET_REG_inj [of A0 33]
    by (simp add: syscall_return_def set_saved_def Let_def st64_def OFFSET_REG_csr fun_eq_iff)
  have dr: "?d (k + OFFSET_REG r) = (if r = A0 then v else gpr m r)" if "1 \<le> r" "r < 32" for r
    using S(2) [OF that] kept(2) [OF inf, of r] that OFFSET_REG_inj [of r 10] OFFSET_REG_inj [of r 33]
    by (simp add: d e(1) OFFSET_REG_csr)
  have sepc: "?d (k + OFFSET_REG_SEPC) = csrs m SEPC + 4" "?d (k + OFFSET_REG_SSTATUS) = csrs m SSTATUS"
    using S(3,4) kept(2) [OF inf, of 33] kept(2) [OF inf, of 32] OFFSET_REG_inj [of 32 33] OFFSET_REG_inj [of 32 10]
    by (simp_all add: d e(1) OFFSET_REG_csr)
  have sp: "gpr (mach ?s') SP = k"
    using kept(1) by (simp add: syscall_return_def set_saved_def Let_def st64_def)
  have tp': "?d (k + OFFSET_REG TP) = gpr m TP" by (subst dr) simp_all
  have "?d (gpr (mach ?s') SP + OFFSET_REG TP) \<noteq> gpr (mach ?s') SP + OFFSET_REG SP"
    unfolding sp tp' by (rule tp)
  note R = ret_from_exception_regs [OF this, unfolded sp sepc]
  show ?thesis
    using h R(1) [of A0] R(1) R(2,3) dr by (intro exI [of _ ?s']) simp
qed

text \<open>A task that asks for the clock's frequency.\<close>

definition demo_ecall :: kstate where
  "demo_ecall = demo
     \<lparr>mach := (mach demo)
        \<lparr>gpr := (\<lambda>r. if r = A7 then 30 else if r = TP then 0x5000 else of_nat r),
         csrs := (\<lambda>c. if c = SCAUSE then 8 else if c = SEPC then 0x100 else 0),
         dmem := (\<lambda>a. if a = 0x5000 then 0x9000 else 0)\<rparr>,
      exc_table := (replicate 16 None)[8 := Some Handle_syscall],
      syscall_tab := (replicate 96 None)[30 := Some Sys_get_timebase]\<rparr>"

lemma system_call_returns_witness:
  "\<exists>s' :: kstate. gpr (exec ret_from_exception (mach s')) A0 = 1 \<and> pc (exec ret_from_exception (mach s')) = 0x104 \<and>
     gpr (exec ret_from_exception (mach s')) A1 = 11"
proof -
  let ?m = "mach demo_ecall"
  have k: "dmem ?m (gpr ?m TP) = 0x9000" "gpr ?m A0 = 10" "gpr ?m A1 = 11" "gpr ?m TP = 0x5000"
    "csrs ?m SEPC = 0x100"
    by (simp_all add: demo_ecall_def)
  have "(8 :: u64) AND SCAUSE_IRQ_FLAG = 0" by code_simp
  then have c: "find_handler (csrs ?m SCAUSE) demo_ecall = Inr Handle_syscall"
    by (simp add: demo_ecall_def find_handler_def table_entry_def)
  have f: "table_entry (syscall_tab demo_ecall) (gpr ?m A7) = Inr Sys_get_timebase"
    by (simp add: demo_ecall_def table_entry_def)
  let ?s1 = "demo_ecall\<lparr>mach := exec (exception_handler_entry 0x50 0x60) ?m\<rparr>"
  have call: "kernel_call L Sys_get_timebase a0 a1 a2 a3 a4 ?s1 = Inr (?s1, 1, Returned)" for L a0 a1 a2 a3 a4
    by (simp add: get_time_base_def demo_ecall_def)
  have sp: "gpr (mach ?s1) SP = dmem ?m (gpr ?m TP)"
    using SAVE_CONTEXT_mem(1) [where m = ?m]
    by (simp add: exception_handler_entry_def rd_simps)
  have tp: "gpr ?m TP \<noteq> dmem ?m (gpr ?m TP) + OFFSET_REG SP"
    unfolding k(1) unfolding k(4) by (simp add: OFFSET_REG_def)
  from system_call_returns [OF c f call sp refl tp, of demo_layout] obtain s' :: kstate where
    s': "gpr (exec ret_from_exception (mach s')) A0 = 1"
    "pc (exec ret_from_exception (mach s')) = csrs ?m SEPC + 4"
    and others: "\<forall>r. 1 \<le> r \<and> r < 32 \<and> r \<noteq> A0 \<longrightarrow> gpr (exec ret_from_exception (mach s')) r = gpr ?m r"
    by blast
  have "gpr (exec ret_from_exception (mach s')) A1 = 11" using others [rule_format, of A1] k by simp
  with s' k show ?thesis by auto
qed

section \<open>The timer interrupt\<close>

text \<open>C24. A timer interrupt sets the next one an interval of 150000 ticks after the time it reads, and
  then makes one pass of the scheduler, judging the sleepers by the readings that follow.\<close>

theorem timer_interrupt:
  assumes inv: "sched_inv L Q s" and ready: "bios_ready s"
  shows "\<exists>s' c Q'. handle_irq_timer L s = Inr (s', c) \<and> sched_inv L Q' s' \<and>
     bios_log s' = bios_log s @ [Bios 0 [rdtime s (rd_pos s) + 150000, 0, 0, 0, 0]] \<and>
     (abs_sched L Q' s', c) =
       pick (wake (due_tasks L Q (s\<lparr>rd_pos := Suc (rd_pos s)\<rparr>)) (abs_sched L Q s))"
proof -
  let ?s1 = "s\<lparr>time_elapsed := rdtime s (rd_pos s), rd_pos := Suc (rd_pos s)\<rparr>"
  let ?s2 = "called (Bios 0 [rdtime s (rd_pos s) + 150000, 0, 0, 0, 0]) ?s1"
  have "bios_ready ?s1" using ready by (simp add: bios_ready_def)
  then have h: "handle_irq_timer L s = ends (do_scheduler L ?s2)"
    by (simp add: handle_irq_timer_def get_ticks_def Let_def bios_calls TIMER_INTERVAL_def)
  have c: "current_running ?s1 = current_running s" by (simp add: current_running_def)
  have inv2: "sched_inv L Q ?s2" and abs2: "abs_sched L Q ?s2 = abs_sched L Q s"
    using inv sched_inv_cong [of ?s2 s L Q] by (simp_all add: c)
  have due2: "due_tasks L Q ?s2 = due_tasks L Q (s\<lparr>rd_pos := Suc (rd_pos s)\<rparr>)"
    by (rule due_tasks_cong) simp_all
  show ?thesis
    by (rule do_scheduler_step [OF inv2]) (auto simp: h abs2 due2 data_frame_def)
qed

definition demo_bios :: kstate where
  "demo_bios = demo\<lparr>jmptab := (\<lambda>i. if i < 8
     then Some (Bios_fn ([Port_write, Port_write_ch, Port_read_ch, Sd_read, Sd_write, Qemu_logging,
                          Set_timer, Read_fdt] ! i)) else None)\<rparr>"

lemma demo_bios_ready: "bios_ready demo_bios"
  by (simp add: bios_ready_def demo_bios_def upt_rec numeral_eq_Suc)

lemma demo_bios_inv: "sched_inv demo_layout demo_rings demo_bios"
  using demo_inv sched_inv_cong(1) [of demo_bios demo demo_layout demo_rings]
  by (simp add: demo_bios_def current_running_def)

lemma timer_interrupt_witness:
  "\<exists>s' c. handle_irq_timer demo_layout demo_bios = Inr (s', c) \<and>
     bios_log s' = [Bios 0 [150007, 0, 0, 0, 0]]"
proof -
  have "bios_log demo_bios @ [Bios 0 [rdtime demo_bios (rd_pos demo_bios) + 150000, 0, 0, 0, 0]] =
      [Bios 0 [150007, 0, 0, 0, 0]]"
    by (simp add: demo_bios_def demo_def)
  then show ?thesis using timer_interrupt [OF demo_bios_inv demo_bios_ready] by metis
qed

section \<open>Instances\<close>

lemma demo_bios_simps [simp]:
  "current_running demo_bios = current_running demo" "status demo_bios = status demo"
  "mlocks demo_bios = mlocks demo" "new_screen demo_bios = replicate 4000 0"
  "old_screen demo_bios = replicate 4000 0" "cursor_x demo_bios = (\<lambda>p. 0)"
  "cursor_y demo_bios = (\<lambda>p. 0)" "dmem (mach demo_bios) = (\<lambda>a. 0)" "bios_log demo_bios = []"
  by (simp_all add: demo_bios_def demo_def current_running_def)

lemma handle_syscall_keeps_inv_witness:
  "\<exists>s' Q'. handle_syscall demo_layout 0 (demo_bios\<lparr>syscall_tab := [Some Sys_get_timebase]\<rparr>) =
     Inr (s', Returned) \<and> sched_inv demo_layout Q' s'"
proof -
  let ?s = "demo_bios\<lparr>syscall_tab := [Some Sys_get_timebase]\<rparr>"
  have c: "current_running ?s = current_running demo_bios" by (simp add: current_running_def)
  have inv: "sched_inv demo_layout demo_rings ?s"
    using demo_bios_inv sched_inv_cong(1) [of ?s demo_bios demo_layout demo_rings] c by simp
  have run: "status ?s (current_running ?s) = TASK_RUNNING" by (simp add: c)
  have len: "length (mlocks ?s) = LOCK_NUM" by simp
  have f: "table_entry (syscall_tab ?s) (saved_reg 0 A7 ?s) = Inr Sys_get_timebase"
    by (simp add: table_entry_def saved_reg_def)
  have h: "handle_syscall demo_layout 0 ?s = Inr (syscall_return 0 (time_base ?s) ?s, Returned)"
    using f by (simp add: handle_syscall_def get_time_base_def)
  from handle_syscall_keeps_inv [OF inv run len f _ h] show ?thesis using h by auto
qed

lemma demo_screen_length: "length (new_screen demo_bios) = SCREEN_SIZE" "length (old_screen demo_bios) = SCREEN_SIZE"
  by (simp_all add: SCREEN_SIZE_def SCREEN_WIDTH_def SCREEN_HEIGHT_def)

text \<open>A buffer in which one cell has changed.\<close>

definition demo_changed :: kstate where
  "demo_changed = demo_bios\<lparr>new_screen := (replicate 4000 0)[81 := 65]\<rparr>"

lemma demo_changed_ready:
  "bios_ready demo_changed" "length (new_screen demo_changed) = SCREEN_SIZE"
  "length (old_screen demo_changed) = SCREEN_SIZE"
  using demo_bios_ready
  by (simp_all add: demo_changed_def bios_ready_def SCREEN_SIZE_def SCREEN_WIDTH_def SCREEN_HEIGHT_def)

lemma screen_reflush_exact_witness:
  "\<exists>m. screen_reflush demo_changed = Inr (demo_changed\<lparr>bytes := m,
     bios_log := refresh_events (new_screen demo_changed) (old_screen demo_changed) cells @
       [Bios_str 9 (move_text 0 0)],
     old_screen := new_screen demo_changed\<rparr>)"
  using screen_reflush_exact [OF demo_changed_ready] by (simp add: demo_changed_def)

lemma screen_write_line_witness:
  "\<exists>s'. screen_write [72, 105] demo_bios = Inr s' \<and> take 2 (new_screen s') = [72, 105]"
  using screen_write_line [of demo_bios 0 0 "[72, 105]"]
  by (simp add: SCREEN_SIZE_def SCREEN_WIDTH_def SCREEN_HEIGHT_def)

lemma screen_write_below_witness:
  "screen_write [65] (demo_bios\<lparr>cursor_y := (\<lambda>p. 50)\<rparr>) = Inl OutOfBounds"
  using screen_write_below [of "demo_bios\<lparr>cursor_y := (\<lambda>p. 50)\<rparr>" 0 50 65 "[]"]
  by (simp add: SCREEN_WIDTH_def SCREEN_HEIGHT_def)

end
