(* ===== verification/Loader.thy ===== *)
theory Loader
  imports Bios
begin

text \<open>
  The task loader (\<^verbatim>\<open>kernel/loader/loader.c\<close>): it finds a task by name in the table that
  \<^verbatim>\<open>init_task_info\<close> has read from the image, reads the sectors of the task into a buffer behind
  all tasks, and copies the bytes of the task to its place. The table, the buffer and the tasks
  are bytes of memory; the disk is what the firmware reads from.
\<close>

section \<open>Constants and the task table (include/os/task.h)\<close>

definition TASK_MEM_BASE :: u64 where "TASK_MEM_BASE = 0x52000000"
definition TASK_MAXNUM :: nat where "TASK_MAXNUM = 16"
definition SECTOR_SIZE :: u32 where "SECTOR_SIZE = 512"

definition NBYTES2SEC :: "u32 \<Rightarrow> u32" where
  "NBYTES2SEC nbytes = nbytes div SECTOR_SIZE + of_bool (nbytes mod SECTOR_SIZE \<noteq> 0)"

text \<open>\<^verbatim>\<open>task_info_t\<close>: a name of 24 bytes, the first byte of the task in the image and the byte after
  the last.\<close>

definition TASK_NAME_LEN :: u64 where "TASK_NAME_LEN = 24"
definition SIZEOF_TASK_INFO :: u64 where "SIZEOF_TASK_INFO = 32"

definition task_at :: "layout \<Rightarrow> nat \<Rightarrow> ptr" where
  "task_at L i = tasks_base L + SIZEOF_TASK_INFO * of_nat i"

text \<open>A little-endian word of four bytes.\<close>

definition le32 :: "memory \<Rightarrow> ptr \<Rightarrow> u32" where
  "le32 m p = ucast (m p) + 2 ^ 8 * ucast (m (p + 1)) + 2 ^ 16 * ucast (m (p + 2)) + 2 ^ 24 * ucast (m (p + 3))"

definition task_begin :: "layout \<Rightarrow> memory \<Rightarrow> nat \<Rightarrow> u32" where
  "task_begin L m i = le32 m (task_at L i + TASK_NAME_LEN)"

definition task_end :: "layout \<Rightarrow> memory \<Rightarrow> nat \<Rightarrow> u32" where
  "task_end L m i = le32 m (task_at L i + TASK_NAME_LEN + 4)"

section \<open>Loading\<close>

text \<open>The task number \<open>i\<close> was found: read its sectors and copy it.\<close>

definition load_found :: "layout \<Rightarrow> ptr \<Rightarrow> nat \<Rightarrow> kstate \<Rightarrow> (kstate \<times> u64) res" where
  "load_found L buffer i s =
     (let entrypoint = TASK_MEM_BASE + scast (push_bit 16 (of_nat i :: cint));
          nbytes_size = task_end L (bytes s) i - task_begin L (bytes s) i;
          begin_block = NBYTES2SEC (task_begin L (bytes s) i) - 1;
          end_block = NBYTES2SEC (task_end L (bytes s) i - 1) - 1
      in bind_res (bios_sd_read (ucast buffer) (end_block - begin_block + 1) begin_block s) (\<lambda>(s, r).
         Inr (s\<lparr>bytes := memcpy entrypoint (buffer + ucast (task_begin L (bytes s) i mod SECTOR_SIZE))
                           nbytes_size (bytes s)\<rparr>, entrypoint)))"

fun load_loop :: "layout \<Rightarrow> ptr \<Rightarrow> ptr \<Rightarrow> nat \<Rightarrow> nat \<Rightarrow> kstate \<Rightarrow> (kstate \<times> u64) res" where
  "load_loop L taskname buffer 0 i s = Inr (s, 0)"
| "load_loop L taskname buffer (Suc k) i s =
     (if TASK_MAXNUM \<le> i then Inl OutOfBounds
      else bind_res (ends (strcmp (task_at L i) taskname (bytes s))) (\<lambda>r.
           if r = 0 then load_found L buffer i s
           else load_loop L taskname buffer k (Suc i) s))"

definition load_task_img :: "layout \<Rightarrow> ptr \<Rightarrow> kstate \<Rightarrow> (kstate \<times> u64) res" where
  "load_task_img L taskname s =
     (let task_num = le32 (bytes s) 0x502001f8;
          buffer = TASK_MEM_BASE + scast (push_bit 16 (task_num + 1))
      in load_loop L taskname buffer (nat (sint task_num)) 0 s)"

section \<open>The disk\<close>

text \<open>
  What the firmware promises of a read: \<open>n\<close> sectors from sector \<open>b\<close> on are put at the address, and
  no other memory changes.
\<close>

definition sd_card :: "(nat \<Rightarrow> byte) \<Rightarrow> kstate \<Rightarrow> bool" where
  "sd_card disk s \<longleftrightarrow>
     (\<forall>k a n b m. fst (firmware s k (Bios 11 [a, n, b, 0, 0]) m) =
        (\<lambda>p. if unat (p - a) < 512 * unat n then disk (512 * unat b + unat (p - a)) else m p))"

text \<open>A table of \<open>n\<close> tasks with the given names and ranges of bytes.\<close>

definition task_table :: "layout \<Rightarrow> (byte list \<times> nat \<times> nat) list \<Rightarrow> memory \<Rightarrow> bool" where
  "task_table L ts m \<longleftrightarrow>
     length ts \<le> TASK_MAXNUM \<and> le32 m 0x502001f8 = of_nat (length ts) \<and>
     (\<forall>i < length ts. case ts ! i of (name, b, e) \<Rightarrow>
        c_string m (task_at L i) name \<and> length name < 24 \<and>
        task_begin L m i = of_nat b \<and> task_end L m i = of_nat e \<and>
        1024 \<le> b \<and> b < e \<and> e \<le> b + 0x10000 \<and> e < 2 ^ 31)"

text \<open>The first byte of the image that is loaded for a task that begins at byte \<open>b\<close>.\<close>

definition loaded_from :: "nat \<Rightarrow> nat" where
  "loaded_from b = (if b mod 512 = 0 then b - 512 else b)"

section \<open>Sectors\<close>

lemma NBYTES2SEC_nat:
  assumes "x < 2 ^ 31"
  shows "NBYTES2SEC (of_nat x) = of_nat (x div 512 + of_bool (x mod 512 \<noteq> 0))"
proof -
  have x: "unat (of_nat x :: u32) = x" using assms by (intro unat_of_nat_u32) simp
  have d: "(of_nat x :: u32) div SECTOR_SIZE = of_nat (x div 512)"
    using x by (simp add: word_arith_nat_div SECTOR_SIZE_def)
  have m: "(of_nat x :: u32) mod SECTOR_SIZE = of_nat (x mod 512)"
    using x by (simp add: word_arith_nat_mod SECTOR_SIZE_def)
  have "unat (of_nat (x mod 512) :: u32) = x mod 512" by (intro unat_of_nat_u32) simp
  then have "(of_nat (x mod 512) :: u32) = 0 \<longleftrightarrow> x mod 512 = 0" by (metis of_nat_0 unat_eq_0)
  then show ?thesis unfolding NBYTES2SEC_def d m by simp
qed

text \<open>The block numbers \<^verbatim>\<open>load_task_img\<close> computes: the sector of the byte, or the one before it when
  the byte is the first of its sector.\<close>

definition block_of :: "nat \<Rightarrow> nat" where
  "block_of x = (if x mod 512 = 0 then x div 512 - 1 else x div 512)"

lemma NBYTES2SEC_block:
  assumes "512 \<le> x" and "x < 2 ^ 31"
  shows "NBYTES2SEC (of_nat x) - 1 = of_nat (block_of x)"
proof -
  have "1 \<le> x div 512" using assms(1) by (simp add: less_eq_div_iff_mult_less_eq)
  then show ?thesis
    unfolding NBYTES2SEC_nat [OF assms(2)] block_of_def by (cases "x mod 512 = 0") (simp_all add: of_nat_diff)
qed

lemma sector_split: "x = 512 * (x div 512) + x mod 512" "x mod 512 < (512 :: nat)"
  by simp_all

lemma block_of_begin:
  assumes "512 \<le> b"
  shows "512 * block_of b + b mod 512 = loaded_from b"
proof -
  have "1 \<le> b div 512" using assms by (simp add: less_eq_div_iff_mult_less_eq)
  then show ?thesis
    using sector_split [of b] by (cases "b mod 512 = 0") (simp_all add: block_of_def loaded_from_def)
qed

text \<open>A range of bytes in sectors and rests.\<close>

lemma range_sectors:
  assumes "512 \<le> b" and "b < e" and "e \<le> b + 0x10000"
  obtains B r E q :: nat where "b = 512 * B + r" and "r < 512" and "e = Suc (512 * E + q)" and "q < 512"
    and "1 \<le> B" and "B \<le> E" and "E \<le> B + 128" and "r = 0 \<longrightarrow> block_of b = B - 1" and "0 < r \<longrightarrow> block_of b = B"
    and "q = 0 \<longrightarrow> block_of (e - 1) = E - 1" and "0 < q \<longrightarrow> block_of (e - 1) = E"
    and "b mod 512 = r" and "(e - 1) mod 512 = q"
proof (rule that)
  note s = sector_split [of b] sector_split [of "e - 1"]
  show "b = 512 * (b div 512) + b mod 512" "b mod 512 < 512" "(e - 1) mod 512 < 512" by simp_all
  show "e = Suc (512 * ((e - 1) div 512) + (e - 1) mod 512)" using assms(2) by simp
  show "1 \<le> b div 512" using assms(1) by (simp add: less_eq_div_iff_mult_less_eq)
  show "b div 512 \<le> (e - 1) div 512" using assms(2) by (intro div_le_mono) simp
  show "(e - 1) div 512 \<le> b div 512 + 128" using s assms by linarith
qed (simp_all add: block_of_def)

lemma block_of_mono:
  assumes "512 \<le> b" and "b < e" and "e \<le> b + 0x10000"
  shows "block_of b \<le> block_of (e - 1)" and "block_of (e - 1) - block_of b \<le> 129"
proof -
  obtain B r E q :: nat where d: "b = 512 * B + r" "r < 512" "e = Suc (512 * E + q)" "q < 512"
    "1 \<le> B" "B \<le> E" "E \<le> B + 128"
    and r: "r = 0 \<longrightarrow> block_of b = B - 1" "0 < r \<longrightarrow> block_of b = B"
    and q: "q = 0 \<longrightarrow> block_of (e - 1) = E - 1" "0 < q \<longrightarrow> block_of (e - 1) = E"
    by (rule range_sectors [OF assms]) blast
  have "q = 0 \<Longrightarrow> 0 < r \<Longrightarrow> B < E" using d assms(2) by linarith
  then show "block_of b \<le> block_of (e - 1)" using d r q by (cases "r = 0"; cases "q = 0") auto
  show "block_of (e - 1) - block_of b \<le> 129" using d r q by (cases "r = 0"; cases "q = 0") auto
qed

lemma block_of_covers:
  assumes "512 \<le> b" and "b < e" and "e \<le> b + 0x10000" and j: "j < e - b"
    and last: "(e - 1) mod 512 \<noteq> 0 \<or> b mod 512 = 0 \<or> j < e - b - 1"
  shows "b mod 512 + j < 512 * (block_of (e - 1) - block_of b + 1)"
proof -
  obtain B r E q :: nat where d: "b = 512 * B + r" "r < 512" "e = Suc (512 * E + q)" "q < 512"
    "1 \<le> B" "B \<le> E"
    and r: "r = 0 \<longrightarrow> block_of b = B - 1" "0 < r \<longrightarrow> block_of b = B"
    and q: "q = 0 \<longrightarrow> block_of (e - 1) = E - 1" "0 < q \<longrightarrow> block_of (e - 1) = E"
    and m: "b mod 512 = r" "(e - 1) mod 512 = q"
    by (rule range_sectors [OF assms(1-3)], rule that) assumption+
  have "b + j \<le> 512 * E + q" using j d by linarith
  consider "q = 0" "r = 0" | "q = 0" "0 < r" | "0 < q" "r = 0" | "0 < q" "0 < r" by auto
  then show ?thesis
  proof cases
    case 1
    then show ?thesis using r q d j unfolding m by simp
  next
    case 2
    then have "B < E" using d assms(2) by linarith
    moreover have "b + j < 512 * E" using last m 2 d by simp
    ultimately show ?thesis using 2 r q d unfolding m by simp
  next
    case 3
    then show ?thesis using r q d j unfolding m by simp
  next
    case 4
    then show ?thesis using r q d j unfolding m by simp
  qed
qed

section \<open>Addresses\<close>

definition task_entry :: "nat \<Rightarrow> ptr" where
  "task_entry i = TASK_MEM_BASE + of_nat (0x10000 * i)"

lemma unat_task_entry:
  assumes "i \<le> 17" and "j < 0x100000"
  shows "unat (task_entry i + of_nat j) = 0x52000000 + 0x10000 * i + j"
proof -
  have "task_entry i + of_nat j = of_nat (0x52000000 + 0x10000 * i + j)"
    by (simp add: task_entry_def TASK_MEM_BASE_def)
  moreover have "0x52000000 + 0x10000 * i + j < 2 ^ 64" using assms by simp
  ultimately show ?thesis by (simp only: unat_of_nat_u64)
qed

lemma unat_diff_above:
  assumes "unat p < unat a" and "unat a < 2 ^ 33"
  shows "2 ^ 63 \<le> unat ((p :: ptr) - a)"
proof -
  have u: "uint p < uint a" "uint a < 2 ^ 33" "0 \<le> uint p"
    using assms by (simp_all add: uint_nat del: of_nat_unat)
  have pow: "(2 :: int) ^ 33 = 8589934592" "(2 :: int) ^ 64 = 18446744073709551616" by simp_all
  have "uint (p - a) = (uint p - uint a) mod 2 ^ 64"
    using uint_word_ariths(2) [of p a] by simp
  also have "\<dots> = (uint p - uint a + 2 ^ 64) mod 2 ^ 64" by simp
  also have "\<dots> = uint p - uint a + 2 ^ 64"
    using u pow by (intro mod_pos_pos_trivial) linarith+
  finally have "9223372036854775808 \<le> uint (p - a)" using u pow by linarith
  then show ?thesis by (simp add: uint_nat del: of_nat_unat)
qed

lemma entry_word: "i \<le> 17 \<Longrightarrow> TASK_MEM_BASE + scast (push_bit 16 (of_nat i :: cint)) = task_entry i"
proof -
  assume i: "i \<le> 17"
  have p: "push_bit 16 (of_nat i :: cint) = of_nat (0x10000 * i)"
    by (simp add: push_bit_eq_mult)
  have u: "unat (of_nat (0x10000 * i) :: cint) = 0x10000 * i"
    using i by (intro unat_of_nat_u32) simp
  have "(scast (of_nat (0x10000 * i) :: cint) :: u64) = of_nat (unat (of_nat (0x10000 * i) :: cint))"
    using i by (intro scast_small) (simp only: u, simp)
  then show ?thesis unfolding p u task_entry_def by simp
qed

lemma ucast_ucast_small: "unat (p :: ptr) < 2 ^ 32 \<Longrightarrow> (ucast (ucast p :: u32) :: u64) = p"
proof -
  assume p: "unat p < 2 ^ 32"
  have "unat (ucast (ucast p :: u32) :: u64) = unat (ucast p :: u32)"
    by (rule unat_ucast_u64)
  also have "\<dots> = unat p" using p by (simp add: unsigned_ucast_eq unsigned_take_bit_eq take_bit_nat_eq_self)
  finally show ?thesis by (simp add: word_unat_eq_iff)
qed

section \<open>What is loaded\<close>

lemma task_table_below:
  assumes "task_table L ts m" and "i < length ts" and "unat (tasks_base L) + 512 \<le> 0x52000000"
    and "k < 32"
  shows "unat (task_at L i + of_nat k) < 0x52000000"
proof -
  have i: "i < 16" using assms(1,2) by (simp add: task_table_def TASK_MAXNUM_def)
  have e: "task_at L i + of_nat k = tasks_base L + of_nat (32 * i + k)"
    by (simp add: task_at_def SIZEOF_TASK_INFO_def)
  have "unat (tasks_base L + of_nat (32 * i + k)) = unat (tasks_base L) + (32 * i + k)"
  proof -
    have u: "unat (of_nat (32 * i + k) :: ptr) = 32 * i + k"
      using i assms(4) by (intro unat_of_nat_u64) simp
    then have "unat (tasks_base L) + unat (of_nat (32 * i + k) :: ptr) < 2 ^ LENGTH(64)"
      using i assms(3,4) by simp
    then show ?thesis by (simp only: unat_add_lem [THEN iffD1] u)
  qed
  then show ?thesis unfolding e using i assms(3,4) by simp
qed

text \<open>The last byte that is not read is the first behind the sectors that are.\<close>

lemma block_of_misses:
  assumes "512 \<le> b" and "b < e" and "e \<le> b + 0x10000" and "b mod 512 \<noteq> 0" and "(e - 1) mod 512 = 0"
  shows "b mod 512 + (e - b - 1) = 512 * (block_of (e - 1) - block_of b + 1)"
proof -
  obtain B r E q :: nat where d: "b = 512 * B + r" "r < 512" "e = Suc (512 * E + q)" "q < 512"
    "1 \<le> B" "B \<le> E"
    and r: "0 < r \<longrightarrow> block_of b = B" and q: "q = 0 \<longrightarrow> block_of (e - 1) = E - 1"
    and m: "b mod 512 = r" "(e - 1) mod 512 = q"
    by (rule range_sectors [OF assms(1-3)], rule that) assumption+
  have z: "q = 0" "0 < r" using m assms(4,5) by simp_all
  then have "B < E" using d assms(2) by linarith
  have "r + (e - b - 1) = 512 * E - 512 * B" using d z \<open>B < E\<close> by linarith
  also have "\<dots> = 512 * (E - 1 - B + 1)" using \<open>B < E\<close> by simp
  finally show ?thesis using r q z m by simp
qed

lemma load_found_spec:
  assumes ready: "bios_ready s" and card: "sd_card disk s"
    and tab: "task_table L ts (bytes s)" and i: "i < length ts" "ts ! i = (name, b, e)"
    and below: "unat (tasks_base L) + 512 \<le> 0x52000000"
  defines "a \<equiv> task_entry (length ts + 1)"
  shows "\<exists>m ev. load_found L a i s = Inr (s\<lparr>bytes := m, bios_log := bios_log s @ [ev]\<rparr>, task_entry i) \<and>
     (\<forall>j. j < e - b \<longrightarrow> (e - 1) mod 512 \<noteq> 0 \<or> b mod 512 = 0 \<or> j < e - b - 1 \<longrightarrow>
        m (task_entry i + of_nat j) = disk (loaded_from b + j)) \<and>
     (\<forall>p. unat p < unat a \<and> \<not> (unat (task_entry i) \<le> unat p \<and> unat p < unat (task_entry i) + (e - b)) \<longrightarrow>
        m p = bytes s p) \<and>
     (b mod 512 \<noteq> 0 \<longrightarrow> (e - 1) mod 512 = 0 \<longrightarrow>
        m (task_entry i + of_nat (e - b - 1)) = bytes s (a + of_nat (b mod 512 + (e - b - 1))))"
proof -
  let ?n = "length ts"
  have n: "?n \<le> 16" "i \<le> 15" using tab i by (simp_all add: task_table_def TASK_MAXNUM_def)
  have be: "task_begin L (bytes s) i = of_nat b" "task_end L (bytes s) i = of_nat e"
    "512 \<le> b" "b < e" "e \<le> b + 0x10000" "e < 2 ^ 31" "b < 2 ^ 31"
    using tab i by (auto simp: task_table_def)
  define c where "c = block_of (e - 1) - block_of b + 1"
  note mono = block_of_mono [OF be(3-5)]
  have ua: "unat a = 0x52000000 + 0x10000 * (?n + 1)"
    using unat_task_entry [of "?n + 1" 0] n by (simp add: a_def)
  have ui: "unat (task_entry i + of_nat j) = 0x52000000 + 0x10000 * i + j" if "j < 0x100000" for j
    using unat_task_entry [of i j] n that by simp
  have nb: "NBYTES2SEC (of_nat b) - 1 = of_nat (block_of b)" using be by (intro NBYTES2SEC_block)
  have e1: "(of_nat e :: u32) - 1 = of_nat (e - 1)" using be(4) by (simp add: of_nat_diff)
  have ne: "NBYTES2SEC (of_nat e - 1) - 1 = of_nat (block_of (e - 1))"
    unfolding e1 using be by (intro NBYTES2SEC_block) linarith+
  have cnt: "of_nat (block_of (e - 1)) - of_nat (block_of b) + 1 = (of_nat c :: u32)"
    using mono(1) by (simp add: c_def of_nat_diff)
  have "c \<le> 130" using mono(2) by (simp add: c_def)
  then have c: "c \<le> 130" "unat (of_nat c :: u32) = c" by (simp, intro unat_of_nat_u32) simp
  have bb: "unat (of_nat (block_of b) :: u32) = block_of b"
  proof -
    have "block_of b \<le> b div 512" by (simp add: block_of_def)
    also have "b div 512 \<le> b" by (rule div_le_dividend)
    finally show ?thesis using be(7) by (intro unat_of_nat_u32) simp
  qed
  have aa: "ucast (ucast a :: u32) = a" using ua n by (intro ucast_ucast_small) simp
  let ?ev = "Bios 11 [a, ucast (of_nat c :: u32), ucast (of_nat (block_of b) :: u32), 0, 0]"
  let ?s = "called ?ev s"
  have m1: "bytes ?s = (\<lambda>p. if unat (p - a) < 512 * c then disk (512 * block_of b + unat (p - a)) else bytes s p)"
    using card c bb by (simp add: called_mem sd_card_def unat_ucast_u64 cong: if_cong)
  have keep: "bytes ?s p = bytes s p" if "unat p < unat a" for p
  proof -
    have "unat a < 2 ^ 33" using ua n by simp
    with that have "2 ^ 63 \<le> unat (p - a)" by (rule unat_diff_above)
    then have "\<not> unat (p - a) < 512 * c" using c(1) by simp
    then show ?thesis by (simp add: m1)
  qed
  have "bytes ?s (task_at L i + of_nat k) = bytes s (task_at L i + of_nat k)" if "k < 32" for k
    using task_table_below [OF tab i(1) below that] ua by (intro keep) linarith
  from this [of 24] this [of 25] this [of 26] this [of 27]
  have b': "task_begin L (bytes ?s) i = of_nat b"
    using be(1) by (simp add: task_begin_def le32_def TASK_NAME_LEN_def add.assoc)
  have len: "of_nat e - of_nat b = (of_nat (e - b) :: u32)" using be(4) by (simp add: of_nat_diff)
  have ulen: "unat (of_nat (e - b) :: u32) = e - b" using be by (intro unat_of_nat_u32) simp
  have bm: "ucast ((of_nat b :: u32) mod SECTOR_SIZE) = (of_nat (b mod 512) :: ptr)"
  proof -
    have "unat ((of_nat b :: u32) mod SECTOR_SIZE) = b mod 512"
      using be(7) unat_of_nat_u32 [of b] by (simp add: unat_mod_distrib SECTOR_SIZE_def)
    then show ?thesis by (metis of_nat_unat)
  qed
  let ?m = "memcpy (task_entry i) (a + of_nat (b mod 512)) (of_nat (e - b)) (bytes ?s)"
  have load: "load_found L a i s = Inr (?s\<lparr>bytes := ?m\<rparr>, task_entry i)"
    using n entry_word [of i] b'
    by (simp add: load_found_def Let_def be(1,2) nb ne cnt bios_calls [OF ready] aa len bm)
  have src: "a + of_nat (b mod 512) + of_nat y = task_entry (?n + 1) + of_nat (b mod 512 + y)" for y
    by (simp add: a_def)
  have usrc: "unat (a + of_nat (b mod 512) + of_nat y) = unat a + (b mod 512 + y)" if "y < 0x10001" for y
  proof -
    have "b mod 512 + y < 0x100000" using that mod_less_divisor [of 512 b] by linarith
    then show ?thesis unfolding src using n by (subst unat_task_entry) (simp_all add: ua)
  qed
  have "set (range_at (task_entry i) (e - b)) \<inter> set (range_at (a + of_nat (b mod 512)) (e - b)) = {}"
  proof -
    have "task_entry i + of_nat x \<noteq> a + of_nat (b mod 512) + of_nat y" if "x < e - b" "y < e - b" for x y
    proof
      assume "task_entry i + of_nat x = a + of_nat (b mod 512) + of_nat y"
      then have "unat (task_entry i + of_nat x) = unat (a + of_nat (b mod 512) + of_nat y)" by simp
      then show False using ui [of x] usrc [of y] that be(5) ua i(1) by simp
    qed
    then show ?thesis unfolding set_range_at by auto
  qed
  note cp = memcpy_copies [where len = "of_nat (e - b)", unfolded ulen, OF this, of "bytes ?s"]
  have "?m (task_entry i + of_nat j) = disk (loaded_from b + j)"
    if j: "j < e - b" "(e - 1) mod 512 \<noteq> 0 \<or> b mod 512 = 0 \<or> j < e - b - 1" for j
  proof -
    have "?m (task_entry i + of_nat j) = bytes ?s (a + of_nat (b mod 512) + of_nat j)"
      using cp j(1) by blast
    moreover have "unat (a + of_nat (b mod 512) + of_nat j - a) = b mod 512 + j"
    proof -
      have "a + of_nat (b mod 512) + of_nat j - a = of_nat (b mod 512 + j)" by simp
      moreover have "b mod 512 + j < 2 ^ 64" using j(1) be(5) mod_less_divisor [of 512 b] by simp
      ultimately show ?thesis by (simp only: unat_of_nat_u64)
    qed
    moreover have "b mod 512 + j < 512 * c"
      unfolding c_def by (rule block_of_covers [OF be(3-5) j])
    ultimately show ?thesis
      using block_of_begin [OF be(3)] by (simp add: m1 add.assoc [symmetric])
  qed
  moreover have "?m p = bytes s p"
    if p: "unat p < unat a" "\<not> (unat (task_entry i) \<le> unat p \<and> unat p < unat (task_entry i) + (e - b))" for p
  proof -
    have "p \<noteq> task_entry i + of_nat x" if "x < e - b" for x
    proof -
      have "x < 0x100000" using that be(5) by simp
      then show ?thesis using p(2) ui [of x] ui [of 0] that by auto
    qed
    then have "p \<notin> set (range_at (task_entry i) (e - b))" unfolding set_range_at by auto
    then have "?m p = bytes ?s p" using cp by blast
    then show ?thesis using keep [OF p(1)] by simp
  qed
  moreover have "?m (task_entry i + of_nat (e - b - 1)) = bytes s (a + of_nat (b mod 512 + (e - b - 1)))"
    if last: "b mod 512 \<noteq> 0" "(e - 1) mod 512 = 0"
  proof -
    have j: "e - b - 1 < e - b" using be(4) by simp
    then have "?m (task_entry i + of_nat (e - b - 1)) = bytes ?s (a + of_nat (b mod 512) + of_nat (e - b - 1))"
      using cp by blast
    moreover have "b mod 512 + (e - b - 1) < 2 ^ 64"
      using be(5) mod_less_divisor [of 512 b] by simp
    then have "unat (of_nat (b mod 512 + (e - b - 1)) :: ptr) = b mod 512 + (e - b - 1)"
      by (simp only: unat_of_nat_u64)
    moreover have "b mod 512 + (e - b - 1) = 512 * c"
      unfolding c_def by (rule block_of_misses [OF be(3-5) last])
    moreover have "a + of_nat (b mod 512) + of_nat (e - b - 1) = a + of_nat (b mod 512 + (e - b - 1))"
      by simp
    ultimately show ?thesis unfolding m1 by (simp only: add_diff_cancel_left' less_irrefl if_False)
  qed
  moreover have "?s\<lparr>bytes := ?m\<rparr> = s\<lparr>bytes := ?m, bios_log := bios_log s @ [?ev]\<rparr>"
    by (simp add: called_upd)
  ultimately show ?thesis using load by (intro exI [of _ ?m] exI [of _ ?ev]) simp
qed

section \<open>Finding the task\<close>

lemma task_table_name: "task_table L ts m \<Longrightarrow> i < length ts \<Longrightarrow> c_string m (task_at L i) (fst (ts ! i))"
  by (cases "ts ! i") (force simp: task_table_def)

lemma load_loop_finds:
  assumes tab: "task_table L ts (bytes s)" and i: "i < length ts"
    and name: "c_string (bytes s) p (fst (ts ! i))" and d: "distinct (map fst ts)"
  shows "k \<le> i \<Longrightarrow> load_loop L p a (length ts - k) k s = load_found L a i s"
proof (induction "i - k" arbitrary: k)
  case 0
  obtain r where "strcmp (task_at L i) p (bytes s) = Some r" "r = 0"
    using strcmp_loop_compares [OF task_table_name [OF tab i] name] by (auto simp: strcmp_def)
  moreover have "k = i" "length ts - k = Suc (length ts - Suc i)" "\<not> TASK_MAXNUM \<le> i"
    using 0 i tab by (auto simp: task_table_def)
  ultimately show ?case by simp
next
  case (Suc x)
  then have k: "k < i" by simp
  have "fst (ts ! k) \<noteq> fst (ts ! i)"
    using d k i by (auto simp: distinct_conv_nth)
  then obtain r where "strcmp (task_at L k) p (bytes s) = Some r" "r \<noteq> 0"
    using strcmp_loop_compares [OF task_table_name [OF tab] name, of k] k i by (auto simp: strcmp_def)
  moreover have "length ts - k = Suc (length ts - Suc k)" "\<not> TASK_MAXNUM \<le> k"
    using k i tab by (auto simp: task_table_def)
  ultimately show ?case using Suc.hyps(1) [of "Suc k"] Suc.hyps(2) k by simp
qed

lemma load_task_img_aux:
  assumes ready: "bios_ready s" and card: "sd_card disk s"
    and tab: "task_table L ts (bytes s)" and i: "i < length ts" "ts ! i = (name, b, e)"
    and d: "distinct (map fst ts)" and name: "c_string (bytes s) p name"
    and below: "unat (tasks_base L) + 512 \<le> 0x52000000"
  shows "\<exists>m ev. load_task_img L p s = Inr (s\<lparr>bytes := m, bios_log := bios_log s @ [ev]\<rparr>, task_entry i) \<and>
     (\<forall>j. j < e - b \<longrightarrow> (e - 1) mod 512 \<noteq> 0 \<or> b mod 512 = 0 \<or> j < e - b - 1 \<longrightarrow>
        m (task_entry i + of_nat j) = disk (loaded_from b + j)) \<and>
     (\<forall>q. unat q < unat (task_entry (length ts + 1)) \<and>
        \<not> (unat (task_entry i) \<le> unat q \<and> unat q < unat (task_entry i) + (e - b)) \<longrightarrow> m q = bytes s q) \<and>
     (b mod 512 \<noteq> 0 \<longrightarrow> (e - 1) mod 512 = 0 \<longrightarrow> m (task_entry i + of_nat (e - b - 1)) =
        bytes s (task_entry (length ts + 1) + of_nat (b mod 512 + (e - b - 1))))"
proof -
  have n: "length ts \<le> 16" "le32 (bytes s) 0x502001f8 = of_nat (length ts)"
    using tab by (simp_all add: task_table_def TASK_MAXNUM_def)
  then have u: "unat (of_nat (length ts) :: cint) = length ts" by (intro unat_of_nat_u32) simp
  have "sint (of_nat (length ts) :: cint) = int (length ts)"
    using n(1) by (intro sint_of_nat_u32) simp
  moreover have "TASK_MEM_BASE + scast (push_bit 16 (of_nat (length ts) + 1 :: cint)) = task_entry (length ts + 1)"
    using entry_word [of "length ts + 1"] n(1) by simp
  ultimately have "load_task_img L p s = load_loop L p (task_entry (length ts + 1)) (length ts) 0 s"
    by (simp add: load_task_img_def n(2))
  also have "\<dots> = load_found L (task_entry (length ts + 1)) i s"
    using load_loop_finds [OF tab i(1) _ d, of p 0] name i(2) by simp
  finally show ?thesis using load_found_spec [OF ready card tab i below] by simp
qed

text \<open>C20. \<^verbatim>\<open>load_task_img\<close> returns the place of the task with the given name, and puts there the bytes
  of the image from the task's first byte on, except at two boundaries: a task that begins with a
  sector is loaded from one sector too early, and the last byte of a task whose last byte begins a
  sector is not read. Memory below the read buffer and outside the task's place is unchanged.\<close>

theorem load_task_img_loads:
  assumes "bios_ready s" and "sd_card disk s" and "task_table L ts (bytes s)"
    and "i < length ts" and "ts ! i = (name, b, e)" and "distinct (map fst ts)"
    and "c_string (bytes s) p name" and "unat (tasks_base L) + 512 \<le> 0x52000000"
  shows "\<exists>m ev. load_task_img L p s = Inr (s\<lparr>bytes := m, bios_log := bios_log s @ [ev]\<rparr>, task_entry i) \<and>
     (\<forall>j. j < e - b \<longrightarrow> (e - 1) mod 512 \<noteq> 0 \<or> b mod 512 = 0 \<or> j < e - b - 1 \<longrightarrow>
        m (task_entry i + of_nat j) = disk (loaded_from b + j)) \<and>
     (\<forall>q. unat q < unat (task_entry (length ts + 1)) \<and>
        \<not> (unat (task_entry i) \<le> unat q \<and> unat q < unat (task_entry i) + (e - b)) \<longrightarrow> m q = bytes s q)"
  using load_task_img_aux [OF assms] by blast

end
