(* ===== verification/Boot.thy ===== *)
theory Boot
  imports Syscall_Spec Loader
begin

text \<open>
  Start-up (\<^verbatim>\<open>init/main.c\<close>): the jump table, the task table from the disk, the control blocks and
  stacks of the tasks, the locks, the trap tables, the system calls, the screen and the first
  timer interrupt. The kernel then enables interrupts again and again in its idle loop.
\<close>

section \<open>The initialisation routines\<close>

definition init_jmptab :: "kstate \<Rightarrow> kstate" where
  "init_jmptab s = s\<lparr>jmptab := (jmptab s)
     (jmptab_index CONSOLE_PUTSTR \<mapsto> Bios_fn Port_write,
      jmptab_index CONSOLE_PUTCHAR \<mapsto> Bios_fn Port_write_ch,
      jmptab_index CONSOLE_GETCHAR \<mapsto> Bios_fn Port_read_ch,
      jmptab_index SD_READ \<mapsto> Bios_fn Sd_read,
      jmptab_index SD_WRITE \<mapsto> Bios_fn Sd_write,
      jmptab_index QEMU_LOGGING \<mapsto> Bios_fn Qemu_logging,
      jmptab_index SET_TIMER \<mapsto> Bios_fn Set_timer,
      jmptab_index READ_FDT \<mapsto> Bios_fn Read_fdt,
      jmptab_index MOVE_CURSOR \<mapsto> Kernel_fn Sys_cursor,
      jmptab_index PRINT \<mapsto> Kernel_fn Sys_printk,
      jmptab_index YIELD \<mapsto> Kernel_fn Sys_yield,
      jmptab_index MUTEX_INIT \<mapsto> Kernel_fn Sys_lock_init,
      jmptab_index MUTEX_ACQ \<mapsto> Kernel_fn Sys_lock_acq,
      jmptab_index MUTEX_RELEASE \<mapsto> Kernel_fn Sys_lock_release,
      jmptab_index WRITE \<mapsto> Kernel_fn Sys_write,
      jmptab_index REFLUSH \<mapsto> Kernel_fn Sys_reflush,
      jmptab_index SLEEP \<mapsto> Kernel_fn Sys_sleep,
      jmptab_index GET_TIMEBASE \<mapsto> Kernel_fn Sys_get_timebase,
      jmptab_index GET_TICK \<mapsto> Kernel_fn Sys_get_tick)\<rparr>"

definition init_task_info :: "layout \<Rightarrow> kstate \<Rightarrow> kstate res" where
  "init_task_info L s = bind_res (bios_sd_read (ucast (tasks_base L)) 1 1 s) (\<lambda>(s, r). Inr s)"

text \<open>The control block of task \<open>i\<close>, given its entry point.\<close>

definition init_pcb_entry :: "layout \<Rightarrow> nat \<Rightarrow> u64 \<Rightarrow> kstate \<Rightarrow> kstate" where
  "init_pcb_entry L i entry_point s =
     (let (mm1, k) = allocKernelPage 1 (mm s);
          kernel_stack = k + scast PAGE_SIZE;
          (mm2, u) = allocUserPage 16 mm1;
          user_stack = u + scast (PAGE_SIZE * 16);
          s = s\<lparr>mm := mm2\<rparr>;
          p = pcb L i;
          s = s\<lparr>pid := (pid s)(p := of_nat i + 1)\<rparr>;
          s = set_status p TASK_READY s;
          s = on_lists (init_list_head (pcb_list p)) s;
          s = on_lists (init_list_head (pcb_thread_group p)) s;
          s = s\<lparr>mach := init_pcb_stack L kernel_stack user_stack entry_point p (mach s)\<rparr>
      in on_lists (list_add_tail (pcb_list p) (ready_queue L)) s)"

text \<open>The loop runs to the first entry with an empty name; an entry behind the last of the table is
  outside it.\<close>

fun init_pcb_loop :: "layout \<Rightarrow> nat \<Rightarrow> nat \<Rightarrow> kstate \<Rightarrow> kstate res" where
  "init_pcb_loop L 0 i s = Inl OutOfBounds"
| "init_pcb_loop L (Suc k) i s =
     (if bytes s (task_at L i) = 0 then Inr s
      else bind_res (load_task_img L (task_at L i) s) (\<lambda>(s, entry_point).
           init_pcb_loop L k (Suc i) (init_pcb_entry L i entry_point s)))"

definition init_pcb :: "layout \<Rightarrow> kstate \<Rightarrow> kstate res" where
  "init_pcb L s =
     bind_res (init_pcb_loop L TASK_MAXNUM 0 s) (\<lambda>s. Inr (set_current (pid0_pcb L) s))"

definition init_syscall :: "kstate \<Rightarrow> kstate" where
  "init_syscall s =
     s\<lparr>syscall_tab := fold (\<lambda>f tab. case syscall_number f of Some n \<Rightarrow> tab[n := Some f] | None \<Rightarrow> tab)
         [Sys_sleep, Sys_yield, Sys_write, Sys_cursor, Sys_reflush, Sys_get_timebase, Sys_get_tick,
          Sys_lock_init, Sys_lock_acq, Sys_lock_release, Sys_exit, Sys_thread_create,
          Sys_thread_yield] (syscall_tab s)\<rparr>"

definition announce :: "string \<Rightarrow> kstate \<Rightarrow> kstate res" where
  "announce msg = print (bytes_of msg @ [10]) []"

text \<open>\<^verbatim>\<open>main\<close> up to its endless loop, and one round of the loop.\<close>

definition kernel_main :: "layout \<Rightarrow> kstate \<Rightarrow> kstate res" where
  "kernel_main L s =
     bind_res (init_task_info L (init_jmptab s)) (\<lambda>s.
     bind_res (init_pcb L s) (\<lambda>s.
     bind_res (announce ''> [INIT] PCB initialization succeeded.'' s) (\<lambda>s.
     bind_res (bios_read_fdt 0 s) (\<lambda>(s, t).
     bind_res (announce ''> [INIT] Lock mechanism initialization succeeded.''
                 (init_locks L (s\<lparr>time_base := t\<rparr>))) (\<lambda>s.
     bind_res (announce ''> [INIT] Interrupt processing initialization succeeded.''
                 (init_exception L s)) (\<lambda>s.
     bind_res (announce ''> [INIT] System call initialized successfully.'' (init_syscall s)) (\<lambda>s.
     bind_res (init_screen s) (\<lambda>s.
     bind_res (announce ''> [INIT] SCREEN initialization succeeded.'' s) (\<lambda>s.
     case get_ticks s of (s, t) \<Rightarrow> bios_set_timer (t + TIMER_INTERVAL) s)))))))))"

definition idle_round :: "kstate \<Rightarrow> kstate" where
  "idle_round s = s\<lparr>mach := exec enable_preempt (mach s)\<rparr>"

end
