(* ===== verification/Boot_Spec.thy ===== *)
theory Boot_Spec
  imports Boot
begin

text \<open>
  What start-up establishes: from the state the linker and the firmware leave, \<^verbatim>\<open>main\<close> reaches
  its idle loop with every task of the image on the ready queue in the order of the table, the
  invariant of the scheduler true, and the services, system calls and handlers in their tables.
\<close>

section \<open>Printing during start-up\<close>

text \<open>Printing changes the screen, the cursors, the log and, through the firmware, memory.\<close>

definition printed :: "kstate \<Rightarrow> kstate \<Rightarrow> bool" where
  "printed s s' \<longleftrightarrow> (\<exists>m es new old cx cy. s' = s\<lparr>bytes := m, bios_log := es, new_screen := new,
     old_screen := old, cursor_x := cx, cursor_y := cy\<rparr> \<and> length new = SCREEN_SIZE \<and> length old = SCREEN_SIZE)"

definition screen_ok :: "nat \<Rightarrow> kstate \<Rightarrow> bool" where
  "screen_ok b s \<longleftrightarrow> bios_ready s \<and> length (new_screen s) = SCREEN_SIZE \<and>
     length (old_screen s) = SCREEN_SIZE \<and> cursor_x s (current_running s) = 0 \<and>
     cursor_y s (current_running s) = of_nat b"

lemma printed_fields:
  assumes "printed s s'"
  shows "ls s' = ls s" "mach s' = mach s" "status s' = status s" "pid s' = pid s" "mlocks s' = mlocks s"
    "current_running s' = current_running s" "mm s' = mm s" "rdtime s' = rdtime s" "rd_pos s' = rd_pos s"
    "firmware s' = firmware s" "jmptab s' = jmptab s" "syscall_tab s' = syscall_tab s"
    "irq_table s' = irq_table s" "exc_table s' = exc_table s" "bios_ready s' = bios_ready s"
    "wakeup_time s' = wakeup_time s" "time_base s' = time_base s"
  using assms by (auto simp: printed_def current_running_def bios_ready_def)

lemma printed_trans: "printed s t \<Longrightarrow> printed t u \<Longrightarrow> printed s u"
  unfolding printed_def by (elim exE conjE) (simp, intro exI conjI; (rule refl | assumption)?)

definition plain_text :: "byte list \<Rightarrow> bool" where
  "plain_text cs \<longleftrightarrow> 0 \<notin> set cs \<and> 37 \<notin> set cs"

lemma format_plain_text:
  "plain_text cs \<Longrightarrow> length (chars b) + length cs < unat (buffer_len b) \<Longrightarrow>
   vsnprintf_loop cs va b = Inr (b\<lparr>chars := chars b @ cs\<rparr>)"
proof (induction cs arbitrary: b)
  case (Cons c cs)
  then show ?case by (subst format_plain) (auto simp: plain_text_def)
qed simp

lemma screen_write_append: "screen_write (xs @ ys) s = bind_res (screen_write xs s) (screen_write ys)"
proof (induction xs arbitrary: s)
  case (Cons x xs)
  then show ?case by (cases "screen_write_ch x s") simp_all
qed simp

lemma reflush_printed:
  assumes "bios_ready s" and "length (new_screen s) = SCREEN_SIZE" and "length (old_screen s) = SCREEN_SIZE"
  obtains s' where "screen_reflush s = Inr s'" and "printed s s'"
    and "cursor_x s' = cursor_x s" and "cursor_y s' = cursor_y s"
proof -
  from screen_reflush_exact_aux [OF assms] obtain m es where
    "screen_reflush s = Inr (s\<lparr>bytes := m, bios_log := es, old_screen := new_screen s\<rparr>)" (is "_ = Inr ?s")
    by blast
  moreover have "printed s ?s"
    unfolding printed_def using assms(2)
    by (intro exI [of _ m] exI [of _ es] exI [of _ "new_screen s"] exI [of _ "cursor_x s"]
        exI [of _ "cursor_y s"]) simp
  ultimately show thesis using that by simp
qed

text \<open>One line of text, with its line break, at the start of a line of the screen.\<close>

lemma announce_line:
  assumes ok: "screen_ok b s" and msg: "plain_text (bytes_of msg)" "10 \<notin> set (bytes_of msg)"
    "length msg < SCREEN_WIDTH" and b: "b < SCREEN_HEIGHT"
  obtains s' where "announce msg s = Inr s'" and "printed s s'" and "screen_ok (Suc b) s'"
proof -
  let ?t = "bytes_of msg" and ?p = "current_running s"
  have len: "length ?t < 80" using msg(3) by (simp add: bytes_of_def SCREEN_WIDTH_def)
  have plain: "plain_text (?t @ [10])" using msg(1) by (simp add: plain_text_def)
  then have fmt: "mini_vsnprintf 256 (?t @ [10]) [] = Inr (?t @ [10])"
    using len by (simp add: mini_vsnprintf_def format_plain_text)
  have nul: "takeWhile (\<lambda>c. c \<noteq> 0) (?t @ [10]) = ?t @ [10]"
    using plain by (intro takeWhile_eq_all_conv [THEN iffD2]) (auto simp: plain_text_def)
  have s: "length (new_screen s) = SCREEN_SIZE" "bios_ready s" "length (old_screen s) = SCREEN_SIZE"
    "cursor_x s ?p = of_nat 0" "cursor_y s ?p = of_nat b"
    using ok by (simp_all add: screen_ok_def)
  have room: "b * SCREEN_WIDTH + 0 + length ?t \<le> SCREEN_SIZE"
    using b len by (simp add: SCREEN_SIZE_def SCREEN_HEIGHT_def SCREEN_WIDTH_def)
  let ?new = "take (b * SCREEN_WIDTH) (new_screen s) @ ?t @ drop (b * SCREEN_WIDTH + length ?t) (new_screen s)"
  let ?s1 = "s\<lparr>new_screen := ?new, cursor_x := (cursor_x s)(?p := of_nat (length ?t))\<rparr>"
  let ?s2 = "?s1\<lparr>cursor_x := (cursor_x s)(?p := 0), cursor_y := (cursor_y s)(?p := of_nat b + 1)\<rparr>"
  have "screen_write ?t s = Inr ?s1"
    using screen_write_line_aux [OF s(4,5,1) room msg(2)] by simp
  moreover have "screen_write [10] ?s1 = Inr ?s2"
    using s(5) by (simp add: screen_write_ch_def Let_def)
  ultimately have w: "screen_write (?t @ [10]) s = Inr ?s2" by (simp add: screen_write_append)
  have "length ?new = SCREEN_SIZE" using room s(1) by simp
  then have 2: "bios_ready ?s2" "length (new_screen ?s2) = SCREEN_SIZE" "length (old_screen ?s2) = SCREEN_SIZE"
    using s(2,3) by (simp_all add: bios_ready_def)
  then have p2: "printed s ?s2"
    unfolding printed_def
    by (intro exI [of _ "bytes s"] exI [of _ "bios_log s"] exI [of _ ?new] exI [of _ "old_screen s"]
        exI [of _ "cursor_x ?s2"] exI [of _ "cursor_y ?s2"]) simp
  obtain s' where s': "screen_reflush ?s2 = Inr s'" "printed ?s2 s'"
    "cursor_x s' = cursor_x ?s2" "cursor_y s' = cursor_y ?s2"
    by (rule reflush_printed [OF 2])
  have "announce msg s = Inr s'"
    using s'(1)
    by (simp add: announce_def print_def printk_def vprintk_def vprint_def fmt nul output_wrapper_def w)
  moreover have pr: "printed s s'" by (rule printed_trans [OF p2 s'(2)])
  moreover have "screen_ok (Suc b) s'"
    using s'(2-4) 2(1) printed_fields [OF pr] printed_fields(15) [OF s'(2)]
    by (auto simp: screen_ok_def printed_def)
  ultimately show thesis by (rule that)
qed

lemma init_screen_printed:
  assumes ok: "screen_ok b s"
  obtains s' where "init_screen s = Inr s'" and "printed s s'" and "screen_ok 0 s'"
proof -
  have s: "length (new_screen s) = SCREEN_SIZE" "bios_ready s" "length (old_screen s) = SCREEN_SIZE"
    using ok by (simp_all add: screen_ok_def)
  have b: "bytes_of ''%c[?25l'' = [37, 99, 91, 63, 50, 53, 108]" "bytes_of ''%c[2J'' = [37, 99, 91, 50, 74]"
    by code_simp+
  have 1: "vt100_hidden_cursor s = Inr (called (Bios_str 9 [27, 91, 63, 50, 53, 108]) s)" (is "_ = Inr ?s1")
    by (simp add: vt100_hidden_cursor_def printv_def vprint_def mini_vsnprintf_def b format_plain format_char
        bios_calls [OF s(2)] del: vsnprintf_loop.simps(2))
  have 2: "vt100_clear ?s1 = Inr (called (Bios_str 9 [27, 91, 50, 74]) ?s1)" (is "_ = Inr ?s2")
    using s(2) by (simp add: vt100_clear_def printv_def vprint_def mini_vsnprintf_def b format_plain format_char
        bios_calls del: vsnprintf_loop.simps(2))
  let ?p = "current_running s"
  let ?s3 = "?s2\<lparr>new_screen := replicate SCREEN_SIZE 32, cursor_x := (cursor_x s)(?p := 0),
      cursor_y := (cursor_y s)(?p := 0)\<rparr>"
  have 3: "screen_clear ?s2 = screen_reflush ?s3"
    using screen_clear_buffer [of s] s(1) by (simp add: screen_clear_def)
  have "bios_ready ?s3" "length (new_screen ?s3) = SCREEN_SIZE" "length (old_screen ?s3) = SCREEN_SIZE"
    using s by (simp_all add: bios_ready_def)
  then obtain s' where s': "screen_reflush ?s3 = Inr s'" "printed ?s3 s'"
    "cursor_x s' = cursor_x ?s3" "cursor_y s' = cursor_y ?s3"
    by (rule reflush_printed)
  have "printed s ?s3"
    unfolding printed_def called_upd using s(3)
    by (intro exI [of _ "bytes ?s2"] exI [of _ "bios_log ?s2"] exI [of _ "replicate SCREEN_SIZE 32"]
        exI [of _ "old_screen s"] exI [of _ "cursor_x ?s3"] exI [of _ "cursor_y ?s3"]) (simp add: called_upd)
  from this s'(2) have pr: "printed s s'" by (rule printed_trans)
  moreover have "init_screen s = Inr s'" by (simp add: init_screen_def 1 2 3 s'(1))
  moreover have "screen_ok 0 s'"
    using s'(2-4) s(2) printed_fields(6,15) [OF pr] by (auto simp: screen_ok_def printed_def)
  ultimately show thesis using that by blast
qed

section \<open>The queues while the tasks are set up\<close>

definition task_rings :: "layout \<Rightarrow> nat \<Rightarrow> (ptr \<rightharpoonup> ptr list)" where
  "task_rings L k = (\<lambda>p. if p = ready_queue L then Some (map (\<lambda>i. pcb_list (pcb L i)) [0..<k])
     else if p = sleep_queue L \<or> p \<in> (\<lambda>i. pcb_thread_group (pcb L i)) ` {..<k} then Some [] else None)"

text \<open>The nodes of \<open>n\<close> tasks and the queue heads are all different.\<close>

definition boot_layout :: "layout \<Rightarrow> nat \<Rightarrow> bool" where
  "boot_layout L n \<longleftrightarrow>
     distinct (pcb_list (pid0_pcb L) # head_list L @ map (\<lambda>i. pcb_list (pcb L i)) [0..<n] @
       map (\<lambda>i. pcb_thread_group (pcb L i)) [0..<n])"

lemma boot_layout_nodes:
  assumes "boot_layout L n" and "i < n" and "j < n"
  shows "pcb_list (pcb L i) \<noteq> pcb_thread_group (pcb L j)" and "pcb_list (pcb L i) \<notin> heads L"
    and "pcb_thread_group (pcb L i) \<notin> heads L"
    and "pcb_list (pcb L i) \<noteq> pcb_list (pid0_pcb L)" and "pcb_thread_group (pcb L i) \<noteq> pcb_list (pid0_pcb L)"
    and "pcb_list (pid0_pcb L) \<notin> heads L"
proof -
  have i: "pcb_list (pcb L i) \<in> set (map (\<lambda>i. pcb_list (pcb L i)) [0..<n])"
    "pcb_thread_group (pcb L i) \<in> set (map (\<lambda>i. pcb_thread_group (pcb L i)) [0..<n])"
    "pcb_thread_group (pcb L j) \<in> set (map (\<lambda>i. pcb_thread_group (pcb L i)) [0..<n])"
    using assms(2,3) by auto
  have d: "pcb_list (pid0_pcb L) \<notin> set (head_list L)"
    "pcb_list (pid0_pcb L) \<notin> set (map (\<lambda>i. pcb_list (pcb L i)) [0..<n])"
    "pcb_list (pid0_pcb L) \<notin> set (map (\<lambda>i. pcb_thread_group (pcb L i)) [0..<n])"
    "set (head_list L) \<inter> set (map (\<lambda>i. pcb_list (pcb L i)) [0..<n]) = {}"
    "set (head_list L) \<inter> set (map (\<lambda>i. pcb_thread_group (pcb L i)) [0..<n]) = {}"
    "set (map (\<lambda>i. pcb_list (pcb L i)) [0..<n]) \<inter> set (map (\<lambda>i. pcb_thread_group (pcb L i)) [0..<n]) = {}"
    using assms(1) unfolding boot_layout_def distinct.simps distinct_append set_append by blast+
  show "pcb_list (pcb L i) \<noteq> pcb_thread_group (pcb L j)" using i d(6) by (metis disjoint_iff)
  show "pcb_list (pcb L i) \<notin> heads L" using i d(4) unfolding set_head_list [symmetric] by blast
  show "pcb_thread_group (pcb L i) \<notin> heads L" using i d(5) unfolding set_head_list [symmetric] by blast
  show "pcb_list (pcb L i) \<noteq> pcb_list (pid0_pcb L)" using i d(2) by metis
  show "pcb_thread_group (pcb L i) \<noteq> pcb_list (pid0_pcb L)" using i d(3) by metis
  show "pcb_list (pid0_pcb L) \<notin> heads L" using d(1) by (simp add: set_head_list)
qed

lemma boot_layout_inj:
  assumes "boot_layout L n" and "i < n" and "j < n" and "i \<noteq> j"
  shows "pcb_list (pcb L i) \<noteq> pcb_list (pcb L j)" and "pcb_thread_group (pcb L i) \<noteq> pcb_thread_group (pcb L j)"
proof -
  have "inj_on (\<lambda>i. pcb_list (pcb L i)) {0..<n}" "inj_on (\<lambda>i. pcb_thread_group (pcb L i)) {0..<n}"
    using assms(1) unfolding boot_layout_def distinct.simps distinct_append distinct_map by auto
  then show "pcb_list (pcb L i) \<noteq> pcb_list (pcb L j)" "pcb_thread_group (pcb L i) \<noteq> pcb_thread_group (pcb L j)"
    using assms(2-4) by (auto simp: inj_on_def)
qed

lemma nodes_task_rings:
  "nodes (task_rings L k) = {ready_queue L, sleep_queue L} \<union> (\<lambda>i. pcb_list (pcb L i)) ` {..<k} \<union>
     (\<lambda>i. pcb_thread_group (pcb L i)) ` {..<k}"
proof (rule equalityI; rule subsetI)
  fix p assume "p \<in> nodes (task_rings L k)"
  then show "p \<in> {ready_queue L, sleep_queue L} \<union> (\<lambda>i. pcb_list (pcb L i)) ` {..<k} \<union>
     (\<lambda>i. pcb_thread_group (pcb L i)) ` {..<k}"
    by (cases rule: nodesE) (auto simp: task_rings_def split: if_splits)
next
  fix p assume "p \<in> {ready_queue L, sleep_queue L} \<union> (\<lambda>i. pcb_list (pcb L i)) ` {..<k} \<union>
     (\<lambda>i. pcb_thread_group (pcb L i)) ` {..<k}"
  then show "p \<in> nodes (task_rings L k)"
  proof (elim UnE)
    assume "p \<in> (\<lambda>i. pcb_list (pcb L i)) ` {..<k}"
    then have "p \<in> set (map (\<lambda>i. pcb_list (pcb L i)) [0..<k])" by (simp add: atLeast0LessThan)
    moreover have "task_rings L k (ready_queue L) = Some (map (\<lambda>i. pcb_list (pcb L i)) [0..<k])"
      by (simp add: task_rings_def)
    ultimately show ?thesis by (rule nodes_member [rotated])
  qed (cases "p = ready_queue L"; auto simp: task_rings_def intro!: nodes_root)+
qed

lemma task_rings_step:
  assumes rep: "rep h (task_rings L k)" and d: "boot_layout L n" and k: "k < n"
  defines "p \<equiv> pcb_list (pcb L k)" and "g \<equiv> pcb_thread_group (pcb L k)"
  shows "rep (list_add_tail p (ready_queue L) (init_list_head g (init_list_head p h))) (task_rings L (Suc k))"
proof -
  let ?Q = "task_rings L k"
  have "p \<notin> heads L" "g \<notin> heads L" "p \<noteq> g"
    unfolding p_def g_def using boot_layout_nodes [OF d k k] by blast+
  moreover have "p \<noteq> pcb_list (pcb L i) \<and> p \<noteq> pcb_thread_group (pcb L i) \<and>
       g \<noteq> pcb_list (pcb L i) \<and> g \<noteq> pcb_thread_group (pcb L i)" if "i < k" for i
    unfolding p_def g_def
    using boot_layout_inj [OF d, of k i] boot_layout_nodes(1) [OF d, of k i] boot_layout_nodes(1) [OF d, of i k] k that
    by (metis less_trans less_irrefl)
  ultimately have dist: "p \<noteq> ready_queue L" "p \<noteq> sleep_queue L" "g \<noteq> ready_queue L" "g \<noteq> sleep_queue L" "p \<noteq> g"
    "\<And>i. i < k \<Longrightarrow> p \<noteq> pcb_list (pcb L i) \<and> p \<noteq> pcb_thread_group (pcb L i) \<and>
       g \<noteq> pcb_list (pcb L i) \<and> g \<noteq> pcb_thread_group (pcb L i)"
    by auto
  have p: "p \<notin> nodes ?Q" using dist by (auto simp: nodes_task_rings)
  have 1: "rep (init_list_head p h) (?Q(p \<mapsto> []))" by (rule rep_init [OF rep p])
  have "nodes (?Q(p \<mapsto> [])) \<subseteq> insert p (nodes ?Q)" by (auto simp: nodes_def split: if_splits)
  moreover have "g \<notin> insert p (nodes ?Q)" using dist by (auto simp: nodes_task_rings)
  ultimately have g: "g \<notin> nodes (?Q(p \<mapsto> []))" by blast
  have 2: "rep (init_list_head g (init_list_head p h)) (?Q(p \<mapsto> [], g \<mapsto> []))" (is "rep _ ?Q2")
    by (rule rep_init [OF 1 g])
  have q: "?Q2 (ready_queue L) = Some (map (\<lambda>i. pcb_list (pcb L i)) [0..<k])" "?Q2 p = Some []"
    using dist by (auto simp: task_rings_def)
  have "rep (list_add_tail p (ready_queue L) (init_list_head g (init_list_head p h))) (attach p (ready_queue L) ?Q2)"
    by (rule kq.add_tail_law [OF 2 q dist(1)])
  moreover have "attach p (ready_queue L) ?Q2 = task_rings L (Suc k)"
  proof
    fix x
    have notin: "p \<notin> set (map (\<lambda>i. pcb_list (pcb L i)) [0..<k])"
      unfolding set_map set_upt image_iff Bex_def atLeastLessThan_iff using dist(6) by blast
    consider (node) "x = p" | (ready) "x = ready_queue L" "x \<noteq> p" | (other) "x \<noteq> p" "x \<noteq> ready_queue L"
      by blast
    then show "attach p (ready_queue L) ?Q2 x = task_rings L (Suc k) x"
    proof cases
      case node
      have "\<forall>i < Suc k. p \<noteq> pcb_thread_group (pcb L i)"
        using dist(5,6) unfolding g_def less_Suc_eq by blast
      then have "task_rings L (Suc k) p = None" using dist(1,2) by (auto simp: task_rings_def)
      then show ?thesis using attach_node [OF dist(1)] node by simp
    next
      case ready
      then show ?thesis
        using attach_self [of ?Q2 "ready_queue L" "map (\<lambda>i. pcb_list (pcb L i)) [0..<k]" p, OF q(1) dist(1)] removeAll_notin [OF notin]
        by (simp add: task_rings_def p_def)
    next
      case other
      then show ?thesis
        by (auto simp: attach_other task_rings_def g_def less_Suc_eq)
    qed
  qed
  ultimately show ?thesis by simp
qed

section \<open>Memory while the tasks are loaded\<close>

text \<open>The task table and the names are below the tasks.\<close>

definition agree_below :: "memory \<Rightarrow> memory \<Rightarrow> bool" where
  "agree_below m m' \<longleftrightarrow> (\<forall>q. unat q < 0x52000000 \<longrightarrow> m' q = m q)"

lemma agree_below_trans: "agree_below m m' \<Longrightarrow> agree_below m' m'' \<Longrightarrow> agree_below m m''"
  by (simp add: agree_below_def)

lemma agree_below_refl [simp]: "agree_below m m"
  by (simp add: agree_below_def)

lemma task_byte_kept:
  assumes "agree_below m m'" and "unat (tasks_base L) + 512 \<le> 0x52000000" and "i < 16" and "k < 32"
  shows "m' (task_at L i + of_nat k) = m (task_at L i + of_nat k)"
proof -
  have "unat (of_nat (32 * i + k) :: ptr) = 32 * i + k"
    using assms(3,4) by (intro unat_of_nat_u64) simp
  moreover have e: "task_at L i + of_nat k = tasks_base L + of_nat (32 * i + k)"
    by (simp add: task_at_def SIZEOF_TASK_INFO_def)
  moreover have "unat (tasks_base L + of_nat (32 * i + k)) \<le> unat (tasks_base L) + unat (of_nat (32 * i + k) :: ptr)"
    by (simp only: unat_word_ariths mod_less_eq_dividend)
  ultimately have "unat (task_at L i + of_nat k) < 0x52000000"
    unfolding e using assms(2-4) by linarith
  then show ?thesis using assms(1) by (simp add: agree_below_def)
qed

lemma task_table_kept:
  assumes agree: "agree_below m m'" and below: "unat (tasks_base L) + 512 \<le> 0x52000000"
    and tab: "task_table L ts m"
  shows "task_table L ts m'"
proof -
  note keep = task_byte_kept [OF agree below]
  have "le32 m' 0x502001f8 = le32 m 0x502001f8"
    using agree by (simp add: le32_def agree_below_def)
  moreover have "task_begin L m' i = task_begin L m i" "task_end L m' i = task_end L m i" if "i < 16" for i
    using keep [OF that, of 24] keep [OF that, of 25] keep [OF that, of 26] keep [OF that, of 27]
      keep [OF that, of 28] keep [OF that, of 29] keep [OF that, of 30] keep [OF that, of 31]
    by (simp_all add: task_begin_def task_end_def le32_def TASK_NAME_LEN_def add.assoc)
  moreover have "c_string m' (task_at L i) name = c_string m (task_at L i) name"
    if "i < 16" "length name < 24" for i name
    using keep [OF that(1)] that(2) by (simp add: c_string_nth cong: conj_cong)
  moreover have "length ts \<le> 16" using tab by (simp add: task_table_def TASK_MAXNUM_def)
  ultimately show ?thesis using tab by (auto simp: task_table_def split: prod.splits)
qed

section \<open>The tasks\<close>

text \<open>Memory after the sector with the task table has been read from the disk.\<close>

definition table_read :: "layout \<Rightarrow> (nat \<Rightarrow> byte) \<Rightarrow> memory \<Rightarrow> memory" where
  "table_read L disk m = (\<lambda>p. if unat (p - tasks_base L) < 512 then disk (512 + unat (p - tasks_base L)) else m p)"

text \<open>The disk holds the tasks \<open>ts\<close>: named entries with different names, then an entry with no name.\<close>

definition disk_tasks :: "layout \<Rightarrow> (nat \<Rightarrow> byte) \<Rightarrow> (byte list \<times> nat \<times> nat) list \<Rightarrow> memory \<Rightarrow> bool" where
  "disk_tasks L disk ts m \<longleftrightarrow>
     task_table L ts (table_read L disk m) \<and> distinct (map fst ts) \<and> [] \<notin> fst ` set ts \<and>
     length ts < TASK_MAXNUM \<and> table_read L disk m (task_at L (length ts)) = 0"

text \<open>What no step of setting up the tasks changes.\<close>

definition same_tables :: "kstate \<Rightarrow> kstate \<Rightarrow> bool" where
  "same_tables s s' \<longleftrightarrow>
     mlocks s' = mlocks s \<and> jmptab s' = jmptab s \<and> firmware s' = firmware s \<and>
     syscall_tab s' = syscall_tab s \<and> irq_table s' = irq_table s \<and> exc_table s' = exc_table s \<and>
     new_screen s' = new_screen s \<and> old_screen s' = old_screen s \<and>
     cursor_x s' = cursor_x s \<and> cursor_y s' = cursor_y s \<and> rdtime s' = rdtime s \<and> rd_pos s' = rd_pos s"

lemma same_tables_trans: "same_tables s t \<Longrightarrow> same_tables t u \<Longrightarrow> same_tables s u"
  by (simp add: same_tables_def)

definition tasks_set_up :: "layout \<Rightarrow> nat \<Rightarrow> kstate \<Rightarrow> bool" where
  "tasks_set_up L k s \<longleftrightarrow>
     rep (ls s) (task_rings L k) \<and> (\<forall>p. status s p \<noteq> TASK_RUNNING) \<and>
     (\<forall>i < k. status s (pcb L i) = TASK_READY \<and> pid s (pcb L i) = of_nat i + 1)"

lemma init_pcb_entry_step:
  assumes d: "boot_layout L n" and k: "k < n" and t: "tasks_set_up L k s"
  shows "tasks_set_up L (Suc k) (init_pcb_entry L k e s)" and "same_tables s (init_pcb_entry L k e s)"
    and "bytes (init_pcb_entry L k e s) = bytes s"
proof -
  obtain mm1 k1 where a: "allocKernelPage 1 (mm s) = (mm1, k1)" by fastforce
  obtain mm2 u where b: "allocUserPage 16 mm1 = (mm2, u)" by fastforce
  let ?s = "init_pcb_entry L k e s"
  note e = init_pcb_entry_def a b Let_def
  have other: "pcb L i \<noteq> pcb L k" if "i < k" for i
    using boot_layout_inj(1) [OF d _ k, of i] that k by auto
  have "ls ?s = list_add_tail (pcb_list (pcb L k)) (ready_queue L)
      (init_list_head (pcb_thread_group (pcb L k)) (init_list_head (pcb_list (pcb L k)) (ls s)))"
    by (simp add: e)
  then have "rep (ls ?s) (task_rings L (Suc k))"
    using task_rings_step [OF _ d k] t by (simp add: tasks_set_up_def)
  moreover have "status ?s = (status s)(pcb L k := TASK_READY)" "pid ?s = (pid s)(pcb L k := of_nat k + 1)"
    by (simp_all add: e)
  ultimately show "tasks_set_up L (Suc k) ?s"
    using t other by (auto simp: tasks_set_up_def less_Suc_eq)
  show "same_tables s ?s" by (simp add: same_tables_def e)
  show "bytes ?s = bytes s" by (simp add: e)
qed

lemma init_pcb_loop_step:
  assumes d: "boot_layout L (length ts)" and below: "unat (tasks_base L) + 512 \<le> 0x52000000"
    and tab: "task_table L ts m" and names: "distinct (map fst ts)" "[] \<notin> fst ` set ts"
    and k: "k < length ts" and t: "tasks_set_up L k s"
    and s: "bios_ready s" "sd_card disk s" "agree_below m (bytes s)"
  obtains s1 where "load_task_img L (task_at L k) s = Inr (s1, task_entry k)"
    and "bytes s (task_at L k) \<noteq> 0" and "tasks_set_up L k s1" and "same_tables s s1"
    and "agree_below m (bytes s1)"
proof -
  have tab': "task_table L ts (bytes s)" by (rule task_table_kept [OF s(3) below tab])
  obtain name b e where e: "ts ! k = (name, b, e)" by (cases "ts ! k") auto
  have str: "c_string (bytes s) (task_at L k) name"
    using tab' k e by (auto simp: task_table_def)
  have "name \<in> fst ` set ts" using nth_mem [OF k] e by (force simp: image_iff)
  then have "name \<noteq> []" using names(2) by blast
  then have nz: "bytes s (task_at L k) \<noteq> 0" using str by (cases name) auto
  obtain m' ev where l: "load_task_img L (task_at L k) s =
        Inr (s\<lparr>bytes := m', bios_log := bios_log s @ [ev]\<rparr>, task_entry k)"
    and kept: "\<And>q. unat q < unat (task_entry (length ts + 1)) \<Longrightarrow>
      \<not> (unat (task_entry k) \<le> unat q \<and> unat q < unat (task_entry k) + (e - b)) \<Longrightarrow> m' q = bytes s q"
    using load_task_img_aux [OF s(1,2) tab' k e names(1) str below] by blast
  have n: "length ts \<le> 16" using tab by (simp add: task_table_def TASK_MAXNUM_def)
  have entry: "0x52000000 \<le> unat (task_entry i)" if "i \<le> 17" for i
    using unat_task_entry [OF that, of 0] by (simp add: TASK_MEM_BASE_def)
  have "agree_below (bytes s) m'"
    unfolding agree_below_def
  proof (intro allI impI)
    fix q :: ptr assume q: "unat q < 0x52000000"
    then have "unat q < unat (task_entry (length ts + 1))" "\<not> unat (task_entry k) \<le> unat q"
      using entry [of "length ts + 1"] entry [of k] n k by simp_all
    then show "m' q = bytes s q" using kept by blast
  qed
  then have "agree_below m m'" by (rule agree_below_trans [OF s(3)])
  then show thesis
    using l nz t by (intro that [of "s\<lparr>bytes := m', bios_log := bios_log s @ [ev]\<rparr>"])
      (simp_all add: tasks_set_up_def same_tables_def)
qed

lemma ready_cong: "same_tables s t \<Longrightarrow> bios_ready s \<Longrightarrow> sd_card disk s \<Longrightarrow> bios_ready t \<and> sd_card disk t"
  by (simp add: same_tables_def bios_ready_def sd_card_def)

lemma init_pcb_loop_tasks:
  assumes d: "boot_layout L (length ts)" and below: "unat (tasks_base L) + 512 \<le> 0x52000000"
    and tab: "task_table L ts m" and names: "distinct (map fst ts)" "[] \<notin> fst ` set ts"
    and n: "length ts < TASK_MAXNUM" "m (task_at L (length ts)) = 0"
  shows "k + j = length ts \<Longrightarrow> tasks_set_up L k s \<Longrightarrow> bios_ready s \<Longrightarrow> sd_card disk s \<Longrightarrow>
    agree_below m (bytes s) \<Longrightarrow>
    \<exists>s'. init_pcb_loop L (TASK_MAXNUM - k) k s = Inr s' \<and> tasks_set_up L (length ts) s' \<and> same_tables s s'"
proof (induction j arbitrary: k s)
  case 0
  have "bytes s (task_at L (length ts) + of_nat 0) = m (task_at L (length ts) + of_nat 0)"
    by (rule task_byte_kept [OF 0(5) below]) (use n in \<open>simp_all add: TASK_MAXNUM_def\<close>)
  moreover have "TASK_MAXNUM - length ts = Suc (TASK_MAXNUM - Suc (length ts))" using n(1) by simp
  ultimately show ?case using 0 n(2) by (simp add: same_tables_def)
next
  case (Suc j)
  have k: "k < length ts" using Suc.prems(1) by simp
  obtain s1 where l: "load_task_img L (task_at L k) s = Inr (s1, task_entry k)" "bytes s (task_at L k) \<noteq> 0"
    and s1: "tasks_set_up L k s1" "same_tables s s1" "agree_below m (bytes s1)"
    by (rule init_pcb_loop_step [OF d below tab names k Suc.prems(2-5)])
  let ?s = "init_pcb_entry L k (task_entry k) s1"
  note e = init_pcb_entry_step [OF d k s1(1), of "task_entry k"]
  have fr: "same_tables s ?s" by (rule same_tables_trans [OF s1(2) e(2)])
  have "agree_below m (bytes ?s)" using s1(3) e(3) by simp
  with Suc.IH [of "Suc k" ?s] Suc.prems(1) e(1) ready_cong [OF fr Suc.prems(3,4)]
  obtain s' where s': "init_pcb_loop L (TASK_MAXNUM - Suc k) (Suc k) ?s = Inr s'"
    "tasks_set_up L (length ts) s'" "same_tables ?s s'" by auto
  have "TASK_MAXNUM - k = Suc (TASK_MAXNUM - Suc k)" using k n(1) by simp
  then have "init_pcb_loop L (TASK_MAXNUM - k) k s = Inr s'" using l s'(1) by simp
  then show ?case using s'(2) same_tables_trans [OF fr s'(3)] by blast
qed

section \<open>The locks\<close>

lemma init_locks_fold:
  "\<exists>ms. fold (init_lock L) is s =
     s\<lparr>ls := fold init_list_head (map (block_queue L) is) (ls s), mlocks := ms\<rparr>"
proof (induction "is" arbitrary: s)
  case Nil
  show ?case by (intro exI [of _ "mlocks s"]) simp
next
  case (Cons i "is")
  obtain ms where "fold (init_lock L) is (init_lock L i s) =
      (init_lock L i s)\<lparr>ls := fold init_list_head (map (block_queue L) is) (ls (init_lock L i s)), mlocks := ms\<rparr>"
    using Cons.IH by blast
  then show ?case by (intro exI [of _ ms]) (simp add: init_lock_def [of L i s] on_lists_def Let_def)
qed

lemma init_locks_free:
  "length (mlocks s) = n \<Longrightarrow> k \<le> n \<Longrightarrow>
   mlocks (fold (init_lock L) [0..<k] s) =
     map (\<lambda>m. m\<lparr>lock := UNLOCKED, key := - 1\<rparr>) (take k (mlocks s)) @ drop k (mlocks s)"
proof (induction k)
  case (Suc k)
  let ?f = "\<lambda>m. m\<lparr>lock := UNLOCKED, key := - 1\<rparr>"
  have k: "k < length (mlocks s)" using Suc.prems by simp
  have "drop k (mlocks s) = mlocks s ! k # drop (Suc k) (mlocks s)" using k by (rule Cons_nth_drop_Suc [symmetric])
  moreover have "take (Suc k) (mlocks s) = take k (mlocks s) @ [mlocks s ! k]" by (rule take_Suc_conv_app_nth [OF k])
  ultimately show ?case
    using Suc k by (simp add: init_lock_def on_lists_def Let_def nth_append list_update_append)
qed simp

lemma rep_init_more:
  assumes "rep h Q" and "distinct ps" and "set ps \<inter> nodes Q = {}"
  shows "rep (fold init_list_head ps h) (\<lambda>p. if p \<in> set ps then Some [] else Q p)"
  using assms
proof (induction ps arbitrary: h Q)
  case (Cons p ps)
  have 1: "rep (init_list_head p h) (Q(p \<mapsto> []))" using rep_init [OF Cons.prems(1), of p] Cons.prems(3) by simp
  have "nodes (Q(p \<mapsto> [])) \<subseteq> insert p (nodes Q)" by (auto simp: nodes_def split: if_splits)
  then have "set ps \<inter> nodes (Q(p \<mapsto> [])) = {}" using Cons.prems(2,3) by auto
  moreover have "distinct ps" using Cons.prems(2) by simp
  ultimately have "rep (fold init_list_head ps (init_list_head p h)) (\<lambda>q. if q \<in> set ps then Some [] else (Q(p \<mapsto> [])) q)"
    using Cons.IH [OF 1] by blast
  moreover have "(\<lambda>q. if q \<in> set ps then Some [] else (Q(p \<mapsto> [])) q) =
      (\<lambda>q. if q \<in> set (p # ps) then Some [] else Q q)" by auto
  ultimately show ?case by simp
qed simp

section \<open>The queues after start-up\<close>

definition boot_rings :: "layout \<Rightarrow> nat \<Rightarrow> (ptr \<rightharpoonup> ptr list)" where
  "boot_rings L n = (\<lambda>p. if p \<in> set (map (block_queue L) [0..<LOCK_NUM]) then Some [] else task_rings L n p)"

lemma boot_layout_heads:
  assumes "boot_layout L n"
  shows "distinct (head_list L)" and "pcb_list (pid0_pcb L) \<notin> heads L"
    and "set (map (block_queue L) [0..<LOCK_NUM]) \<inter> nodes (task_rings L n) = {}"
    and "pcb_list (pid0_pcb L) \<notin> nodes (task_rings L n)"
proof -
  show d: "distinct (head_list L)" using assms unfolding boot_layout_def by simp
  show 0: "pcb_list (pid0_pcb L) \<notin> heads L"
    using assms unfolding boot_layout_def set_head_list [symmetric] by simp
  have "set (map (block_queue L) [0..<LOCK_NUM]) \<subseteq> heads L" by auto
  moreover have "(\<lambda>i. pcb_list (pcb L i)) ` {..<n} \<inter> heads L = {}"
    "(\<lambda>i. pcb_thread_group (pcb L i)) ` {..<n} \<inter> heads L = {}"
    using boot_layout_nodes(2,3) [OF assms] by blast+
  moreover have "ready_queue L \<notin> set (map (block_queue L) [0..<LOCK_NUM])"
    "sleep_queue L \<notin> set (map (block_queue L) [0..<LOCK_NUM])"
    using d unfolding head_list_def by auto
  ultimately show "set (map (block_queue L) [0..<LOCK_NUM]) \<inter> nodes (task_rings L n) = {}"
    unfolding nodes_task_rings by blast
  have "\<forall>i < n. pcb_list (pcb L i) \<noteq> pcb_list (pid0_pcb L) \<and> pcb_thread_group (pcb L i) \<noteq> pcb_list (pid0_pcb L)"
    using boot_layout_nodes(4,5) [OF assms] by blast
  moreover have "pcb_list (pid0_pcb L) \<noteq> ready_queue L" "pcb_list (pid0_pcb L) \<noteq> sleep_queue L"
    using 0 heads_simps(1,2) [of L] by metis+
  ultimately show "pcb_list (pid0_pcb L) \<notin> nodes (task_rings L n)"
    unfolding nodes_task_rings by (auto simp: image_iff)
qed

lemma boot_rings_queues:
  assumes "boot_layout L n"
  shows "queue_of (boot_rings L n) (ready_queue L) = map (\<lambda>i. pcb_list (pcb L i)) [0..<n]"
    and "h \<in> heads L \<Longrightarrow> h \<noteq> ready_queue L \<Longrightarrow> queue_of (boot_rings L n) h = []"
    and "heads L \<subseteq> dom (boot_rings L n)"
    and "pcb_list (pid0_pcb L) \<notin> nodes (boot_rings L n)"
proof -
  have d: "ready_queue L \<notin> set (map (block_queue L) [0..<LOCK_NUM])" "ready_queue L \<noteq> sleep_queue L"
    using boot_layout_heads(1) [OF assms] unfolding head_list_def by auto
  then show "queue_of (boot_rings L n) (ready_queue L) = map (\<lambda>i. pcb_list (pcb L i)) [0..<n]"
    by (simp add: boot_rings_def queue_of_def task_rings_def)
  show "queue_of (boot_rings L n) h = []" if "h \<in> heads L" "h \<noteq> ready_queue L"
    using that by (auto simp: boot_rings_def queue_of_def task_rings_def)
  show "heads L \<subseteq> dom (boot_rings L n)"
    by (auto simp: heads_def boot_rings_def task_rings_def)
  have "nodes (boot_rings L n) \<subseteq> set (map (block_queue L) [0..<LOCK_NUM]) \<union> nodes (task_rings L n)"
    by (auto simp: nodes_def boot_rings_def split: if_splits)
  moreover have "pcb_list (pid0_pcb L) \<notin> set (map (block_queue L) [0..<LOCK_NUM])"
    using boot_layout_heads(2) [OF assms] by (auto simp: heads_def atLeast0LessThan)
  ultimately show "pcb_list (pid0_pcb L) \<notin> nodes (boot_rings L n)"
    using boot_layout_heads(4) [OF assms] by blast
qed

lemma boot_sched_inv:
  assumes d: "boot_layout L n" and rep: "rep (ls s) (boot_rings L n)"
    and cur: "current_running s = pid0_pcb L" and st: "\<And>p. status s p \<noteq> TASK_RUNNING"
    and ready: "\<And>i. i < n \<Longrightarrow> status s (pcb L i) = TASK_READY"
  shows "sched_inv L (boot_rings L n) s"
proof -
  note q = boot_rings_queues [OF d]
  have "\<forall>n \<in> set (queue_of (boot_rings L n) (ready_queue L)). status s (list_entry_list n) = TASK_READY"
    unfolding q(1) using ready by auto
  moreover have "wf_layout L" by (rule wf_layout_distinct [OF boot_layout_heads(1) [OF d]])
  moreover have "\<forall>h \<in> heads L - {ready_queue L}. \<forall>n \<in> set (queue_of (boot_rings L n) h).
      status s (list_entry_list n) = TASK_BLOCKED"
    using q(2) by simp
  ultimately show ?thesis
    using rep q(3,4) boot_layout_heads(2) [OF d] st by (simp add: sched_inv_def cur parked_def)
qed

section \<open>The whole of start-up\<close>

text \<open>The state the linker and the boot block leave.\<close>

definition boot_ready :: "layout \<Rightarrow> (nat \<Rightarrow> byte) \<Rightarrow> (byte list \<times> nat \<times> nat) list \<Rightarrow> kstate \<Rightarrow> bool" where
  "boot_ready L disk ts s \<longleftrightarrow>
     boot_layout L (length ts) \<and> unat (tasks_base L) + 512 \<le> 0x52000000 \<and>
     sd_card disk s \<and> disk_tasks L disk ts (bytes s) \<and>
     rep (ls s) (task_rings L 0) \<and> (\<forall>p. status s p = TASK_BLOCKED) \<and>
     length (mlocks s) = LOCK_NUM \<and> length (syscall_tab s) = NUM_SYSCALLS \<and>
     length (exc_table s) = 16 \<and> length (irq_table s) = 12 \<and>
     length (new_screen s) = SCREEN_SIZE \<and> length (old_screen s) = SCREEN_SIZE \<and>
     cursor_x s (pid0_pcb L) = 0 \<and> cursor_y s (pid0_pcb L) = 0"

lemma init_jmptab_ready: "bios_ready (init_jmptab s)"
  by (simp add: bios_ready_def init_jmptab_def upt_rec numeral_eq_Suc)

text \<open>Up to the first line on the screen: the tasks are loaded and queued, and \<^verbatim>\<open>pid0\<close> is current.\<close>

lemma boot_tasks:
  assumes "boot_ready L disk ts s"
  obtains s' where "bind_res (init_task_info L (init_jmptab s)) (init_pcb L) = Inr s'"
    and "tasks_set_up L (length ts) s'" and "current_running s' = pid0_pcb L" and "screen_ok 0 s'"
    and "same_tables (init_jmptab s) s'"
proof -
  note b = assms [unfolded boot_ready_def]
  let ?s1 = "init_jmptab s" and ?m = "table_read L disk (bytes s)"
  have 1: "bios_ready ?s1" by (rule init_jmptab_ready)
  have f: "ls ?s1 = ls s" "status ?s1 = status s" "firmware ?s1 = firmware s" "bytes ?s1 = bytes s"
    by (simp_all add: init_jmptab_def)
  have base: "(ucast (ucast (tasks_base L) :: u32) :: u64) = tasks_base L"
  proof (rule word_unat_eq_iff [THEN iffD2])
    have "unat (tasks_base L) < 2 ^ 32" using b by simp
    then show "unat (ucast (ucast (tasks_base L) :: u32) :: u64) = unat (tasks_base L)"
      by (simp add: unsigned_ucast_eq unsigned_take_bit_eq take_bit_nat_eq_self)
  qed
  let ?e = "Bios 11 [tasks_base L, 1, 1, 0, 0]"
  have "init_task_info L ?s1 = Inr (called ?e ?s1)"
    unfolding init_task_info_def bios_calls(5) [OF 1] using base by simp
  moreover have m: "bytes (called ?e ?s1) = ?m"
    using b by (auto simp: called_mem f sd_card_def table_read_def fun_eq_iff)
  have t: "tasks_set_up L 0 (called ?e ?s1)" using b by (simp add: tasks_set_up_def f)
  have d: "boot_layout L (length ts)" "unat (tasks_base L) + 512 \<le> 0x52000000" "task_table L ts ?m"
    "distinct (map fst ts)" "[] \<notin> fst ` set ts" "length ts < TASK_MAXNUM" "?m (task_at L (length ts)) = 0"
    using b by (simp_all add: disk_tasks_def)
  have "sd_card disk (called ?e ?s1)" using b by (simp add: sd_card_def f)
  with init_pcb_loop_tasks [OF d, of 0 "length ts" "called ?e ?s1" disk] t 1
  obtain s2 where s2: "init_pcb_loop L TASK_MAXNUM 0 (called ?e ?s1) = Inr s2"
    "tasks_set_up L (length ts) s2" "same_tables (called ?e ?s1) s2" by (auto simp: m)
  have "same_tables ?s1 (set_current (pid0_pcb L) s2)"
    using s2(3) by (simp add: same_tables_def)
  moreover from this have "screen_ok 0 (set_current (pid0_pcb L) s2)"
    using 1 b by (simp add: same_tables_def screen_ok_def bios_ready_def init_jmptab_def)
  ultimately show thesis
    using s2 by (intro that [of "set_current (pid0_pcb L) s2"])
      (simp_all add: init_pcb_def tasks_set_up_def)
qed

text \<open>The jump table, the lock table, the trap tables and the system calls, between the
  announcements. What each entry of the jump table is to hold: the firmware's services and the
  kernel's; \<open>NUM_ENTRIES\<close> is not an entry.\<close>

primrec jmptab_entry :: "jmptab_idx \<Rightarrow> kfun option" where
  "jmptab_entry CONSOLE_PUTSTR = Some (Bios_fn Port_write)"
| "jmptab_entry CONSOLE_PUTCHAR = Some (Bios_fn Port_write_ch)"
| "jmptab_entry CONSOLE_GETCHAR = Some (Bios_fn Port_read_ch)"
| "jmptab_entry SD_READ = Some (Bios_fn Sd_read)"
| "jmptab_entry SD_WRITE = Some (Bios_fn Sd_write)"
| "jmptab_entry QEMU_LOGGING = Some (Bios_fn Qemu_logging)"
| "jmptab_entry SET_TIMER = Some (Bios_fn Set_timer)"
| "jmptab_entry READ_FDT = Some (Bios_fn Read_fdt)"
| "jmptab_entry MOVE_CURSOR = Some (Kernel_fn Sys_cursor)"
| "jmptab_entry PRINT = Some (Kernel_fn Sys_printk)"
| "jmptab_entry YIELD = Some (Kernel_fn Sys_yield)"
| "jmptab_entry MUTEX_INIT = Some (Kernel_fn Sys_lock_init)"
| "jmptab_entry MUTEX_ACQ = Some (Kernel_fn Sys_lock_acq)"
| "jmptab_entry MUTEX_RELEASE = Some (Kernel_fn Sys_lock_release)"
| "jmptab_entry NUM_ENTRIES = None"
| "jmptab_entry WRITE = Some (Kernel_fn Sys_write)"
| "jmptab_entry REFLUSH = Some (Kernel_fn Sys_reflush)"
| "jmptab_entry SLEEP = Some (Kernel_fn Sys_sleep)"
| "jmptab_entry GET_TIMEBASE = Some (Kernel_fn Sys_get_timebase)"
| "jmptab_entry GET_TICK = Some (Kernel_fn Sys_get_tick)"

definition jmptab_set_up :: "kstate \<Rightarrow> bool" where
  "jmptab_set_up s \<longleftrightarrow> (\<forall>e. e \<noteq> NUM_ENTRIES \<longrightarrow> jmptab s (jmptab_index e) = jmptab_entry e)"

lemma init_jmptab_set_up: "jmptab_set_up (init_jmptab s)"
  unfolding jmptab_set_up_def
proof (intro allI impI)
  fix e assume "e \<noteq> NUM_ENTRIES"
  then show "jmptab (init_jmptab s) (jmptab_index e) = jmptab_entry e"
    by (cases e) (simp_all add: init_jmptab_def)
qed

text \<open>Every cause that \<^verbatim>\<open>irq.h\<close> names is dispatched: system calls and timer interrupts to their
  handlers, every other exception and interrupt to \<^verbatim>\<open>handle_other\<close>.\<close>

definition traps_set_up :: "kstate \<Rightarrow> bool" where
  "traps_set_up s \<longleftrightarrow>
     (\<forall>e. e \<noteq> EXCC_COUNT \<longrightarrow> find_handler (of_nat (exc_number e)) s =
        Inr (if e = EXCC_SYSCALL then Handle_syscall else Handle_other)) \<and>
     (\<forall>q. q \<noteq> IRQC_COUNT \<longrightarrow> find_handler (SCAUSE_IRQ_FLAG OR of_nat (irq_number q)) s =
        Inr (if q = IRQC_S_TIMER then Handle_irq_timer else Handle_other))"

definition tables_set_up :: "layout \<Rightarrow> kstate \<Rightarrow> bool" where
  "tables_set_up L s \<longleftrightarrow>
     (\<forall>i < LOCK_NUM. mlocks s ! i = \<lparr>lock = UNLOCKED, key = - 1\<rparr>) \<and>
     (\<forall>f n. syscall_number f = Some n \<longrightarrow> syscall_tab s ! n = Some f) \<and>
     jmptab_set_up s \<and> traps_set_up s \<and> csrs (mach s) STVEC = exception_handler_entry_at L"

lemma setup_exception_keeps [simp]:
  "gpr (exec (setup_exception h e r) m) TP = gpr m TP"
  "csrs (exec (setup_exception h e r) m) STVEC = h"
  by (simp_all add: setup_exception_def enable_interrupt_def rd_def wr_def)

lemma init_syscall_tab:
  assumes "length (syscall_tab s) = NUM_SYSCALLS" and "syscall_number f = Some n"
  shows "syscall_tab (init_syscall s) ! n = Some f"
  using assms by (cases f) (auto simp: init_syscall_def NUM_SYSCALLS_def nth_list_update)

lemma init_exception_handlers:
  assumes "length (exc_table s) = 16" and "length (irq_table s) = 12"
  shows "traps_set_up (init_exception L s)"
  unfolding traps_set_up_def
proof (intro conjI allI impI)
  show "find_handler (of_nat (exc_number e)) (init_exception L s) =
      Inr (if e = EXCC_SYSCALL then Handle_syscall else Handle_other)" if "e \<noteq> EXCC_COUNT" for e
    using assms that
    by (cases e) (simp_all add: find_handler_def init_exception_def table_entry_def SCAUSE_IRQ_FLAG_def nth_list_update)
  show "find_handler (SCAUSE_IRQ_FLAG OR of_nat (irq_number q)) (init_exception L s) =
      Inr (if q = IRQC_S_TIMER then Handle_irq_timer else Handle_other)" if "q \<noteq> IRQC_COUNT" for q
    using assms that
    by (cases q) (simp_all add: find_handler_def init_exception_def table_entry_def SCAUSE_IRQ_FLAG_def nth_list_update)
qed

lemma init_locks_set_up:
  assumes d: "boot_layout L n" and t: "tasks_set_up L n s" and len: "length (mlocks s) = LOCK_NUM"
  shows "rep (ls (init_locks L s)) (boot_rings L n)"
    and "i < LOCK_NUM \<Longrightarrow> mlocks (init_locks L s) ! i = \<lparr>lock = UNLOCKED, key = - 1\<rparr>"
    and "\<exists>l ms. init_locks L s = s\<lparr>ls := l, mlocks := ms\<rparr>"
proof -
  obtain ms where ms: "init_locks L s =
      s\<lparr>ls := fold init_list_head (map (block_queue L) [0..<LOCK_NUM]) (ls s), mlocks := ms\<rparr>"
    unfolding init_locks_def using init_locks_fold by blast
  then show "\<exists>l ms. init_locks L s = s\<lparr>ls := l, mlocks := ms\<rparr>" by blast
  have "distinct (map (block_queue L) [0..<LOCK_NUM])"
    using boot_layout_heads(1) [OF d] unfolding head_list_def distinct_append by blast
  moreover have "rep (ls s) (task_rings L n)" using t by (simp add: tasks_set_up_def)
  ultimately show "rep (ls (init_locks L s)) (boot_rings L n)"
    using rep_init_more [OF _ _ boot_layout_heads(3) [OF d]] unfolding boot_rings_def ms by simp
  show "mlocks (init_locks L s) ! i = \<lparr>lock = UNLOCKED, key = - 1\<rparr>" if "i < LOCK_NUM"
    using init_locks_free [OF len order_refl, of L] that len by (simp add: init_locks_def)
qed

lemma boot_after_tasks:
  assumes d: "boot_layout L n" and t: "tasks_set_up L n s" and ok: "screen_ok 0 s"
    and cur: "current_running s = pid0_pcb L"
    and len: "length (mlocks s) = LOCK_NUM" "length (syscall_tab s) = NUM_SYSCALLS"
      "length (exc_table s) = 16" "length (irq_table s) = 12"
    and jmp: "jmptab_set_up s"
  obtains s1 s2 s3 s4 t0 where
      "announce ''> [INIT] PCB initialization succeeded.'' s = Inr s1"
    and "bios_read_fdt 0 s1 = Inr (s2, t0)"
    and "announce ''> [INIT] Lock mechanism initialization succeeded.''
           (init_locks L (s2\<lparr>time_base := t0\<rparr>)) = Inr s3"
    and "announce ''> [INIT] Interrupt processing initialization succeeded.'' (init_exception L s3) = Inr s4"
    and "screen_ok (Suc (Suc (Suc 0))) (init_syscall s4)" and "rep (ls (init_syscall s4)) (boot_rings L n)"
    and "status (init_syscall s4) = status s" and "pid (init_syscall s4) = pid s"
    and "tables_set_up L (init_syscall s4)" and "current_running (init_syscall s4) = pid0_pcb L"
    and "rdtime (init_syscall s4) = rdtime s" and "rd_pos (init_syscall s4) = rd_pos s"
proof -
  obtain s1 where s1: "announce ''> [INIT] PCB initialization succeeded.'' s = Inr s1" "printed s s1" "screen_ok (Suc 0) s1"
    by (rule announce_line [OF ok]) (auto simp: plain_text_def bytes_of_def SCREEN_WIDTH_def SCREEN_HEIGHT_def)
  have 1: "bios_ready s1" using s1(3) by (simp add: screen_ok_def)
  let ?e = "Bios 12 [0, 0, 0, 0, 0]"
  let ?t = "snd (bios_event ?e s1)" and ?s2 = "called ?e s1"
  have fdt: "bios_read_fdt 0 s1 = Inr (?s2, ?t)"
    unfolding bios_calls(6) [OF 1] by (simp add: called_def)
  let ?s2' = "?s2\<lparr>time_base := ?t\<rparr>"
  note p1 = printed_fields [OF s1(2)]
  have t2: "tasks_set_up L n ?s2'" using t p1 by (simp add: tasks_set_up_def)
  have "length (mlocks ?s2') = LOCK_NUM" using len p1 by simp
  note lk = init_locks_set_up [OF d t2 this]
  obtain l ms where il: "init_locks L ?s2' = ?s2'\<lparr>ls := l, mlocks := ms\<rparr>" using lk(3) by blast
  have "screen_ok (Suc 0) (init_locks L ?s2')"
    using s1(3) unfolding il by (simp add: screen_ok_def bios_ready_def current_running_def called_upd)
  then obtain s3 where s3: "announce ''> [INIT] Lock mechanism initialization succeeded.'' (init_locks L ?s2') = Inr s3"
    "printed (init_locks L ?s2') s3" "screen_ok (Suc (Suc 0)) s3"
    by (rule announce_line) (auto simp: plain_text_def bytes_of_def SCREEN_WIDTH_def SCREEN_HEIGHT_def)
  have c3: "current_running (init_exception L s3) = current_running s3"
    by (simp add: init_exception_def current_running_def)
  have "screen_ok (Suc (Suc 0)) (init_exception L s3)"
    using s3(3) c3 by (simp add: screen_ok_def bios_ready_def init_exception_def)
  then obtain s4 where s4: "announce ''> [INIT] Interrupt processing initialization succeeded.'' (init_exception L s3) = Inr s4"
    "printed (init_exception L s3) s4" "screen_ok (Suc (Suc (Suc 0))) s4"
    by (rule announce_line) (auto simp: plain_text_def bytes_of_def SCREEN_WIDTH_def SCREEN_HEIGHT_def)
  note p3 = printed_fields [OF s3(2)] and p4 = printed_fields [OF s4(2)]
  let ?s = "init_syscall s4"
  have y: "ls ?s = ls s4" "status ?s = status s4" "pid ?s = pid s4" "mlocks ?s = mlocks s4" "mach ?s = mach s4"
    "exc_table ?s = exc_table s4" "irq_table ?s = irq_table s4" "jmptab ?s = jmptab s4"
    "new_screen ?s = new_screen s4" "old_screen ?s = old_screen s4" "cursor_x ?s = cursor_x s4" "cursor_y ?s = cursor_y s4"
    "rdtime ?s = rdtime s4" "rd_pos ?s = rd_pos s4"
    by (simp_all add: init_syscall_def)
  have x: "ls (init_exception L s3) = ls s3" "status (init_exception L s3) = status s3" "pid (init_exception L s3) = pid s3"
    "mlocks (init_exception L s3) = mlocks s3" "syscall_tab (init_exception L s3) = syscall_tab s3"
    "csrs (mach (init_exception L s3)) STVEC = exception_handler_entry_at L"
    "rdtime (init_exception L s3) = rdtime s3" "rd_pos (init_exception L s3) = rd_pos s3"
    "jmptab (init_exception L s3) = jmptab s3"
    by (simp_all add: init_exception_def)
  have c: "current_running ?s = current_running s4" using y(5) by (simp add: current_running_def)
  have st: "status ?s = status s" "pid ?s = pid s"
    using x(2,3) p1(3,4) p3(3,4) p4(3,4) y(2,3) by (simp_all add: il)
  have rd: "rdtime ?s = rdtime s" "rd_pos ?s = rd_pos s"
    using x(7,8) p1(8,9) p3(8,9) p4(8,9) y(13,14) by (simp_all add: il)
  have "jmptab ?s = jmptab s" using x(9) p1(11) p3(11) p4(11) y(8) by (simp add: il)
  then have jm: "jmptab_set_up ?s" using jmp by (simp add: jmptab_set_up_def)
  have "rep (ls ?s) (boot_rings L n)" using lk(1) p3(1) p4(1) x(1) y(1) by simp
  moreover have "screen_ok (Suc (Suc (Suc 0))) ?s" using s4(3) y c by (simp add: screen_ok_def bios_ready_def)
  moreover have "current_running ?s = pid0_pcb L"
    using c c3 p1(6) p3(6) p4(6) cur by (simp add: il current_running_def)
  moreover have "tables_set_up L ?s"
  proof -
    have "find_handler c ?s = find_handler c (init_exception L s3)" for c
      using y(6,7) p4(13,14) by (simp add: find_handler_def)
    then have "traps_set_up ?s = traps_set_up (init_exception L s3)" by (simp add: traps_set_up_def)
    moreover have "syscall_tab s4 = syscall_tab s" using x(5) p1(12) p3(12) p4(12) by (simp add: il)
    moreover have "exc_table s3 = exc_table s" "irq_table s3 = irq_table s"
      using p1(13,14) p3(13,14) by (simp_all add: il)
    moreover have "mlocks ?s = mlocks (init_locks L ?s2')" using y(4) p4(5) p3(5) x(4) by simp
    moreover have "csrs (mach ?s) STVEC = exception_handler_entry_at L" using y(5) p4(2) x(6) by simp
    ultimately show ?thesis
      using init_exception_handlers [of s3 L] init_syscall_tab [of s4] lk(2) len jm
      by (simp add: tables_set_up_def)
  qed
  ultimately show thesis using s1(1) fdt s3(1) s4(1) st rd by (intro that)
qed

text \<open>The screen, and the announcements around it.\<close>

lemma boot_screen:
  assumes "screen_ok (Suc (Suc (Suc 0))) s"
  obtains s5 s6 s7 where "announce ''> [INIT] System call initialized successfully.'' s = Inr s5"
    and "init_screen s5 = Inr s6" and "announce ''> [INIT] SCREEN initialization succeeded.'' s6 = Inr s7"
    and "printed s s7" and "bios_ready s7"
proof -
  obtain s5 where s5: "announce ''> [INIT] System call initialized successfully.'' s = Inr s5"
    "printed s s5" "screen_ok (Suc (Suc (Suc (Suc 0)))) s5"
    by (rule announce_line [OF assms]) (auto simp: plain_text_def bytes_of_def SCREEN_WIDTH_def SCREEN_HEIGHT_def)
  obtain s6 where s6: "init_screen s5 = Inr s6" "printed s5 s6" "screen_ok 0 s6"
    by (rule init_screen_printed [OF s5(3)])
  obtain s7 where s7: "announce ''> [INIT] SCREEN initialization succeeded.'' s6 = Inr s7"
    "printed s6 s7" "screen_ok (Suc 0) s7"
    by (rule announce_line [OF s6(3)]) (auto simp: plain_text_def bytes_of_def SCREEN_WIDTH_def SCREEN_HEIGHT_def)
  have "bios_ready s7" using s7(3) unfolding screen_ok_def by (rule conjunct1)
  then show thesis
    using printed_trans [OF printed_trans [OF s5(2) s6(2)] s7(2)] s5(1) s6(1) s7(1) by (intro that)
qed

lemma tables_set_up_cong:
  assumes "mlocks s' = mlocks s" and "syscall_tab s' = syscall_tab s" and "jmptab s' = jmptab s"
    and "exc_table s' = exc_table s" and "irq_table s' = irq_table s" and "mach s' = mach s"
  shows "tables_set_up L s' = tables_set_up L s"
proof -
  have "find_handler c s' = find_handler c s" for c using assms by (simp add: find_handler_def)
  then show ?thesis using assms by (simp add: tables_set_up_def traps_set_up_def jmptab_set_up_def)
qed

text \<open>C19. Start-up: with the tasks \<open>ts\<close> in the image, \<^verbatim>\<open>main\<close> reaches its idle loop; every task of the table is
  ready, numbered from 1 and queued in the order of the table, no task sleeps or waits, the locks
  are free, \<^verbatim>\<open>pid0\<close> is current, every system call and every entry of the jump table is in its place,
  every exception and interrupt that \<^verbatim>\<open>irq.h\<close> names has its handler, traps go to the kernel's entry,
  and the last call of the firmware sets the first timer one interval after the time read then.\<close>

theorem boot_establishes:
  assumes boot: "boot_ready L disk ts s"
  shows "\<exists>s' Q. kernel_main L s = Inr s' \<and> sched_inv L Q s' \<and>
     abs_sched L Q s' = \<lparr>cur = pid0_pcb L, stat = status s', ready = map (pcb L) [0..<length ts],
       sleepers = [], waiters = (\<lambda>i. [])\<rparr> \<and>
     (\<forall>i < length ts. status s' (pcb L i) = TASK_READY \<and> pid s' (pcb L i) = of_nat i + 1) \<and>
     tables_set_up L s' \<and> bios_log s' \<noteq> [] \<and>
     last (bios_log s') = Bios 0 [rdtime s (rd_pos s) + 150000, 0, 0, 0, 0] \<and>
     rdtime s' = rdtime s \<and> rd_pos s' = Suc (rd_pos s)"
proof -
  let ?n = "length ts"
  obtain s0 where s0: "bind_res (init_task_info L (init_jmptab s)) (init_pcb L) = Inr s0"
    "tasks_set_up L ?n s0" "current_running s0 = pid0_pcb L" "screen_ok 0 s0" "same_tables (init_jmptab s) s0"
    by (rule boot_tasks [OF boot])
  have d: "boot_layout L ?n" and len: "length (mlocks s0) = LOCK_NUM" "length (syscall_tab s0) = NUM_SYSCALLS"
    "length (exc_table s0) = 16" "length (irq_table s0) = 12"
    using boot s0(5) by (simp_all add: boot_ready_def same_tables_def init_jmptab_def)
  have jm: "jmptab_set_up s0" "rdtime s0 = rdtime s" "rd_pos s0 = rd_pos s"
    using init_jmptab_set_up [of s] s0(5) by (simp_all add: same_tables_def jmptab_set_up_def init_jmptab_def)
  obtain s1 s2 s3 s4 t0 where r: "announce ''> [INIT] PCB initialization succeeded.'' s0 = Inr s1"
    "bios_read_fdt 0 s1 = Inr (s2, t0)"
    "announce ''> [INIT] Lock mechanism initialization succeeded.'' (init_locks L (s2\<lparr>time_base := t0\<rparr>)) = Inr s3"
    "announce ''> [INIT] Interrupt processing initialization succeeded.'' (init_exception L s3) = Inr s4"
    and s4: "screen_ok (Suc (Suc (Suc 0))) (init_syscall s4)" "rep (ls (init_syscall s4)) (boot_rings L ?n)"
    "status (init_syscall s4) = status s0" "pid (init_syscall s4) = pid s0"
    "tables_set_up L (init_syscall s4)" "current_running (init_syscall s4) = pid0_pcb L"
    "rdtime (init_syscall s4) = rdtime s0" "rd_pos (init_syscall s4) = rd_pos s0"
    by (rule boot_after_tasks [OF d s0(2,4,3) len jm(1)])
  obtain s5 s6 s7 where s7: "announce ''> [INIT] System call initialized successfully.'' (init_syscall s4) = Inr s5"
    "init_screen s5 = Inr s6" "announce ''> [INIT] SCREEN initialization succeeded.'' s6 = Inr s7"
    "printed (init_syscall s4) s7" "bios_ready s7"
    by (rule boot_screen [OF s4(1)])
  note p = printed_fields [OF s7(4)]
  let ?t = "rdtime s7 (rd_pos s7)" let ?s8 = "s7\<lparr>time_elapsed := ?t, rd_pos := Suc (rd_pos s7)\<rparr>"
  let ?e = "Bios 0 [?t + TIMER_INTERVAL, 0, 0, 0, 0]" let ?s = "called ?e ?s8"
  have "bios_ready ?s8" using s7(5) by (simp add: bios_ready_def)
  then have "kernel_main L s = Inr ?s"
    using s0(1) r s7(1-3)
    by (cases "init_task_info L (init_jmptab s)") (simp_all add: kernel_main_def get_ticks_def Let_def bios_calls)
  moreover have f: "ls ?s = ls s7" "status ?s = status s0" "pid ?s = pid s0" "mlocks ?s = mlocks s7"
    "syscall_tab ?s = syscall_tab s7" "exc_table ?s = exc_table s7" "irq_table ?s = irq_table s7"
    "mach ?s = mach s7" "current_running ?s = pid0_pcb L" "bios_log ?s = bios_log s7 @ [?e]"
    using p s4 by (simp_all add: current_running_def called_upd)
  moreover have tasks: "\<forall>i < ?n. status ?s (pcb L i) = TASK_READY \<and> pid ?s (pcb L i) = of_nat i + 1"
    using s0(2) f by (simp add: tasks_set_up_def)
  moreover have inv: "sched_inv L (boot_rings L ?n) ?s"
    by (rule boot_sched_inv [OF d]) (use f p s4(2) s0(2) tasks in \<open>simp_all add: tasks_set_up_def\<close>)
  moreover have "abs_sched L (boot_rings L ?n) ?s = \<lparr>cur = pid0_pcb L, stat = status ?s,
      ready = map (pcb L) [0..<?n], sleepers = [], waiters = (\<lambda>i. [])\<rparr>"
    using boot_rings_queues [OF d] sched_invD(1) [OF inv] f(9)
    by (auto simp: abs_sched_def wf_layout_def comp_def)
  moreover have "tables_set_up L ?s"
    using s4(5) tables_set_up_cong [of ?s "init_syscall s4" L] p by (simp add: called_upd)
  moreover have rd: "rdtime s7 = rdtime s" "rd_pos s7 = rd_pos s" using p(8,9) s4(7,8) jm(2,3) by simp_all
  moreover have "last (bios_log ?s) = Bios 0 [rdtime s (rd_pos s) + 150000, 0, 0, 0, 0]"
    unfolding f(10) by (simp add: TIMER_INTERVAL_def rd)
  moreover have "rdtime ?s = rdtime s" "rd_pos ?s = Suc (rd_pos s)" using rd by (simp_all add: called_upd)
  ultimately show ?thesis by (intro exI [of _ ?s] exI [of _ "boot_rings L ?n"]) simp
qed

end
