(* ===== verification/Boot_Demo.thy ===== *)
theory Boot_Demo
  imports Boot_Spec
begin

text \<open>
  A disk with one task of four bytes, and the state before start-up that goes with it: the
  theorems on loading and on start-up are applied here.
\<close>

definition demo_tasks :: "(byte list \<times> nat \<times> nat) list" where
  "demo_tasks = [([97], 1030, 1034)]"

definition demo_disk :: "nat \<Rightarrow> byte" where
  "demo_disk j =
     (if j = 512 then 97 else if j = 536 then 6 else if j = 537 then 4 else if j = 540 then 10
      else if j = 541 then 4 else if 1030 \<le> j \<and> j < 1034 then of_nat (j - 1029) else 0)"

definition demo_memory :: memory where
  "demo_memory = (\<lambda>p. if p = 0x502001f8 then 1 else 0)"

definition demo_card :: "nat \<Rightarrow> bios_event \<Rightarrow> memory \<Rightarrow> memory \<times> u64" where
  "demo_card k e m = (case e of
     Bios n args \<Rightarrow> (if n = 11 then (\<lambda>p. if unat (p - args ! 0) < 512 * unat (args ! 1)
                                    then demo_disk (512 * unat (args ! 2) + unat (p - args ! 0)) else m p)
                   else m, 0)
   | Bios_str n str \<Rightarrow> (m, 0))"

definition demo_boot :: kstate where
  "demo_boot = demo\<lparr>bytes := demo_memory, firmware := demo_card, status := (\<lambda>p. TASK_BLOCKED),
     ls := fold init_list_head [ready_queue demo_layout, sleep_queue demo_layout]
             \<lparr>nxt = (\<lambda>p. 0), prv = (\<lambda>p. 0)\<rparr>\<rparr>"

lemma demo_boot_simps [simp]:
  "bytes demo_boot = demo_memory" "firmware demo_boot = demo_card" "status demo_boot = (\<lambda>p. TASK_BLOCKED)"
  "mlocks demo_boot = mlocks demo" "length (syscall_tab demo_boot) = 96" "length (exc_table demo_boot) = 16"
  "length (irq_table demo_boot) = 12" "length (new_screen demo_boot) = 4000"
  "length (old_screen demo_boot) = 4000" "cursor_x demo_boot = (\<lambda>p. 0)" "cursor_y demo_boot = (\<lambda>p. 0)"
  by (simp_all add: demo_boot_def demo_def)

lemma demo_boot_layout: "boot_layout demo_layout 1"
  by code_simp

lemma demo_table: "table_read demo_layout demo_disk demo_memory (tasks_base demo_layout + of_nat k) = demo_disk (512 + k)"
  if "k < 512"
  using that by (simp add: table_read_def unat_of_nat_u64)

lemma demo_le32:
  assumes "k < 509"
  shows "le32 (table_read demo_layout demo_disk demo_memory) (tasks_base demo_layout + of_nat k) =
     ucast (demo_disk (512 + k)) + 2 ^ 8 * ucast (demo_disk (513 + k)) +
     2 ^ 16 * ucast (demo_disk (514 + k)) + 2 ^ 24 * ucast (demo_disk (515 + k))"
  using demo_table [of k] demo_table [of "k + 1"] demo_table [of "k + 2"] demo_table [of "k + 3"] assms
  by (simp add: le32_def add.assoc add.commute [of _ "word_of_nat k"] add.left_commute [of _ "word_of_nat k"])

lemma demo_disk_tasks: "disk_tasks demo_layout demo_disk demo_tasks demo_memory"
proof -
  let ?m = "table_read demo_layout demo_disk demo_memory"
  have "le32 ?m 0x502001f8 = of_nat 1"
    by (simp add: le32_def table_read_def demo_memory_def demo_layout_def)
  moreover have "c_string ?m (task_at demo_layout 0) [97]"
    using demo_table [of 0] demo_table [of 1] by (simp add: task_at_def SIZEOF_TASK_INFO_def demo_disk_def)
  moreover have "task_begin demo_layout ?m 0 = of_nat 1030" "task_end demo_layout ?m 0 = of_nat 1034"
    using demo_le32 [of 24] demo_le32 [of 28]
    by (simp_all add: task_begin_def task_end_def task_at_def SIZEOF_TASK_INFO_def TASK_NAME_LEN_def add.assoc demo_disk_def)
  moreover have "?m (task_at demo_layout 1) = 0"
    using demo_table [of 32] by (simp add: task_at_def SIZEOF_TASK_INFO_def demo_disk_def)
  ultimately show ?thesis
    by (simp add: disk_tasks_def task_table_def demo_tasks_def TASK_MAXNUM_def)
qed

lemma demo_sd_card: "firmware s = demo_card \<Longrightarrow> sd_card demo_disk s"
  by (auto simp: sd_card_def demo_card_def fun_eq_iff)

lemma demo_boot_ready: "boot_ready demo_layout demo_disk demo_tasks demo_boot"
proof -
  have ls: "ls demo_boot = fold init_list_head [ready_queue demo_layout, sleep_queue demo_layout]
      \<lparr>nxt = (\<lambda>p. 0), prv = (\<lambda>p. 0)\<rparr>"
    by (simp add: demo_boot_def)
  have "rep (ls demo_boot) (fresh_rings ({} \<union> set [ready_queue demo_layout, sleep_queue demo_layout]))"
    unfolding ls by (rule rep_init_all [OF rep_empty]) (simp_all add: demo_layout_def)
  moreover have "fresh_rings ({} \<union> set [ready_queue demo_layout, sleep_queue demo_layout]) = task_rings demo_layout 0"
    by (auto simp: fresh_rings_def task_rings_def fun_eq_iff)
  moreover have "length demo_tasks = 1" by (simp add: demo_tasks_def)
  moreover have "unat (tasks_base demo_layout) = 0x50203000" by (simp add: demo_layout_def)
  ultimately show ?thesis
    using demo_boot_layout demo_disk_tasks demo_sd_card [of demo_boot]
    by (simp add: boot_ready_def NUM_SYSCALLS_def SCREEN_SIZE_def SCREEN_WIDTH_def SCREEN_HEIGHT_def)
qed

lemma boot_establishes_witness:
  "\<exists>s' Q. kernel_main demo_layout demo_boot = Inr s' \<and> sched_inv demo_layout Q s' \<and>
     ready (abs_sched demo_layout Q s') = [pcb demo_layout 0]"
proof -
  obtain s' Q where "kernel_main demo_layout demo_boot = Inr s'" "sched_inv demo_layout Q s'"
    "ready (abs_sched demo_layout Q s') = map (pcb demo_layout) [0..<length demo_tasks]"
    using boot_establishes [OF demo_boot_ready] by (metis sched.select_convs(3))
  then show ?thesis by (intro exI [of _ s'] exI [of _ Q]) (simp add: demo_tasks_def)
qed

lemma load_task_img_loads_witness:
  "\<exists>s'. load_task_img demo_layout (tasks_base demo_layout)
      ((init_jmptab demo_boot)\<lparr>bytes := table_read demo_layout demo_disk demo_memory\<rparr>) = Inr (s', 0x52000000) \<and>
    bytes s' 0x52000000 = 1 \<and> bytes s' 0x52000003 = 4"
proof -
  let ?s = "(init_jmptab demo_boot)\<lparr>bytes := table_read demo_layout demo_disk demo_memory\<rparr>"
  note d = demo_disk_tasks [unfolded disk_tasks_def]
  have base: "task_at demo_layout 0 = tasks_base demo_layout" by (simp add: task_at_def)
  have "bios_ready ?s" using init_jmptab_ready [of demo_boot] by (simp add: bios_ready_def)
  moreover have "sd_card demo_disk ?s" by (rule demo_sd_card) (simp add: init_jmptab_def)
  moreover have "task_table demo_layout demo_tasks (bytes ?s)" using d by simp
  moreover have "0 < length demo_tasks" "demo_tasks ! 0 = ([97], 1030, 1034)" "distinct (map fst demo_tasks)"
    by (simp_all add: demo_tasks_def)
  moreover have "c_string (bytes ?s) (tasks_base demo_layout) [97]"
    using d by (auto simp: task_table_def demo_tasks_def base)
  moreover have "unat (tasks_base demo_layout) + 512 \<le> 0x52000000" by (simp add: demo_layout_def)
  ultimately obtain m ev where r: "load_task_img demo_layout (tasks_base demo_layout) ?s =
      Inr (?s\<lparr>bytes := m, bios_log := bios_log ?s @ [ev]\<rparr>, task_entry 0)"
    and m: "\<forall>j. j < 1034 - 1030 \<longrightarrow> (1034 - 1) mod 512 \<noteq> (0::nat) \<or> 1030 mod 512 = (0::nat) \<or> j < 1034 - 1030 - 1 \<longrightarrow>
      m (task_entry 0 + of_nat j) = demo_disk (loaded_from 1030 + j)"
    using load_task_img_loads [of ?s demo_disk demo_layout demo_tasks 0 "[97]" 1030 1034 "tasks_base demo_layout"]
    by blast
  have "task_entry 0 = 0x52000000" by (simp add: task_entry_def TASK_MEM_BASE_def)
  then show ?thesis
    using r spec [OF m, of 0] spec [OF m, of 3] by (auto simp: loaded_from_def demo_disk_def)
qed

end
