(* ===== verification/Image.thy ===== *)
theory Image
  imports Boot_Demo
begin

text \<open>
  The image builder (\<^verbatim>\<open>tools/createimage.c\<close>), which runs on the host: it concatenates the loadable
  segments of the boot block, the kernel and the tasks, pads the boot block to two sectors, and writes
  the number of tasks, the size of the kernel and the task table into these sectors. The files are a
  function from names to contents, the layout of the ELF headers is that of the host's \<^verbatim>\<open>elf.h\<close>.
  What the program prints is left out. A failed assertion, a message of \<open>error\<close>, an index behind the
  task table and an overflow of \<^verbatim>\<open>int\<close> are values of \<open>image_error\<close>.
\<close>

section \<open>Files\<close>

datatype image_error = Usage | Assertion_failed | Behind_table | Int_overflow

definition bind_img :: "image_error + 'a \<Rightarrow> ('a \<Rightarrow> image_error + 'b) \<Rightarrow> image_error + 'b" where
  "bind_img r f = (case r of Inl e \<Rightarrow> Inl e | Inr x \<Rightarrow> f x)"

lemma bind_img_simps [simp]: "bind_img (Inr x) f = f x" "bind_img (Inl e) f = Inl e"
  by (simp_all add: bind_img_def)

lemma bind_img_Inr: "bind_img r f = Inr y \<longleftrightarrow> (\<exists>x. r = Inr x \<and> f x = Inr y)"
  by (cases r) simp_all

definition assert_that :: "bool \<Rightarrow> image_error + unit" where
  "assert_that b = (if b then Inr () else Inl Assertion_failed)"

text \<open>A file that is read. Seeking to a negative offset fails and leaves the position.\<close>

record infile =
  content :: "byte list"
  at :: nat

definition fseek :: "u64 \<Rightarrow> infile \<Rightarrow> infile" where
  "fseek off fp = (if 0 \<le> sint off then fp\<lparr>at := unat off\<rparr> else fp)"

text \<open>\<open>None\<close> when there are not enough bytes.\<close>

definition fread :: "nat \<Rightarrow> infile \<Rightarrow> byte list option \<times> infile" where
  "fread n fp =
     (let bs = take n (drop (at fp) (content fp))
      in (if length bs = n then Some bs else None, fp\<lparr>at := at fp + length bs\<rparr>))"

text \<open>At the end of the file, \<^verbatim>\<open>fgetc\<close> returns -1, and \<^verbatim>\<open>fputc\<close> writes its low byte.\<close>

definition fgetc :: "infile \<Rightarrow> byte \<times> infile" where
  "fgetc fp = (if at fp < length (content fp) then (content fp ! at fp, fp\<lparr>at := at fp + 1\<rparr>) else (0xff, fp))"

text \<open>Writing at a position of the image; a gap is filled with zeros.\<close>

definition write_at :: "nat \<Rightarrow> byte list \<Rightarrow> byte list \<Rightarrow> byte list" where
  "write_at p bs img = take p (img @ replicate (p - length img) 0) @ bs @ drop (p + length bs) img"

section \<open>ELF headers (elf.h)\<close>

text \<open>The little-endian number of \<open>n\<close> bytes at an offset.\<close>

definition le_at :: "nat \<Rightarrow> nat \<Rightarrow> byte list \<Rightarrow> nat" where
  "le_at n off bs = foldr (\<lambda>b acc. unat b + 256 * acc) (take n (drop off bs)) 0"

record Elf64_Ehdr =
  e_ident :: "byte list"
  e_entry :: u64
  e_phoff :: u64
  e_phentsize :: nat
  e_phnum :: nat

record Elf64_Phdr =
  p_type :: u32
  p_offset :: u64
  p_vaddr :: u64
  p_filesz :: u64
  p_memsz :: u64

definition PT_LOAD :: u32 where "PT_LOAD = 1"

definition SIZEOF_EHDR :: nat where "SIZEOF_EHDR = 64"
definition SIZEOF_PHDR :: nat where "SIZEOF_PHDR = 56"

definition ehdr_of :: "byte list \<Rightarrow> Elf64_Ehdr" where
  "ehdr_of bs = \<lparr>e_ident = take 16 bs, e_entry = of_nat (le_at 8 24 bs), e_phoff = of_nat (le_at 8 32 bs),
     e_phentsize = le_at 2 54 bs, e_phnum = le_at 2 56 bs\<rparr>"

definition phdr_of :: "byte list \<Rightarrow> Elf64_Phdr" where
  "phdr_of bs = \<lparr>p_type = of_nat (le_at 4 0 bs), p_offset = of_nat (le_at 8 8 bs), p_vaddr = of_nat (le_at 8 16 bs),
     p_filesz = of_nat (le_at 8 32 bs), p_memsz = of_nat (le_at 8 40 bs)\<rparr>"

definition read_ehdr :: "infile \<Rightarrow> image_error + (Elf64_Ehdr \<times> infile)" where
  "read_ehdr fp =
     (case fread SIZEOF_EHDR fp of (r, fp) \<Rightarrow>
        bind_img (assert_that (r \<noteq> None)) (\<lambda>_.
        let ehdr = ehdr_of (the r) in
        bind_img (assert_that (e_ident ehdr ! 1 = of_char (CHR ''E''))) (\<lambda>_.
        bind_img (assert_that (e_ident ehdr ! 2 = of_char (CHR ''L''))) (\<lambda>_.
        bind_img (assert_that (e_ident ehdr ! 3 = of_char (CHR ''F''))) (\<lambda>_. Inr (ehdr, fp))))))"

text \<open>The product of the index and the size of an entry is an \<^verbatim>\<open>int\<close>.\<close>

definition read_phdr :: "infile \<Rightarrow> nat \<Rightarrow> Elf64_Ehdr \<Rightarrow> image_error + (Elf64_Phdr \<times> infile)" where
  "read_phdr fp ph ehdr =
     (if 2 ^ 31 \<le> ph * e_phentsize ehdr then Inl Int_overflow
      else case fread SIZEOF_PHDR (fseek (e_phoff ehdr + of_nat (ph * e_phentsize ehdr)) fp) of (r, fp) \<Rightarrow>
        bind_img (assert_that (r \<noteq> None)) (\<lambda>_. Inr (phdr_of (the r), fp)))"

definition get_entrypoint :: "Elf64_Ehdr \<Rightarrow> u64" where "get_entrypoint ehdr = e_entry ehdr"
definition get_filesz :: "Elf64_Phdr \<Rightarrow> u32" where "get_filesz phdr = ucast (p_filesz phdr)"
definition get_memsz :: "Elf64_Phdr \<Rightarrow> u32" where "get_memsz phdr = ucast (p_memsz phdr)"

section \<open>Writing the image\<close>

text \<open>The task table, the image and its size so far, and the size of the kernel.\<close>

record task_info =
  name :: "byte list"
  tbegin :: u32
  tend :: u32

record builder =
  taskinfo :: "task_info list"
  img :: "byte list"
  phyaddr :: nat
  nbytes_kernel :: u32

definition IMG_SECTOR_SIZE :: nat where "IMG_SECTOR_SIZE = 512"
definition IMG_TASK_NAME_LEN :: nat where "IMG_TASK_NAME_LEN = 24"
definition IMG_TASK_MAXNUM :: nat where "IMG_TASK_MAXNUM = 16"

text \<open>The macro \<^verbatim>\<open>NBYTES2SEC\<close> on an \<^verbatim>\<open>int\<close>.\<close>

definition IMG_NBYTES2SEC :: "u32 \<Rightarrow> u32" where
  "IMG_NBYTES2SEC nbytes =
     word_of_int (sint nbytes sdiv int IMG_SECTOR_SIZE) + of_bool (sint nbytes smod int IMG_SECTOR_SIZE \<noteq> 0)"

text \<open>\<^verbatim>\<open>fputc\<close> at the end of the image, with the address.\<close>

definition put_byte :: "byte \<Rightarrow> builder \<Rightarrow> image_error + builder" where
  "put_byte c b =
     (if 2 ^ 31 \<le> phyaddr b + 1 then Inl Int_overflow
      else Inr (b\<lparr>img := img b @ [c], phyaddr := phyaddr b + 1\<rparr>))"

fun copy_loop :: "nat \<Rightarrow> infile \<Rightarrow> builder \<Rightarrow> image_error + (infile \<times> builder)" where
  "copy_loop 0 fp b = Inr (fp, b)"
| "copy_loop (Suc n) fp b = (case fgetc fp of (c, fp) \<Rightarrow> bind_img (put_byte c b) (\<lambda>b. copy_loop n fp b))"

definition write_segment :: "Elf64_Phdr \<Rightarrow> infile \<Rightarrow> builder \<Rightarrow> image_error + (infile \<times> builder)" where
  "write_segment phdr fp b =
     (if p_memsz phdr \<noteq> 0 \<and> p_type phdr = PT_LOAD
      then copy_loop (unat (p_filesz phdr)) (fseek (p_offset phdr) fp) b
      else Inr (fp, b))"

function padding_loop :: "nat \<Rightarrow> builder \<Rightarrow> image_error + builder" where
  "padding_loop new_phyaddr b =
     (if phyaddr b < new_phyaddr
      then (if 2 ^ 31 \<le> phyaddr b + 1 then Inl Int_overflow
            else padding_loop new_phyaddr (b\<lparr>img := img b @ [0], phyaddr := phyaddr b + 1\<rparr>))
      else Inr b)"
  by pat_completeness auto
termination by (relation "measure (\<lambda>(n, b). n - phyaddr b)") auto

declare padding_loop.simps [simp del]

definition write_padding :: "builder \<Rightarrow> nat \<Rightarrow> image_error + builder" where
  "write_padding b new_phyaddr = padding_loop new_phyaddr b"

text \<open>The program headers \<open>ph\<close>, \<open>ph + 1\<close>, ... of the file \<open>fname\<close>.\<close>

definition fname :: "string \<Rightarrow> byte list" where "fname s = map of_char s"

fun segments_loop :: "nat \<Rightarrow> nat \<Rightarrow> byte list \<Rightarrow> Elf64_Ehdr \<Rightarrow> infile \<Rightarrow> builder \<Rightarrow> image_error + (infile \<times> builder)" where
  "segments_loop 0 ph file ehdr fp b = Inr (fp, b)"
| "segments_loop (Suc k) ph file ehdr fp b =
     bind_img (read_phdr fp ph ehdr) (\<lambda>(phdr, fp).
     if p_type phdr \<noteq> PT_LOAD then segments_loop k (ph + 1) file ehdr fp b
     else bind_img (write_segment phdr fp b) (\<lambda>(fp, b).
       segments_loop k (ph + 1) file ehdr fp
         (if file = fname ''main'' then b\<lparr>nbytes_kernel := nbytes_kernel b + get_filesz phdr\<rparr> else b)))"

definition strncpy_name :: "byte list \<Rightarrow> byte list" where
  "strncpy_name s = take IMG_TASK_NAME_LEN s @ replicate (IMG_TASK_NAME_LEN - length s) 0"

text \<open>One input file: its entry of the table is begun, its segments are written, and the entry is ended.\<close>

definition begin_task :: "nat \<Rightarrow> byte list \<Rightarrow> builder \<Rightarrow> image_error + builder" where
  "begin_task fidx file b =
     (if fidx < 2 then Inr b
      else if IMG_TASK_MAXNUM \<le> fidx - 2 then Inl Behind_table
      else Inr (b\<lparr>taskinfo := (taskinfo b)[fidx - 2 := (taskinfo b ! (fidx - 2))
                    \<lparr>tbegin := of_nat (phyaddr b), name := strncpy_name file\<rparr>]\<rparr>))"

definition end_task :: "nat \<Rightarrow> builder \<Rightarrow> builder" where
  "end_task fidx b =
     (if fidx < 2 then b
      else b\<lparr>taskinfo := (taskinfo b)[fidx - 2 := (taskinfo b ! (fidx - 2))\<lparr>tend := of_nat (phyaddr b)\<rparr>]\<rparr>)"

definition file_step :: "(byte list \<Rightarrow> byte list option) \<Rightarrow> nat \<Rightarrow> byte list \<Rightarrow> builder \<Rightarrow> image_error + builder" where
  "file_step fs fidx file b =
     bind_img (begin_task fidx file b) (\<lambda>b.
     bind_img (assert_that (fs file \<noteq> None)) (\<lambda>_.
     bind_img (read_ehdr \<lparr>content = the (fs file), at = 0\<rparr>) (\<lambda>(ehdr, fp).
     bind_img (segments_loop (e_phnum ehdr) 0 file ehdr fp b) (\<lambda>(fp, b).
     bind_img (if file = fname ''bootblock'' then write_padding b (IMG_SECTOR_SIZE * 2) else Inr b) (\<lambda>b.
     Inr (end_task fidx b))))))"

fun files_loop :: "(byte list \<Rightarrow> byte list option) \<Rightarrow> nat \<Rightarrow> byte list list \<Rightarrow> builder \<Rightarrow> image_error + builder" where
  "files_loop fs fidx [] b = Inr b"
| "files_loop fs fidx (file # files) b = bind_img (file_step fs fidx file b) (\<lambda>b. files_loop fs (fidx + 1) files b)"

section \<open>The tables of the image\<close>

definition le4 :: "u32 \<Rightarrow> byte list" where
  "le4 w = [ucast w, ucast (drop_bit 8 w), ucast (drop_bit 16 w), ucast (drop_bit 24 w)]"

definition info_bytes :: "task_info \<Rightarrow> byte list" where
  "info_bytes t = name t @ le4 (tbegin t) @ le4 (tend t)"

text \<open>The number of tasks is passed as a \<^verbatim>\<open>short\<close>; three writes follow one another.\<close>

definition write_img_info :: "u32 \<Rightarrow> task_info list \<Rightarrow> 16 word \<Rightarrow> byte list \<Rightarrow> image_error + byte list" where
  "write_img_info nbytes tasks tasknum out =
     (let task_num = (scast tasknum :: u32);
          out = write_at 0x1f8 (le4 task_num) out;
          os_size = IMG_NBYTES2SEC nbytes;
          out = write_at 0x1fc (le4 os_size) out
      in if length tasks < unat task_num then Inl Behind_table
         else Inr (write_at 0x200 (concat (map info_bytes (take (unat task_num) tasks))) out))"

definition create_image :: "(byte list \<Rightarrow> byte list option) \<Rightarrow> byte list list \<Rightarrow> image_error + byte list" where
  "create_image fs files =
     bind_img (files_loop fs 0 files
        \<lparr>taskinfo = replicate IMG_TASK_MAXNUM \<lparr>name = replicate IMG_TASK_NAME_LEN 0, tbegin = 0, tend = 0\<rparr>,
         img = [], phyaddr = 0, nbytes_kernel = 0\<rparr>) (\<lambda>b.
     write_img_info (nbytes_kernel b) (taskinfo b) (of_int (int (length files) - 2)) (img b))"

text \<open>The options in front of the files; \<^verbatim>\<open>--extended\<close> only prints more.\<close>

record options =
  vm :: bool
  extended :: bool

fun parse_options :: "byte list list \<Rightarrow> options \<Rightarrow> image_error + (byte list list \<times> options)" where
  "parse_options (arg # args) opts =
     (if take 2 arg = fname ''--''
      then (if drop 2 arg = fname ''vm'' then parse_options args (opts\<lparr>vm := True\<rparr>)
            else if drop 2 arg = fname ''extended'' then parse_options args (opts\<lparr>extended := True\<rparr>)
            else Inl Usage)
      else Inr (arg # args, opts))"
| "parse_options [] opts = Inr ([], opts)"

definition createimage_main :: "(byte list \<Rightarrow> byte list option) \<Rightarrow> byte list list \<Rightarrow> image_error + byte list" where
  "createimage_main fs args =
     bind_img (parse_options args \<lparr>vm = False, extended = False\<rparr>) (\<lambda>(files, opts).
     if vm opts then Inl Usage
     else if length files < 2 then Inl Usage
     else create_image fs files)"

end
