(* ===== verification/Image_Boot.thy ===== *)
theory Image_Boot
  imports Image_Spec
begin

text \<open>
  The image builder and the kernel together: a disk with an image is one that the kernel starts from,
  and the loader puts the bytes of each task's file into memory.
\<close>

section \<open>Reading what was written\<close>

lemma four_digits:
  assumes "x < 2 ^ 32"
  shows "x mod 256 + 256 * (x div 256 mod 256) + 65536 * (x div 65536 mod 256) + 16777216 * (x div 16777216 mod 256) = (x :: nat)"
proof -
  have "x div 16777216 mod 256 = x div 16777216" using assms by simp
  moreover have "x div 256 = x div 256 mod 256 + 256 * (x div 65536)"
    using div_mult_mod_eq [of "x div 256" 256] by (simp add: div_mult2_eq [symmetric])
  moreover have "x div 65536 = x div 65536 mod 256 + 256 * (x div 16777216)"
    using div_mult_mod_eq [of "x div 65536" 256] by (simp add: div_mult2_eq [symmetric])
  moreover have "x = x mod 256 + 256 * (x div 256)" by simp
  ultimately show ?thesis by linarith
qed

lemma le32_le4:
  assumes "\<And>k. k < 4 \<Longrightarrow> m (p + of_nat k) = le4 w ! k"
  shows "le32 m p = w"
proof -
  have b: "(ucast (ucast (drop_bit n w) :: byte) :: u32) = of_nat (unat w div 2 ^ n mod 256)" for n
  proof -
    have "unat (ucast (ucast (drop_bit n w) :: byte) :: u32) = take_bit 8 (unat (drop_bit n w))"
      by (simp add: unsigned_ucast_eq unsigned_take_bit_eq)
    also have "\<dots> = unat w div 2 ^ n mod 256"
      using unat_lt_u32 [of w] unfolding unsigned_drop_bit_eq by (simp add: take_bit_eq_mod drop_bit_eq_div)
    finally have "word_of_nat (unat (ucast (ucast (drop_bit n w) :: byte) :: u32)) = (of_nat (unat w div 2 ^ n mod 256) :: u32)"
      by (rule arg_cong)
    then show ?thesis by simp
  qed
  have "m p = ucast (drop_bit 0 w)" "m (p + 1) = ucast (drop_bit 8 w)" "m (p + 2) = ucast (drop_bit 16 w)"
    "m (p + 3) = ucast (drop_bit 24 w)"
    using assms [of 0] assms [of 1] assms [of 2] assms [of 3] by (simp_all add: le4_def)
  then have "le32 m p = of_nat (unat w mod 256 + 256 * (unat w div 256 mod 256) + 65536 * (unat w div 65536 mod 256)
      + 16777216 * (unat w div 16777216 mod 256))"
    by (simp only: le32_def b) simp
  also have "\<dots> = w" using unat_lt_u32 [of w] by (subst four_digits) simp_all
  finally show ?thesis .
qed

lemma task_ranges_nth:
  "i < length ts \<Longrightarrow> task_ranges a ts ! i =
     (fst (ts ! i), a + length (concat (map task_bytes (take i ts))), a + length (concat (map task_bytes (take (Suc i) ts))))"
proof (induction ts arbitrary: a i)
  case (Cons t ts)
  then show ?case by (cases i) (simp_all add: add.assoc)
qed simp

lemma concat_nth_task:
  assumes "i < length ts" and "j < length (task_bytes (ts ! i))"
  shows "concat (map task_bytes ts) ! (length (concat (map task_bytes (take i ts))) + j) = task_bytes (ts ! i) ! j"
    and "length (concat (map task_bytes (take i ts))) + j < length (concat (map task_bytes ts))"
proof -
  have "ts = take i ts @ ts ! i # drop (Suc i) ts" using assms(1) by (simp add: id_take_nth_drop)
  then have c: "concat (map task_bytes ts) =
      concat (map task_bytes (take i ts)) @ task_bytes (ts ! i) @ concat (map task_bytes (drop (Suc i) ts))"
    by (metis concat.simps(2) concat_append list.simps(9) map_append)
  show "concat (map task_bytes ts) ! (length (concat (map task_bytes (take i ts))) + j) = task_bytes (ts ! i) ! j"
    unfolding c nth_append_length_plus using assms(2) by (simp add: nth_append)
  show "length (concat (map task_bytes (take i ts))) + j < length (concat (map task_bytes ts))"
    unfolding c using assms(2) by simp
qed

section \<open>The task table\<close>

text \<open>Tasks the loader can handle: different, short names and at most 64 KiB each.\<close>

definition tasks_ok :: "input list \<Rightarrow> bool" where
  "tasks_ok ts \<longleftrightarrow>
     distinct (map fst ts) \<and> length ts < 16 \<and>
     (\<forall>t \<in> set ts. fst t \<noteq> [] \<and> length (fst t) < 24 \<and> 0 \<notin> set (fst t) \<and>
        task_bytes t \<noteq> [] \<and> length (task_bytes t) \<le> 0x10000)"

lemma image_disk_tasks_aux:
  assumes ok: "inputs_ok fs boot kern ts" and t: "tasks_ok ts" and boot: "length (task_bytes boot) \<le> 0x1f8"
    and above: "0x50200200 \<le> unat (tasks_base L)" "unat (tasks_base L) + 512 \<le> 0x52000000"
    and m: "\<And>k. k < 4 \<Longrightarrow> m (0x502001f8 + of_nat k) = disk_of (image_of boot kern ts) (0x1f8 + k)"
  shows "disk_tasks L (disk_of (image_of boot kern ts)) (task_ranges (body_start kern) ts) m"
proof -
  let ?d = "disk_of (image_of boot kern ts)" and ?rs = "task_ranges (body_start kern) ts"
  let ?m = "table_read L ?d m"
  have n: "length ts \<le> 16" "length ts < 16" using t by (simp_all add: tasks_ok_def)
  note im = image_of_nth [OF boot n(1), where kern = kern]
  have tab: "?m (tasks_base L + of_nat k) = ?d (0x200 + k)" if "k < 512" for k
    using that by (simp add: table_read_def unat_of_nat_u64)
  have low: "?m (0x502001f8 + of_nat k) = m (0x502001f8 + of_nat k)" if "k < 4" for k
  proof -
    have e: "unat (0x502001f8 + of_nat k :: ptr) = 0x502001f8 + k"
    proof -
      have "(0x502001f8 + of_nat k :: ptr) = of_nat (0x502001f8 + k)" by simp
      moreover have "0x502001f8 + k < 2 ^ 64" using that by simp
      ultimately show ?thesis by (simp only: unat_of_nat_u64)
    qed
    have "2 ^ 63 \<le> unat ((0x502001f8 + of_nat k) - tasks_base L)"
      using above that by (intro unat_diff_above) (simp_all add: e)
    then show ?thesis by (simp add: table_read_def)
  qed
  have num: "le32 ?m 0x502001f8 = of_nat (length ts)"
    using im(1) low m by (intro le32_le4) simp
  have entry: "?m (task_at L i + of_nat k) = info_bytes (info_of (?rs ! i)) ! k" if "i < length ts" "k < 32" for i k
  proof -
    have "task_at L i + of_nat k = tasks_base L + of_nat (32 * i + k)" by (simp add: task_at_def SIZEOF_TASK_INFO_def)
    moreover have "32 * i + k < 512" using that n(1) by simp
    ultimately show ?thesis using tab [of "32 * i + k"] im(3) [OF that] by (simp only:)
  qed
  have last: "?m (task_at L (length ts)) = 0"
    using tab [of "32 * length ts"] im(4) n by (simp add: task_at_def SIZEOF_TASK_INFO_def)
  have body: "length (task_bytes kern @ concat (map task_bytes ts)) + 1024 < 2 ^ 31"
    using ok boot by (simp add: inputs_ok_def image_body_def padded_def)
  have "case ?rs ! i of (n, b, e) \<Rightarrow>
        c_string ?m (task_at L i) n \<and> length n < 24 \<and>
        task_begin L ?m i = of_nat b \<and> task_end L ?m i = of_nat e \<and>
        1024 \<le> b \<and> b < e \<and> e \<le> b + 0x10000 \<and> e < 2 ^ 31" if i: "i < length ts" for i
  proof -
    define n b e where "n = fst (ts ! i)" and "b = body_start kern + length (concat (map task_bytes (take i ts)))"
      and "e = body_start kern + length (concat (map task_bytes (take (Suc i) ts)))"
    have r: "?rs ! i = (n, b, e)" using task_ranges_nth [OF i] by (simp add: n_def b_def e_def)
    have e: "e = b + length (task_bytes (ts ! i))" using i by (simp add: b_def e_def take_Suc_conv_app_nth)
    have mem: "ts ! i \<in> set ts" using i by simp
    have n: "length n < 24" "0 \<notin> set n" and c: "task_bytes (ts ! i) \<noteq> []" "length (task_bytes (ts ! i)) \<le> 0x10000"
      using t mem by (auto simp: tasks_ok_def n_def)
    have ib: "info_bytes (info_of (?rs ! i)) = strncpy_name n @ le4 (of_nat b) @ le4 (of_nat e)"
      by (simp add: r info_of_def info_bytes_def)
    have "?m (task_at L i + of_nat k) = n ! k" if "k < length n" for k
      using entry [OF i, of k] that n(1) by (simp add: ib nth_append strncpy_name_def IMG_TASK_NAME_LEN_def)
    moreover have "n ! k \<noteq> 0" if "k < length n" for k using that n(2) nth_mem by metis
    moreover have "?m (task_at L i + of_nat (length n)) = 0"
      using entry [OF i, of "length n"] n(1) by (simp add: ib nth_append strncpy_name_def IMG_TASK_NAME_LEN_def)
    ultimately have str: "c_string ?m (task_at L i) n" unfolding c_string_nth by blast
    have "?m (task_at L i + TASK_NAME_LEN + of_nat k) = le4 (of_nat b) ! k" if "k < 4" for k
      using entry [OF i, of "24 + k"] that by (simp add: ib nth_append TASK_NAME_LEN_def add.assoc)
    then have bg: "task_begin L ?m i = of_nat b" unfolding task_begin_def by (intro le32_le4)
    have "?m (task_at L i + TASK_NAME_LEN + 4 + of_nat k) = le4 (of_nat e) ! k" if "k < 4" for k
      using entry [OF i, of "28 + k"] that by (simp add: ib nth_append TASK_NAME_LEN_def add.assoc)
    then have en: "task_end L ?m i = of_nat e" unfolding task_end_def by (intro le32_le4)
    have "0 < length (task_bytes (ts ! i))" using c(1) by simp
    then have "length (concat (map task_bytes (take i ts))) + (length (task_bytes (ts ! i)) - 1) < length (concat (map task_bytes ts))"
      by (intro concat_nth_task(2) i) simp
    then have "e < 2 ^ 31" using body \<open>0 < length (task_bytes (ts ! i))\<close> unfolding e b_def body_start_def by simp
    moreover have "b < e" "e \<le> b + 0x10000" using e c by simp_all
    moreover have "1024 \<le> b" by (simp add: b_def body_start_def)
    ultimately show ?thesis unfolding r using str n(1) bg en by simp
  qed
  then have "task_table L ?rs ?m" using num n by (simp add: task_table_def TASK_MAXNUM_def)
  moreover have "distinct (map fst ?rs)" "[] \<notin> fst ` set ?rs"
  proof -
    show "distinct (map fst ?rs)" using t by (simp add: tasks_ok_def)
    have "fst ` set ?rs = fst ` set ts" by (simp only: set_map [symmetric] map_fst_task_ranges)
    then show "[] \<notin> fst ` set ?rs" using t by (auto simp: tasks_ok_def)
  qed
  ultimately show ?thesis using n last by (simp add: disk_tasks_def TASK_MAXNUM_def)
qed


section \<open>Loading a task of the image\<close>

lemma init_task_info_reads:
  assumes ready: "bios_ready s" and card: "sd_card disk s" and b: "unat (tasks_base L) + 512 \<le> 0x52000000"
  shows "\<exists>ev. init_task_info L s = Inr (s\<lparr>bytes := table_read L disk (bytes s), bios_log := bios_log s @ [ev]\<rparr>)"
proof -
  have base: "(ucast (ucast (tasks_base L) :: u32) :: u64) = tasks_base L"
    using b by (intro ucast_ucast_small) simp
  let ?e = "Bios 11 [tasks_base L, 1, 1, 0, 0]"
  have "init_task_info L s = Inr (called ?e s)"
    unfolding init_task_info_def bios_calls(5) [OF ready] using base by simp
  moreover have "bytes (called ?e s) = table_read L disk (bytes s)"
    using card by (auto simp: called_mem sd_card_def table_read_def fun_eq_iff)
  ultimately show ?thesis by (intro exI [of _ ?e]) (simp add: called_upd)
qed

lemma image_of_task:
  assumes "length (task_bytes boot) \<le> 0x1f8" and "length ts \<le> 16" and "i < length ts" and "j < length (task_bytes (ts ! i))"
  shows "disk_of (image_of boot kern ts) (body_start kern + length (concat (map task_bytes (take i ts))) + j) = task_bytes (ts ! i) ! j"
proof -
  note c = concat_nth_task [OF assms(3,4)]
  let ?k = "length (task_bytes kern) + (length (concat (map task_bytes (take i ts))) + j)"
  have "disk_of (image_of boot kern ts) (1024 + ?k) = disk_of (task_bytes kern @ concat (map task_bytes ts)) ?k"
    by (rule image_of_nth(5) [OF assms(1,2)])
  also have "\<dots> = task_bytes (ts ! i) ! j"
    using c by (simp add: disk_of_def nth_append_length_plus)
  finally show ?thesis by (simp add: body_start_def add.assoc)
qed

text \<open>C36. For well-formed input files \<^verbatim>\<open>create_image\<close> succeeds, and the image is the bytes of the loadable
  segments in the order of the files, the boot block filled up to two sectors, with the number of tasks,
  the size of the kernel in sectors and the table of names and ranges at their places in these.\<close>

theorem create_image_builds:
  "inputs_ok fs boot kern ts \<Longrightarrow> create_image fs (map fst (boot # kern # ts)) = Inr (image_of boot kern ts)"
  by (rule create_image_aux)

text \<open>C37. From the build to the loader: on a disk with the image, with its first sector in memory,
  \<^verbatim>\<open>init_task_info\<close> and \<^verbatim>\<open>load_task_img\<close> put the bytes of a task's file at the task's place, with two
  exceptions at the boundaries of sectors, where the result is stated as well. If the task begins
  with a sector, its place gets the bytes of the image from one sector before the task on. If it
  does not, but its last byte begins a sector, then that byte is not read, and its place gets what
  the read buffer held there before.\<close>

theorem image_tasks_load:
  assumes "inputs_ok fs boot kern ts" and "tasks_ok ts" and "length (task_bytes boot) \<le> 0x1f8"
    and "create_image fs (map fst (boot # kern # ts)) = Inr out" and "bios_ready s" and "sd_card (disk_of out) s"
    and "0x50200200 \<le> unat (tasks_base L)" and "unat (tasks_base L) + 512 \<le> 0x52000000"
    and "\<forall>k < 4. bytes s (0x502001f8 + of_nat k) = disk_of out (0x1f8 + k)"
    and "i < length ts" and "c_string (table_read L (disk_of out) (bytes s)) p (fst (ts ! i))"
    and "b = body_start kern + length (concat (map task_bytes (take i ts)))"
  shows "\<exists>s1 s2. init_task_info L s = Inr s1 \<and> load_task_img L p s1 = Inr (s2, task_entry i) \<and>
    (\<forall>j < length (task_bytes (ts ! i)). bytes s2 (task_entry i + of_nat j) =
       (if b mod 512 = 0 then disk_of out (b - 512 + j)
        else if (b + length (task_bytes (ts ! i)) - 1) mod 512 = 0 \<and> j = length (task_bytes (ts ! i)) - 1
        then bytes s1 (task_entry (length ts + 1) + of_nat (b mod 512 + j))
        else task_bytes (ts ! i) ! j))"
proof -
  let ?rs = "task_ranges (body_start kern) ts" and ?n = "length (task_bytes (ts ! i))"
  have out: "out = image_of boot kern ts" using assms(4) create_image_aux [OF assms(1)] by simp
  obtain ev where s1: "init_task_info L s = Inr (s\<lparr>bytes := table_read L (disk_of out) (bytes s), bios_log := bios_log s @ [ev]\<rparr>)"
    using init_task_info_reads [OF assms(5,6,8)] by blast
  let ?s1 = "s\<lparr>bytes := table_read L (disk_of out) (bytes s), bios_log := bios_log s @ [ev]\<rparr>"
  have d: "disk_tasks L (disk_of out) ?rs (bytes s)"
    unfolding out using assms(1-3,7-9) by (intro image_disk_tasks_aux) (simp_all add: out)
  have r: "?rs ! i = (fst (ts ! i), b, b + ?n)"
    using task_ranges_nth [OF assms(10), of "body_start kern"] assms(10,12)
    by (simp add: take_Suc_conv_app_nth)
  have i: "i < length ?rs" using assms(10) by simp
  have c: "bios_ready ?s1" "sd_card (disk_of out) ?s1"
    using assms(5,6) by (simp_all add: bios_ready_def sd_card_def)
  have tab: "task_table L ?rs (bytes ?s1)" "distinct (map fst ?rs)" using d by (simp_all add: disk_tasks_def)
  have name: "c_string (bytes ?s1) p (fst (ts ! i))" using assms(11) by simp
  obtain m e where l: "load_task_img L p ?s1 = Inr (?s1\<lparr>bytes := m, bios_log := bios_log ?s1 @ [e]\<rparr>, task_entry i)"
    and m: "\<forall>j. j < b + ?n - b \<longrightarrow> (b + ?n - 1) mod 512 \<noteq> 0 \<or> b mod 512 = 0 \<or> j < b + ?n - b - 1 \<longrightarrow>
        m (task_entry i + of_nat j) = disk_of out (loaded_from b + j)"
    and lst: "b mod 512 \<noteq> 0 \<longrightarrow> (b + ?n - 1) mod 512 = 0 \<longrightarrow> m (task_entry i + of_nat (b + ?n - b - 1)) =
        bytes ?s1 (task_entry (length ?rs + 1) + of_nat (b mod 512 + (b + ?n - b - 1)))"
    using load_task_img_aux [OF c tab(1) i r tab(2) name assms(8)] by (elim exE conjE) (rule that)
  have "m (task_entry i + of_nat j) = (if b mod 512 = 0 then disk_of out (b - 512 + j)
      else if (b + ?n - 1) mod 512 = 0 \<and> j = ?n - 1
      then bytes ?s1 (task_entry (length ts + 1) + of_nat (b mod 512 + j)) else task_bytes (ts ! i) ! j)"
    if j: "j < ?n" for j
  proof -
    consider (start) "b mod 512 = 0" | (last) "b mod 512 \<noteq> 0" "(b + ?n - 1) mod 512 = 0" "j = ?n - 1"
      | (inside) "b mod 512 \<noteq> 0" "(b + ?n - 1) mod 512 \<noteq> 0 \<or> j < ?n - 1"
      using j by linarith
    then show ?thesis
    proof cases
      case start
      then show ?thesis using m j by (simp add: loaded_from_def)
    next
      case last
      then show ?thesis using lst by simp
    next
      case inside
      have "m (task_entry i + of_nat j) = disk_of out (b + j)"
        using m j inside by (auto simp: loaded_from_def)
      also have "\<dots> = task_bytes (ts ! i) ! j"
        unfolding out assms(12) using assms(2,3,10) j by (intro image_of_task) (simp_all add: tasks_ok_def)
      finally show ?thesis using inside by auto
    qed
  qed
  then show ?thesis
    using s1 l by (intro exI [of _ ?s1] exI [of _ "?s1\<lparr>bytes := m, bios_log := bios_log ?s1 @ [e]\<rparr>"] conjI) auto
qed


section \<open>A small image\<close>

definition demo_ehdr :: "byte list" where
  "demo_ehdr = [0x7f, 0x45, 0x4c, 0x46] @ replicate 28 0 @ [64] @ replicate 21 0 @ [56, 0, 1] @ replicate 7 0"

definition demo_phdr :: "byte \<Rightarrow> byte list" where
  "demo_phdr n = [1, 0, 0, 0, 5, 0, 0, 0, 120] @ replicate 23 0 @ [n] @ replicate 7 0 @ [n] @ replicate 15 0"

definition demo_elf :: "byte list \<Rightarrow> byte list" where
  "demo_elf d = demo_ehdr @ demo_phdr (of_nat (length d)) @ d"

definition demo_input :: "string \<Rightarrow> byte list \<Rightarrow> input" where
  "demo_input n d = (fname n, demo_elf d, [phdr_of (demo_phdr (of_nat (length d)))])"

lemma length_demo [simp]: "length demo_ehdr = 64" "length (demo_phdr n) = 56"
  by (simp_all add: demo_ehdr_def demo_phdr_def)

lemma times_funpow_0 [simp]: "((*) c ^^ k) (0 :: nat) = 0"
  by (induction k) simp_all

lemma demo_ehdr_of: "ehdr_of demo_ehdr = \<lparr>e_ident = take 16 demo_ehdr, e_entry = 0, e_phoff = 64, e_phentsize = 56, e_phnum = 1\<rparr>"
  by (simp add: ehdr_of_def demo_ehdr_def le_at_def)

lemma demo_phdr_of: "phdr_of (demo_phdr n) = \<lparr>p_type = 1, p_offset = 120, p_vaddr = 0, p_filesz = ucast n, p_memsz = ucast n\<rparr>"
  by (simp add: phdr_of_def demo_phdr_def le_at_def)

lemma demo_elf_file: "elf_file (demo_elf d) [phdr_of (demo_phdr (of_nat (length d)))]"
proof -
  have "take 64 (demo_elf d) = demo_ehdr" by (simp add: demo_elf_def)
  moreover have "demo_elf d ! 1 = of_char (CHR ''E'')" "demo_elf d ! 2 = of_char (CHR ''L'')" "demo_elf d ! 3 = of_char (CHR ''F'')"
    by (simp_all add: demo_elf_def demo_ehdr_def)
  moreover have "take 56 (drop 64 (demo_elf d)) = demo_phdr (of_nat (length d))" by (simp add: demo_elf_def)
  ultimately show ?thesis by (simp add: elf_file_def demo_ehdr_of demo_phdr_of) (simp add: demo_elf_def)
qed

lemma demo_bytes: "0 < length d \<Longrightarrow> length d < 256 \<Longrightarrow> task_bytes (demo_input n d) = d"
proof -
  assume d: "0 < length d" "length d < 256"
  then have u: "unat (of_nat (length d) :: byte) = length d" by (simp add: unat_of_nat take_bit_nat_eq_self)
  then have "unat (ucast (of_nat (length d) :: byte) :: u64) = length d"
    using d by (simp add: unsigned_ucast_eq take_bit_nat_eq_self)
  moreover from this have "(ucast (of_nat (length d) :: byte) :: u64) \<noteq> 0" using d by auto
  ultimately show ?thesis
    by (simp add: demo_input_def task_bytes_def elf_bytes_def seg_bytes_def demo_phdr_of PT_LOAD_def chunk_def)
      (simp add: demo_elf_def)
qed

definition demo_boot_input :: input where "demo_boot_input = demo_input ''bootblock'' [1, 2]"
definition demo_kern_input :: input where "demo_kern_input = demo_input ''main'' [3, 4, 5]"
definition demo_task_input :: input where "demo_task_input = demo_input ''a'' [6, 7, 8, 9]"

definition demo_files :: "byte list \<Rightarrow> byte list option" where
  "demo_files = map_of (map (\<lambda>(n, f, hs). (n, f)) [demo_boot_input, demo_kern_input, demo_task_input])"

lemma demo_task_bytes:
  "task_bytes demo_boot_input = [1, 2]" "task_bytes demo_kern_input = [3, 4, 5]" "task_bytes demo_task_input = [6, 7, 8, 9]"
  by (simp_all add: demo_boot_input_def demo_kern_input_def demo_task_input_def demo_bytes)

lemma demo_names: "fname ''bootblock'' \<noteq> fname ''main''" "fname ''a'' \<noteq> fname ''main''" "fname ''a'' \<noteq> fname ''bootblock''"
  by code_simp+

lemma demo_inputs_ok: "inputs_ok demo_files demo_boot_input demo_kern_input [demo_task_input]"
proof -
  have "list_all (input_ok demo_files) [demo_boot_input, demo_kern_input, demo_task_input]"
    using demo_names demo_elf_file [of "[1, 2]"] demo_elf_file [of "[3, 4, 5]"] demo_elf_file [of "[6, 7, 8, 9]"]
    by (simp add: input_ok_def demo_files_def demo_boot_input_def demo_kern_input_def demo_task_input_def demo_input_def)
  moreover have "no_names [demo_task_input]" "fst demo_boot_input = fname ''bootblock''" "fst demo_kern_input = fname ''main''"
    using demo_names by (simp_all add: no_names_def demo_task_input_def demo_boot_input_def demo_kern_input_def demo_input_def)
  moreover have "length (image_body demo_boot_input demo_kern_input [demo_task_input]) < 2 ^ 31"
    by (simp add: image_body_def demo_task_bytes padded_def)
  ultimately show ?thesis by (simp add: inputs_ok_def)
qed

lemma demo_tasks_ok: "tasks_ok [demo_task_input]"
proof -
  have "fst demo_task_input = [97]" by (simp add: demo_task_input_def demo_input_def fname_def)
  then show ?thesis by (simp add: tasks_ok_def demo_task_bytes)
qed

theorem create_image_builds_witness:
  "create_image demo_files (map fst [demo_boot_input, demo_kern_input, demo_task_input]) =
     Inr (image_of demo_boot_input demo_kern_input [demo_task_input])"
  using create_image_builds [OF demo_inputs_ok] by simp

definition image_card :: "(nat \<Rightarrow> byte) \<Rightarrow> nat \<Rightarrow> bios_event \<Rightarrow> memory \<Rightarrow> memory \<times> u64" where
  "image_card disk k e m = (case e of
     Bios n args \<Rightarrow> (if n = 11 then (\<lambda>p. if unat (p - args ! 0) < 512 * unat (args ! 1)
                                    then disk (512 * unat (args ! 2) + unat (p - args ! 0)) else m p)
                   else m, 0)
   | Bios_str n str \<Rightarrow> (m, 0))"

definition demo_image :: "byte list" where
  "demo_image = image_of demo_boot_input demo_kern_input [demo_task_input]"

definition demo_image_state :: kstate where
  "demo_image_state = (init_jmptab demo)\<lparr>firmware := image_card (disk_of demo_image),
     bytes := (\<lambda>p. disk_of demo_image (unat (p - 0x50200000)))\<rparr>"

theorem image_tasks_load_witness:
  "\<exists>s1 s2. init_task_info demo_layout demo_image_state = Inr s1 \<and>
     load_task_img demo_layout (tasks_base demo_layout) s1 = Inr (s2, task_entry 0) \<and>
     bytes s2 (task_entry 0) = 6 \<and> bytes s2 (task_entry 0 + 3) = 9"
proof -
  let ?s = demo_image_state and ?ts = "[demo_task_input]"
  have out: "create_image demo_files (map fst (demo_boot_input # demo_kern_input # ?ts)) = Inr demo_image"
    unfolding demo_image_def by (rule create_image_aux [OF demo_inputs_ok])
  have ready: "bios_ready ?s" using init_jmptab_ready [of demo] by (simp add: bios_ready_def demo_image_state_def)
  have card: "sd_card (disk_of demo_image) ?s"
    by (auto simp: sd_card_def demo_image_state_def image_card_def fun_eq_iff)
  have base: "unat (tasks_base demo_layout) = 0x50203000" by (simp add: demo_layout_def)
  have first: "\<forall>k < 4. bytes ?s (0x502001f8 + of_nat k) = disk_of demo_image (0x1f8 + k)"
  proof (intro allI impI)
    fix k :: nat
    assume "k < 4"
    then consider "k = 0" | "k = 1" | "k = 2" | "k = 3" by linarith
    then show "bytes ?s (0x502001f8 + of_nat k) = disk_of demo_image (0x1f8 + k)"
      by cases (simp_all add: demo_image_state_def)
  qed
  have d: "disk_tasks demo_layout (disk_of demo_image) (task_ranges (body_start demo_kern_input) ?ts) (bytes ?s)"
    using image_disk_tasks_aux [OF demo_inputs_ok demo_tasks_ok, of demo_layout "bytes ?s"] base first
    by (simp add: demo_task_bytes demo_image_def)
  have "task_at demo_layout 0 = tasks_base demo_layout" by (simp add: task_at_def)
  then have str: "c_string (table_read demo_layout (disk_of demo_image) (bytes ?s)) (tasks_base demo_layout) (fst (?ts ! 0))"
    using d by (auto simp: disk_tasks_def task_table_def)
  have size: "task_bytes (?ts ! 0) = [6, 7, 8, 9]" by (simp add: demo_task_bytes)
  have "\<exists>s1 s2. init_task_info demo_layout ?s = Inr s1 \<and>
      load_task_img demo_layout (tasks_base demo_layout) s1 = Inr (s2, task_entry 0) \<and>
      (\<forall>j < length (task_bytes (?ts ! 0)). bytes s2 (task_entry 0 + of_nat j) =
         (if (1027 :: nat) mod 512 = 0 then disk_of demo_image (1027 - 512 + j)
          else if (1027 + length (task_bytes (?ts ! 0)) - 1) mod 512 = 0 \<and> j = length (task_bytes (?ts ! 0)) - 1
          then bytes s1 (task_entry (length ?ts + 1) + of_nat (1027 mod 512 + j))
          else task_bytes (?ts ! 0) ! j))"
    by (rule image_tasks_load [OF demo_inputs_ok demo_tasks_ok _ out ready card _ _ first _ str])
      (simp_all add: demo_task_bytes base body_start_def)
  then obtain s1 s2 where "init_task_info demo_layout ?s = Inr s1"
    "load_task_img demo_layout (tasks_base demo_layout) s1 = Inr (s2, task_entry 0)"
    and m: "\<forall>j < 4. bytes s2 (task_entry 0 + of_nat j) = [6, 7, 8, 9 :: byte] ! j"
    unfolding size by auto
  moreover have "bytes s2 (task_entry 0) = 6" "bytes s2 (task_entry 0 + 3) = 9"
    using m [rule_format, of 0] m [rule_format, of 3] by simp_all
  ultimately show ?thesis by blast
qed

end
