(* ===== verification/Deflate_Common.thy ===== *)
theory Deflate_Common
  imports Prelude
begin

text \<open>
  The platform layer of the DEFLATE library (\<^verbatim>\<open>tools/deflate/common_defs.h\<close>): byte order, unaligned
  loads and stores, and bit scans. A pointer to bytes is the list of the bytes from it on. The
  two properties of the target that the source selects with the preprocessor are a parameter.
\<close>

type_synonym u16 = "16 word"

record platform =
  unaligned_fast :: bool
  little_endian :: bool

text \<open>The word of the machine, \<^verbatim>\<open>size_t\<close>, has 64 bits.\<close>

definition WORDBYTES :: nat where "WORDBYTES = 8"
definition WORDBITS :: nat where "WORDBITS = 8 * WORDBYTES"

definition DIV_ROUND_UP :: "nat \<Rightarrow> nat \<Rightarrow> nat" where
  "DIV_ROUND_UP n d = (n + d - 1) div d"

section \<open>Byte order\<close>

definition bswap16 :: "u16 \<Rightarrow> u16" where
  "bswap16 v = push_bit 8 v OR drop_bit 8 v"

definition bswap32 :: "u32 \<Rightarrow> u32" where
  "bswap32 v =
     push_bit 24 (v AND 0x000000FF) OR push_bit 8 (v AND 0x0000FF00) OR
     drop_bit 8 (v AND 0x00FF0000) OR drop_bit 24 (v AND 0xFF000000)"

definition bswap64 :: "u64 \<Rightarrow> u64" where
  "bswap64 v =
     push_bit 56 (v AND 0x00000000000000FF) OR push_bit 40 (v AND 0x000000000000FF00) OR
     push_bit 24 (v AND 0x0000000000FF0000) OR push_bit 8 (v AND 0x00000000FF000000) OR
     drop_bit 8 (v AND 0x000000FF00000000) OR drop_bit 24 (v AND 0x0000FF0000000000) OR
     drop_bit 40 (v AND 0x00FF000000000000) OR drop_bit 56 (v AND 0xFF00000000000000)"

definition le16_bswap :: "platform \<Rightarrow> u16 \<Rightarrow> u16" where
  "le16_bswap P v = (if little_endian P then v else bswap16 v)"
definition le32_bswap :: "platform \<Rightarrow> u32 \<Rightarrow> u32" where
  "le32_bswap P v = (if little_endian P then v else bswap32 v)"
definition le64_bswap :: "platform \<Rightarrow> u64 \<Rightarrow> u64" where
  "le64_bswap P v = (if little_endian P then v else bswap64 v)"
definition be16_bswap :: "platform \<Rightarrow> u16 \<Rightarrow> u16" where
  "be16_bswap P v = (if little_endian P then bswap16 v else v)"
definition be32_bswap :: "platform \<Rightarrow> u32 \<Rightarrow> u32" where
  "be32_bswap P v = (if little_endian P then bswap32 v else v)"
definition be64_bswap :: "platform \<Rightarrow> u64 \<Rightarrow> u64" where
  "be64_bswap P v = (if little_endian P then bswap64 v else v)"

section \<open>Unaligned loads and stores in the byte order of the machine\<close>

text \<open>The bytes of a word of \<open>n\<close> bytes, the least significant first, and back.\<close>

definition word_bytes :: "nat \<Rightarrow> 'a::len word \<Rightarrow> byte list" where
  "word_bytes n v = map (\<lambda>i. ucast (drop_bit (8 * i) v)) [0..<n]"

fun bytes_word :: "byte list \<Rightarrow> 'a::len word" where
  "bytes_word [] = 0"
| "bytes_word (b # bs) = ucast b OR push_bit 8 (bytes_word bs)"

definition load_unaligned :: "platform \<Rightarrow> nat \<Rightarrow> byte list \<Rightarrow> 'a::len word" where
  "load_unaligned P n p = bytes_word ((if little_endian P then id else rev) (take n p))"

definition store_unaligned :: "platform \<Rightarrow> nat \<Rightarrow> 'a::len word \<Rightarrow> byte list \<Rightarrow> byte list" where
  "store_unaligned P n v p = (if little_endian P then id else rev) (word_bytes n v) @ drop n p"

section \<open>Loads and stores with a byte order\<close>

definition get_unaligned_le16 :: "platform \<Rightarrow> byte list \<Rightarrow> u16" where
  "get_unaligned_le16 P p =
     (if unaligned_fast P then le16_bswap P (load_unaligned P 2 p)
      else push_bit 8 (ucast (p ! 1)) OR ucast (p ! 0))"

definition get_unaligned_be16 :: "platform \<Rightarrow> byte list \<Rightarrow> u16" where
  "get_unaligned_be16 P p =
     (if unaligned_fast P then be16_bswap P (load_unaligned P 2 p)
      else push_bit 8 (ucast (p ! 0)) OR ucast (p ! 1))"

definition get_unaligned_le32 :: "platform \<Rightarrow> byte list \<Rightarrow> u32" where
  "get_unaligned_le32 P p =
     (if unaligned_fast P then le32_bswap P (load_unaligned P 4 p)
      else push_bit 24 (ucast (p ! 3)) OR push_bit 16 (ucast (p ! 2)) OR
           push_bit 8 (ucast (p ! 1)) OR ucast (p ! 0))"

definition get_unaligned_be32 :: "platform \<Rightarrow> byte list \<Rightarrow> u32" where
  "get_unaligned_be32 P p =
     (if unaligned_fast P then be32_bswap P (load_unaligned P 4 p)
      else push_bit 24 (ucast (p ! 0)) OR push_bit 16 (ucast (p ! 1)) OR
           push_bit 8 (ucast (p ! 2)) OR ucast (p ! 3))"

definition get_unaligned_le64 :: "platform \<Rightarrow> byte list \<Rightarrow> u64" where
  "get_unaligned_le64 P p =
     (if unaligned_fast P then le64_bswap P (load_unaligned P 8 p)
      else push_bit 56 (ucast (p ! 7)) OR push_bit 48 (ucast (p ! 6)) OR
           push_bit 40 (ucast (p ! 5)) OR push_bit 32 (ucast (p ! 4)) OR
           push_bit 24 (ucast (p ! 3)) OR push_bit 16 (ucast (p ! 2)) OR
           push_bit 8 (ucast (p ! 1)) OR ucast (p ! 0))"

definition get_unaligned_leword :: "platform \<Rightarrow> byte list \<Rightarrow> u64" where
  "get_unaligned_leword P p =
     (if WORDBITS = 32 then ucast (get_unaligned_le32 P p) else get_unaligned_le64 P p)"

definition put_unaligned_le16 :: "platform \<Rightarrow> u16 \<Rightarrow> byte list \<Rightarrow> byte list" where
  "put_unaligned_le16 P v p =
     (if unaligned_fast P then store_unaligned P 2 (le16_bswap P v) p
      else p[0 := ucast (drop_bit 0 v), 1 := ucast (drop_bit 8 v)])"

definition put_unaligned_be16 :: "platform \<Rightarrow> u16 \<Rightarrow> byte list \<Rightarrow> byte list" where
  "put_unaligned_be16 P v p =
     (if unaligned_fast P then store_unaligned P 2 (be16_bswap P v) p
      else p[0 := ucast (drop_bit 8 v), 1 := ucast (drop_bit 0 v)])"

definition put_unaligned_le32 :: "platform \<Rightarrow> u32 \<Rightarrow> byte list \<Rightarrow> byte list" where
  "put_unaligned_le32 P v p =
     (if unaligned_fast P then store_unaligned P 4 (le32_bswap P v) p
      else p[0 := ucast (drop_bit 0 v), 1 := ucast (drop_bit 8 v),
             2 := ucast (drop_bit 16 v), 3 := ucast (drop_bit 24 v)])"

definition put_unaligned_be32 :: "platform \<Rightarrow> u32 \<Rightarrow> byte list \<Rightarrow> byte list" where
  "put_unaligned_be32 P v p =
     (if unaligned_fast P then store_unaligned P 4 (be32_bswap P v) p
      else p[0 := ucast (drop_bit 24 v), 1 := ucast (drop_bit 16 v),
             2 := ucast (drop_bit 8 v), 3 := ucast (drop_bit 0 v)])"

definition put_unaligned_le64 :: "platform \<Rightarrow> u64 \<Rightarrow> byte list \<Rightarrow> byte list" where
  "put_unaligned_le64 P v p =
     (if unaligned_fast P then store_unaligned P 8 (le64_bswap P v) p
      else p[0 := ucast (drop_bit 0 v), 1 := ucast (drop_bit 8 v),
             2 := ucast (drop_bit 16 v), 3 := ucast (drop_bit 24 v),
             4 := ucast (drop_bit 32 v), 5 := ucast (drop_bit 40 v),
             6 := ucast (drop_bit 48 v), 7 := ucast (drop_bit 56 v)])"

definition put_unaligned_leword :: "platform \<Rightarrow> u64 \<Rightarrow> byte list \<Rightarrow> byte list" where
  "put_unaligned_leword P v p =
     (if WORDBITS = 32 then put_unaligned_le32 P (ucast v) p else put_unaligned_le64 P v p)"

section \<open>Bit scans\<close>

text \<open>The portable loops; with a zero argument the forward scan does not end.\<close>

function bsr_loop :: "'a::len word \<Rightarrow> nat \<Rightarrow> nat" where
  "bsr_loop v i = (if drop_bit 1 v \<noteq> 0 then bsr_loop (drop_bit 1 v) (Suc i) else i)"
  by pat_completeness auto
termination
proof (relation "measure (\<lambda>(v, i). unat v)")
  fix v :: "'a word" and i :: nat
  assume "drop_bit 1 v \<noteq> 0"
  then have "v \<noteq> 0" by auto
  then have "0 < unat v" by (simp add: unat_gt_0)
  moreover have "drop_bit 1 (unat v) = unat v div 2" by (simp add: drop_bit_eq_div)
  then have "unat (drop_bit 1 v) = unat v div 2" by (simp only: unat_drop_bit_eq)
  ultimately show "((drop_bit 1 v, Suc i), v, i) \<in> measure (\<lambda>(v, i). unat v)" by simp
qed simp

declare bsr_loop.simps [simp del]

definition bsr32 :: "u32 \<Rightarrow> nat" where "bsr32 v = bsr_loop v 0"
definition bsr64 :: "u64 \<Rightarrow> nat" where "bsr64 v = bsr_loop v 0"

definition bsrw :: "u64 \<Rightarrow> nat" where
  "bsrw v = (if WORDBITS = 32 then bsr32 (ucast v) else bsr64 v)"

partial_function (option) bsf_loop :: "'a::len word \<Rightarrow> nat \<Rightarrow> nat option" where
  "bsf_loop v i = (if v AND 1 = 0 then bsf_loop (drop_bit 1 v) (Suc i) else Some i)"

declare bsf_loop.simps [code]

definition bsf32 :: "u32 \<Rightarrow> nat option" where "bsf32 v = bsf_loop v 0"
definition bsf64 :: "u64 \<Rightarrow> nat option" where "bsf64 v = bsf_loop v 0"

definition bsfw :: "u64 \<Rightarrow> nat option" where
  "bsfw v = (if WORDBITS = 32 then bsf32 (ucast v) else bsf64 v)"

section \<open>Loads and stores do not depend on the platform\<close>

lemma take_explicit:
  "2 \<le> length p \<Longrightarrow> take 2 p = [p ! 0, p ! 1]"
  "4 \<le> length p \<Longrightarrow> take 4 p = [p ! 0, p ! 1, p ! 2, p ! 3]"
  "8 \<le> length p \<Longrightarrow> take 8 p = [p ! 0, p ! 1, p ! 2, p ! 3, p ! 4, p ! 5, p ! 6, p ! 7]"
  by (simp_all add: list_eq_iff_nth_eq nth_Cons' less_Suc_eq numeral_eq_Suc One_nat_def)

lemma and_byte: "v AND push_bit k (mask 8) = push_bit k (take_bit 8 (drop_bit k v))" for v :: "'a::len word"
  by (rule bit_word_eqI) (auto simp: bit_simps)

lemma drop_push_byte:
  "m \<le> n \<Longrightarrow> n + 8 \<le> LENGTH('a) \<Longrightarrow>
   drop_bit m (push_bit n (take_bit 8 v)) = push_bit (n - m) (take_bit 8 (v :: 'a::len word))"
  by (rule bit_word_eqI) (auto simp: bit_simps add.commute)

lemma bswap32_bytes:
  "bswap32 v = push_bit 24 (take_bit 8 v) OR push_bit 16 (take_bit 8 (drop_bit 8 v)) OR
     push_bit 8 (take_bit 8 (drop_bit 16 v)) OR take_bit 8 (drop_bit 24 v)"
proof -
  have m: "(0x000000FF :: u32) = push_bit 0 (mask 8)" "(0x0000FF00 :: u32) = push_bit 8 (mask 8)"
    "(0x00FF0000 :: u32) = push_bit 16 (mask 8)" "(0xFF000000 :: u32) = push_bit 24 (mask 8)"
    by (simp_all add: mask_eq_exp_minus_1 push_bit_eq_mult)
  show ?thesis
    unfolding bswap32_def m and_byte by (simp add: drop_push_byte push_bit_push_bit)
qed

lemma bswap64_bytes:
  "bswap64 v = push_bit 56 (take_bit 8 v) OR push_bit 48 (take_bit 8 (drop_bit 8 v)) OR
     push_bit 40 (take_bit 8 (drop_bit 16 v)) OR push_bit 32 (take_bit 8 (drop_bit 24 v)) OR
     push_bit 24 (take_bit 8 (drop_bit 32 v)) OR push_bit 16 (take_bit 8 (drop_bit 40 v)) OR
     push_bit 8 (take_bit 8 (drop_bit 48 v)) OR take_bit 8 (drop_bit 56 v)"
proof -
  have m: "(0x00000000000000FF :: u64) = push_bit 0 (mask 8)" "(0x000000000000FF00 :: u64) = push_bit 8 (mask 8)"
    "(0x0000000000FF0000 :: u64) = push_bit 16 (mask 8)" "(0x00000000FF000000 :: u64) = push_bit 24 (mask 8)"
    "(0x000000FF00000000 :: u64) = push_bit 32 (mask 8)" "(0x0000FF0000000000 :: u64) = push_bit 40 (mask 8)"
    "(0x00FF000000000000 :: u64) = push_bit 48 (mask 8)" "(0xFF00000000000000 :: u64) = push_bit 56 (mask 8)"
    by (simp_all add: mask_eq_exp_minus_1 push_bit_eq_mult)
  show ?thesis
    unfolding bswap64_def m and_byte by (simp add: drop_push_byte push_bit_push_bit)
qed

lemma bit_bytes_word:
  "bit (bytes_word bs :: 'a::len word) n \<longleftrightarrow>
     n < LENGTH('a) \<and> n div 8 < length bs \<and> bit (bs ! (n div 8)) (n mod 8)"
proof (induction bs arbitrary: n)
  case (Cons b bs)
  show ?case
  proof (cases "n < 8")
    case True
    then show ?thesis by (auto simp: bit_simps dest: bit_imp_le_length)
  next
    case False
    then have "n div 8 = Suc ((n - 8) div 8)" "(n - 8) mod 8 = n mod 8"
      by (simp_all add: div_if mod_if)
    then show ?thesis using False by (auto simp: bit_simps Cons dest: bit_imp_le_length)
  qed
qed simp

lemma byte_of_word:
  assumes "k < length bs" and "8 * length bs \<le> LENGTH('a)"
  shows "take_bit 8 (drop_bit (8 * k) (bytes_word bs :: 'a::len word)) = ucast (bs ! k)"
proof (rule bit_word_eqI)
  fix n assume "n < LENGTH('a)"
  have "(8 * k + n) div 8 = k \<and> (8 * k + n) mod 8 = n" if "n < 8" using that by simp
  moreover have "8 * k + n < LENGTH('a)" if "n < 8" using that assms by simp
  moreover have "\<not> bit (bs ! k) n" if "\<not> n < 8" using that bit_imp_le_length by force
  ultimately show "bit (take_bit 8 (drop_bit (8 * k) (bytes_word bs :: 'a word))) n =
      bit (ucast (bs ! k) :: 'a word) n"
    using assms(1) \<open>n < LENGTH('a)\<close> by (cases "n < 8") (simp_all add: bit_simps bit_bytes_word)
qed

lemma bswap_bytes:
  "length bs = 2 \<Longrightarrow> bswap16 (bytes_word bs) = bytes_word (rev bs)"
  "length bs = 4 \<Longrightarrow> bswap32 (bytes_word bs) = bytes_word (rev bs)"
  "length bs = 8 \<Longrightarrow> bswap64 (bytes_word bs) = bytes_word (rev bs)"
proof -
  assume "length bs = 2"
  then obtain a b where "bs = [a, b]" by (auto simp: numeral_eq_Suc length_Suc_conv One_nat_def)
  then show "bswap16 (bytes_word bs) = bytes_word (rev bs)"
    by (auto simp: bswap16_def intro!: bit_word_eqI) (auto simp: bit_simps dest: bit_imp_le_length)
next
  assume l: "length bs = 4"
  have e: "rev bs = [bs ! 3, bs ! 2, bs ! 1, bs ! 0]"
    using l by (auto simp: numeral_eq_Suc length_Suc_conv One_nat_def)
  show "bswap32 (bytes_word bs) = bytes_word (rev bs)"
    unfolding e using byte_of_word [of 0 bs, where 'a = 32] byte_of_word [of 1 bs, where 'a = 32]
      byte_of_word [of 2 bs, where 'a = 32] byte_of_word [of 3 bs, where 'a = 32] l
    by (simp add: bswap32_bytes push_bit_or push_bit_push_bit or.assoc or.commute or.left_commute)
next
  assume l: "length bs = 8"
  have e: "rev bs = [bs ! 7, bs ! 6, bs ! 5, bs ! 4, bs ! 3, bs ! 2, bs ! 1, bs ! 0]"
    using l by (auto simp: numeral_eq_Suc length_Suc_conv One_nat_def)
  show "bswap64 (bytes_word bs) = bytes_word (rev bs)"
    unfolding e using byte_of_word [of 0 bs, where 'a = 64] byte_of_word [of 1 bs, where 'a = 64]
      byte_of_word [of 2 bs, where 'a = 64] byte_of_word [of 3 bs, where 'a = 64]
      byte_of_word [of 4 bs, where 'a = 64] byte_of_word [of 5 bs, where 'a = 64]
      byte_of_word [of 6 bs, where 'a = 64] byte_of_word [of 7 bs, where 'a = 64] l
    by (simp add: bswap64_bytes push_bit_or push_bit_push_bit or.assoc or.commute or.left_commute)
qed

text \<open>Every load is the little-endian word of the bytes, in the order the name says.\<close>

lemma get_unaligned_bytes:
  "2 \<le> length p \<Longrightarrow> get_unaligned_le16 P p = bytes_word (take 2 p)"
  "2 \<le> length p \<Longrightarrow> get_unaligned_be16 P p = bytes_word (rev (take 2 p))"
  "4 \<le> length p \<Longrightarrow> get_unaligned_le32 P p = bytes_word (take 4 p)"
  "4 \<le> length p \<Longrightarrow> get_unaligned_be32 P p = bytes_word (rev (take 4 p))"
  "8 \<le> length p \<Longrightarrow> get_unaligned_le64 P p = bytes_word (take 8 p)"
proof -
  note d = load_unaligned_def bswap_bytes le16_bswap_def be16_bswap_def le32_bswap_def be32_bswap_def
    le64_bswap_def push_bit_or push_bit_push_bit or.assoc or.commute or.left_commute
  show "2 \<le> length p \<Longrightarrow> get_unaligned_le16 P p = bytes_word (take 2 p)"
    by (cases "unaligned_fast P") (simp add: get_unaligned_le16_def d, simp add: get_unaligned_le16_def d take_explicit)
  show "2 \<le> length p \<Longrightarrow> get_unaligned_be16 P p = bytes_word (rev (take 2 p))"
    by (cases "unaligned_fast P") (simp add: get_unaligned_be16_def d, simp add: get_unaligned_be16_def d take_explicit)
  show "4 \<le> length p \<Longrightarrow> get_unaligned_le32 P p = bytes_word (take 4 p)"
    by (cases "unaligned_fast P") (simp add: get_unaligned_le32_def d, simp add: get_unaligned_le32_def d take_explicit)
  show "4 \<le> length p \<Longrightarrow> get_unaligned_be32 P p = bytes_word (rev (take 4 p))"
    by (cases "unaligned_fast P") (simp add: get_unaligned_be32_def d, simp add: get_unaligned_be32_def d take_explicit)
  show "8 \<le> length p \<Longrightarrow> get_unaligned_le64 P p = bytes_word (take 8 p)"
    by (cases "unaligned_fast P") (simp add: get_unaligned_le64_def d, simp add: get_unaligned_le64_def d take_explicit)
qed

text \<open>Bytes and words convert into each other.\<close>

lemma length_word_bytes [simp]: "length (word_bytes n v) = n"
  by (simp add: word_bytes_def)

lemma bytes_of_word:
  assumes "8 * n = LENGTH('a)"
  shows "bytes_word (word_bytes n v) = (v :: 'a::len word)"
proof (rule bit_word_eqI)
  fix k assume k: "k < LENGTH('a)"
  then have d: "k div 8 < n" using assms by (simp add: div_less_iff_less_mult)
  have "8 * (k div 8) + k mod 8 = k" by simp
  moreover have "k mod 8 < LENGTH(8)" by simp
  ultimately show "bit (bytes_word (word_bytes n v) :: 'a word) k = bit v k"
    using k d unfolding bit_bytes_word word_bytes_def
    by (simp add: bit_simps)
qed

lemma word_of_bytes:
  assumes "8 * length bs \<le> LENGTH('a)"
  shows "word_bytes (length bs) (bytes_word bs :: 'a::len word) = bs"
proof (rule nth_equalityI)
  fix k assume "k < length (word_bytes (length bs) (bytes_word bs :: 'a word))"
  then have k: "k < length bs" by simp
  have "ucast (drop_bit (8 * k) (bytes_word bs :: 'a word)) = (bs ! k :: byte)"
  proof (rule bit_word_eqI)
    fix j assume j: "j < LENGTH(8)"
    then have "(8 * k + j) div 8 = k" "(8 * k + j) mod 8 = j" "8 * k + j < LENGTH('a)"
      using assms k by simp_all
    then show "bit (ucast (drop_bit (8 * k) (bytes_word bs :: 'a word)) :: byte) j = bit (bs ! k) j"
      using j k by (simp add: bit_simps bit_bytes_word)
  qed
  then show "word_bytes (length bs) (bytes_word bs :: 'a word) ! k = bs ! k"
    using k by (simp add: word_bytes_def)
qed simp

lemma word_bytes_bswap:
  "word_bytes 2 (bswap16 a) = rev (word_bytes 2 a)"
  "word_bytes 4 (bswap32 b) = rev (word_bytes 4 b)"
  "word_bytes 8 (bswap64 c) = rev (word_bytes 8 c)"
proof -
  have "bswap16 a = bytes_word (rev (word_bytes 2 a))"
    using bswap_bytes(1) [of "word_bytes 2 a"] bytes_of_word [of 2 a] by simp
  then show "word_bytes 2 (bswap16 a) = rev (word_bytes 2 a)"
    using word_of_bytes [of "rev (word_bytes 2 a)", where 'a = 16] by simp
  have "bswap32 b = bytes_word (rev (word_bytes 4 b))"
    using bswap_bytes(2) [of "word_bytes 4 b"] bytes_of_word [of 4 b] by simp
  then show "word_bytes 4 (bswap32 b) = rev (word_bytes 4 b)"
    using word_of_bytes [of "rev (word_bytes 4 b)", where 'a = 32] by simp
  have "bswap64 c = bytes_word (rev (word_bytes 8 c))"
    using bswap_bytes(3) [of "word_bytes 8 c"] bytes_of_word [of 8 c] by simp
  then show "word_bytes 8 (bswap64 c) = rev (word_bytes 8 c)"
    using word_of_bytes [of "rev (word_bytes 8 c)", where 'a = 64] by simp
qed

lemma update_explicit:
  "2 \<le> length p \<Longrightarrow> p[0 := a, 1 := b] = [a, b] @ drop 2 p"
  "4 \<le> length p \<Longrightarrow> p[0 := a, 1 := b, 2 := c, 3 := d] = [a, b, c, d] @ drop 4 p"
  "8 \<le> length p \<Longrightarrow> p[0 := a, 1 := b, 2 := c, 3 := d, 4 := e, 5 := f, 6 := g, 7 := h] =
     [a, b, c, d, e, f, g, h] @ drop 8 p"
  by (auto simp: Suc_le_length_iff numeral_eq_Suc One_nat_def)

text \<open>Every store writes the bytes of the word, in the order the name says, and keeps the others.\<close>

lemma put_unaligned_bytes:
  "2 \<le> length p \<Longrightarrow> put_unaligned_le16 P a p = word_bytes 2 a @ drop 2 p"
  "2 \<le> length p \<Longrightarrow> put_unaligned_be16 P a p = rev (word_bytes 2 a) @ drop 2 p"
  "4 \<le> length p \<Longrightarrow> put_unaligned_le32 P b p = word_bytes 4 b @ drop 4 p"
  "4 \<le> length p \<Longrightarrow> put_unaligned_be32 P b p = rev (word_bytes 4 b) @ drop 4 p"
  "8 \<le> length p \<Longrightarrow> put_unaligned_le64 P c p = word_bytes 8 c @ drop 8 p"
proof -
  note d = store_unaligned_def word_bytes_bswap le16_bswap_def be16_bswap_def le32_bswap_def be32_bswap_def
    le64_bswap_def
  have u: "[0..<2] = [0, 1 :: nat]" "[0..<4] = [0, 1, 2, 3 :: nat]" "[0..<8] = [0, 1, 2, 3, 4, 5, 6, 7 :: nat]"
    by code_simp+
  show "2 \<le> length p \<Longrightarrow> put_unaligned_le16 P a p = word_bytes 2 a @ drop 2 p"
    by (cases "unaligned_fast P") (simp add: put_unaligned_le16_def d, simp add: put_unaligned_le16_def update_explicit(1) word_bytes_def u)
  show "2 \<le> length p \<Longrightarrow> put_unaligned_be16 P a p = rev (word_bytes 2 a) @ drop 2 p"
    by (cases "unaligned_fast P") (simp add: put_unaligned_be16_def d, simp add: put_unaligned_be16_def update_explicit(1) word_bytes_def u)
  show "4 \<le> length p \<Longrightarrow> put_unaligned_le32 P b p = word_bytes 4 b @ drop 4 p"
    by (cases "unaligned_fast P") (simp add: put_unaligned_le32_def d, simp add: put_unaligned_le32_def update_explicit(2) word_bytes_def u)
  show "4 \<le> length p \<Longrightarrow> put_unaligned_be32 P b p = rev (word_bytes 4 b) @ drop 4 p"
    by (cases "unaligned_fast P") (simp add: put_unaligned_be32_def d, simp add: put_unaligned_be32_def update_explicit(2) word_bytes_def u)
  show "8 \<le> length p \<Longrightarrow> put_unaligned_le64 P c p = word_bytes 8 c @ drop 8 p"
    by (cases "unaligned_fast P") (simp add: put_unaligned_le64_def d, simp add: put_unaligned_le64_def update_explicit(3) word_bytes_def u)
qed

text \<open>C30. On every 64-bit platform, with any byte order and with or without fast unaligned accesses, a load
  reads back what a store of the same width and order wrote on any other platform, and the store
  changes no byte behind the word.\<close>

theorem unaligned_round_trip:
  assumes "8 \<le> length p"
  shows "get_unaligned_le16 P (put_unaligned_le16 P' a p) = a \<and>
     get_unaligned_be16 P (put_unaligned_be16 P' a p) = a \<and>
     get_unaligned_le32 P (put_unaligned_le32 P' b p) = b \<and>
     get_unaligned_be32 P (put_unaligned_be32 P' b p) = b \<and>
     get_unaligned_leword P (put_unaligned_leword P' c p) = c \<and>
     drop 4 (put_unaligned_le32 P' b p) = drop 4 p \<and>
     drop 8 (put_unaligned_leword P' c p) = drop 8 p"
  using assms
  by (simp add: put_unaligned_bytes get_unaligned_bytes bytes_of_word get_unaligned_leword_def
      put_unaligned_leword_def WORDBITS_def WORDBYTES_def)

lemma unaligned_round_trip_witness:
  "get_unaligned_be32 \<lparr>unaligned_fast = True, little_endian = True\<rparr>
     (put_unaligned_be32 \<lparr>unaligned_fast = False, little_endian = False\<rparr> 0x12345678 (replicate 8 0)) = 0x12345678"
  using unaligned_round_trip [of "replicate 8 0"] by simp

section \<open>What the bit scans find\<close>

lemma bsr_loop_bounds:
  "v \<noteq> 0 \<Longrightarrow> \<exists>k. bsr_loop v i = i + k \<and> 2 ^ k \<le> unat v \<and> unat v < 2 ^ Suc k"
proof (induction v i rule: bsr_loop.induct)
  case (1 v i)
  have h: "unat (drop_bit 1 v) = unat v div 2"
    unfolding unat_drop_bit_eq by (simp add: drop_bit_eq_div)
  show ?case
  proof (cases "drop_bit 1 v = 0")
    case True
    then have "unat v div 2 = 0" using h by simp
    moreover have "0 < unat v" using 1(2) by (simp add: unat_gt_0)
    ultimately have "unat v = 1" by linarith
    then show ?thesis using True by (intro exI [of _ 0]) (simp add: bsr_loop.simps [of v])
  next
    case False
    then obtain k where "bsr_loop (drop_bit 1 v) (Suc i) = Suc i + k" "2 ^ k \<le> unat v div 2" "unat v div 2 < 2 ^ Suc k"
      using 1(1) h by metis
    then show ?thesis using False by (intro exI [of _ "Suc k"]) (simp add: bsr_loop.simps [of v], linarith)
  qed
qed

lemma bsr32_of_nat:
  assumes "2 ^ k \<le> n" and "n < 2 ^ Suc k" and "k < 32"
  shows "bsr32 (of_nat n) = k"
proof -
  have "(2 :: nat) ^ Suc k \<le> 2 ^ 32" using assms(3) by (intro power_increasing) simp_all
  then have n: "unat (of_nat n :: u32) = n" using assms(2) by (intro unat_of_nat_u32) simp
  then have "(of_nat n :: u32) \<noteq> 0" using assms(1) by (metis not_one_le_zero one_le_power order_trans unat_0 one_le_numeral)
  then obtain j where j: "bsr32 (of_nat n) = j" "2 ^ j \<le> n" "n < 2 ^ Suc j"
    using bsr_loop_bounds [of "of_nat n :: u32" 0] n by (auto simp: bsr32_def)
  have "(2 :: nat) ^ j < 2 ^ Suc k" "(2 :: nat) ^ k < 2 ^ Suc j" using j(2,3) assms(1,2) by linarith+
  then have "j < Suc k" "k < Suc j" by (simp_all only: power_strict_increasing_iff)
  then show ?thesis using j(1) by simp
qed

end
