(* ===== verification/Deflate_Table.thy ===== *)
theory Deflate_Table
  imports Deflate_Common "HOL-Library.Monad_Syntax"
begin

text \<open>
  The decode tables of the DEFLATE decompressor (\<^verbatim>\<open>build_decode_table\<close> in
  \<^verbatim>\<open>tools/deflate/lib/deflate_decompress.c\<close>). Counters, indices and bit-reversed codewords are
  natural numbers below \<open>2^32\<close>; table entries are 32-bit words. \<open>None\<close> stands for an access
  outside an array or to an entry of the counts that was never set.
\<close>

section \<open>Constants (deflate_constants.h, deflate_decompress.c)\<close>

definition DEFLATE_NUM_PRECODE_SYMS :: nat where "DEFLATE_NUM_PRECODE_SYMS = 19"
definition DEFLATE_NUM_LITLEN_SYMS :: nat where "DEFLATE_NUM_LITLEN_SYMS = 288"
definition DEFLATE_NUM_OFFSET_SYMS :: nat where "DEFLATE_NUM_OFFSET_SYMS = 32"
definition DEFLATE_MAX_NUM_SYMS :: nat where "DEFLATE_MAX_NUM_SYMS = 288"
definition DEFLATE_MAX_PRE_CODEWORD_LEN :: nat where "DEFLATE_MAX_PRE_CODEWORD_LEN = 7"
definition DEFLATE_MAX_LITLEN_CODEWORD_LEN :: nat where "DEFLATE_MAX_LITLEN_CODEWORD_LEN = 15"
definition DEFLATE_MAX_OFFSET_CODEWORD_LEN :: nat where "DEFLATE_MAX_OFFSET_CODEWORD_LEN = 15"
definition DEFLATE_MAX_CODEWORD_LEN :: nat where "DEFLATE_MAX_CODEWORD_LEN = 15"
definition DEFLATE_MAX_LENS_OVERRUN :: nat where "DEFLATE_MAX_LENS_OVERRUN = 137"
definition DEFLATE_MAX_EXTRA_LENGTH_BITS :: nat where "DEFLATE_MAX_EXTRA_LENGTH_BITS = 5"
definition DEFLATE_MAX_EXTRA_OFFSET_BITS :: nat where "DEFLATE_MAX_EXTRA_OFFSET_BITS = 13"
definition DEFLATE_MAX_MATCH_LEN :: nat where "DEFLATE_MAX_MATCH_LEN = 258"

definition PRECODE_TABLEBITS :: nat where "PRECODE_TABLEBITS = 7"
definition PRECODE_ENOUGH :: nat where "PRECODE_ENOUGH = 128"
definition LITLEN_TABLEBITS :: nat where "LITLEN_TABLEBITS = 11"
definition LITLEN_ENOUGH :: nat where "LITLEN_ENOUGH = 2342"
definition OFFSET_TABLEBITS :: nat where "OFFSET_TABLEBITS = 8"
definition OFFSET_ENOUGH :: nat where "OFFSET_ENOUGH = 402"

definition LENGTH_MAXBITS :: nat where
  "LENGTH_MAXBITS = DEFLATE_MAX_LITLEN_CODEWORD_LEN + DEFLATE_MAX_EXTRA_LENGTH_BITS"
definition OFFSET_MAXBITS :: nat where
  "OFFSET_MAXBITS = DEFLATE_MAX_OFFSET_CODEWORD_LEN + DEFLATE_MAX_EXTRA_OFFSET_BITS"
definition OFFSET_MAXFASTBITS :: nat where
  "OFFSET_MAXFASTBITS = OFFSET_TABLEBITS + DEFLATE_MAX_EXTRA_OFFSET_BITS"

definition HUFFDEC_LITERAL :: u32 where "HUFFDEC_LITERAL = 0x80000000"
definition HUFFDEC_EXCEPTIONAL :: u32 where "HUFFDEC_EXCEPTIONAL = 0x00008000"
definition HUFFDEC_SUBTABLE_POINTER :: u32 where "HUFFDEC_SUBTABLE_POINTER = 0x00004000"
definition HUFFDEC_END_OF_BLOCK :: u32 where "HUFFDEC_END_OF_BLOCK = 0x00002000"

section \<open>The static part of the table entries\<close>

definition precode_decode_results :: "u32 list" where
  "precode_decode_results = map (\<lambda>presym. push_bit 16 (of_nat presym)) [0..<19]"

definition base_entry :: "nat \<times> nat \<Rightarrow> u32" where
  "base_entry = (\<lambda>(base, extra). push_bit 16 (of_nat base) OR of_nat extra)"

definition length_bases :: "(nat \<times> nat) list" where
  "length_bases =
     [(3, 0), (4, 0), (5, 0), (6, 0), (7, 0), (8, 0), (9, 0), (10, 0),
      (11, 1), (13, 1), (15, 1), (17, 1), (19, 2), (23, 2), (27, 2), (31, 2),
      (35, 3), (43, 3), (51, 3), (59, 3), (67, 4), (83, 4), (99, 4), (115, 4),
      (131, 5), (163, 5), (195, 5), (227, 5), (258, 0), (258, 0), (258, 0)]"

definition litlen_decode_results :: "u32 list" where
  "litlen_decode_results =
     map (\<lambda>literal. HUFFDEC_LITERAL OR push_bit 16 (of_nat literal)) [0..<256] @
     [HUFFDEC_EXCEPTIONAL OR HUFFDEC_END_OF_BLOCK] @
     map base_entry length_bases"

definition offset_bases :: "(nat \<times> nat) list" where
  "offset_bases =
     [(1, 0), (2, 0), (3, 0), (4, 0), (5, 1), (7, 1), (9, 2), (13, 2),
      (17, 3), (25, 3), (33, 4), (49, 4), (65, 5), (97, 5), (129, 6), (193, 6),
      (257, 7), (385, 7), (513, 8), (769, 8), (1025, 9), (1537, 9), (2049, 10), (3073, 10),
      (4097, 11), (6145, 11), (8193, 12), (12289, 12), (16385, 13), (24577, 13), (24577, 13), (24577, 13)]"

definition offset_decode_results :: "u32 list" where
  "offset_decode_results = map base_entry offset_bases"

section \<open>Arrays\<close>

definition fetch :: "'a list \<Rightarrow> nat \<Rightarrow> 'a option" where
  "fetch xs i = (if i < length xs then Some (xs ! i) else None)"

definition store :: "'a list \<Rightarrow> nat \<Rightarrow> 'a \<Rightarrow> 'a list option" where
  "store xs i v = (if i < length xs then Some (xs[i := v]) else None)"

text \<open>\<^verbatim>\<open>memcpy(&t[n], t, n * sizeof(t[0]))\<close>.\<close>

definition double_table :: "nat \<Rightarrow> 'a list \<Rightarrow> 'a list option" where
  "double_table n t = (if 2 * n \<le> length t then Some (take n t @ take n t @ drop (2 * n) t) else None)"

definition make_decode_table_entry :: "u32 list \<Rightarrow> nat \<Rightarrow> nat \<Rightarrow> u32 option" where
  "make_decode_table_entry decode_results symb len =
     Option.bind (fetch decode_results symb) (\<lambda>r. Some (r + push_bit 8 (of_nat len) + of_nat len))"

section \<open>Counting and sorting\<close>

fun count_lens :: "nat list \<Rightarrow> nat list \<Rightarrow> nat list option" where
  "count_lens [] len_counts = Some len_counts"
| "count_lens (l # lens) len_counts =
     Option.bind (fetch len_counts l) (\<lambda>c. count_lens lens (len_counts[l := c + 1]))"

fun used_max :: "nat list \<Rightarrow> nat \<Rightarrow> nat" where
  "used_max len_counts 0 = 0"
| "used_max len_counts (Suc n) =
     (if 1 < Suc n \<and> len_counts ! Suc n = 0 then used_max len_counts n else Suc n)"

text \<open>One pass computes the offsets of the lengths in the sorted order and the codespace in use.\<close>

fun offsets_loop :: "nat list \<Rightarrow> nat list \<Rightarrow> nat \<Rightarrow> nat list \<times> nat" where
  "offsets_loop [] offs codespace = (offs, codespace)"
| "offsets_loop [c] offs codespace = (offs, 2 * codespace + c)"
| "offsets_loop (c # d # cs) offs codespace =
     offsets_loop (d # cs) (offs @ [last offs + c]) (2 * codespace + c)"

definition offsets_codespace :: "nat list \<Rightarrow> nat \<Rightarrow> nat list \<times> nat" where
  "offsets_codespace len_counts max_len =
     offsets_loop (take max_len (drop 1 len_counts)) [0, len_counts ! 0] 0"

fun sort_syms :: "nat list \<Rightarrow> nat \<Rightarrow> nat list \<Rightarrow> nat list \<Rightarrow> (nat list \<times> nat list) option" where
  "sort_syms [] symb offs sorted_syms = Some (offs, sorted_syms)"
| "sort_syms (l # lens) symb offs sorted_syms =
     Option.bind (fetch offs l) (\<lambda>k. Option.bind (store sorted_syms k symb) (\<lambda>sorted_syms.
       sort_syms lens (Suc symb) (offs[l := Suc k]) sorted_syms))"

section \<open>The main table\<close>

text \<open>The next bit-reversed codeword; \<open>m\<close> is the codeword of this length of all ones.\<close>

definition next_codeword :: "nat \<Rightarrow> nat \<Rightarrow> nat" where
  "next_codeword m codeword =
     (let bit = 2 ^ bsr32 (of_nat (codeword XOR m))
      in (codeword AND (bit - 1)) OR bit)"

text \<open>After the codeword of all ones: the table doubles up to its size.\<close>

fun fill_up :: "nat \<Rightarrow> nat \<Rightarrow> u32 list \<Rightarrow> u32 list option" where
  "fill_up 0 cur_table_end t = Some t"
| "fill_up (Suc k) cur_table_end t =
     Option.bind (double_table cur_table_end t) (\<lambda>t. fill_up k (2 * cur_table_end) t)"

text \<open>To the next length that is in use.\<close>

function advance_len :: "nat list \<Rightarrow> nat \<Rightarrow> nat \<Rightarrow> nat \<Rightarrow> u32 list \<Rightarrow>
    (nat \<times> nat \<times> nat \<times> u32 list) option" where
  "advance_len len_counts table_bits len cur_table_end t =
     (if length len_counts \<le> Suc len then None
      else Option.bind (if Suc len \<le> table_bits
             then Option.bind (double_table cur_table_end t) (\<lambda>t. Some (2 * cur_table_end, t))
             else Some (cur_table_end, t))
           (\<lambda>(cur_table_end, t).
              if len_counts ! Suc len = 0 then advance_len len_counts table_bits (Suc len) cur_table_end t
              else Some (Suc len, len_counts ! Suc len, cur_table_end, t)))"
  by pat_completeness auto
termination by (relation "measure (\<lambda>(cs, tb, len, e, t). length cs - len)") auto

declare advance_len.simps [simp del]

datatype direct_result =
    Complete "u32 list"
  | Need_subtables "nat list" nat nat nat "u32 list"

fun fill_direct :: "u32 list \<Rightarrow> nat list \<Rightarrow> nat \<Rightarrow> nat list \<Rightarrow> nat \<Rightarrow> nat \<Rightarrow> nat \<Rightarrow> nat \<Rightarrow> u32 list \<Rightarrow>
    direct_result option" where
  "fill_direct res len_counts table_bits [] codeword len count cur_table_end t = None"
| "fill_direct res len_counts table_bits (symb # syms) codeword len count cur_table_end t =
     Option.bind (make_decode_table_entry res symb len) (\<lambda>e.
     Option.bind (store t codeword e) (\<lambda>t.
     if codeword = cur_table_end - 1
     then Option.bind (fill_up (table_bits - len) cur_table_end t) (\<lambda>t. Some (Complete t))
     else let codeword = next_codeword (cur_table_end - 1) codeword in
          if count - 1 \<noteq> 0
          then fill_direct res len_counts table_bits syms codeword len (count - 1) cur_table_end t
          else Option.bind (advance_len len_counts table_bits len cur_table_end t)
                 (\<lambda>(len, count, cur_table_end, t).
                    if len \<le> table_bits
                    then fill_direct res len_counts table_bits syms codeword len count cur_table_end t
                    else Some (Need_subtables syms codeword len count t))))"

section \<open>Subtables\<close>

function subtable_size :: "nat list \<Rightarrow> nat \<Rightarrow> nat \<Rightarrow> nat \<Rightarrow> nat option" where
  "subtable_size len_counts table_bits subtable_bits codespace_used =
     (if codespace_used < 2 ^ subtable_bits
      then (if length len_counts \<le> table_bits + Suc subtable_bits then None
            else subtable_size len_counts table_bits (Suc subtable_bits)
                   (2 * codespace_used + len_counts ! (table_bits + Suc subtable_bits)))
      else Some subtable_bits)"
  by pat_completeness auto
termination by (relation "measure (\<lambda>(cs, tb, sb, u). length cs - (tb + sb))") auto

declare subtable_size.simps [simp del]

function fill_stride :: "nat \<Rightarrow> nat \<Rightarrow> nat \<Rightarrow> u32 \<Rightarrow> u32 list \<Rightarrow> u32 list option" where
  "fill_stride i k table_end e t =
     Option.bind (store t i e) (\<lambda>t.
       if i + 2 ^ k < table_end then fill_stride (i + 2 ^ k) k table_end e t else Some t)"
  by pat_completeness auto
termination by (relation "measure (\<lambda>(i, k, e, v, t). e - i)") (auto intro!: diff_less_mono2)

declare fill_stride.simps [simp del]

fun next_len :: "nat list \<Rightarrow> nat \<Rightarrow> nat \<Rightarrow> (nat \<times> nat) option" where
  "next_len [] len count = (if count = 0 then None else Some (len, count))"
| "next_len (c # cs) len count =
     (if count = 0 then next_len cs (Suc len) c else Some (len, count))"

text \<open>The start of a subtable: its index, its end, and the pointer to it in the main table.\<close>

definition start_subtable :: "nat list \<Rightarrow> nat \<Rightarrow> nat \<Rightarrow> nat \<Rightarrow> nat \<Rightarrow> nat \<Rightarrow> u32 list \<Rightarrow>
    (nat \<times> u32 list) option" where
  "start_subtable len_counts table_bits subtable_prefix subtable_start len count t =
     Option.bind (subtable_size len_counts table_bits (len - table_bits) count) (\<lambda>subtable_bits.
     Option.bind (store t subtable_prefix
       (push_bit 16 (of_nat subtable_start) OR HUFFDEC_EXCEPTIONAL OR HUFFDEC_SUBTABLE_POINTER OR
        push_bit 8 (of_nat subtable_bits) OR of_nat table_bits)) (\<lambda>t.
     Some (subtable_start + 2 ^ subtable_bits, t)))"

fun fill_subtables :: "u32 list \<Rightarrow> nat list \<Rightarrow> nat \<Rightarrow> nat list \<Rightarrow> nat \<Rightarrow> nat \<Rightarrow> nat \<Rightarrow> nat \<Rightarrow> nat \<Rightarrow> nat \<Rightarrow>
    u32 list \<Rightarrow> u32 list option" where
  "fill_subtables res len_counts table_bits [] codeword len count cur_table_end prefix start t = None"
| "fill_subtables res len_counts table_bits (symb # syms) codeword len count cur_table_end prefix start t =
     Option.bind
       (if codeword AND (2 ^ table_bits - 1) \<noteq> prefix
        then Option.bind (start_subtable len_counts table_bits (codeword AND (2 ^ table_bits - 1))
               cur_table_end len count t)
               (\<lambda>(e, t). Some (codeword AND (2 ^ table_bits - 1), cur_table_end, e, t))
        else Some (prefix, start, cur_table_end, t))
     (\<lambda>(prefix, start, cur_table_end, t).
     Option.bind (make_decode_table_entry res symb (len - table_bits)) (\<lambda>e.
     Option.bind (fill_stride (start + drop_bit table_bits codeword) (len - table_bits) cur_table_end e t) (\<lambda>t.
     if codeword = 2 ^ len - 1 then Some t
     else Option.bind (next_len (drop (Suc len) len_counts) len (count - 1)) (\<lambda>(len', count).
       fill_subtables res len_counts table_bits syms (next_codeword (2 ^ len - 1) codeword) len' count
         cur_table_end prefix start t))))"

section \<open>Building a table\<close>

fun first_len :: "nat list \<Rightarrow> nat \<Rightarrow> (nat \<times> nat) option" where
  "first_len [] len = None"
| "first_len (c # cs) len = (if c = 0 then first_len cs (Suc len) else Some (len, c))"

definition fill_all :: "nat \<Rightarrow> u32 \<Rightarrow> u32 list \<Rightarrow> u32 list option" where
  "fill_all table_bits e t =
     (if 2 ^ table_bits \<le> length t then Some (replicate (2 ^ table_bits) e @ drop (2 ^ table_bits) t)
      else None)"

definition fill_incomplete :: "u32 list \<Rightarrow> nat list \<Rightarrow> nat \<Rightarrow> nat \<Rightarrow> nat \<Rightarrow> nat list \<Rightarrow> u32 list \<Rightarrow>
    (bool \<times> u32 list) option" where
  "fill_incomplete res len_counts codespace_used max_len table_bits syms t =
     (if codespace_used = 0
      then Option.bind (make_decode_table_entry res 0 1) (\<lambda>e.
           Option.bind (fill_all table_bits e t) (\<lambda>t. Some (True, t)))
      else if codespace_used \<noteq> 2 ^ (max_len - 1) \<or> len_counts ! 1 \<noteq> 1 then Some (False, t)
      else Option.bind (fetch syms 0) (\<lambda>symb. Option.bind (make_decode_table_entry res symb 1) (\<lambda>e.
           Option.bind (fill_all table_bits e t) (\<lambda>t. Some (True, t)))))"

definition fill_complete :: "u32 list \<Rightarrow> nat list \<Rightarrow> nat \<Rightarrow> nat list \<Rightarrow> u32 list \<Rightarrow> u32 list option" where
  "fill_complete res len_counts table_bits syms t =
     Option.bind (first_len (drop 1 len_counts) 1) (\<lambda>(len, count).
     Option.bind (if len \<le> table_bits
                  then fill_direct res len_counts table_bits syms 0 len count (2 ^ len) t
                  else Some (Need_subtables syms 0 len count t))
       (\<lambda>r. case r of
          Complete t \<Rightarrow> Some t
        | Need_subtables syms codeword len count t \<Rightarrow>
            fill_subtables res len_counts table_bits syms codeword len count (2 ^ table_bits)
              (2 ^ 32 - 1) 0 t))"

definition build_decode_table :: "u32 list \<Rightarrow> nat list \<Rightarrow> u32 list \<Rightarrow> nat \<Rightarrow> nat \<Rightarrow> bool \<Rightarrow>
    (bool \<times> u32 list \<times> nat) option" where
  "build_decode_table t lens res table_bits max_codeword_len dynamic_table_bits =
     Option.bind (count_lens lens (replicate (Suc max_codeword_len) 0)) (\<lambda>len_counts.
     let max_len = used_max len_counts max_codeword_len;
         table_bits = (if dynamic_table_bits then min table_bits max_len else table_bits);
         (offsets, codespace_used) = offsets_codespace len_counts max_len
     in Option.bind (sort_syms lens 0 offsets (replicate DEFLATE_MAX_NUM_SYMS 0)) (\<lambda>(offsets, sorted_syms).
     let syms = drop (offsets ! 0) (take (length lens) sorted_syms) in
     if 2 ^ max_len < codespace_used then Some (False, t, table_bits)
     else if codespace_used < 2 ^ max_len
     then Option.bind (fill_incomplete res len_counts codespace_used max_len table_bits syms t)
            (\<lambda>(ok, t). Some (ok, t, table_bits))
     else Option.bind (fill_complete res len_counts table_bits syms t) (\<lambda>t. Some (True, t, table_bits))))"

end
