(* ===== verification/Deflate_Stream.thy ===== *)
theory Deflate_Stream
  imports Deflate_Table
begin

text \<open>
  The state of the DEFLATE decompressor and its input bit stream (\<^verbatim>\<open>deflate_decompress.c\<close>): the
  input is a list of bytes, positions in it and in the output buffer are indices, \<^verbatim>\<open>bitbuf\<close> and
  \<^verbatim>\<open>bitsleft\<close> are words of the width the source gives them, the upper bits of \<^verbatim>\<open>bitsleft\<close> garbage
  included. The word size is 64 bits; whether unaligned accesses are fast is the parameter
  \<open>platform\<close>.
\<close>

section \<open>Results and state\<close>

datatype libdeflate_result = LIBDEFLATE_SUCCESS | LIBDEFLATE_BAD_DATA | LIBDEFLATE_SHORT_OUTPUT
  | LIBDEFLATE_INSUFFICIENT_SPACE

text \<open>
  \<^verbatim>\<open>struct libdeflate_decompressor\<close>. Its arrays that share storage in a union are kept apart:
  \<^verbatim>\<open>precode_lens\<close> is dead once the precode table is built, \<^verbatim>\<open>lens\<close> and the precode table are dead
  once the length table is built, which reads \<^verbatim>\<open>lens\<close> before it writes, and the length table is
  not read again once a dynamic block has overwritten it, since \<^verbatim>\<open>static_codes_loaded\<close> is cleared.
\<close>

record decompressor =
  precode_lens :: "byte list"
  lens :: "byte list"
  precode_decode_table :: "u32 list"
  litlen_decode_table :: "u32 list"
  offset_decode_table :: "u32 list"
  static_codes_loaded :: bool
  litlen_tablebits :: nat

record dstream =
  in_next :: nat
  bitbuf :: u64
  bitsleft :: u32
  overread_count :: nat
  out_buf :: "byte list"
  out_next :: nat
  decomp :: decompressor

text \<open>How a run stops early: a return from the routine, an access outside a buffer or an array, or a
  copy that makes no progress.\<close>

datatype stop = Return libdeflate_result dstream | OutOfRange | NoProgress

type_synonym 'a run = "stop + 'a"

definition bind_run :: "'a run \<Rightarrow> ('a \<Rightarrow> 'b run) \<Rightarrow> 'b run" where
  "bind_run r f = (case r of Inl e \<Rightarrow> Inl e | Inr x \<Rightarrow> f x)"

lemma bind_run_simps [simp]: "bind_run (Inr x) f = f x" "bind_run (Inl e) f = Inl e"
  by (simp_all add: bind_run_def)

lemma bind_run_Inr: "bind_run r f = Inr y \<longleftrightarrow> (\<exists>x. r = Inr x \<and> f x = Inr y)"
  by (cases r) simp_all

lemma bind_run_cong [fundef_cong]:
  "r = r' \<Longrightarrow> (\<And>x. r' = Inr x \<Longrightarrow> f x = f' x) \<Longrightarrow> bind_run r f = bind_run r' f'"
  by (cases r') simp_all

definition in_range :: "'a option \<Rightarrow> 'a run" where
  "in_range r = (case r of None \<Rightarrow> Inl OutOfRange | Some x \<Rightarrow> Inr x)"

lemma in_range_simps [simp]: "in_range (Some x) = Inr x" "in_range None = Inl OutOfRange"
  by (simp_all add: in_range_def)

text \<open>\<^verbatim>\<open>SAFETY_CHECK(expr)\<close>.\<close>

definition safety_check :: "bool \<Rightarrow> dstream \<Rightarrow> unit run" where
  "safety_check b s = (if b then Inr () else Inl (Return LIBDEFLATE_BAD_DATA s))"

section \<open>The bit buffer\<close>

definition BITBUF_NBITS :: nat where "BITBUF_NBITS = 64"

definition BITMASK :: "nat \<Rightarrow> u64" where
  "BITMASK n = push_bit n 1 - 1"

definition MAX_BITSLEFT :: "platform \<Rightarrow> nat" where
  "MAX_BITSLEFT P = (if unaligned_fast P then BITBUF_NBITS - 1 else BITBUF_NBITS)"

definition CONSUMABLE_NBITS :: "platform \<Rightarrow> nat" where
  "CONSUMABLE_NBITS P = MAX_BITSLEFT P - 7"

definition FASTLOOP_PRELOADABLE_NBITS :: "platform \<Rightarrow> nat" where
  "FASTLOOP_PRELOADABLE_NBITS P = (if unaligned_fast P then BITBUF_NBITS else CONSUMABLE_NBITS P)"

definition PRELOAD_SLACK :: "platform \<Rightarrow> nat" where
  "PRELOAD_SLACK P = max 0 (FASTLOOP_PRELOADABLE_NBITS P - MAX_BITSLEFT P)"

definition CAN_CONSUME :: "platform \<Rightarrow> nat \<Rightarrow> bool" where
  "CAN_CONSUME P n \<longleftrightarrow> n \<le> CONSUMABLE_NBITS P"

definition CAN_CONSUME_AND_THEN_PRELOAD :: "platform \<Rightarrow> nat \<Rightarrow> nat \<Rightarrow> bool" where
  "CAN_CONSUME_AND_THEN_PRELOAD P consume_nbits preload_nbits \<longleftrightarrow>
     consume_nbits \<le> CONSUMABLE_NBITS P \<and>
     consume_nbits + preload_nbits \<le> FASTLOOP_PRELOADABLE_NBITS P"

text \<open>\<^verbatim>\<open>(u8)x\<close>, and the two extractions of a number of bits.\<close>

definition low8 :: "u32 \<Rightarrow> nat" where
  "low8 x = unat (ucast x :: byte)"

definition EXTRACT_VARBITS :: "u64 \<Rightarrow> nat \<Rightarrow> u64" where
  "EXTRACT_VARBITS w count = w AND BITMASK count"

definition EXTRACT_VARBITS8 :: "u64 \<Rightarrow> u32 \<Rightarrow> u64" where
  "EXTRACT_VARBITS8 w count = w AND BITMASK (low8 count)"

text \<open>\<open>n\<close> bits from bit \<open>k\<close> of the buffer on; and \<^verbatim>\<open>bitbuf >>= (u8)e; bitsleft -= e\<close>.\<close>

definition peek :: "nat \<Rightarrow> nat \<Rightarrow> dstream \<Rightarrow> nat" where
  "peek k n s = unat (drop_bit k (bitbuf s) AND BITMASK n)"

definition consume :: "u32 \<Rightarrow> dstream \<Rightarrow> dstream" where
  "consume e s = s\<lparr>bitbuf := drop_bit (low8 e) (bitbuf s), bitsleft := bitsleft s - e\<rparr>"

section \<open>Refilling\<close>

definition REFILL_BITS_BRANCHLESS :: "platform \<Rightarrow> byte list \<Rightarrow> dstream \<Rightarrow> dstream run" where
  "REFILL_BITS_BRANCHLESS P inp s =
     (if length inp < in_next s + 8 then Inl OutOfRange
      else Inr (s\<lparr>bitbuf := bitbuf s OR
                    push_bit (low8 (bitsleft s)) (get_unaligned_leword P (drop (in_next s) inp)),
                  in_next := in_next s + (WORDBYTES - 1) - unat (drop_bit 3 (bitsleft s) AND 0x7),
                  bitsleft := bitsleft s OR (of_nat (MAX_BITSLEFT P) AND NOT 7)\<rparr>))"

text \<open>One byte goes into the buffer, above the bits that are left.\<close>

definition load_byte :: "byte \<Rightarrow> dstream \<Rightarrow> dstream" where
  "load_byte b s =
     s\<lparr>bitbuf := bitbuf s OR push_bit (low8 (bitsleft s)) (ucast b), in_next := in_next s + 1,
       bitsleft := bitsleft s + 8\<rparr>"

definition skip_byte :: "dstream \<Rightarrow> dstream" where
  "skip_byte s = s\<lparr>overread_count := overread_count s + 1, bitsleft := bitsleft s + 8\<rparr>"

lemma low8_add8: "low8 b < 248 \<Longrightarrow> low8 (b + 8) = low8 b + 8"
proof -
  assume "low8 b < 248"
  have "low8 b = unat b mod 256" "low8 (b + 8) = unat (b + 8) mod 256"
    by (simp_all add: low8_def unsigned_ucast_eq take_bit_eq_mod)
  moreover have "unat (b + 8) mod 256 = (unat b + 8) mod 256"
    by (simp add: unat_word_ariths mod_mod_cancel)
  moreover have "(unat b + 8) mod 256 = (unat b mod 256 + 8) mod 256" by (simp add: mod_add_left_eq)
  ultimately show "low8 (b + 8) = low8 b + 8" using \<open>low8 b < 248\<close> by simp
qed

function refill_loop :: "platform \<Rightarrow> byte list \<Rightarrow> dstream \<Rightarrow> dstream run" where
  "refill_loop P inp s =
     (if low8 (bitsleft s) < CONSUMABLE_NBITS P
      then (if in_next s \<noteq> length inp
            then (if length inp < in_next s then Inl OutOfRange
                  else refill_loop P inp (load_byte (inp ! in_next s) s))
            else if 8 < overread_count s + 1
            then Inl (Return LIBDEFLATE_BAD_DATA (s\<lparr>overread_count := overread_count s + 1\<rparr>))
            else refill_loop P inp (skip_byte s))
      else Inr s)"
  by pat_completeness auto
termination
proof (relation "measure (\<lambda>(P, inp, s). 256 - low8 (bitsleft s))")
  fix P :: platform and inp :: "byte list" and s :: dstream
  assume "low8 (bitsleft s) < CONSUMABLE_NBITS P"
  then have l: "low8 (bitsleft s) < 57"
    by (simp add: CONSUMABLE_NBITS_def MAX_BITSLEFT_def BITBUF_NBITS_def split: if_splits)
  then have "low8 (bitsleft s + 8) = low8 (bitsleft s) + 8" by (intro low8_add8) simp
  then show "((P, inp, load_byte (inp ! in_next s) s), (P, inp, s)) \<in> measure (\<lambda>(P, inp, s). 256 - low8 (bitsleft s))"
    "((P, inp, skip_byte s), (P, inp, s)) \<in> measure (\<lambda>(P, inp, s). 256 - low8 (bitsleft s))"
    using l by (simp_all add: load_byte_def skip_byte_def)
qed simp

declare refill_loop.simps [simp del]

definition REFILL_BITS :: "platform \<Rightarrow> byte list \<Rightarrow> dstream \<Rightarrow> dstream run" where
  "REFILL_BITS P inp s =
     (if unaligned_fast P \<and> in_next s + 8 \<le> length inp then REFILL_BITS_BRANCHLESS P inp s
      else refill_loop P inp s)"

function refill_fast_loop :: "platform \<Rightarrow> byte list \<Rightarrow> dstream \<Rightarrow> dstream run" where
  "refill_fast_loop P inp s =
     (if low8 (bitsleft s) < CONSUMABLE_NBITS P
      then (if length inp \<le> in_next s then Inl OutOfRange
            else refill_fast_loop P inp (load_byte (inp ! in_next s) s))
      else Inr s)"
  by pat_completeness auto
termination
proof (relation "measure (\<lambda>(P, inp, s). 256 - low8 (bitsleft s))")
  fix P :: platform and inp :: "byte list" and s :: dstream
  assume "low8 (bitsleft s) < CONSUMABLE_NBITS P"
  then have l: "low8 (bitsleft s) < 57"
    by (simp add: CONSUMABLE_NBITS_def MAX_BITSLEFT_def BITBUF_NBITS_def split: if_splits)
  then have "low8 (bitsleft s + 8) = low8 (bitsleft s) + 8" by (intro low8_add8) simp
  then show "((P, inp, load_byte (inp ! in_next s) s), (P, inp, s)) \<in> measure (\<lambda>(P, inp, s). 256 - low8 (bitsleft s))"
    using l by (simp add: load_byte_def)
qed simp

declare refill_fast_loop.simps [simp del]

definition REFILL_BITS_IN_FASTLOOP :: "platform \<Rightarrow> byte list \<Rightarrow> dstream \<Rightarrow> dstream run" where
  "REFILL_BITS_IN_FASTLOOP P inp s =
     (if unaligned_fast P then REFILL_BITS_BRANCHLESS P inp s else refill_fast_loop P inp s)"

end
