(* ===== verification/Deflate_Decompress.thy ===== *)
theory Deflate_Decompress
  imports Deflate_Stream
begin

text \<open>
  The DEFLATE decompression routine (\<^verbatim>\<open>tools/deflate/lib/decompress_template.h\<close>). The conditions the
  source evaluates at compile time are those of a 64-bit word; \<open>compile_time_conditions\<close> shows
  that they hold on every platform of the model. A loop over blocks or items may not end on a
  corrupt table, so it returns an option.
\<close>

section \<open>Arrays of the decompressor\<close>

definition slice :: "nat \<Rightarrow> nat \<Rightarrow> 'a list \<Rightarrow> 'a list option" where
  "slice i n xs = (if i + n \<le> length xs then Some (take n (drop i xs)) else None)"

definition splice :: "nat \<Rightarrow> 'a list \<Rightarrow> 'a list \<Rightarrow> 'a list option" where
  "splice i vs xs =
     (if i + length vs \<le> length xs then Some (take i xs @ vs @ drop (i + length vs) xs) else None)"

definition put_precode_len :: "nat \<Rightarrow> byte \<Rightarrow> dstream \<Rightarrow> dstream run" where
  "put_precode_len i v s =
     bind_run (in_range (store (precode_lens (decomp s)) i v)) (\<lambda>ls.
       Inr (s\<lparr>decomp := (decomp s)\<lparr>precode_lens := ls\<rparr>\<rparr>))"

definition put_lens :: "nat \<Rightarrow> byte list \<Rightarrow> dstream \<Rightarrow> dstream run" where
  "put_lens i vs s =
     bind_run (in_range (splice i vs (lens (decomp s)))) (\<lambda>ls.
       Inr (s\<lparr>decomp := (decomp s)\<lparr>lens := ls\<rparr>\<rparr>))"

definition build_precode_decode_table :: "dstream \<Rightarrow> (bool \<times> dstream) run" where
  "build_precode_decode_table s =
     bind_run (in_range (slice 0 DEFLATE_NUM_PRECODE_SYMS (precode_lens (decomp s)))) (\<lambda>ls.
     bind_run (in_range (build_decode_table (precode_decode_table (decomp s)) (map unat ls)
       precode_decode_results PRECODE_TABLEBITS DEFLATE_MAX_PRE_CODEWORD_LEN False)) (\<lambda>(ok, t, _).
     Inr (ok, s\<lparr>decomp := (decomp s)\<lparr>precode_decode_table := t\<rparr>\<rparr>)))"

definition build_litlen_decode_table :: "nat \<Rightarrow> nat \<Rightarrow> dstream \<Rightarrow> (bool \<times> dstream) run" where
  "build_litlen_decode_table num_litlen_syms num_offset_syms s =
     bind_run (in_range (slice 0 num_litlen_syms (lens (decomp s)))) (\<lambda>ls.
     bind_run (in_range (build_decode_table (litlen_decode_table (decomp s)) (map unat ls)
       litlen_decode_results LITLEN_TABLEBITS DEFLATE_MAX_LITLEN_CODEWORD_LEN True)) (\<lambda>(ok, t, bits).
     Inr (ok, s\<lparr>decomp := (decomp s)\<lparr>litlen_decode_table := t, litlen_tablebits := bits\<rparr>\<rparr>)))"

definition build_offset_decode_table :: "nat \<Rightarrow> nat \<Rightarrow> dstream \<Rightarrow> (bool \<times> dstream) run" where
  "build_offset_decode_table num_litlen_syms num_offset_syms s =
     bind_run (in_range (slice num_litlen_syms num_offset_syms (lens (decomp s)))) (\<lambda>ls.
     bind_run (in_range (build_decode_table (offset_decode_table (decomp s)) (map unat ls)
       offset_decode_results OFFSET_TABLEBITS DEFLATE_MAX_OFFSET_CODEWORD_LEN False)) (\<lambda>(ok, t, _).
     Inr (ok, s\<lparr>decomp := (decomp s)\<lparr>offset_decode_table := t\<rparr>\<rparr>)))"

section \<open>The header of a dynamic block\<close>

definition deflate_precode_lens_permutation :: "nat list" where
  "deflate_precode_lens_permutation = [16, 17, 18, 0, 8, 7, 9, 6, 10, 5, 11, 4, 12, 3, 13, 2, 14, 1, 15]"

text \<open>\<open>k\<close> rounds from index \<open>i\<close> on.\<close>

fun read_precode_lens :: "nat \<Rightarrow> nat \<Rightarrow> dstream \<Rightarrow> dstream run" where
  "read_precode_lens 0 i s = Inr s"
| "read_precode_lens (Suc k) i s =
     bind_run (put_precode_len (deflate_precode_lens_permutation ! i) (of_nat (peek 0 3 s)) s) (\<lambda>s.
       read_precode_lens k (Suc i) (consume 3 s))"

fun clear_precode_lens :: "nat \<Rightarrow> nat \<Rightarrow> dstream \<Rightarrow> dstream run" where
  "clear_precode_lens 0 i s = Inr s"
| "clear_precode_lens (Suc k) i s =
     bind_run (put_precode_len (deflate_precode_lens_permutation ! i) 0 s) (clear_precode_lens k (Suc i))"

definition read_precode :: "platform \<Rightarrow> byte list \<Rightarrow> dstream \<Rightarrow> dstream run" where
  "read_precode P inp s =
     (let num_explicit_precode_lens = 4 + peek 13 4 s;
          s = s\<lparr>decomp := (decomp s)\<lparr>static_codes_loaded := False\<rparr>\<rparr>
      in bind_run (put_precode_len (deflate_precode_lens_permutation ! 0) (of_nat (peek 17 3 s)) s) (\<lambda>s.
         bind_run (REFILL_BITS P inp (consume 20 s)) (\<lambda>s.
         bind_run (read_precode_lens (num_explicit_precode_lens - 1) 1 s)
           (clear_precode_lens (DEFLATE_NUM_PRECODE_SYMS - num_explicit_precode_lens) num_explicit_precode_lens))))"

text \<open>One symbol of the precode: a codeword length, or a run of them.\<close>

definition lens_step :: "platform \<Rightarrow> byte list \<Rightarrow> nat \<Rightarrow> dstream \<Rightarrow> (nat \<times> dstream) run" where
  "lens_step P inp i s =
     bind_run (if low8 (bitsleft s) < DEFLATE_MAX_PRE_CODEWORD_LEN + 7 then REFILL_BITS P inp s else Inr s) (\<lambda>s.
     bind_run (in_range (fetch (precode_decode_table (decomp s)) (peek 0 DEFLATE_MAX_PRE_CODEWORD_LEN s))) (\<lambda>entry.
     let s = consume entry s;
         presym = unat (drop_bit 16 entry)
     in if presym < 16
        then bind_run (put_lens i [of_nat presym] s) (\<lambda>s. Inr (i + 1, s))
        else if presym = 16
        then bind_run (safety_check (i \<noteq> 0) s) (\<lambda>_.
             bind_run (in_range (fetch (lens (decomp s)) (i - 1))) (\<lambda>rep_val.
             let rep_count = 3 + peek 0 2 s in
             bind_run (put_lens i (replicate 6 rep_val) (consume 2 s)) (\<lambda>s. Inr (i + rep_count, s))))
        else if presym = 17
        then (let rep_count = 3 + peek 0 3 s in
              bind_run (put_lens i (replicate 10 0) (consume 3 s)) (\<lambda>s. Inr (i + rep_count, s)))
        else (let rep_count = 11 + peek 0 7 s in
              bind_run (put_lens i (replicate rep_count 0) (consume 7 s)) (\<lambda>s. Inr (i + rep_count, s)))))"

lemma lens_step_progress: "lens_step P inp i s = Inr (j, s') \<Longrightarrow> i < j"
  by (auto simp: lens_step_def bind_run_Inr Let_def split: if_splits)

function lens_loop :: "platform \<Rightarrow> byte list \<Rightarrow> nat \<Rightarrow> nat \<Rightarrow> dstream \<Rightarrow> (nat \<times> dstream) run" where
  "lens_loop P inp num_lens i s =
     bind_run (lens_step P inp i s) (\<lambda>(i, s).
       if i < num_lens then lens_loop P inp num_lens i s else Inr (i, s))"
  by pat_completeness auto
termination
  by (relation "measure (\<lambda>(P, inp, num_lens, i, s). num_lens - i)") (auto dest: lens_step_progress)

declare lens_loop.simps [simp del]

definition dynamic_header :: "platform \<Rightarrow> byte list \<Rightarrow> dstream \<Rightarrow> (nat \<times> nat \<times> dstream) run" where
  "dynamic_header P inp s =
     (let num_litlen_syms = 257 + peek 3 5 s;
          num_offset_syms = 1 + peek 8 5 s
      in bind_run (read_precode P inp s) (\<lambda>s.
         bind_run (build_precode_decode_table s) (\<lambda>(ok, s).
         bind_run (safety_check ok s) (\<lambda>_.
         bind_run (lens_loop P inp (num_litlen_syms + num_offset_syms) 0 s) (\<lambda>(i, s).
         bind_run (safety_check (i = num_litlen_syms + num_offset_syms) s) (\<lambda>_.
         Inr (num_litlen_syms, num_offset_syms, s)))))))"

section \<open>Uncompressed and static blocks\<close>

text \<open>Back to the byte boundary: bytes refilled but not consumed are given back.\<close>

definition unread_bytes :: "dstream \<Rightarrow> dstream run" where
  "unread_bytes s =
     (let k = low8 (bitsleft s) div 8 - overread_count s
      in if in_next s < k then Inl OutOfRange else Inr (s\<lparr>in_next := in_next s - k\<rparr>))"

definition uncompressed_block :: "platform \<Rightarrow> byte list \<Rightarrow> dstream \<Rightarrow> dstream run" where
  "uncompressed_block P inp s =
     (let s = s\<lparr>bitsleft := of_nat (low8 (bitsleft s - 3))\<rparr>
      in bind_run (safety_check (overread_count s \<le> low8 (bitsleft s) div 8) s) (\<lambda>_.
         bind_run (unread_bytes s) (\<lambda>s.
         let s = s\<lparr>overread_count := 0, bitbuf := 0, bitsleft := 0\<rparr>
         in bind_run (safety_check (in_next s + 4 \<le> length inp) s) (\<lambda>_.
         let len = get_unaligned_le16 P (drop (in_next s) inp);
             nlen = get_unaligned_le16 P (drop (in_next s + 2) inp);
             s = s\<lparr>in_next := in_next s + 4\<rparr>
         in bind_run (safety_check (len = NOT nlen) s) (\<lambda>_.
         if length (out_buf s) < out_next s + unat len
         then Inl (Return LIBDEFLATE_INSUFFICIENT_SPACE s)
         else bind_run (safety_check (in_next s + unat len \<le> length inp) s) (\<lambda>_.
              bind_run (in_range (splice (out_next s) (take (unat len) (drop (in_next s) inp)) (out_buf s))) (\<lambda>ob.
              Inr (s\<lparr>out_buf := ob, in_next := in_next s + unat len, out_next := out_next s + unat len\<rparr>))))))))"

definition static_lens :: "byte list" where
  "static_lens = replicate 144 8 @ replicate 112 9 @ replicate 24 7 @ replicate 8 8 @ replicate 32 5"

text \<open>The tables of a block whose codeword lengths are in \<^verbatim>\<open>lens\<close>.\<close>

definition build_tables :: "nat \<Rightarrow> nat \<Rightarrow> dstream \<Rightarrow> dstream run" where
  "build_tables num_litlen_syms num_offset_syms s =
     bind_run (build_offset_decode_table num_litlen_syms num_offset_syms s) (\<lambda>(ok, s).
     bind_run (safety_check ok s) (\<lambda>_.
     bind_run (build_litlen_decode_table num_litlen_syms num_offset_syms s) (\<lambda>(ok, s).
     bind_run (safety_check ok s) (\<lambda>_. Inr s))))"

definition static_block :: "dstream \<Rightarrow> dstream run" where
  "static_block s =
     (let s = consume 3 s
      in if static_codes_loaded (decomp s) then Inr s
         else bind_run (put_lens 0 static_lens (s\<lparr>decomp := (decomp s)\<lparr>static_codes_loaded := True\<rparr>\<rparr>))
                (build_tables 288 32))"

text \<open>The start of a block: whether it is the last one, whether it is already done, and the state.\<close>

definition start_block :: "platform \<Rightarrow> byte list \<Rightarrow> dstream \<Rightarrow> (bool \<times> bool \<times> dstream) run" where
  "start_block P inp s =
     bind_run (REFILL_BITS P inp s) (\<lambda>s.
     let is_final_block = (peek 0 1 s = 1);
         block_type = peek 1 2 s
     in if block_type = 2
        then bind_run (dynamic_header P inp s) (\<lambda>(num_litlen_syms, num_offset_syms, s).
             bind_run (build_tables num_litlen_syms num_offset_syms s) (\<lambda>s.
             Inr (is_final_block, False, s)))
        else if block_type = 0
        then bind_run (uncompressed_block P inp s) (\<lambda>s. Inr (is_final_block, True, s))
        else bind_run (safety_check (block_type = 1) s) (\<lambda>_.
             bind_run (static_block s) (\<lambda>s. Inr (is_final_block, False, s))))"

section \<open>Items of a Huffman block\<close>

definition litlen_at :: "u64 \<Rightarrow> dstream \<Rightarrow> u32 run" where
  "litlen_at litlen_tablemask s =
     in_range (fetch (litlen_decode_table (decomp s)) (unat (bitbuf s AND litlen_tablemask)))"

text \<open>The entry of a subtable, given the pointer to it.\<close>

definition subtable_index :: "u32 \<Rightarrow> dstream \<Rightarrow> nat" where
  "subtable_index entry s =
     unat (drop_bit 16 entry) + unat (EXTRACT_VARBITS (bitbuf s) (unat (drop_bit 8 entry AND 0x3F)))"

definition litlen_sub :: "u32 \<Rightarrow> dstream \<Rightarrow> u32 run" where
  "litlen_sub entry s = in_range (fetch (litlen_decode_table (decomp s)) (subtable_index entry s))"

definition offset_at :: "dstream \<Rightarrow> u32 run" where
  "offset_at s =
     in_range (fetch (offset_decode_table (decomp s)) (unat (bitbuf s AND BITMASK OFFSET_TABLEBITS)))"

definition offset_sub :: "u32 \<Rightarrow> dstream \<Rightarrow> u32 run" where
  "offset_sub entry s = in_range (fetch (offset_decode_table (decomp s)) (subtable_index entry s))"

text \<open>A length or an offset: its base and the extra bits behind the codeword.\<close>

definition entry_value :: "u32 \<Rightarrow> u64 \<Rightarrow> u32" where
  "entry_value entry saved_bitbuf =
     drop_bit 16 entry + ucast (drop_bit (low8 (drop_bit 8 entry)) (EXTRACT_VARBITS8 saved_bitbuf entry))"

text \<open>\<^verbatim>\<open>*out_next++ = lit\<close>.\<close>

definition emit :: "u32 \<Rightarrow> dstream \<Rightarrow> dstream run" where
  "emit lit s =
     bind_run (in_range (store (out_buf s) (out_next s) (ucast lit))) (\<lambda>ob.
       Inr (s\<lparr>out_buf := ob, out_next := out_next s + 1\<rparr>))"

section \<open>Copying a match\<close>

text \<open>Words and bytes move inside the output buffer, from \<open>src\<close> to \<open>dst\<close>.\<close>

definition copy_word :: "nat \<Rightarrow> nat \<Rightarrow> byte list \<Rightarrow> byte list run" where
  "copy_word src dst ob = bind_run (in_range (slice src WORDBYTES ob)) (\<lambda>v. in_range (splice dst v ob))"

definition copy_byte :: "nat \<Rightarrow> nat \<Rightarrow> byte list \<Rightarrow> byte list run" where
  "copy_byte src dst ob = bind_run (in_range (fetch ob src)) (\<lambda>v. in_range (store ob dst v))"

text \<open>\<open>k\<close> words, \<open>step\<close> bytes apart.\<close>

fun copy_words :: "nat \<Rightarrow> nat \<Rightarrow> nat \<Rightarrow> nat \<Rightarrow> byte list \<Rightarrow> byte list run" where
  "copy_words 0 step src dst ob = Inr ob"
| "copy_words (Suc k) step src dst ob =
     bind_run (copy_word src dst ob) (copy_words k step (src + step) (dst + step))"

function copy_wide_loop :: "nat \<Rightarrow> nat \<Rightarrow> nat \<Rightarrow> byte list \<Rightarrow> byte list run" where
  "copy_wide_loop src dst end ob =
     (if dst < end
      then bind_run (copy_words 5 WORDBYTES src dst ob)
             (copy_wide_loop (src + 5 * WORDBYTES) (dst + 5 * WORDBYTES) end)
      else Inr ob)"
  by pat_completeness auto
termination
  by (relation "measure (\<lambda>(src, dst, end, ob). end - dst)") (auto simp: WORDBYTES_def)

declare copy_wide_loop.simps [simp del]

definition store_word :: "byte \<Rightarrow> nat \<Rightarrow> byte list \<Rightarrow> byte list run" where
  "store_word v dst ob = in_range (splice dst (replicate WORDBYTES v) ob)"

fun store_words :: "nat \<Rightarrow> byte \<Rightarrow> nat \<Rightarrow> byte list \<Rightarrow> byte list run" where
  "store_words 0 v dst ob = Inr ob"
| "store_words (Suc k) v dst ob = bind_run (store_word v dst ob) (store_words k v (dst + WORDBYTES))"

function store_loop :: "byte \<Rightarrow> nat \<Rightarrow> nat \<Rightarrow> byte list \<Rightarrow> byte list run" where
  "store_loop v dst end ob =
     (if dst < end
      then bind_run (store_words 4 v dst ob) (store_loop v (dst + 4 * WORDBYTES) end)
      else Inr ob)"
  by pat_completeness auto
termination
  by (relation "measure (\<lambda>(v, dst, end, ob). end - dst)") (auto simp: WORDBYTES_def)

declare store_loop.simps [simp del]

function copy_near_loop :: "nat \<Rightarrow> nat \<Rightarrow> nat \<Rightarrow> nat \<Rightarrow> byte list \<Rightarrow> byte list run" where
  "copy_near_loop offset src dst end ob =
     bind_run (copy_words 2 offset src dst ob) (\<lambda>ob.
       if dst + 2 * offset < end
       then (if offset = 0 then Inl NoProgress
             else copy_near_loop offset (src + 2 * offset) (dst + 2 * offset) end ob)
       else Inr ob)"
  by pat_completeness auto
termination
  by (relation "measure (\<lambda>(offset, src, dst, end, ob). end - dst)") auto

declare copy_near_loop.simps [simp del]

function copy_byte_loop :: "nat \<Rightarrow> nat \<Rightarrow> nat \<Rightarrow> byte list \<Rightarrow> byte list run" where
  "copy_byte_loop src dst end ob =
     bind_run (copy_byte src dst ob) (\<lambda>ob.
       if dst + 1 < end then copy_byte_loop (src + 1) (dst + 1) end ob else Inr ob)"
  by pat_completeness auto
termination
  by (relation "measure (\<lambda>(src, dst, end, ob). end - dst)") auto

declare copy_byte_loop.simps [simp del]

definition copy_bytes :: "nat \<Rightarrow> nat \<Rightarrow> nat \<Rightarrow> byte list \<Rightarrow> byte list run" where
  "copy_bytes src dst end ob =
     bind_run (copy_byte src dst ob) (\<lambda>ob. bind_run (copy_byte (src + 1) (dst + 1) ob) (\<lambda>ob.
       copy_byte_loop (src + 2) (dst + 2) end ob))"

definition copy_match :: "platform \<Rightarrow> nat \<Rightarrow> nat \<Rightarrow> nat \<Rightarrow> byte list \<Rightarrow> byte list run" where
  "copy_match P offset dst end ob =
     (let src = dst - offset in
      if unaligned_fast P \<and> WORDBYTES \<le> offset
      then bind_run (copy_words 5 WORDBYTES src dst ob)
             (copy_wide_loop (src + 5 * WORDBYTES) (dst + 5 * WORDBYTES) end)
      else if unaligned_fast P \<and> offset = 1
      then bind_run (in_range (fetch ob src)) (\<lambda>v.
           bind_run (store_words 4 v dst ob) (store_loop v (dst + 4 * WORDBYTES) end))
      else if unaligned_fast P
      then bind_run (copy_words 2 offset src dst ob)
             (copy_near_loop offset (src + 2 * offset) (dst + 2 * offset) end)
      else copy_bytes src dst end ob)"

section \<open>The fast loop\<close>

text \<open>An item that is not a fast literal, the end of the round, or the end of the block.\<close>

datatype fast_flow = Item u32 u64 dstream | Again u32 dstream | Block_done dstream

definition preload :: "platform \<Rightarrow> byte list \<Rightarrow> u64 \<Rightarrow> dstream \<Rightarrow> (u32 \<times> dstream) run" where
  "preload P inp litlen_tablemask s =
     bind_run (litlen_at litlen_tablemask s) (\<lambda>entry.
     bind_run (REFILL_BITS_IN_FASTLOOP P inp s) (\<lambda>s. Inr (entry, s)))"

text \<open>A literal, with the next entry loaded before the refill.\<close>

definition last_literal :: "platform \<Rightarrow> byte list \<Rightarrow> u64 \<Rightarrow> u32 \<Rightarrow> dstream \<Rightarrow> fast_flow run" where
  "last_literal P inp litlen_tablemask entry s =
     bind_run (preload P inp litlen_tablemask s) (\<lambda>(next_entry, s).
     bind_run (emit (drop_bit 16 entry) s) (\<lambda>s. Inr (Again next_entry s)))"

definition fast_literals :: "platform \<Rightarrow> byte list \<Rightarrow> u64 \<Rightarrow> u32 \<Rightarrow> dstream \<Rightarrow> fast_flow run" where
  "fast_literals P inp litlen_tablemask entry s =
     (let saved_bitbuf = bitbuf s; s = consume entry s in
      if entry AND HUFFDEC_LITERAL = 0 then Inr (Item entry saved_bitbuf s)
      else if CAN_CONSUME_AND_THEN_PRELOAD P (2 * LITLEN_TABLEBITS + LENGTH_MAXBITS) OFFSET_TABLEBITS \<and>
              CAN_CONSUME_AND_THEN_PRELOAD P (2 * LITLEN_TABLEBITS + DEFLATE_MAX_LITLEN_CODEWORD_LEN)
                LITLEN_TABLEBITS
      then bind_run (litlen_at litlen_tablemask s) (\<lambda>entry2.
           let saved_bitbuf = bitbuf s; s = consume entry2 s in
           bind_run (emit (drop_bit 16 entry) s) (\<lambda>s.
           if entry2 AND HUFFDEC_LITERAL = 0 then Inr (Item entry2 saved_bitbuf s)
           else bind_run (litlen_at litlen_tablemask s) (\<lambda>entry3.
                let saved_bitbuf = bitbuf s; s = consume entry3 s in
                bind_run (emit (drop_bit 16 entry2) s) (\<lambda>s.
                if entry3 AND HUFFDEC_LITERAL = 0 then Inr (Item entry3 saved_bitbuf s)
                else last_literal P inp litlen_tablemask entry3 s))))
      else last_literal P inp litlen_tablemask entry s)"

text \<open>A subtable pointer or the end of the block; what is left to do is a length.\<close>

definition fast_exceptional :: "platform \<Rightarrow> byte list \<Rightarrow> u64 \<Rightarrow> u32 \<Rightarrow> u64 \<Rightarrow> dstream \<Rightarrow> fast_flow run" where
  "fast_exceptional P inp litlen_tablemask entry saved_bitbuf s =
     (if entry AND HUFFDEC_EXCEPTIONAL = 0 then Inr (Item entry saved_bitbuf s)
      else if entry AND HUFFDEC_END_OF_BLOCK \<noteq> 0 then Inr (Block_done s)
      else bind_run (litlen_sub entry s) (\<lambda>entry.
           let saved_bitbuf = bitbuf s; s = consume entry s in
           if entry AND HUFFDEC_LITERAL \<noteq> 0 then last_literal P inp litlen_tablemask entry s
           else if entry AND HUFFDEC_END_OF_BLOCK \<noteq> 0 then Inr (Block_done s)
           else Inr (Item entry saved_bitbuf s)))"

text \<open>The entry of the offset, after a subtable if need be and with enough bits left to consume.\<close>

definition fast_offset :: "platform \<Rightarrow> byte list \<Rightarrow> dstream \<Rightarrow> (u32 \<times> dstream) run" where
  "fast_offset P inp s =
     bind_run (offset_at s) (\<lambda>entry.
     if entry AND HUFFDEC_EXCEPTIONAL \<noteq> 0
     then bind_run (if low8 (bitsleft s) < OFFSET_MAXBITS + LITLEN_TABLEBITS - PRELOAD_SLACK P
                    then REFILL_BITS_IN_FASTLOOP P inp s else Inr s) (\<lambda>s.
          let s = consume (of_nat OFFSET_TABLEBITS) s in
          bind_run (offset_sub entry s) (\<lambda>entry. Inr (entry, s)))
     else bind_run (if low8 (bitsleft s) < OFFSET_MAXFASTBITS + LITLEN_TABLEBITS - PRELOAD_SLACK P
                    then REFILL_BITS_IN_FASTLOOP P inp s else Inr s) (\<lambda>s. Inr (entry, s)))"

definition fast_match :: "platform \<Rightarrow> byte list \<Rightarrow> u64 \<Rightarrow> u32 \<Rightarrow> u64 \<Rightarrow> dstream \<Rightarrow> fast_flow run" where
  "fast_match P inp litlen_tablemask entry saved_bitbuf s =
     (let len = unat (entry_value entry saved_bitbuf) in
      bind_run (fast_offset P inp s) (\<lambda>(entry, s).
      let offset = unat (entry_value entry (bitbuf s)); s = consume entry s in
      bind_run (safety_check (offset \<le> out_next s) s) (\<lambda>_.
      let dst = out_next s; s = s\<lparr>out_next := dst + len\<rparr> in
      bind_run (preload P inp litlen_tablemask s) (\<lambda>(next_entry, s).
      bind_run (copy_match P offset dst (dst + len) (out_buf s)) (\<lambda>ob.
      Inr (Again next_entry (s\<lparr>out_buf := ob\<rparr>)))))))"

definition fast_step :: "platform \<Rightarrow> byte list \<Rightarrow> u64 \<Rightarrow> u32 \<Rightarrow> dstream \<Rightarrow> fast_flow run" where
  "fast_step P inp litlen_tablemask entry s =
     bind_run (fast_literals P inp litlen_tablemask entry s) (\<lambda>r. case r of
       Item entry saved_bitbuf s \<Rightarrow>
         bind_run (fast_exceptional P inp litlen_tablemask entry saved_bitbuf s) (\<lambda>r. case r of
           Item entry saved_bitbuf s \<Rightarrow> fast_match P inp litlen_tablemask entry saved_bitbuf s
         | _ \<Rightarrow> Inr r)
     | _ \<Rightarrow> Inr r)"

section \<open>The generic loop\<close>

text \<open>One item, with every check; the flag says whether the block is done.\<close>

definition generic_match :: "platform \<Rightarrow> u32 \<Rightarrow> u64 \<Rightarrow> dstream \<Rightarrow> (dstream \<times> bool) run" where
  "generic_match P entry saved_bitbuf s =
     (let len = unat (entry_value entry saved_bitbuf) in
      if length (out_buf s) < out_next s + len then Inl (Return LIBDEFLATE_INSUFFICIENT_SPACE s)
      else bind_run (offset_at s) (\<lambda>entry.
      bind_run (if entry AND HUFFDEC_EXCEPTIONAL \<noteq> 0
                then (let s = consume (of_nat OFFSET_TABLEBITS) s in
                      bind_run (offset_sub entry s) (\<lambda>entry. Inr (entry, s)))
                else Inr (entry, s)) (\<lambda>(entry, s).
      let offset = unat (entry_value entry (bitbuf s)); s = consume entry s in
      bind_run (safety_check (offset \<le> out_next s) s) (\<lambda>_.
      bind_run (copy_bytes (out_next s - offset) (out_next s) (out_next s + len) (out_buf s)) (\<lambda>ob.
      Inr (s\<lparr>out_buf := ob, out_next := out_next s + len\<rparr>, False))))))"

definition generic_step :: "platform \<Rightarrow> byte list \<Rightarrow> u64 \<Rightarrow> dstream \<Rightarrow> (dstream \<times> bool) run" where
  "generic_step P inp litlen_tablemask s =
     bind_run (REFILL_BITS P inp s) (\<lambda>s.
     bind_run (litlen_at litlen_tablemask s) (\<lambda>entry.
     let saved_bitbuf = bitbuf s; s = consume entry s in
     bind_run (if entry AND HUFFDEC_SUBTABLE_POINTER \<noteq> 0
               then bind_run (litlen_sub entry s) (\<lambda>entry. Inr (entry, bitbuf s, consume entry s))
               else Inr (entry, saved_bitbuf, s)) (\<lambda>(entry, saved_bitbuf, s).
     if entry AND HUFFDEC_LITERAL \<noteq> 0
     then (if out_next s = length (out_buf s) then Inl (Return LIBDEFLATE_INSUFFICIENT_SPACE s)
           else bind_run (emit (drop_bit 16 entry) s) (\<lambda>s. Inr (s, False)))
     else if entry AND HUFFDEC_END_OF_BLOCK \<noteq> 0 then Inr (s, True)
     else generic_match P entry saved_bitbuf s)))"

section \<open>Blocks\<close>

definition FASTLOOP_MAX_BYTES_WRITTEN :: nat where
  "FASTLOOP_MAX_BYTES_WRITTEN = 2 + DEFLATE_MAX_MATCH_LEN + 5 * WORDBYTES - 1"

definition FASTLOOP_MAX_BYTES_READ :: "platform \<Rightarrow> nat" where
  "FASTLOOP_MAX_BYTES_READ P =
     DIV_ROUND_UP (MAX_BITSLEFT P + 2 * LITLEN_TABLEBITS + LENGTH_MAXBITS + OFFSET_MAXBITS) 8 + 8"

definition in_fastloop_end :: "platform \<Rightarrow> byte list \<Rightarrow> nat" where
  "in_fastloop_end P inp = length inp - min (length inp) (FASTLOOP_MAX_BYTES_READ P)"

definition out_fastloop_end :: "dstream \<Rightarrow> nat" where
  "out_fastloop_end s = length (out_buf s) - min (length (out_buf s)) FASTLOOP_MAX_BYTES_WRITTEN"

partial_function (option) fast_loop :: "platform \<Rightarrow> byte list \<Rightarrow> u64 \<Rightarrow> u32 \<Rightarrow> dstream \<Rightarrow>
    (dstream \<times> bool) run option" where
  "fast_loop P inp litlen_tablemask entry s =
     (case fast_step P inp litlen_tablemask entry s of
        Inl e \<Rightarrow> Some (Inl e)
      | Inr (Again entry s) \<Rightarrow>
          if in_next s < in_fastloop_end P inp \<and> out_next s < out_fastloop_end s
          then fast_loop P inp litlen_tablemask entry s else Some (Inr (s, False))
      | Inr (Block_done s) \<Rightarrow> Some (Inr (s, True))
      | Inr (Item entry saved_bitbuf s) \<Rightarrow> None)"

partial_function (option) generic_loop :: "platform \<Rightarrow> byte list \<Rightarrow> u64 \<Rightarrow> dstream \<Rightarrow> dstream run option" where
  "generic_loop P inp litlen_tablemask s =
     (case generic_step P inp litlen_tablemask s of
        Inl e \<Rightarrow> Some (Inl e)
      | Inr (s, done) \<Rightarrow> if done then Some (Inr s) else generic_loop P inp litlen_tablemask s)"

definition huffman_block :: "platform \<Rightarrow> byte list \<Rightarrow> dstream \<Rightarrow> dstream run option" where
  "huffman_block P inp s =
     (let litlen_tablemask = BITMASK (litlen_tablebits (decomp s)) in
      if in_fastloop_end P inp \<le> in_next s \<or> out_fastloop_end s \<le> out_next s
      then generic_loop P inp litlen_tablemask s
      else case bind_run (REFILL_BITS_IN_FASTLOOP P inp s) (\<lambda>s.
                  bind_run (litlen_at litlen_tablemask s) (\<lambda>entry. Inr (entry, s))) of
             Inl e \<Rightarrow> Some (Inl e)
           | Inr (entry, s) \<Rightarrow>
               Option.bind (fast_loop P inp litlen_tablemask entry s) (\<lambda>r. case r of
                 Inl e \<Rightarrow> Some (Inl e)
               | Inr (s, done) \<Rightarrow> if done then Some (Inr s) else generic_loop P inp litlen_tablemask s))"

definition decode_block :: "platform \<Rightarrow> byte list \<Rightarrow> dstream \<Rightarrow> (bool \<times> dstream) run option" where
  "decode_block P inp s =
     (case start_block P inp s of
        Inl e \<Rightarrow> Some (Inl e)
      | Inr (is_final_block, done, s) \<Rightarrow>
          if done then Some (Inr (is_final_block, s))
          else Option.bind (huffman_block P inp s) (\<lambda>r. case r of
                 Inl e \<Rightarrow> Some (Inl e) | Inr s \<Rightarrow> Some (Inr (is_final_block, s))))"

partial_function (option) decode_blocks :: "platform \<Rightarrow> byte list \<Rightarrow> dstream \<Rightarrow> dstream run option" where
  "decode_blocks P inp s =
     Option.bind (decode_block P inp s) (\<lambda>r. case r of
       Inl e \<Rightarrow> Some (Inl e)
     | Inr (is_final_block, s) \<Rightarrow> if is_final_block then Some (Inr s) else decode_blocks P inp s)"

declare fast_loop.simps [code] generic_loop.simps [code] decode_blocks.simps [code]

section \<open>The routine\<close>

text \<open>The result with the counts of bytes read and written, where the caller asks for them.\<close>

type_synonym dresult = "libdeflate_result \<times> nat option \<times> nat option \<times> dstream"

definition finish_stream :: "bool \<Rightarrow> bool \<Rightarrow> dstream \<Rightarrow> dresult run" where
  "finish_stream want_in want_out s =
     (let s = s\<lparr>bitsleft := of_nat (low8 (bitsleft s))\<rparr>
      in bind_run (safety_check (overread_count s \<le> low8 (bitsleft s) div 8) s) (\<lambda>_.
         bind_run (if want_in then unread_bytes s else Inr s) (\<lambda>s.
         let actual_in = (if want_in then Some (in_next s) else None)
         in if want_out then Inr (LIBDEFLATE_SUCCESS, actual_in, Some (out_next s), s)
            else if out_next s \<noteq> length (out_buf s) then Inr (LIBDEFLATE_SHORT_OUTPUT, actual_in, None, s)
            else Inr (LIBDEFLATE_SUCCESS, actual_in, None, s))))"

definition start_stream :: "decompressor \<Rightarrow> byte list \<Rightarrow> dstream" where
  "start_stream d ob =
     \<lparr>in_next = 0, bitbuf = 0, bitsleft = 0, overread_count = 0, out_buf = ob, out_next = 0, decomp = d\<rparr>"

definition deflate_decompress_default :: "platform \<Rightarrow> decompressor \<Rightarrow> byte list \<Rightarrow> byte list \<Rightarrow> bool \<Rightarrow> bool \<Rightarrow>
    dresult run option" where
  "deflate_decompress_default P d inp ob want_in want_out =
     Option.bind (decode_blocks P inp (start_stream d ob)) (\<lambda>r.
       case bind_run r (finish_stream want_in want_out) of
         Inl (Return res s) \<Rightarrow> Some (Inr (res, None, None, s))
       | r \<Rightarrow> Some r)"

definition libdeflate_deflate_decompress_ex :: "platform \<Rightarrow> decompressor \<Rightarrow> byte list \<Rightarrow> byte list \<Rightarrow> bool \<Rightarrow> bool \<Rightarrow>
    dresult run option" where
  "libdeflate_deflate_decompress_ex P d inp ob want_in want_out =
     deflate_decompress_default P d inp ob want_in want_out"

definition libdeflate_deflate_decompress :: "platform \<Rightarrow> decompressor \<Rightarrow> byte list \<Rightarrow> byte list \<Rightarrow> bool \<Rightarrow>
    dresult run option" where
  "libdeflate_deflate_decompress P d inp ob want_out =
     libdeflate_deflate_decompress_ex P d inp ob False want_out"

text \<open>The one decompressor there is, zeroed; the options are refused when their size is not the expected one.\<close>

definition zero_decompressor :: decompressor where
  "zero_decompressor =
     \<lparr>precode_lens = replicate DEFLATE_NUM_PRECODE_SYMS 0,
      lens = replicate (DEFLATE_NUM_LITLEN_SYMS + DEFLATE_NUM_OFFSET_SYMS + DEFLATE_MAX_LENS_OVERRUN) 0,
      precode_decode_table = replicate PRECODE_ENOUGH 0,
      litlen_decode_table = replicate LITLEN_ENOUGH 0,
      offset_decode_table = replicate OFFSET_ENOUGH 0,
      static_codes_loaded = False, litlen_tablebits = 0\<rparr>"

definition libdeflate_alloc_decompressor_ex :: "nat \<Rightarrow> nat \<Rightarrow> decompressor option" where
  "libdeflate_alloc_decompressor_ex sizeof_options expected =
     (if sizeof_options \<noteq> expected then None else Some zero_decompressor)"

definition libdeflate_alloc_decompressor :: "nat \<Rightarrow> decompressor option" where
  "libdeflate_alloc_decompressor expected = libdeflate_alloc_decompressor_ex expected expected"

section \<open>Compile-time conditions\<close>

lemma compile_time_conditions:
  "CAN_CONSUME P (1 + 2 + 5 + 5 + 4 + 3)" "CAN_CONSUME P (3 * (DEFLATE_NUM_PRECODE_SYMS - 1))"
  "CAN_CONSUME_AND_THEN_PRELOAD P (2 * LITLEN_TABLEBITS + LENGTH_MAXBITS) OFFSET_TABLEBITS"
  "CAN_CONSUME_AND_THEN_PRELOAD P (2 * LITLEN_TABLEBITS + DEFLATE_MAX_LITLEN_CODEWORD_LEN) LITLEN_TABLEBITS"
  "CAN_CONSUME_AND_THEN_PRELOAD P DEFLATE_MAX_LITLEN_CODEWORD_LEN LITLEN_TABLEBITS"
  "CAN_CONSUME_AND_THEN_PRELOAD P LENGTH_MAXBITS OFFSET_TABLEBITS"
  "CAN_CONSUME_AND_THEN_PRELOAD P OFFSET_MAXBITS LITLEN_TABLEBITS"
  "CAN_CONSUME_AND_THEN_PRELOAD P (max (OFFSET_MAXBITS - OFFSET_TABLEBITS) OFFSET_MAXFASTBITS) LITLEN_TABLEBITS"
  "CAN_CONSUME P (LENGTH_MAXBITS + OFFSET_MAXBITS)"
  by (simp_all add: CAN_CONSUME_def CAN_CONSUME_AND_THEN_PRELOAD_def CONSUMABLE_NBITS_def MAX_BITSLEFT_def
      FASTLOOP_PRELOADABLE_NBITS_def BITBUF_NBITS_def LENGTH_MAXBITS_def OFFSET_MAXBITS_def OFFSET_MAXFASTBITS_def
      LITLEN_TABLEBITS_def OFFSET_TABLEBITS_def DEFLATE_NUM_PRECODE_SYMS_def DEFLATE_MAX_LITLEN_CODEWORD_LEN_def
      DEFLATE_MAX_OFFSET_CODEWORD_LEN_def DEFLATE_MAX_EXTRA_LENGTH_BITS_def DEFLATE_MAX_EXTRA_OFFSET_BITS_def)

end
