(* ===== verification/Deflate_Copy.thy ===== *)
theory Deflate_Copy
  imports Deflate_Decompress
begin

text \<open>
  The four ways the decompressor copies a match all make the copy that LZ77 asks for, byte by
  byte with overlap, and overrun the end of the match by less than five words.
\<close>

section \<open>The copy LZ77 asks for\<close>

fun lz_copy :: "nat \<Rightarrow> nat \<Rightarrow> byte list \<Rightarrow> byte list" where
  "lz_copy offset 0 xs = xs"
| "lz_copy offset (Suc n) xs = lz_copy offset n (xs @ [xs ! (length xs - offset)])"

text \<open>From \<open>a\<close> to \<open>m\<close> every byte equals the one \<open>offset\<close> before it.\<close>

definition good :: "nat \<Rightarrow> nat \<Rightarrow> nat \<Rightarrow> byte list \<Rightarrow> bool" where
  "good offset a m ob \<longleftrightarrow> (\<forall>k. a \<le> k \<and> k < m \<longrightarrow> ob ! k = ob ! (k - offset))"

lemma good_lz_copy:
  "good offset a (a + n) ob \<Longrightarrow> 0 < offset \<Longrightarrow> offset \<le> a \<Longrightarrow> a + n \<le> length ob \<Longrightarrow>
   lz_copy offset n (take a ob) = take (a + n) ob"
proof (induction n arbitrary: a)
  case (Suc n)
  have a: "a < length ob" using Suc.prems(4) by simp
  have "take a ob ! (length (take a ob) - offset) = ob ! (a - offset)"
    using a Suc.prems(2,3) by simp
  also have "\<dots> = ob ! a" using Suc.prems(1) by (auto simp: good_def)
  finally have "take a ob @ [take a ob ! (length (take a ob) - offset)] = take (Suc a) ob"
    using take_Suc_conv_app_nth [OF a] by simp
  moreover have "good offset (Suc a) (Suc a + n) ob" using Suc.prems(1) by (auto simp: good_def)
  ultimately show ?case using Suc.IH [of "Suc a"] Suc.prems by simp
qed simp

text \<open>What a write at \<open>d\<close> leaves: the bytes before \<open>d\<close> and those from \<open>e\<close> on.\<close>

definition keeps_outside :: "nat \<Rightarrow> nat \<Rightarrow> byte list \<Rightarrow> byte list \<Rightarrow> bool" where
  "keeps_outside d e ob ob' \<longleftrightarrow> length ob' = length ob \<and> (\<forall>k. k < d \<or> e \<le> k \<longrightarrow> ob' ! k = ob ! k)"

lemma keeps_outside_trans:
  "keeps_outside d e x y \<Longrightarrow> keeps_outside d' e' y z \<Longrightarrow> d \<le> d' \<Longrightarrow> e \<le> f \<Longrightarrow> e' \<le> f \<Longrightarrow> keeps_outside d f x z"
  by (auto simp: keeps_outside_def)

lemma splice_keeps:
  assumes "d + length vs \<le> length ob"
  shows "splice d vs ob = Some (take d ob @ vs @ drop (d + length vs) ob)"
    and "keeps_outside d (d + length vs) ob (take d ob @ vs @ drop (d + length vs) ob)"
    and "j < length vs \<Longrightarrow> (take d ob @ vs @ drop (d + length vs) ob) ! (d + j) = vs ! j"
  using assms by (auto simp: splice_def keeps_outside_def nth_append)

lemma good_extend:
  assumes "good offset a d ob" and "keeps_outside d e ob ob'" and "0 < offset" and "offset \<le> d"
    and "\<And>j. j < n \<Longrightarrow> ob' ! (d + j) = ob' ! (d + j - offset)"
  shows "good offset a (d + n) ob'"
  unfolding good_def
proof (intro allI impI)
  fix k assume k: "a \<le> k \<and> k < d + n"
  show "ob' ! k = ob' ! (k - offset)"
  proof (cases "k < d")
    case True
    then have "ob' ! k = ob ! k" "ob' ! (k - offset) = ob ! (k - offset)"
      using assms(2) by (auto simp: keeps_outside_def)
    then show ?thesis using assms(1) k True by (simp add: good_def)
  next
    case False
    then have "k - d < n" "d + (k - d) = k" using k by linarith+
    then show ?thesis using assms(5) [of "k - d"] by simp
  qed
qed

section \<open>Words\<close>

lemma copy_word_good:
  assumes g: "good offset a d ob" and o: "0 < offset" "offset \<le> d" and l: "d + 8 \<le> length ob"
  obtains ob' where "copy_word (d - offset) d ob = Inr ob'" and "keeps_outside d (d + 8) ob ob'"
    and "good offset a (d + min 8 offset) ob'"
proof -
  let ?v = "take 8 (drop (d - offset) ob)"
  let ?ob = "take d ob @ ?v @ drop (d + length ?v) ob"
  have v: "length ?v = 8" using l o by simp
  have w: "copy_word (d - offset) d ob = Inr ?ob"
    using l o v by (simp add: copy_word_def slice_def splice_def WORDBYTES_def)
  note s = splice_keeps(2,3) [of d ?v ob]
  have k: "keeps_outside d (d + 8) ob ?ob" using s(1) l v by simp
  have "?ob ! (d + j) = ?ob ! (d + j - offset)" if j: "j < min 8 offset" for j
  proof -
    have "?ob ! (d + j) = ?v ! j" using s(2) [of j] l v j by simp
    also have "\<dots> = ob ! (d - offset + j)" using j l o by simp
    also have "\<dots> = ?ob ! (d - offset + j)"
      using k j o by (auto simp: keeps_outside_def)
    finally show ?thesis using j o by simp
  qed
  then have "good offset a (d + min 8 offset) ?ob" by (rule good_extend [OF g k o])
  then show thesis using that w k by blast
qed

lemma copy_words_good:
  "good offset a d ob \<Longrightarrow> offset \<le> d \<Longrightarrow> 0 < step \<Longrightarrow> step \<le> min 8 offset \<Longrightarrow>
   d + k * step + (8 - step) \<le> length ob \<Longrightarrow>
   \<exists>ob'. copy_words k step (d - offset) d ob = Inr ob' \<and> keeps_outside d (d + k * step + (8 - step)) ob ob' \<and>
     good offset a (d + k * step) ob'"
proof (induction k arbitrary: d ob)
  case 0
  then show ?case by (simp add: keeps_outside_def)
next
  case (Suc k)
  have o: "0 < offset" "offset \<le> d" using Suc.prems by simp_all
  have l: "d + 8 \<le> length ob" using Suc.prems(3-5) by simp
  obtain ob1 where 1: "copy_word (d - offset) d ob = Inr ob1" "keeps_outside d (d + 8) ob ob1"
    "good offset a (d + min 8 offset) ob1"
    by (rule copy_word_good [OF Suc.prems(1) o l])
  have g1: "good offset a (d + step) ob1" using 1(3) Suc.prems(4) by (auto simp: good_def)
  have "d + step + k * step + (8 - step) \<le> length ob1"
    using 1(2) Suc.prems(5) by (simp add: keeps_outside_def algebra_simps)
  with Suc.IH [OF g1 _ Suc.prems(3,4)] o obtain ob2 where
    2: "copy_words k step (d + step - offset) (d + step) ob1 = Inr ob2"
    "keeps_outside (d + step) (d + step + k * step + (8 - step)) ob1 ob2"
    "good offset a (d + step + k * step) ob2" by auto
  have "d - offset + step = d + step - offset" using o by simp
  then have "copy_words (Suc k) step (d - offset) d ob = Inr ob2" using 1(1) 2(1) by simp
  moreover have "keeps_outside d (d + Suc k * step + (8 - step)) ob ob2"
    by (rule keeps_outside_trans [OF 1(2) 2(2)]) (use Suc.prems(3,4) in \<open>simp_all add: algebra_simps\<close>)
  ultimately show ?case using 2(3) by (intro exI [of _ ob2]) (simp add: algebra_simps)
qed

lemma copy_wide_loop_good:
  "good offset a d ob \<Longrightarrow> 8 \<le> offset \<Longrightarrow> offset \<le> d \<Longrightarrow> end + 39 \<le> length ob \<Longrightarrow>
   \<exists>ob'. copy_wide_loop (d - offset) d end ob = Inr ob' \<and> keeps_outside d (end + 39) ob ob' \<and> good offset a end ob'"
proof (induction "end - d" arbitrary: d ob rule: less_induct)
  case less
  show ?case
  proof (cases "d < end")
    case False
    then have "copy_wide_loop (d - offset) d end ob = Inr ob" by (simp add: copy_wide_loop.simps)
    moreover have "good offset a end ob" using less.prems(1) False by (simp add: good_def)
    ultimately show ?thesis by (simp add: keeps_outside_def)
  next
    case True
    have "\<exists>ob1. copy_words 5 8 (d - offset) d ob = Inr ob1 \<and> keeps_outside d (d + 5 * 8 + (8 - 8)) ob ob1 \<and>
        good offset a (d + 5 * 8) ob1"
      by (rule copy_words_good) (use less.prems True in simp_all)
    then obtain ob1 where 1: "copy_words 5 8 (d - offset) d ob = Inr ob1" "keeps_outside d (d + 40) ob ob1"
      "good offset a (d + 40) ob1" by auto
    have "length ob1 = length ob" using 1(2) by (simp add: keeps_outside_def)
    moreover have "end - (d + 40) < end - d" using True by simp
    ultimately obtain ob2 where
      2: "copy_wide_loop (d + 40 - offset) (d + 40) end ob1 = Inr ob2"
      "keeps_outside (d + 40) (end + 39) ob1 ob2" "good offset a end ob2"
      using less.hyps [OF _ 1(3)] less.prems by force
    have "d - offset + 40 = d + 40 - offset" using less.prems(3) by simp
    then have "copy_wide_loop (d - offset) d end ob = Inr ob2"
      using 1(1) 2(1) True by (simp add: copy_wide_loop.simps [of "d - offset"] WORDBYTES_def)
    moreover have "keeps_outside d (end + 39) ob ob2"
      by (rule keeps_outside_trans [OF 1(2) 2(2)]) (use True in simp_all)
    ultimately show ?thesis using 2(3) by blast
  qed
qed

lemma copy_near_loop_good:
  "good offset a d ob \<Longrightarrow> 0 < offset \<Longrightarrow> offset < 8 \<Longrightarrow> offset \<le> d \<Longrightarrow> d + 15 \<le> length ob \<Longrightarrow>
   end + 15 \<le> length ob \<Longrightarrow>
   \<exists>ob'. copy_near_loop offset (d - offset) d end ob = Inr ob' \<and>
     keeps_outside d (max (d + 15) (end + 15)) ob ob' \<and> good offset a end ob'"
proof (induction "end - d" arbitrary: d ob rule: less_induct)
  case less
  have "\<exists>ob1. copy_words 2 offset (d - offset) d ob = Inr ob1 \<and> keeps_outside d (d + 2 * offset + (8 - offset)) ob ob1 \<and>
      good offset a (d + 2 * offset) ob1"
    by (rule copy_words_good) (use less.prems in simp_all)
  then obtain ob1 where 1: "copy_words 2 offset (d - offset) d ob = Inr ob1"
    "keeps_outside d (d + 2 * offset + (8 - offset)) ob ob1" "good offset a (d + 2 * offset) ob1" by auto
  show ?case
  proof (cases "d + 2 * offset < end")
    case False
    then have "copy_near_loop offset (d - offset) d end ob = Inr ob1"
      using 1(1) by (simp add: copy_near_loop.simps [of offset "d - offset"])
    moreover have "keeps_outside d (max (d + 15) (end + 15)) ob ob1"
      using 1(2) less.prems(3) by (auto simp: keeps_outside_def)
    moreover have "good offset a end ob1" using 1(3) False by (simp add: good_def)
    ultimately show ?thesis by blast
  next
    case True
    have "length ob1 = length ob" using 1(2) by (simp add: keeps_outside_def)
    moreover have "end - (d + 2 * offset) < end - d" using True less.prems(2) by simp
    ultimately obtain ob2 where
      2: "copy_near_loop offset (d + 2 * offset - offset) (d + 2 * offset) end ob1 = Inr ob2"
      "keeps_outside (d + 2 * offset) (max (d + 2 * offset + 15) (end + 15)) ob1 ob2" "good offset a end ob2"
      using less.hyps [OF _ 1(3)] less.prems True by force
    have "d - offset + 2 * offset = d + 2 * offset - offset" using less.prems(4) by simp
    then have "copy_near_loop offset (d - offset) d end ob = Inr ob2"
      using 1(1) 2(1) True less.prems(2) by (simp add: copy_near_loop.simps [of offset "d - offset"])
    moreover have "keeps_outside d (max (d + 15) (end + 15)) ob ob2"
      by (rule keeps_outside_trans [OF 1(2) 2(2)]) (use True less.prems(3) in simp_all)
    ultimately show ?thesis using 2(3) by blast
  qed
qed

section \<open>Runs of one byte\<close>

definition filled :: "byte \<Rightarrow> nat \<Rightarrow> nat \<Rightarrow> byte list \<Rightarrow> bool" where
  "filled v a m ob \<longleftrightarrow> (\<forall>k. a \<le> k \<and> k < m \<longrightarrow> ob ! k = v)"

lemma filled_good: "filled v a m ob \<Longrightarrow> good 1 (Suc a) m ob"
  unfolding filled_def good_def
proof (intro allI impI)
  fix k assume f: "\<forall>k. a \<le> k \<and> k < m \<longrightarrow> ob ! k = v" and k: "Suc a \<le> k \<and> k < m"
  then have "a \<le> k - 1" "k - 1 < m" "a \<le> k" by linarith+
  then show "ob ! k = ob ! (k - 1)" using f k by simp
qed

lemma store_words_filled:
  "filled v a d ob \<Longrightarrow> a \<le> d \<Longrightarrow> d + 8 * k \<le> length ob \<Longrightarrow>
   \<exists>ob'. store_words k v d ob = Inr ob' \<and> keeps_outside d (d + 8 * k) ob ob' \<and> filled v a (d + 8 * k) ob'"
proof (induction k arbitrary: d ob)
  case 0
  then show ?case by (simp add: keeps_outside_def)
next
  case (Suc k)
  let ?ob = "take d ob @ replicate 8 v @ drop (d + 8) ob"
  note s = splice_keeps [of d "replicate 8 v" ob]
  have k: "keeps_outside d (d + 8) ob ?ob" using s(2) Suc.prems(3) by simp
  have f: "filled v a (d + 8) ?ob"
    unfolding filled_def
  proof (intro allI impI)
    fix j assume j: "a \<le> j \<and> j < d + 8"
    show "?ob ! j = v"
    proof (cases "j < d")
      case True
      then show ?thesis using k j Suc.prems(1) by (simp add: keeps_outside_def filled_def)
    next
      case False
      then have "j - d < 8" "d + (j - d) = j" using j by linarith+
      then show ?thesis using s(3) [of "j - d"] Suc.prems(3) by simp
    qed
  qed
  have "length ?ob = length ob" using k by (simp add: keeps_outside_def)
  then obtain ob2 where 2: "store_words k v (d + 8) ?ob = Inr ob2"
    "keeps_outside (d + 8) (d + 8 + 8 * k) ?ob ob2" "filled v a (d + 8 + 8 * k) ob2"
    using Suc.IH [OF f] Suc.prems(2,3) by fastforce
  have "store_words (Suc k) v d ob = Inr ob2"
    using s(1) 2(1) Suc.prems(3) by (simp add: store_word_def WORDBYTES_def)
  moreover have "keeps_outside d (d + 8 * Suc k) ob ob2"
    by (rule keeps_outside_trans [OF k 2(2)]) simp_all
  ultimately show ?case using 2(3) by (intro exI [of _ ob2]) (simp add: algebra_simps)
qed

lemma store_loop_filled:
  "filled v a d ob \<Longrightarrow> a \<le> d \<Longrightarrow> end + 31 \<le> length ob \<Longrightarrow>
   \<exists>ob'. store_loop v d end ob = Inr ob' \<and> keeps_outside d (end + 31) ob ob' \<and> filled v a end ob'"
proof (induction "end - d" arbitrary: d ob rule: less_induct)
  case less
  show ?case
  proof (cases "d < end")
    case False
    then have "store_loop v d end ob = Inr ob" by (simp add: store_loop.simps)
    moreover have "filled v a end ob" using less.prems(1) False by (simp add: filled_def)
    ultimately show ?thesis by (simp add: keeps_outside_def)
  next
    case True
    obtain ob1 where 1: "store_words 4 v d ob = Inr ob1" "keeps_outside d (d + 32) ob ob1" "filled v a (d + 32) ob1"
      using store_words_filled [OF less.prems(1,2), of 4] less.prems(3) True by auto
    have "length ob1 = length ob" using 1(2) by (simp add: keeps_outside_def)
    moreover have "end - (d + 32) < end - d" using True by simp
    ultimately obtain ob2 where
      2: "store_loop v (d + 32) end ob1 = Inr ob2" "keeps_outside (d + 32) (end + 31) ob1 ob2" "filled v a end ob2"
      using less.hyps [OF _ 1(3)] less.prems by force
    have "store_loop v d end ob = Inr ob2"
      using 1(1) 2(1) True by (simp add: store_loop.simps [of v d] WORDBYTES_def)
    moreover have "keeps_outside d (end + 31) ob ob2"
      by (rule keeps_outside_trans [OF 1(2) 2(2)]) (use True in simp_all)
    ultimately show ?thesis using 2(3) by blast
  qed
qed

section \<open>Bytes\<close>

lemma copy_byte_good:
  assumes "good offset a d ob" and "0 < offset" and "offset \<le> d" and "d < length ob"
  shows "copy_byte (d - offset) d ob = Inr (ob[d := ob ! (d - offset)])"
    and "keeps_outside d (d + 1) ob (ob[d := ob ! (d - offset)])"
    and "good offset a (d + 1) (ob[d := ob ! (d - offset)])"
proof -
  let ?ob = "ob[d := ob ! (d - offset)]"
  show "copy_byte (d - offset) d ob = Inr ?ob"
    using assms by (simp add: copy_byte_def fetch_def store_def)
  show k: "keeps_outside d (d + 1) ob ?ob" by (auto simp: keeps_outside_def)
  show "good offset a (d + 1) ?ob"
    by (rule good_extend [OF assms(1) k assms(2,3)]) (use assms in simp)
qed

lemma copy_byte_loop_good:
  "good offset a d ob \<Longrightarrow> 0 < offset \<Longrightarrow> offset \<le> d \<Longrightarrow> d < end \<Longrightarrow> end \<le> length ob \<Longrightarrow>
   \<exists>ob'. copy_byte_loop (d - offset) d end ob = Inr ob' \<and> keeps_outside d end ob ob' \<and> good offset a end ob'"
proof (induction "end - d" arbitrary: d ob rule: less_induct)
  case less
  have d: "d < length ob" using less.prems(4,5) by simp
  let ?ob = "ob[d := ob ! (d - offset)]"
  note 1 = copy_byte_good [OF less.prems(1-3) d]
  have src: "d - offset + 1 = d + 1 - offset" using less.prems(3) by simp
  show ?case
  proof (cases "d + 1 < end")
    case True
    then have "end - (d + 1) < end - d" by simp
    then obtain ob2 where 2: "copy_byte_loop (d + 1 - offset) (d + 1) end ?ob = Inr ob2"
      "keeps_outside (d + 1) end ?ob ob2" "good offset a end ob2"
      using less.hyps [OF _ 1(3)] less.prems True by force
    have "copy_byte_loop (d - offset) d end ob = Inr ob2"
      using 1(1) 2(1) True src by (simp add: copy_byte_loop.simps [of "d - offset"])
    moreover have "keeps_outside d end ob ob2"
      by (rule keeps_outside_trans [OF 1(2) 2(2)]) (use True in simp_all)
    ultimately show ?thesis using 2(3) by blast
  next
    case False
    then have "end = d + 1" using less.prems(4) by simp
    then show ?thesis using 1 by (simp add: copy_byte_loop.simps [of "d - offset"])
  qed
qed

lemma copy_bytes_good:
  assumes o: "0 < offset" "offset \<le> d" and e: "d + 3 \<le> end" "end \<le> length ob"
  obtains ob' where "copy_bytes (d - offset) d end ob = Inr ob'" and "keeps_outside d end ob ob'"
    and "good offset d end ob'"
proof -
  have g: "good offset d d ob" by (auto simp: good_def)
  let ?a = "ob[d := ob ! (d - offset)]"
  have d: "d < length ob" using e by simp
  note 1 = copy_byte_good [OF g o d]
  let ?b = "?a[d + 1 := ?a ! (d + 1 - offset)]"
  have "offset \<le> d + 1" "d + 1 < length ?a" using o e by simp_all
  note 2 = copy_byte_good [OF 1(3) o(1) this]
  have g2: "good offset d (d + 2) ?b" using 2(3) by (simp add: add.assoc)
  have "offset \<le> d + 2" "d + 2 < end" "end \<le> length ?b" using o e by simp_all
  then obtain ob' where 3: "copy_byte_loop (d + 2 - offset) (d + 2) end ?b = Inr ob'"
    "keeps_outside (d + 2) end ?b ob'" "good offset d end ob'"
    using copy_byte_loop_good [OF g2 o(1)] by blast
  have "d - offset + 1 = d + 1 - offset" "d - offset + 2 = d + 2 - offset" using o by simp_all
  then have "copy_bytes (d - offset) d end ob = Inr ob'"
    using 1(1) 2(1) 3(1) by (simp add: copy_bytes_def)
  moreover have "keeps_outside d (d + 2) ob ?b"
    by (rule keeps_outside_trans [OF 1(2) 2(2)]) simp_all
  from this 3(2) have "keeps_outside d end ob ob'"
    by (rule keeps_outside_trans) (use e in simp_all)
  ultimately show thesis using 3(3) that by blast
qed

section \<open>Every way of copying\<close>

lemma copy_match_good:
  assumes o: "0 < offset" "offset \<le> dst" and len: "3 \<le> n"
    and room: "dst + n + (if unaligned_fast P then 39 else 0) \<le> length ob"
  obtains ob' where "copy_match P offset dst (dst + n) ob = Inr ob'"
    and "keeps_outside dst (dst + n + (if unaligned_fast P then 39 else 0)) ob ob'"
    and "good offset dst (dst + n) ob'"
proof -
  have g: "good offset dst dst ob" by (auto simp: good_def)
  consider (wide) "unaligned_fast P" "8 \<le> offset" | (run) "unaligned_fast P" "offset = 1"
    | (near) "unaligned_fast P" "offset < 8" "offset \<noteq> 1" | (bytes) "\<not> unaligned_fast P" by linarith
  then show thesis
  proof cases
    case wide
    have "\<exists>ob1. copy_words 5 8 (dst - offset) dst ob = Inr ob1 \<and> keeps_outside dst (dst + 5 * 8 + (8 - 8)) ob ob1 \<and>
        good offset dst (dst + 5 * 8) ob1"
      by (rule copy_words_good [OF g]) (use o wide room len in simp_all)
    then obtain ob1 where 1: "copy_words 5 8 (dst - offset) dst ob = Inr ob1" "keeps_outside dst (dst + 40) ob ob1"
      "good offset dst (dst + 40) ob1" by auto
    have "length ob1 = length ob" using 1(2) by (simp add: keeps_outside_def)
    then obtain ob2 where 2: "copy_wide_loop (dst + 40 - offset) (dst + 40) (dst + n) ob1 = Inr ob2"
      "keeps_outside (dst + 40) (dst + n + 39) ob1 ob2" "good offset dst (dst + n) ob2"
      using copy_wide_loop_good [OF 1(3) wide(2)] o room wide by force
    have "dst - offset + 40 = dst + 40 - offset" using o by simp
    then have "copy_match P offset dst (dst + n) ob = Inr ob2"
      using 1(1) 2(1) wide by (simp add: copy_match_def WORDBYTES_def)
    moreover have "keeps_outside dst (dst + n + 39) ob ob2"
      by (rule keeps_outside_trans [OF 1(2) 2(2)]) (use len in simp_all)
    ultimately show ?thesis using 2(3) wide by (intro that) simp_all
  next
    case run
    let ?v = "ob ! (dst - 1)"
    have "k = dst - 1" if "dst - 1 \<le> k \<and> k < dst" for k using that o by linarith
    then have f: "filled ?v (dst - 1) dst ob" unfolding filled_def by blast
    obtain ob1 where 1: "store_words 4 ?v dst ob = Inr ob1" "keeps_outside dst (dst + 32) ob ob1"
      "filled ?v (dst - 1) (dst + 32) ob1"
      using store_words_filled [OF f, of 4] room run len by auto
    have "length ob1 = length ob" using 1(2) by (simp add: keeps_outside_def)
    then obtain ob2 where 2: "store_loop ?v (dst + 32) (dst + n) ob1 = Inr ob2"
      "keeps_outside (dst + 32) (dst + n + 31) ob1 ob2" "filled ?v (dst - 1) (dst + n) ob2"
      using store_loop_filled [OF 1(3), of "dst + n"] room run by force
    have "dst - 1 < length ob" using room run by simp
    then have "copy_match P offset dst (dst + n) ob = Inr ob2"
      using 1(1) 2(1) run by (simp add: copy_match_def WORDBYTES_def fetch_def)
    moreover have "keeps_outside dst (dst + n + 39) ob ob2"
      by (rule keeps_outside_trans [OF 1(2) 2(2)]) (use len in simp_all)
    moreover have "good offset dst (dst + n) ob2" using filled_good [OF 2(3)] run o by simp
    ultimately show ?thesis using run by (intro that) simp_all
  next
    case near
    have "\<exists>ob1. copy_words 2 offset (dst - offset) dst ob = Inr ob1 \<and>
        keeps_outside dst (dst + 2 * offset + (8 - offset)) ob ob1 \<and> good offset dst (dst + 2 * offset) ob1"
      by (rule copy_words_good [OF g]) (use o near room len in simp_all)
    then obtain ob1 where 1: "copy_words 2 offset (dst - offset) dst ob = Inr ob1"
      "keeps_outside dst (dst + 2 * offset + (8 - offset)) ob ob1" "good offset dst (dst + 2 * offset) ob1" by auto
    have "length ob1 = length ob" using 1(2) by (simp add: keeps_outside_def)
    then obtain ob2 where 2: "copy_near_loop offset (dst + 2 * offset - offset) (dst + 2 * offset) (dst + n) ob1 = Inr ob2"
      "keeps_outside (dst + 2 * offset) (max (dst + 2 * offset + 15) (dst + n + 15)) ob1 ob2"
      "good offset dst (dst + n) ob2"
      using copy_near_loop_good [OF 1(3) o(1) near(2), of "dst + n"] o room near len by force
    have "dst - offset + 2 * offset = dst + 2 * offset - offset" using o by simp
    then have "copy_match P offset dst (dst + n) ob = Inr ob2"
      using 1(1) 2(1) near by (simp add: copy_match_def WORDBYTES_def)
    moreover have "keeps_outside dst (dst + n + 39) ob ob2"
      by (rule keeps_outside_trans [OF 1(2) 2(2)]) (use near len in simp_all)
    ultimately show ?thesis using 2(3) near by (intro that) simp_all
  next
    case bytes
    obtain ob' where "copy_bytes (dst - offset) dst (dst + n) ob = Inr ob'" "keeps_outside dst (dst + n) ob ob'"
      "good offset dst (dst + n) ob'"
      using copy_bytes_good [OF o, of "dst + n" ob] len room bytes by auto
    then show ?thesis using bytes by (intro that) (simp_all add: copy_match_def)
  qed
qed

text \<open>C29. Copying a match, on every platform and for every offset: words at a time for far offsets, a
  repeated byte for offset one, overlapping words for near offsets, or byte by byte, the routine
  makes exactly the copy of LZ77. It stays within the 39 bytes of slack the fast loop reserves and
  changes nothing in front of the match or behind the slack.\<close>

theorem copy_match_lz77:
  assumes "0 < offset" and "offset \<le> dst" and "3 \<le> n"
    and "dst + n + (if unaligned_fast P then 39 else 0) \<le> length ob"
  shows "\<exists>ob'. copy_match P offset dst (dst + n) ob = Inr ob' \<and> length ob' = length ob \<and>
     take (dst + n) ob' = lz_copy offset n (take dst ob) \<and>
     drop (dst + n + (if unaligned_fast P then 39 else 0)) ob' = drop (dst + n + (if unaligned_fast P then 39 else 0)) ob"
proof -
  obtain ob' where c: "copy_match P offset dst (dst + n) ob = Inr ob'"
    and k: "keeps_outside dst (dst + n + (if unaligned_fast P then 39 else 0)) ob ob'"
    and g: "good offset dst (dst + n) ob'"
    by (rule copy_match_good [OF assms])
  have l: "length ob' = length ob" using k by (simp add: keeps_outside_def)
  have "take dst ob' = take dst ob"
    using k l by (auto simp: list_eq_iff_nth_eq keeps_outside_def)
  then have "take (dst + n) ob' = lz_copy offset n (take dst ob)"
    using good_lz_copy [OF g assms(1,2)] assms(4) l by simp
  moreover have "drop (dst + n + (if unaligned_fast P then 39 else 0)) ob' =
      drop (dst + n + (if unaligned_fast P then 39 else 0)) ob"
    using k l by (auto simp: list_eq_iff_nth_eq keeps_outside_def)
  ultimately show ?thesis using c l by blast
qed

lemma copy_match_lz77_witness:
  "\<exists>ob'. copy_match \<lparr>unaligned_fast = True, little_endian = True\<rparr> 2 2 7 ([1, 2] @ replicate 50 0) = Inr ob' \<and>
     take 7 ob' = [1, 2, 1, 2, 1, 2, 1]"
  using copy_match_lz77 [of 2 2 5 "\<lparr>unaligned_fast = True, little_endian = True\<rparr>" "[1, 2] @ replicate 50 0"]
  by (auto simp: numeral_eq_Suc One_nat_def)

end
