(* ===== verification/Deflate_Bits.thy ===== *)
theory Deflate_Bits
  imports Deflate_Decompress
begin

text \<open>
  The input of the decompressor as a stream of bits: the bits of the bytes, the least significant
  first, then zeros. The reader is at a position of it; refilling keeps the position, consuming
  moves it on, and what is read from the bit buffer are the bits at the position.
\<close>

section \<open>The stream\<close>

definition in_bit :: "byte list \<Rightarrow> nat \<Rightarrow> bool" where
  "in_bit inp i \<longleftrightarrow> i div 8 < length inp \<and> bit (inp ! (i div 8)) (i mod 8)"

text \<open>The reader is at bit \<open>pos\<close> of the stream.\<close>

definition at_bit :: "platform \<Rightarrow> byte list \<Rightarrow> nat \<Rightarrow> dstream \<Rightarrow> bool" where
  "at_bit P inp pos s \<longleftrightarrow>
     in_next s \<le> length inp \<and> overread_count s \<le> 8 \<and>
     (0 < overread_count s \<longrightarrow> in_next s = length inp) \<and>
     low8 (bitsleft s) \<le> MAX_BITSLEFT P \<and>
     pos + low8 (bitsleft s) = 8 * (in_next s + overread_count s) \<and>
     (\<forall>j < 64. bit (bitbuf s) j \<longrightarrow> in_bit inp (pos + j)) \<and>
     (\<forall>j < low8 (bitsleft s). in_bit inp (pos + j) \<longrightarrow> bit (bitbuf s) j)"

text \<open>What the reader leaves alone.\<close>

definition same_output :: "dstream \<Rightarrow> dstream \<Rightarrow> bool" where
  "same_output s s' \<longleftrightarrow> out_buf s' = out_buf s \<and> out_next s' = out_next s \<and> decomp s' = decomp s"

lemma same_output_refl [simp]: "same_output s s"
  by (simp add: same_output_def)

lemma same_output_trans: "same_output s t \<Longrightarrow> same_output t u \<Longrightarrow> same_output s u"
  by (simp add: same_output_def)

lemma max_bitsleft: "MAX_BITSLEFT P \<le> 64" "unaligned_fast P \<Longrightarrow> MAX_BITSLEFT P = 63" "\<not> unaligned_fast P \<Longrightarrow> MAX_BITSLEFT P = 64"
  by (simp_all add: MAX_BITSLEFT_def BITBUF_NBITS_def)

lemma at_bitD:
  assumes "at_bit P inp pos s"
  shows "in_next s \<le> length inp" and "overread_count s \<le> 8" and "0 < overread_count s \<Longrightarrow> in_next s = length inp"
    and "low8 (bitsleft s) \<le> MAX_BITSLEFT P" and "pos + low8 (bitsleft s) = 8 * (in_next s + overread_count s)"
    and "bit (bitbuf s) j \<Longrightarrow> in_bit inp (pos + j)"
    and "j < low8 (bitsleft s) \<Longrightarrow> bit (bitbuf s) j \<longleftrightarrow> in_bit inp (pos + j)"
proof -
  note a = assms [unfolded at_bit_def]
  show "in_next s \<le> length inp" "overread_count s \<le> 8" "0 < overread_count s \<Longrightarrow> in_next s = length inp"
    "low8 (bitsleft s) \<le> MAX_BITSLEFT P" "pos + low8 (bitsleft s) = 8 * (in_next s + overread_count s)"
    using a by blast+
  have "j < 64" if "bit (bitbuf s) j" for j using bit_imp_le_length [OF that] by simp
  then show 1: "bit (bitbuf s) j \<Longrightarrow> in_bit inp (pos + j)" for j using a by blast
  show "j < low8 (bitsleft s) \<Longrightarrow> bit (bitbuf s) j \<longleftrightarrow> in_bit inp (pos + j)" using 1 a by blast
qed

section \<open>The low byte of a count\<close>

lemma low8_mod: "low8 b = unat b mod 256"
  by (simp add: low8_def unsigned_ucast_eq take_bit_eq_mod)

lemma ucast_byte_diff: "(ucast (b - e) :: byte) = ucast b - ucast (e :: u32)"
proof transfer
  fix b e :: int
  have t: "take_bit LENGTH(8) (take_bit LENGTH(32) x) = take_bit LENGTH(8) x" for x :: int by simp
  show "take_bit LENGTH(8) (take_bit LENGTH(32) (b - e)) =
      take_bit LENGTH(8) (take_bit LENGTH(32) b - take_bit LENGTH(32) e)"
    unfolding t take_bit_diff [of "LENGTH(8)" "take_bit LENGTH(32) b", symmetric]
    by (rule take_bit_diff [symmetric])
qed

lemma low8_diff:
  assumes "low8 e \<le> low8 b"
  shows "low8 (b - e) = low8 b - low8 e"
proof -
  note ucast_byte_diff [of b e]
  moreover have "(ucast e :: byte) \<le> ucast b"
    using assms by (simp add: low8_def word_le_nat_alt)
  ultimately show ?thesis by (simp add: low8_def unat_sub)
qed

lemma low8_of_nat: "n < 256 \<Longrightarrow> low8 (of_nat n) = n"
  by (simp add: low8_mod unat_of_nat_u32)

section \<open>Refilling byte by byte\<close>

lemma load_byte_at:
  assumes at: "at_bit P inp pos s" and n: "low8 (bitsleft s) < CONSUMABLE_NBITS P" and i: "in_next s < length inp"
  shows "at_bit P inp pos (load_byte (inp ! in_next s) s)"
proof -
  let ?n = "low8 (bitsleft s)" and ?b = "inp ! in_next s"
  note a = at_bitD [OF at]
  have n57: "?n < 57" "?n + 8 \<le> MAX_BITSLEFT P" using n max_bitsleft(1) [of P]
    by (auto simp: CONSUMABLE_NBITS_def MAX_BITSLEFT_def BITBUF_NBITS_def split: if_splits)
  have o: "overread_count s = 0" using a(3) i by fastforce
  have pos: "pos + ?n = 8 * in_next s" using a(5) o by simp
  have l: "low8 (bitsleft s + 8) = ?n + 8" by (rule low8_add8) (use n57 in simp)
  have byte: "in_bit inp (pos + j) \<longleftrightarrow> bit ?b (j - ?n)" if "?n \<le> j" "j < ?n + 8" for j
  proof -
    have "pos + j = 8 * in_next s + (j - ?n)" "j - ?n < 8" using pos that by linarith+
    then have "(pos + j) div 8 = in_next s" "(pos + j) mod 8 = j - ?n" by simp_all
    then show ?thesis using i by (simp add: in_bit_def)
  qed
  have new: "bit (bitbuf (load_byte ?b s)) j \<longleftrightarrow>
      bit (bitbuf s) j \<or> ?n \<le> j \<and> j < ?n + 8 \<and> bit ?b (j - ?n)" if "j < 64" for j
    using that by (auto simp: load_byte_def bit_simps dest: bit_imp_le_length)
  have "bit (bitbuf (load_byte ?b s)) j \<longrightarrow> in_bit inp (pos + j)" if "j < 64" for j
    using new [OF that] a(6) byte by blast
  moreover have "in_bit inp (pos + j) \<longrightarrow> bit (bitbuf (load_byte ?b s)) j" if "j < ?n + 8" for j
  proof -
    have "j < 64" using that n57 by simp
    then show ?thesis using new byte a(7) that by (cases "j < ?n") auto
  qed
  moreover have "in_next (load_byte ?b s) = in_next s + 1" "overread_count (load_byte ?b s) = 0"
    "low8 (bitsleft (load_byte ?b s)) = ?n + 8"
    using o l by (simp_all add: load_byte_def)
  ultimately show ?thesis
    using pos n57(2) i unfolding at_bit_def by simp
qed

lemma skip_byte_at:
  assumes at: "at_bit P inp pos s" and n: "low8 (bitsleft s) < CONSUMABLE_NBITS P"
    and i: "in_next s = length inp" and o: "overread_count s < 8"
  shows "at_bit P inp pos (skip_byte s)"
proof -
  let ?n = "low8 (bitsleft s)"
  note a = at_bitD [OF at]
  have n57: "?n < 57" "?n + 8 \<le> MAX_BITSLEFT P" using n max_bitsleft(1) [of P]
    by (auto simp: CONSUMABLE_NBITS_def MAX_BITSLEFT_def BITBUF_NBITS_def split: if_splits)
  have l: "low8 (bitsleft s + 8) = ?n + 8" by (rule low8_add8) (use n57 in simp)
  have "\<not> in_bit inp (pos + j)" if "?n \<le> j" for j
  proof -
    have "8 * length inp \<le> pos + j" using a(5) i that by simp
    then have "length inp \<le> (pos + j) div 8" by simp
    then show ?thesis by (simp add: in_bit_def)
  qed
  then have "in_bit inp (pos + j) \<longrightarrow> bit (bitbuf s) j" for j
    using a(7) by (cases "j < ?n") auto
  moreover have "bit (bitbuf s) j \<longrightarrow> in_bit inp (pos + j)" for j using a(6) by blast
  moreover have "in_next (skip_byte s) = in_next s" "overread_count (skip_byte s) = overread_count s + 1"
    "low8 (bitsleft (skip_byte s)) = ?n + 8" "bitbuf (skip_byte s) = bitbuf s"
    using l by (simp_all add: skip_byte_def)
  ultimately show ?thesis
    using a(5) n57(2) i o unfolding at_bit_def by simp
qed

text \<open>Either the buffer is filled, or more than eight bytes behind the end of the input were needed.\<close>

definition refilled :: "platform \<Rightarrow> byte list \<Rightarrow> nat \<Rightarrow> dstream \<Rightarrow> dstream run \<Rightarrow> bool" where
  "refilled P inp pos s r \<longleftrightarrow>
     (\<exists>s'. r = Inr s' \<and> at_bit P inp pos s' \<and> CONSUMABLE_NBITS P \<le> low8 (bitsleft s') \<and> same_output s s') \<or>
     (\<exists>s'. r = Inl (Return LIBDEFLATE_BAD_DATA s') \<and> 8 * length inp + 64 < pos + CONSUMABLE_NBITS P)"

lemma refilled_step: "same_output s t \<Longrightarrow> refilled P inp pos t r \<Longrightarrow> refilled P inp pos s r"
  by (auto simp: refilled_def intro: same_output_trans)

lemma refill_loop_at: "at_bit P inp pos s \<Longrightarrow> refilled P inp pos s (refill_loop P inp s)"
proof (induction P inp s rule: refill_loop.induct)
  case (1 P inp s)
  note a = at_bitD [OF 1(3)]
  show ?case
  proof (cases "low8 (bitsleft s) < CONSUMABLE_NBITS P")
    case False
    then show ?thesis using 1(3) by (subst refill_loop.simps) (auto simp: refilled_def)
  next
    case n: True
    consider (load) "in_next s < length inp" | (skip) "in_next s = length inp" "overread_count s < 8"
      | (stop) "in_next s = length inp" "overread_count s = 8" using a(1,2) by linarith
    then show ?thesis
    proof cases
      case load
      then have "refilled P inp pos (load_byte (inp ! in_next s) s) (refill_loop P inp (load_byte (inp ! in_next s) s))"
        using 1(1) [OF n _ _ load_byte_at [OF 1(3) n load]] by simp
      moreover have "refill_loop P inp s = refill_loop P inp (load_byte (inp ! in_next s) s)"
        using n load by (subst refill_loop.simps) simp
      moreover have "same_output s (load_byte (inp ! in_next s) s)" by (simp add: same_output_def load_byte_def)
      ultimately show ?thesis using refilled_step by simp
    next
      case skip
      then have "refilled P inp pos (skip_byte s) (refill_loop P inp (skip_byte s))"
        using 1(2) [OF n _ _ skip_byte_at [OF 1(3) n skip]] by simp
      moreover have "refill_loop P inp s = refill_loop P inp (skip_byte s)"
        using n skip by (subst refill_loop.simps) simp
      moreover have "same_output s (skip_byte s)" by (simp add: same_output_def skip_byte_def)
      ultimately show ?thesis using refilled_step by simp
    next
      case stop
      then have "refill_loop P inp s = Inl (Return LIBDEFLATE_BAD_DATA (s\<lparr>overread_count := 9\<rparr>))"
        using n by (subst refill_loop.simps) simp
      moreover have "8 * length inp + 64 < pos + CONSUMABLE_NBITS P" using a(5) stop n by simp
      ultimately show ?thesis by (auto simp: refilled_def)
    qed
  qed
qed

section \<open>Refilling a word at a time\<close>

lemma low8_or_56: "low8 b < 64 \<Longrightarrow> low8 (b OR 56) = low8 b mod 8 + 56"
proof -
  assume l: "low8 b < 64"
  have "low8 (b OR 56) = unat (ucast b OR (56 :: byte))" by (simp add: low8_def unsigned_or_eq)
  also have "\<dots> = low8 b OR 56" by (simp add: low8_def unsigned_or_eq)
  also have "\<dots> = low8 b mod 8 + 56"
  proof -
    have "\<forall>n \<in> set [0..<64]. n OR 56 = n mod 8 + (56 :: nat)" by code_simp
    then show ?thesis using l by simp
  qed
  finally show ?thesis .
qed

lemma drop3_and_7: "low8 b < 64 \<Longrightarrow> unat (drop_bit 3 b AND 0x7) = low8 b div 8"
proof -
  assume l: "low8 b < 64"
  have "(drop_bit 3 b AND 0x7) = take_bit 3 (drop_bit 3 b)"
    by (simp add: take_bit_eq_mask mask_eq_exp_minus_1)
  then have "unat (drop_bit 3 b AND 0x7) = unat b div 8 mod 8"
    by (simp only: unsigned_take_bit_eq unat_drop_bit_eq) (simp add: take_bit_eq_mod drop_bit_eq_div)
  also have "\<dots> = unat b mod 64 div 8" using mod_mult2_eq [of "unat b" 8 8] by simp
  also have "unat b mod 64 = low8 b"
  proof -
    have "unat b mod 256 mod 64 = unat b mod 256" using l unfolding low8_mod by (rule mod_less)
    then show ?thesis by (simp add: low8_mod mod_mod_cancel)
  qed
  finally show ?thesis .
qed

lemma leword_bit:
  assumes "i + 8 \<le> length inp"
  shows "bit (get_unaligned_leword P (drop i inp)) j \<longleftrightarrow> j < 64 \<and> in_bit inp (8 * i + j)"
proof (cases "j < 64")
  case True
  have e: "(8 * i + j) div 8 = i + j div 8" "(8 * i + j) mod 8 = j mod 8" "j div 8 < 8" using True by simp_all
  have w: "get_unaligned_leword P (drop i inp) = bytes_word (take 8 (drop i inp))"
    using assms by (simp add: get_unaligned_leword_def WORDBITS_def WORDBYTES_def get_unaligned_bytes)
  show ?thesis
    unfolding w bit_bytes_word in_bit_def e(1,2) using True e(3) assms by simp
next
  case False
  then show ?thesis using bit_imp_le_length by fastforce
qed

lemma branchless_at:
  assumes at: "at_bit P inp pos s" and fast: "unaligned_fast P" and i: "in_next s + 8 \<le> length inp"
  obtains s' where "REFILL_BITS_BRANCHLESS P inp s = Inr s'" and "at_bit P inp pos s'"
    and "CONSUMABLE_NBITS P \<le> low8 (bitsleft s')" and "same_output s s'" and "in_next s' \<le> in_next s + 7"
proof -
  let ?n = "low8 (bitsleft s)" and ?w = "get_unaligned_leword P (drop (in_next s) inp)"
  note a = at_bitD [OF at]
  have n: "?n < 64" using a(4) max_bitsleft(2) [OF fast] by simp
  have o: "overread_count s = 0" using a(3) i by fastforce
  have pos: "pos + ?n = 8 * in_next s" using a(5) o by simp
  let ?s = "s\<lparr>bitbuf := bitbuf s OR push_bit ?n ?w, in_next := in_next s + 7 - ?n div 8, bitsleft := bitsleft s OR 56\<rparr>"
  have "(of_nat (MAX_BITSLEFT P) AND NOT 7 :: u32) = 56" using max_bitsleft(2) [OF fast] by simp
  then have r: "REFILL_BITS_BRANCHLESS P inp s = Inr ?s"
    using i n by (simp add: REFILL_BITS_BRANCHLESS_def drop3_and_7 WORDBYTES_def)
  have l: "low8 (bitsleft ?s) = ?n mod 8 + 56" using low8_or_56 [OF n] by simp
  have new: "bit (bitbuf ?s) j \<longleftrightarrow> bit (bitbuf s) j \<or> ?n \<le> j \<and> in_bit inp (pos + j)" if "j < 64" for j
  proof -
    have "8 * in_next s + (j - ?n) = pos + j" if "?n \<le> j" using pos that by simp
    then show ?thesis using that by (auto simp: bit_simps leword_bit [OF i])
  qed
  have "bit (bitbuf ?s) j \<longrightarrow> in_bit inp (pos + j)" if "j < 64" for j
    unfolding new [OF that] using a(6) by blast
  moreover have "in_bit inp (pos + j) \<longrightarrow> bit (bitbuf ?s) j" if "j < 64" for j
    unfolding new [OF that] using a(7) [of j] by (cases "j < ?n") auto
  moreover have "pos + low8 (bitsleft ?s) = 8 * in_next ?s"
  proof -
    define q r where q: "q = ?n div 8" and r: "r = ?n mod 8"
    have "?n = 8 * q + r" "q \<le> 7" using n by (simp_all add: q r)
    then show ?thesis unfolding l using pos unfolding q [symmetric] r [symmetric] by simp
  qed
  moreover have "in_next ?s \<le> length inp" "low8 (bitsleft ?s) < 64" unfolding l using i by simp_all
  ultimately have "at_bit P inp pos ?s"
    unfolding at_bit_def using o max_bitsleft(2) [OF fast] by simp
  moreover have "CONSUMABLE_NBITS P \<le> low8 (bitsleft ?s)"
    unfolding l using max_bitsleft(2) [OF fast] by (simp add: CONSUMABLE_NBITS_def)
  ultimately show thesis by (rule that [OF r]) (simp_all add: same_output_def)
qed

lemma refill_at: "at_bit P inp pos s \<Longrightarrow> refilled P inp pos s (REFILL_BITS P inp s)"
proof (cases "unaligned_fast P \<and> in_next s + 8 \<le> length inp")
  case True
  assume at: "at_bit P inp pos s"
  obtain s' where "REFILL_BITS_BRANCHLESS P inp s = Inr s'" "at_bit P inp pos s'"
    "CONSUMABLE_NBITS P \<le> low8 (bitsleft s')" "same_output s s'"
    using branchless_at [OF at] True by blast
  then show ?thesis using True by (auto simp: REFILL_BITS_def refilled_def)
next
  case False
  then have "REFILL_BITS P inp s = refill_loop P inp s" by (auto simp: REFILL_BITS_def)
  then show "at_bit P inp pos s \<Longrightarrow> ?thesis" by (simp add: refill_loop_at)
qed

lemma consumable: "56 \<le> CONSUMABLE_NBITS P" "CONSUMABLE_NBITS P \<le> 57"
  by (simp_all add: CONSUMABLE_NBITS_def MAX_BITSLEFT_def BITBUF_NBITS_def)

text \<open>C31. The bit reader: refilling, by bytes or by words, never loses or repeats a bit of the input. It
  stays at its position in the stream of bits, fills the buffer with the bits from there on to at
  least 56, and touches no output; it fails only when bits more than eight bytes behind the end
  of the input would have to be made up.\<close>

theorem refill_bits_keeps_position:
  assumes "at_bit P inp pos s"
  shows "(\<exists>s'. REFILL_BITS P inp s = Inr s' \<and> at_bit P inp pos s' \<and> 56 \<le> low8 (bitsleft s') \<and> same_output s s') \<or>
     (\<exists>s'. REFILL_BITS P inp s = Inl (Return LIBDEFLATE_BAD_DATA s') \<and> 8 * length inp + 64 < pos + 57)"
  using refill_at [OF assms] consumable [of P] unfolding refilled_def by (meson le_trans less_le_trans add_left_mono)

lemma start_at: "at_bit P inp 0 (start_stream d ob)"
  by (simp add: at_bit_def start_stream_def low8_def)

lemma refill_bits_keeps_position_witness:
  "(\<exists>s'. REFILL_BITS \<lparr>unaligned_fast = False, little_endian = True\<rparr> [75, 4, 0] (start_stream zero_decompressor []) = Inr s' \<and>
      at_bit \<lparr>unaligned_fast = False, little_endian = True\<rparr> [75, 4, 0] 0 s' \<and> 56 \<le> low8 (bitsleft s') \<and>
      same_output (start_stream zero_decompressor []) s') \<or>
   (\<exists>s'. REFILL_BITS \<lparr>unaligned_fast = False, little_endian = True\<rparr> [75, 4, 0] (start_stream zero_decompressor []) =
        Inl (Return LIBDEFLATE_BAD_DATA s') \<and> 8 * length [75 :: byte, 4, 0] + 64 < 0 + (57 :: nat))"
  by (rule refill_bits_keeps_position [OF start_at])

section \<open>Reading and consuming\<close>

lemma consume_at:
  assumes "at_bit P inp pos s" and "low8 e \<le> low8 (bitsleft s)"
  shows "at_bit P inp (pos + low8 e) (consume e s)" and "same_output s (consume e s)"
    and "low8 (bitsleft (consume e s)) = low8 (bitsleft s) - low8 e"
proof -
  note a = at_bitD [OF assms(1)]
  show l: "low8 (bitsleft (consume e s)) = low8 (bitsleft s) - low8 e"
    using low8_diff [OF assms(2)] by (simp add: consume_def)
  show "same_output s (consume e s)" by (simp add: same_output_def consume_def)
  have b: "bit (bitbuf (consume e s)) j \<longleftrightarrow> bit (bitbuf s) (low8 e + j)" for j
    by (simp add: consume_def bit_simps)
  have "bit (bitbuf (consume e s)) j \<longrightarrow> in_bit inp (pos + low8 e + j)" for j
    unfolding b using a(6) [of "low8 e + j"] by (simp add: add.assoc)
  moreover have "in_bit inp (pos + low8 e + j) \<longrightarrow> bit (bitbuf (consume e s)) j"
    if "j < low8 (bitsleft s) - low8 e" for j
    unfolding b using a(7) [of "low8 e + j"] that by (simp add: add.assoc)
  moreover have "in_next (consume e s) = in_next s" "overread_count (consume e s) = overread_count s"
    by (simp_all add: consume_def)
  ultimately show "at_bit P inp (pos + low8 e) (consume e s)"
    unfolding at_bit_def l using a(1-5) assms(2) by simp
qed

text \<open>The number in \<open>n\<close> bits of the stream.\<close>

definition bits_at :: "byte list \<Rightarrow> nat \<Rightarrow> nat \<Rightarrow> nat" where
  "bits_at inp i n = horner_sum of_bool 2 (map (\<lambda>j. in_bit inp (i + j)) [0..<n])"

lemma bits_at_bit: "bit (bits_at inp i n) j \<longleftrightarrow> j < n \<and> in_bit inp (i + j)"
  by (auto simp: bits_at_def bit_horner_sum_bit_iff)

lemma peek_at:
  assumes "at_bit P inp pos s" and "k + n \<le> low8 (bitsleft s)"
  shows "peek k n s = bits_at inp (pos + k) n"
proof (rule bit_eqI)
  fix j
  note a = at_bitD [OF assms(1)]
  have "low8 (bitsleft s) \<le> 64" using a(4) max_bitsleft(1) [of P] by simp
  then have "n \<le> 64" using assms(2) by simp
  then have m: "BITMASK n = mask n" by (simp add: BITMASK_def mask_eq_exp_minus_1 push_bit_eq_mult)
  have "bit (peek k n s) j \<longleftrightarrow> j < n \<and> bit (bitbuf s) (k + j)"
    using \<open>n \<le> 64\<close> by (auto simp: peek_def m bit_simps)
  also have "\<dots> \<longleftrightarrow> j < n \<and> in_bit inp (pos + k + j)"
    using a(7) [of "k + j"] assms(2) by (auto simp: add.assoc)
  finally show "bit (peek k n s) j \<longleftrightarrow> bit (bits_at inp (pos + k) n) j" by (simp add: bits_at_bit)
qed

end
