(* ===== verification/Deflate_Stored.thy ===== *)
theory Deflate_Stored
  imports Deflate_Bits
begin

text \<open>
  Stored blocks: the level 0 compressor (\<^verbatim>\<open>deflate_compress_none\<close> of
  \<^verbatim>\<open>tools/deflate/lib/deflate_compress.c\<close>), the stream it writes, and the decompressor reading
  that stream back, from any bit position of the input and on every platform.
\<close>

section \<open>The level 0 compressor\<close>

definition UINT16_MAX :: nat where "UINT16_MAX = 65535"

text \<open>A write through the pointer to index \<open>i\<close>; and \<^verbatim>\<open>memcpy\<close> there.\<close>

definition put_at :: "nat \<Rightarrow> ('a list \<Rightarrow> 'a list) \<Rightarrow> 'a list \<Rightarrow> 'a list" where
  "put_at i f xs = take i xs @ f (drop i xs)"

definition memcpy_to :: "'a list \<Rightarrow> 'a list \<Rightarrow> 'a list" where
  "memcpy_to vs p = vs @ drop (length vs) p"

text \<open>One block: its header byte, \<^verbatim>\<open>LEN\<close> and \<^verbatim>\<open>NLEN\<close>, the data.\<close>

definition put_stored :: "platform \<Rightarrow> bool \<Rightarrow> byte list \<Rightarrow> nat \<Rightarrow> byte list \<Rightarrow> byte list" where
  "put_stored P bfinal vs k out =
     (let out = out[k := (if bfinal then 1 else 0) OR push_bit 1 0];
          out = put_at (k + 1) (put_unaligned_le16 P (of_nat (length vs))) out;
          out = put_at (k + 3) (put_unaligned_le16 P (ucast (NOT (of_nat (length vs) :: u64)))) out
      in put_at (k + 5) (memcpy_to vs) out)"

text \<open>The loop, with the bytes from \<^verbatim>\<open>in_next\<close> to \<^verbatim>\<open>in_end\<close> and \<^verbatim>\<open>out_next\<close> at index \<open>k\<close>; the result
  is the number of bytes written, 0 when there is no room.\<close>

function none_loop :: "platform \<Rightarrow> byte list \<Rightarrow> nat \<Rightarrow> byte list \<Rightarrow> nat \<times> byte list" where
  "none_loop P vs k out =
     (let bfinal = (length vs \<le> UINT16_MAX);
          len = (if bfinal then length vs else UINT16_MAX)
      in if length out - k < 5 + len then (0, out)
         else let out = put_stored P bfinal (take len vs) k out
              in if drop len vs \<noteq> [] then none_loop P (drop len vs) (k + 5 + len) out
                 else (k + 5 + len, out))"
  by pat_completeness auto
termination
  by (relation "measure (\<lambda>(P, vs, k, out). length vs)") (auto simp: UINT16_MAX_def)

declare none_loop.simps [simp del]

definition deflate_compress_none :: "platform \<Rightarrow> byte list \<Rightarrow> byte list \<Rightarrow> nat \<times> byte list" where
  "deflate_compress_none P inp out =
     (if inp = []
      then (if length out < 5 then (0, out)
            else (5, put_at 1 (put_unaligned_le32 P 0xFFFF0000) (out[0 := 1 OR push_bit 1 0])))
      else none_loop P inp 0 out)"

section \<open>The stream\<close>

definition stored_block :: "bool \<Rightarrow> byte list \<Rightarrow> byte list" where
  "stored_block bfinal vs =
     of_bool bfinal # word_bytes 2 (of_nat (length vs) :: u16) @ word_bytes 2 (NOT (of_nat (length vs)) :: u16) @ vs"

function stored_stream :: "byte list \<Rightarrow> byte list" where
  "stored_stream vs =
     (if length vs \<le> UINT16_MAX then stored_block True vs
      else stored_block False (take UINT16_MAX vs) @ stored_stream (drop UINT16_MAX vs))"
  by pat_completeness auto
termination
  by (relation "measure length") (auto simp: UINT16_MAX_def)

declare stored_stream.simps [simp del]

lemma length_stored_block [simp]: "length (stored_block b vs) = 5 + length vs"
  by (simp add: stored_block_def)

lemma put_at_bytes:
  "i + n \<le> length xs \<Longrightarrow> f (drop i xs) = bs @ drop n (drop i xs) \<Longrightarrow>
   put_at i f xs = take i xs @ bs @ drop (i + n) xs"
  by (simp add: put_at_def add.commute)

lemma ucast_not_len: "(ucast (NOT (of_nat n :: u64)) :: u16) = NOT (of_nat n)"
  by (rule bit_word_eqI) (simp add: bit_simps)

lemma put_stored_block:
  assumes "i + 5 + length vs \<le> length out"
  shows "put_stored P b vs i out = take i out @ stored_block b vs @ drop (i + 5 + length vs) out"
proof -
  obtain l x1 x2 x3 x4 x5 m r where o: "out = l @ [x1, x2, x3, x4, x5] @ m @ r" and l: "length l = i" and m: "length m = length vs"
  proof
    show "out = take i out @ [out ! i, out ! (i + 1), out ! (i + 2), out ! (i + 3), out ! (i + 4)] @
        take (length vs) (drop (i + 5) out) @ drop (i + 5 + length vs) out"
    proof -
      have "drop i out = out ! i # out ! (i + 1) # out ! (i + 2) # out ! (i + 3) # out ! (i + 4) # drop (i + 5) out"
        using assms by (simp add: Cons_nth_drop_Suc numeral_eq_Suc One_nat_def)
      moreover have "drop (i + 5) out = take (length vs) (drop (i + 5) out) @ drop (i + 5 + length vs) out"
        by (metis append_take_drop_id drop_drop add.commute)
      ultimately show ?thesis by (metis append_take_drop_id append_Cons append_Nil)
    qed
  qed (use assms in simp_all)
  note w = put_unaligned_bytes(1) [of "a # b # c" for a b c, simplified]
  show ?thesis
    unfolding o put_stored_def put_at_def memcpy_to_def stored_block_def Let_def
    using l m by (simp add: w ucast_not_len list_update_append numeral_eq_Suc One_nat_def)
qed

lemma none_loop_stored:
  assumes "k \<le> length out"
  shows "if k + length (stored_stream vs) \<le> length out
     then none_loop P vs k out =
       (k + length (stored_stream vs), take k out @ stored_stream vs @ drop (k + length (stored_stream vs)) out)
     else fst (none_loop P vs k out) = 0"
  using assms
proof (induction vs arbitrary: k out rule: stored_stream.induct)
  case (1 vs)
  show ?case
  proof (cases "length vs \<le> UINT16_MAX")
    case True
    then have s: "stored_stream vs = stored_block True vs" by (subst stored_stream.simps) simp
    show ?thesis
    proof (cases "length out - k < 5 + length vs")
      case False
      then have "k + 5 + length vs \<le> length out" using 1(2) by simp
      then have "none_loop P vs k out = (k + 5 + length vs, take k out @ stored_block True vs @ drop (k + 5 + length vs) out)"
        using True False by (subst none_loop.simps) (simp add: put_stored_block Let_def)
      then show ?thesis using \<open>k + 5 + length vs \<le> length out\<close> unfolding s by (simp add: add.assoc)
    next
      case r: True
      then have "none_loop P vs k out = (0, out)" using True by (subst none_loop.simps) simp
      then show ?thesis using r 1(2) unfolding s by simp
    qed
  next
    case False
    let ?vs = "take UINT16_MAX vs" and ?r = "drop UINT16_MAX vs"
    have s: "stored_stream vs = stored_block False ?vs @ stored_stream ?r" using False by (subst stored_stream.simps) simp
    have l: "length ?vs = UINT16_MAX" using False by simp
    show ?thesis
    proof (cases "length out - k < 5 + UINT16_MAX")
      case r: True
      then have "none_loop P vs k out = (0, out)" using False by (subst none_loop.simps) simp
      then show ?thesis using r 1(2) l unfolding s by simp
    next
      case r: False
      let ?k = "k + 5 + UINT16_MAX"
      let ?out = "take k out @ stored_block False ?vs @ drop ?k out"
      have k: "?k \<le> length out" using r 1(2) by simp
      then have lo: "length ?out = length out" using l by simp
      have step: "none_loop P vs k out = none_loop P ?r ?k ?out"
        using False r k l by (subst none_loop.simps) (simp add: put_stored_block Let_def)
      have "?k \<le> length ?out" using k lo by simp
      note ih = 1(1) [OF False this]
      have t: "take ?k ?out = take k out @ stored_block False ?vs" using k l by simp
      have d: "drop (?k + n) ?out = drop (?k + n) out" for n using k l by (simp add: ac_simps)
      show ?thesis
        unfolding step using ih k l 1(2) by (simp add: s t d lo ac_simps split: if_splits)
    qed
  qed
qed

text \<open>The level 0 compressor writes the stored blocks of its input at the start of the output buffer and
  leaves the rest of the buffer alone, when they fit; otherwise it reports 0.\<close>

lemma compress_none_stored:
  "if length (stored_stream inp) \<le> length out
   then deflate_compress_none P inp out =
     (length (stored_stream inp), stored_stream inp @ drop (length (stored_stream inp)) out)
   else fst (deflate_compress_none P inp out) = 0"
proof (cases "inp = []")
  case True
  have "stored_stream [] = stored_block True []" by (subst stored_stream.simps) simp
  also have "\<dots> = [1, 0, 0, 255, 255]"
  proof -
    have "word_bytes 2 (0 :: u16) = [0, 0]" "word_bytes 2 (NOT 0 :: u16) = [255, 255]" by code_simp+
    then show ?thesis by (simp add: stored_block_def)
  qed
  finally have s: "stored_stream [] = [1, 0, 0, 255, 255]" .
  show ?thesis
  proof (cases "length out < 5")
    case False
    then obtain a b c d e r where "out = a # b # c # d # e # r"
      by (auto simp: not_less Suc_le_length_iff numeral_eq_Suc One_nat_def)
    moreover have "put_unaligned_le32 P 0xFFFF0000 (b # c # d # e # r) = [0, 0, 255, 255] @ r"
      by (subst put_unaligned_bytes) (simp_all add: word_bytes_def upt_rec)
    ultimately show ?thesis using True s
      by (simp add: deflate_compress_none_def put_at_def numeral_eq_Suc One_nat_def)
  qed (simp add: True s deflate_compress_none_def)
next
  case False
  have "none_loop P inp 0 out = deflate_compress_none P inp out" using False by (simp add: deflate_compress_none_def)
  then show ?thesis using none_loop_stored [of 0 out inp P] by (simp split: if_splits)
qed

section \<open>Reading a stored block\<close>

lemma stored_start:
  assumes at: "at_bit P inp pos s" and k: "k = (pos + 10) div 8"
    and ty: "bits_at inp (pos + 1) 2 = 0"
    and bytes: "drop k inp = word_bytes 2 (of_nat (length vs) :: u16) @ word_bytes 2 (NOT (of_nat (length vs)) :: u16) @ vs @ rest"
    and n: "length vs \<le> UINT16_MAX" and room: "out_next s + length vs \<le> length (out_buf s)"
  obtains s' where "start_block P inp s = Inr (bits_at inp pos 1 = 1, True, s')"
    and "at_bit P inp (8 * (k + 4 + length vs)) s'" and "decomp s' = decomp s"
    and "out_buf s' = take (out_next s) (out_buf s) @ vs @ drop (out_next s + length vs) (out_buf s)"
    and "out_next s' = out_next s + length vs"
proof -
  have "length (drop k inp) = 4 + length vs + length rest" unfolding bytes by simp
  then have len: "k + 4 + length vs \<le> length inp" by simp
  have pk: "pos + 3 \<le> 8 * k" "8 * k < pos + 11" using k by linarith+
  have "\<not> 8 * length inp + 64 < pos + CONSUMABLE_NBITS P" using len pk consumable(2) [of P] by linarith
  then obtain t where t: "REFILL_BITS P inp s = Inr t" "at_bit P inp pos t" "CONSUMABLE_NBITS P \<le> low8 (bitsleft t)" "same_output s t"
    using refill_at [OF at] unfolding refilled_def by blast
  note a = at_bitD [OF t(2)]
  have b56: "56 \<le> low8 (bitsleft t)" using t(3) consumable(1) [of P] by simp
  have p: "peek 0 1 t = bits_at inp pos 1" "peek 1 2 t = 0"
    using peek_at [OF t(2), of 0 1] peek_at [OF t(2), of 1 2] ty b56 by simp_all
  let ?L = "low8 (bitsleft t) - 3"
  have "low8 3 = 3" by (simp add: low8_def)
  then have L: "low8 (bitsleft t - 3) = ?L" using low8_diff [of 3 "bitsleft t"] b56 by simp
  have L8: "low8 (of_nat ?L) = ?L" using a(4) max_bitsleft(1) [of P] by (intro low8_of_nat) simp
  define d where "d = ?L div 8 - overread_count t"
  have sum: "pos + 3 + ?L = 8 * (in_next t + overread_count t)" using a(5) b56 by simp
  have ov: "overread_count t \<le> ?L div 8"
  proof (cases "overread_count t = 0")
    case False
    then have "in_next t = length inp" using a(3) by simp
    then have "8 * overread_count t \<le> ?L" using sum pk len by simp
    then show ?thesis by linarith
  qed simp
  have kd: "in_next t = k + d"
  proof -
    have "8 * k < 8 * (in_next t + overread_count t + 1)" using sum pk(2) by simp
    then have km: "k \<le> in_next t + overread_count t" by simp
    have "?L div 8 = in_next t + overread_count t - k" using km sum pk by (intro div_nat_eqI) simp_all
    with ov km show ?thesis unfolding d_def by simp
  qed
  have drops: "drop (k + 2) inp = word_bytes 2 (NOT (of_nat (length vs)) :: u16) @ vs @ rest" "drop (k + 4) inp = vs @ rest"
    using arg_cong [OF bytes, of "drop 2"] arg_cong [OF bytes, of "drop 4"] by (simp_all add: add.commute)
  have l16: "get_unaligned_le16 P (drop k inp) = of_nat (length vs)" "get_unaligned_le16 P (drop (k + 2) inp) = NOT (of_nat (length vs))"
    unfolding bytes drops by (simp_all add: get_unaligned_bytes bytes_of_word)
  have un: "unat (of_nat (length vs) :: u16) = length vs"
    using n by (simp add: unat_of_nat UINT16_MAX_def)
  let ?s = "t\<lparr>bitsleft := 0, in_next := k + 4 + length vs, overread_count := 0, bitbuf := 0,
    out_buf := take (out_next t) (out_buf t) @ vs @ drop (out_next t + length vs) (out_buf t), out_next := out_next t + length vs\<rparr>"
  have so: "out_next t = out_next s" "out_buf t = out_buf s" "decomp t = decomp s" using t(4) by (simp_all add: same_output_def)
  have "uncompressed_block P inp t = Inr ?s"
    using ov kd len room so
    by (simp add: uncompressed_block_def L L8 safety_check_def unread_bytes_def d_def [symmetric] l16 un drops(2) splice_def del: add_2_eq_Suc add_2_eq_Suc')
  then have "start_block P inp s = Inr (bits_at inp pos 1 = 1, True, ?s)"
    using p by (simp add: start_block_def t(1))
  moreover have "at_bit P inp (8 * (k + 4 + length vs)) ?s"
    using len by (simp add: at_bit_def low8_def)
  ultimately show thesis by (rule that) (simp_all add: so)
qed

text \<open>The three bits in front of a stored block that starts at a byte boundary.\<close>

lemma header_bits:
  assumes "k < length inp" and "inp ! k = of_bool b"
  shows "bits_at inp (8 * k) 1 = of_bool b" and "bits_at inp (8 * k + 1) 2 = 0"
proof -
  have i: "in_bit inp (8 * k + j) \<longleftrightarrow> bit (inp ! k) j" if "j < 8" for j
    using that assms(1) by (simp add: in_bit_def)
  have u: "[0..<1] = [0 :: nat]" "[0..<2] = [0, 1 :: nat]" by code_simp+
  have n: "bit (of_bool b :: byte) 0 = b" "\<not> bit (of_bool b :: byte) 1" "\<not> bit (of_bool b :: byte) 2"
    by (cases b; simp add: bit_1_iff)+
  have "in_bit inp (8 * k + 1 + 0) \<longleftrightarrow> False" "in_bit inp (8 * k + 1 + 1) \<longleftrightarrow> False"
    using i [of 1] i [of 2] assms(2) n by (simp_all add: add.assoc one_add_one)
  then show "bits_at inp (8 * k + 1) 2 = 0" unfolding bits_at_def u by simp
  show "bits_at inp (8 * k) 1 = of_bool b" unfolding bits_at_def u using i [of 0] assms(2) n by simp
qed

lemma decode_stored:
  assumes "at_bit P inp (8 * k) s" and "drop k inp = stored_stream vs @ rest"
    and "out_next s + length vs \<le> length (out_buf s)"
  shows "\<exists>s'. decode_blocks P inp s = Some (Inr s') \<and> at_bit P inp (8 * (k + length (stored_stream vs))) s' \<and>
    decomp s' = decomp s \<and> out_next s' = out_next s + length vs \<and>
    out_buf s' = take (out_next s) (out_buf s) @ vs @ drop (out_next s + length vs) (out_buf s)"
  using assms
proof (induction vs arbitrary: k s rule: stored_stream.induct)
  case (1 vs)
  define b where "b = (length vs \<le> UINT16_MAX)"
  define us where "us = (if b then vs else take UINT16_MAX vs)"
  define more where "more = (if b then [] else stored_stream (drop UINT16_MAX vs))"
  have st: "stored_stream vs = stored_block b us @ more"
    by (subst stored_stream.simps) (simp add: b_def us_def more_def)
  have us: "length us \<le> UINT16_MAX" "length us \<le> length vs" by (auto simp: us_def b_def)
  have head: "inp ! k = of_bool b" "k < length inp"
    "drop (k + 1) inp = word_bytes 2 (of_nat (length us) :: u16) @ word_bytes 2 (NOT (of_nat (length us)) :: u16) @ us @ more @ rest"
  proof -
    have "drop k inp = of_bool b # word_bytes 2 (of_nat (length us) :: u16) @ word_bytes 2 (NOT (of_nat (length us)) :: u16) @ us @ more @ rest"
      using 1(3) unfolding st stored_block_def by simp
    then show "inp ! k = of_bool b" "k < length inp"
      "drop (k + 1) inp = word_bytes 2 (of_nat (length us) :: u16) @ word_bytes 2 (NOT (of_nat (length us)) :: u16) @ us @ more @ rest"
      by (metis nth_via_drop, metis drop_eq_Nil list.distinct(1) not_le, metis drop_drop drop0 drop_Suc_Cons One_nat_def add.commute)
  qed
  have k1: "k + 1 = (8 * k + 10) div 8" by simp
  have room: "out_next s + length us \<le> length (out_buf s)" using 1(4) us(2) by simp
  obtain t where t: "start_block P inp s = Inr (bits_at inp (8 * k) 1 = 1, True, t)"
    "at_bit P inp (8 * (k + 1 + 4 + length us)) t" "decomp t = decomp s"
    "out_buf t = take (out_next s) (out_buf s) @ us @ drop (out_next s + length us) (out_buf s)"
    "out_next t = out_next s + length us"
    by (rule stored_start [OF 1(2) k1 header_bits(2) [OF head(2,1)] head(3) us(1) room])
  have "bits_at inp (8 * k) 1 = 1 \<longleftrightarrow> b" using header_bits(1) [OF head(2,1)] by simp
  then have d: "decode_block P inp s = Some (Inr (b, t))" by (simp add: decode_block_def t(1))
  show ?case
  proof (cases b)
    case True
    then have "decode_blocks P inp s = Some (Inr t)" by (subst decode_blocks.simps) (simp add: d)
    moreover have "us = vs" "stored_stream vs = stored_block True vs" using True st by (simp_all add: us_def more_def)
    ultimately show ?thesis using t by (simp add: ac_simps)
  next
    case False
    then have n: "\<not> length vs \<le> UINT16_MAX" by (simp add: b_def)
    have u: "us = take UINT16_MAX vs" "more = stored_stream (drop UINT16_MAX vs)" using False by (simp_all add: us_def more_def)
    have lu: "length us = UINT16_MAX" using n u by simp
    have "drop (k + 1 + 4 + length us) inp = more @ rest"
      using arg_cong [OF head(3), of "drop (4 + length us)"] by (simp add: ac_simps)
    moreover have "out_next t + length (drop UINT16_MAX vs) \<le> length (out_buf t)"
      using 1(4) n room t(4,5) lu by simp
    ultimately obtain s' where s': "decode_blocks P inp t = Some (Inr s')"
      "at_bit P inp (8 * (k + 1 + 4 + length us + length more)) s'" "decomp s' = decomp t"
      "out_next s' = out_next t + length (drop UINT16_MAX vs)"
      "out_buf s' = take (out_next t) (out_buf t) @ drop UINT16_MAX vs @ drop (out_next t + length (drop UINT16_MAX vs)) (out_buf t)"
      using 1(1) [OF n t(2)] unfolding u(2) by blast
    have "decode_blocks P inp s = Some (Inr s')" using False by (subst decode_blocks.simps) (simp add: d s'(1))
    moreover have "out_buf s' = take (out_next s) (out_buf s) @ vs @ drop (out_next s + length vs) (out_buf s)"
      unfolding s'(5) t(4,5) using room lu n u(1) by (simp add: ac_simps)
    ultimately show ?thesis using s'(2-4) t(3,5) lu n st by (simp add: ac_simps)
  qed
qed

section \<open>Round trip\<close>

lemma stored_round_trip_aux:
  assumes room: "length (stored_stream inp) \<le> length out" and ob: "length inp \<le> length ob"
    and c: "deflate_compress_none P inp out = (n, out')"
  obtains s where "libdeflate_deflate_decompress_ex P' d (take n out') ob want_in want_out =
      Some (Inr (if want_out \<or> length ob = length inp then LIBDEFLATE_SUCCESS else LIBDEFLATE_SHORT_OUTPUT,
        if want_in then Some n else None, if want_out then Some (length inp) else None, s))"
    and "out_buf s = inp @ drop (length inp) ob" and "decomp s = d" and "n = length (stored_stream inp)"
proof -
  have n: "n = length (stored_stream inp)" and t: "take n out' = stored_stream inp"
    using compress_none_stored [of inp out P] room c by auto
  let ?i = "take n out'"
  have "at_bit P' ?i (8 * 0) (start_stream d ob)" using start_at by simp
  moreover have "drop 0 ?i = stored_stream inp @ []" using t by simp
  moreover have "out_next (start_stream d ob) + length inp \<le> length (out_buf (start_stream d ob))"
    using ob by (simp add: start_stream_def)
  ultimately obtain s where s: "decode_blocks P' ?i (start_stream d ob) = Some (Inr s)" "at_bit P' ?i (8 * n) s"
    "decomp s = d" "out_next s = length inp" "out_buf s = inp @ drop (length inp) ob"
    using decode_stored [of P' ?i 0 "start_stream d ob" inp "[]"] n by (auto simp: start_stream_def)
  note a = at_bitD [OF s(2)]
  have l: "length ?i = n" using t n by simp
  define L where "L = low8 (bitsleft s)"
  have low: "L = 8 * (in_next s + overread_count s - n)" using a(5) by (simp add: L_def)
  have ge: "n \<le> in_next s" using a(3,5) l by (cases "overread_count s = 0") simp_all
  have "low8 (of_nat L) = L" using a(4) max_bitsleft(1) [of P'] unfolding L_def by (intro low8_of_nat) simp
  moreover define w :: u32 where "w = of_nat L"
  ultimately have w: "low8 w = L" by simp
  have d8: "L div 8 = in_next s + overread_count s - n" using low by simp
  let ?s = "s\<lparr>bitsleft := w\<rparr>"
  have "unread_bytes ?s = Inr (?s\<lparr>in_next := n\<rparr>)"
    using ge d8 by (simp add: unread_bytes_def w Let_def)
  moreover have "overread_count s \<le> L div 8" using ge d8 by simp
  ultimately have f: "finish_stream want_in want_out s =
      Inr (if want_out \<or> length ob = length inp then LIBDEFLATE_SUCCESS else LIBDEFLATE_SHORT_OUTPUT,
        if want_in then Some n else None, if want_out then Some (length inp) else None,
        if want_in then ?s\<lparr>in_next := n\<rparr> else ?s)"
    using ob s(4,5) by (simp add: finish_stream_def L_def [symmetric] w_def [symmetric] w safety_check_def)
  have call: "libdeflate_deflate_decompress_ex P' d ?i ob want_in want_out =
      Some (Inr (if want_out \<or> length ob = length inp then LIBDEFLATE_SUCCESS else LIBDEFLATE_SHORT_OUTPUT,
        if want_in then Some n else None, if want_out then Some (length inp) else None,
        if want_in then ?s\<lparr>in_next := n\<rparr> else ?s))"
    by (simp only: libdeflate_deflate_decompress_ex_def deflate_decompress_default_def s(1) bind_run_simps f
        Option.bind.bind_lunit sum.case)
  show thesis by (rule that [OF call]) (simp_all add: s(3,5) n)
qed

text \<open>C32. Level 0 round trip: whatever the level 0 compressor wrote, the decompressor turns back into the
  input, on any platform and whatever the state of its tables, and reports exactly the number of
  bytes that were written and read; it touches no byte of the output buffer behind the data.\<close>

theorem stored_round_trip:
  assumes "deflate_compress_none P inp out = (n, out')" and "n \<noteq> 0" and "length inp \<le> length ob"
  shows "\<exists>s. libdeflate_deflate_decompress_ex P' d (take n out') ob True True =
      Some (Inr (LIBDEFLATE_SUCCESS, Some n, Some (length inp), s)) \<and> out_buf s = inp @ drop (length inp) ob"
proof -
  have "length (stored_stream inp) \<le> length out"
    using compress_none_stored [of inp out P] assms(1,2) by (auto split: if_splits)
  then obtain s where "libdeflate_deflate_decompress_ex P' d (take n out') ob True True =
      Some (Inr (if True \<or> length ob = length inp then LIBDEFLATE_SUCCESS else LIBDEFLATE_SHORT_OUTPUT,
        if True then Some n else None, if True then Some (length inp) else None, s))"
    and "out_buf s = inp @ drop (length inp) ob"
    by (rule stored_round_trip_aux [OF _ assms(3,1)])
  then show ?thesis by simp
qed

lemma stored_round_trip_witness:
  "\<exists>s. libdeflate_deflate_decompress_ex \<lparr>unaligned_fast = True, little_endian = True\<rparr> zero_decompressor
      (take 8 (snd (deflate_compress_none \<lparr>unaligned_fast = False, little_endian = False\<rparr> [1, 2, 3] (replicate 10 0))))
      (replicate 5 9) True True =
    Some (Inr (LIBDEFLATE_SUCCESS, Some 8, Some (length [1 :: byte, 2, 3]), s)) \<and>
    out_buf s = [1, 2, 3] @ drop (length [1 :: byte, 2, 3]) (replicate 5 9)"
proof -
  have "length (stored_stream [1, 2, 3]) = 8" by (subst stored_stream.simps) (simp add: UINT16_MAX_def)
  then have "deflate_compress_none \<lparr>unaligned_fast = False, little_endian = False\<rparr> [1, 2, 3] (replicate 10 0) =
      (8, snd (deflate_compress_none \<lparr>unaligned_fast = False, little_endian = False\<rparr> [1, 2, 3] (replicate 10 0)))"
    using compress_none_stored [of "[1, 2, 3]" "replicate 10 0" "\<lparr>unaligned_fast = False, little_endian = False\<rparr>"]
    by simp
  then show ?thesis by (rule stored_round_trip) simp_all
qed

section \<open>The bound on the compressed size\<close>

definition MIN_BLOCK_LENGTH :: nat where "MIN_BLOCK_LENGTH = 5000"
definition OUTPUT_END_PADDING :: nat where "OUTPUT_END_PADDING = 8"

definition libdeflate_deflate_compress_bound :: "u64 \<Rightarrow> u64" where
  "libdeflate_deflate_compress_bound in_nbytes =
     (let max_blocks = max ((in_nbytes + of_nat MIN_BLOCK_LENGTH - 1) div of_nat MIN_BLOCK_LENGTH) 1;
          bound = 0 + 5 * max_blocks;
          bound = bound + in_nbytes
      in bound + (1 + of_nat OUTPUT_END_PADDING))"

lemma unat_eq_of_nat_u64: "unat (w :: u64) = n \<Longrightarrow> w = of_nat n"
  by auto

lemma length_stored_stream: "length (stored_stream vs) = length vs + 5 * max 1 ((length vs + 65534) div 65535)"
proof (induction vs rule: stored_stream.induct)
  case (1 vs)
  show ?case
  proof (cases "length vs \<le> UINT16_MAX")
    case True
    then have "(length vs + 65534) div 65535 \<le> 1" by (simp add: UINT16_MAX_def)
    then show ?thesis using True by (subst stored_stream.simps) simp
  next
    case False
    then have n: "65535 < length vs" by (simp add: UINT16_MAX_def)
    then have "(length vs + 65534) div 65535 = (length vs - 65535 + 65534) div 65535 + 1"
      by (simp flip: div_add_self2)
    moreover have "1 \<le> (length vs - 65535 + 65534) div 65535" using n by simp
    ultimately show ?thesis using False n 1 [OF False]
      by (subst stored_stream.simps) (simp add: UINT16_MAX_def)
  qed
qed

text \<open>C33. Given a buffer of the size \<^verbatim>\<open>libdeflate_deflate_compress_bound\<close> asks for, the level 0 compressor
  always succeeds, and it needs five bytes per block of 65535 bytes more than the data.\<close>

theorem compress_bound_suffices:
  assumes "length inp < 2 ^ 61" and "unat (libdeflate_deflate_compress_bound (of_nat (length inp))) \<le> length out"
  shows "fst (deflate_compress_none P inp out) = length inp + 5 * max 1 ((length inp + 65534) div 65535)"
proof -
  let ?n = "length inp"
  have u: "unat (of_nat ?n :: u64) = ?n" using assms(1) by (simp add: unat_of_nat_u64)
  have "unat ((of_nat ?n + of_nat MIN_BLOCK_LENGTH - 1) div of_nat MIN_BLOCK_LENGTH :: u64) = (?n + 4999) div 5000"
  proof -
    have "of_nat ?n + of_nat MIN_BLOCK_LENGTH - 1 = (of_nat (?n + 4999) :: u64)" by (simp add: MIN_BLOCK_LENGTH_def)
    moreover have "unat (of_nat (?n + 4999) :: u64) = ?n + 4999" using assms(1) by (simp add: unat_of_nat_u64 del: of_nat_add)
    ultimately show ?thesis by (simp add: unat_div MIN_BLOCK_LENGTH_def del: of_nat_add)
  qed
  moreover define q where "q = (?n + 4999) div 5000"
  ultimately have "(of_nat ?n + of_nat MIN_BLOCK_LENGTH - 1) div of_nat MIN_BLOCK_LENGTH = (of_nat q :: u64)"
    by (metis unat_eq_of_nat_u64)
  moreover have "q \<le> ?n" unfolding q_def by simp
  ultimately have m: "max ((of_nat ?n + of_nat MIN_BLOCK_LENGTH - 1) div of_nat MIN_BLOCK_LENGTH) 1 = (of_nat (max q 1) :: u64)"
    using assms(1) by (auto simp: max_def word_le_nat_alt unat_of_nat_u64)
  have "libdeflate_deflate_compress_bound (of_nat ?n) = of_nat (5 * max q 1 + ?n + 9)"
    by (simp add: libdeflate_deflate_compress_bound_def m OUTPUT_END_PADDING_def)
  moreover have "5 * max q 1 + ?n + 9 < 2 ^ 64" using \<open>q \<le> ?n\<close> assms(1) by simp
  ultimately have "5 * max q 1 + ?n + 9 \<le> length out" using assms(2) by (simp add: unat_of_nat_u64 del: of_nat_add)
  moreover have "(?n + 65534) div 65535 \<le> max q 1" unfolding q_def by simp
  ultimately have "length (stored_stream inp) \<le> length out" unfolding length_stored_stream by simp
  then show ?thesis using compress_none_stored [of inp out P] by (simp add: length_stored_stream)
qed

lemma compress_bound_suffices_witness:
  "fst (deflate_compress_none \<lparr>unaligned_fast = True, little_endian = False\<rparr> [7, 8] (replicate 20 0)) =
   length [7 :: byte, 8] + 5 * max 1 ((length [7 :: byte, 8] + 65534) div 65535)"
proof (rule compress_bound_suffices)
  have "unat (libdeflate_deflate_compress_bound 2) = 16" by code_simp
  then show "unat (libdeflate_deflate_compress_bound (of_nat (length [7 :: byte, 8]))) \<le> length (replicate 20 (0 :: byte))"
    by simp
qed simp

end
