(* ===== verification/Deflate_Huffman.thy ===== *)
theory Deflate_Huffman
  imports Deflate_Table
begin

text \<open>
  The construction of length-limited canonical Huffman codes in the DEFLATE compressor
  (\<^verbatim>\<open>tools/deflate/lib/deflate_compress.c\<close>): sorting the symbols by frequency, building the
  stripped-down Huffman tree in place, counting the codeword lengths and assigning the codewords.
  Arrays are lists; indices, counters and lengths are natural numbers, array entries keep their
  width. \<open>None\<close> stands for an access outside the initialised part of an array, a counter
  or length that falls below 0, or a loop that does not end.
\<close>

section \<open>Heap sort\<close>

text \<open>The routines see the array from the pointer they get on; they index it from 1.\<close>

definition peek1 :: "'a list \<Rightarrow> nat \<Rightarrow> 'a option" where
  "peek1 A i = (if i = 0 then None else fetch A (i - 1))"

definition poke1 :: "'a list \<Rightarrow> nat \<Rightarrow> 'a \<Rightarrow> 'a list option" where
  "poke1 A i v = (if i = 0 then None else store A (i - 1) v)"

definition greater_child :: "u32 list \<Rightarrow> nat \<Rightarrow> nat \<Rightarrow> nat option" where
  "greater_child A len child =
     (if child < len
      then do { y \<leftarrow> peek1 A (child + 1); x \<leftarrow> peek1 A child; Some (if y > x then child + 1 else child) }
      else Some child)"

partial_function (option) sift_down :: "u32 list \<Rightarrow> nat \<Rightarrow> nat \<Rightarrow> u32 \<Rightarrow> u32 list option" where
  "sift_down A len parent v =
     (if parent * 2 \<le> len
      then do {
        child \<leftarrow> greater_child A len (parent * 2);
        x \<leftarrow> peek1 A child;
        if v \<ge> x then poke1 A parent v
        else do { A \<leftarrow> poke1 A parent x; sift_down A len child v } }
      else poke1 A parent v)"

definition heapify_subtree :: "u32 list \<Rightarrow> nat \<Rightarrow> nat \<Rightarrow> u32 list option" where
  "heapify_subtree A len subtree = do { v \<leftarrow> peek1 A subtree; sift_down A len subtree v }"

fun heapify_loop :: "nat \<Rightarrow> nat \<Rightarrow> u32 list \<Rightarrow> u32 list option" where
  "heapify_loop len 0 A = Some A"
| "heapify_loop len (Suc k) A = do { A \<leftarrow> heapify_subtree A len (Suc k); heapify_loop len k A }"

definition heapify_array :: "u32 list \<Rightarrow> nat \<Rightarrow> u32 list option" where
  "heapify_array A len = heapify_loop len (len div 2) A"

fun heap_sort_loop :: "nat \<Rightarrow> u32 list \<Rightarrow> u32 list option" where
  "heap_sort_loop (Suc (Suc n)) A =
     do {
       tmp \<leftarrow> peek1 A (n + 2);
       x \<leftarrow> peek1 A 1;
       A \<leftarrow> poke1 A (n + 2) x;
       A \<leftarrow> poke1 A 1 tmp;
       A \<leftarrow> heapify_subtree A (Suc n) 1;
       heap_sort_loop (Suc n) A }"
| "heap_sort_loop n A = Some A"

definition heap_sort :: "u32 list \<Rightarrow> nat \<Rightarrow> u32 list option" where
  "heap_sort A len = do { A \<leftarrow> heapify_array A len; heap_sort_loop len A }"

section \<open>Sorting the symbols by frequency\<close>

definition NUM_SYMBOL_BITS :: nat where "NUM_SYMBOL_BITS = 10"
definition NUM_FREQ_BITS :: nat where "NUM_FREQ_BITS = 32 - NUM_SYMBOL_BITS"
definition SYMBOL_MASK :: u32 where "SYMBOL_MASK = push_bit NUM_SYMBOL_BITS 1 - 1"
definition FREQ_MASK :: u32 where "FREQ_MASK = NOT SYMBOL_MASK"
definition GET_NUM_COUNTERS :: "nat \<Rightarrow> nat" where "GET_NUM_COUNTERS num_syms = num_syms"

fun count_freqs :: "nat \<Rightarrow> u32 list \<Rightarrow> nat list \<Rightarrow> nat list option" where
  "count_freqs num_counters [] counters = Some counters"
| "count_freqs num_counters (f # freqs) counters =
     do {
       c \<leftarrow> fetch counters (min (unat f) (num_counters - 1));
       count_freqs num_counters freqs (counters[min (unat f) (num_counters - 1) := c + 1]) }"

text \<open>The counters from index 1 on become the offsets of the buckets; the sum is the number of symbols in use.\<close>

fun cumulate :: "nat list \<Rightarrow> nat \<Rightarrow> nat list \<times> nat" where
  "cumulate [] used = ([], used)"
| "cumulate (c # cs) used = (case cumulate cs (used + c) of (offs, n) \<Rightarrow> (used # offs, n))"

fun place_syms :: "nat \<Rightarrow> u32 list \<Rightarrow> nat \<Rightarrow> nat list \<Rightarrow> byte list \<Rightarrow> u32 list \<Rightarrow>
    (nat list \<times> byte list \<times> u32 list) option" where
  "place_syms num_counters [] symb counters lens symout = Some (counters, lens, symout)"
| "place_syms num_counters (freq # freqs) symb counters lens symout =
     (if freq \<noteq> 0
      then do {
        k \<leftarrow> fetch counters (min (unat freq) (num_counters - 1));
        symout \<leftarrow> store symout k (of_nat symb OR push_bit NUM_SYMBOL_BITS freq);
        place_syms num_counters freqs (symb + 1)
          (counters[min (unat freq) (num_counters - 1) := k + 1]) lens symout }
      else do {
        lens \<leftarrow> store lens symb 0;
        place_syms num_counters freqs (symb + 1) counters lens symout })"

definition sort_symbols :: "nat \<Rightarrow> u32 list \<Rightarrow> byte list \<Rightarrow> u32 list \<Rightarrow> (nat \<times> byte list \<times> u32 list) option" where
  "sort_symbols num_syms freqs lens symout =
     (let num_counters = GET_NUM_COUNTERS num_syms in
      if DEFLATE_MAX_NUM_SYMS < num_counters \<or> num_counters < 2 \<or> length freqs < num_syms then None
      else do {
        counters \<leftarrow> count_freqs num_counters (take num_syms freqs) (replicate num_counters 0);
        let (offs, num_used_syms) = cumulate (drop 1 counters) 0;
        (counters, lens, symout) \<leftarrow> place_syms num_counters (take num_syms freqs) 0 (counters ! 0 # offs) lens symout;
        let k = counters ! (num_counters - 2);
        high \<leftarrow> (if counters ! (num_counters - 1) < k then None
                else heap_sort (drop k symout) (counters ! (num_counters - 1) - k));
        Some (num_used_syms, lens, take k symout @ high) })"

section \<open>The tree\<close>

definition freq_at :: "u32 list \<Rightarrow> nat \<Rightarrow> u32 option" where
  "freq_at A i = map_option (\<lambda>x. x AND FREQ_MASK) (fetch A i)"

definition two_leaves :: "nat \<Rightarrow> nat \<Rightarrow> nat \<Rightarrow> nat \<Rightarrow> u32 list \<Rightarrow> bool option" where
  "two_leaves last_idx i b e A =
     (if i + 1 \<le> last_idx
      then (if b = e then Some True
            else do { x \<leftarrow> freq_at A (i + 1); y \<leftarrow> freq_at A b; Some (x \<le> y) })
      else Some False)"

definition two_nodes :: "nat \<Rightarrow> nat \<Rightarrow> nat \<Rightarrow> nat \<Rightarrow> u32 list \<Rightarrow> bool option" where
  "two_nodes last_idx i b e A =
     (if b + 2 \<le> e
      then (if i > last_idx then Some True
            else do { x \<leftarrow> freq_at A (b + 1); y \<leftarrow> freq_at A i; Some (x < y) })
      else Some False)"

definition set_parent :: "nat \<Rightarrow> u32 list \<Rightarrow> nat \<Rightarrow> u32 list option" where
  "set_parent e A b =
     do { x \<leftarrow> fetch A b; store A b (push_bit NUM_SYMBOL_BITS (of_nat e) OR (x AND SYMBOL_MASK)) }"

text \<open>One round: the new frequency, and the leaves and nodes that are left.\<close>

definition join_step :: "nat \<Rightarrow> nat \<Rightarrow> nat \<Rightarrow> nat \<Rightarrow> u32 list \<Rightarrow> (nat \<times> nat \<times> u32 list) option" where
  "join_step last_idx i b e A =
     do {
       leaves \<leftarrow> two_leaves last_idx i b e A;
       nodes \<leftarrow> (if leaves then Some False else two_nodes last_idx i b e A);
       (new_freq, i, b, A) \<leftarrow>
         (if leaves
          then do { x \<leftarrow> freq_at A i; y \<leftarrow> freq_at A (i + 1); Some (x + y, i + 2, b, A) }
          else if nodes
          then do {
            x \<leftarrow> freq_at A b; y \<leftarrow> freq_at A (b + 1);
            A \<leftarrow> set_parent e A b; A \<leftarrow> set_parent e A (b + 1);
            Some (x + y, i, b + 2, A) }
          else do {
            x \<leftarrow> freq_at A i; y \<leftarrow> freq_at A b;
            A \<leftarrow> set_parent e A b;
            Some (x + y, i + 1, b + 1, A) });
       x \<leftarrow> fetch A e;
       A \<leftarrow> store A e (new_freq OR (x AND SYMBOL_MASK));
       Some (i, b, A) }"

function build_loop :: "nat \<Rightarrow> nat \<Rightarrow> nat \<Rightarrow> nat \<Rightarrow> u32 list \<Rightarrow> u32 list option" where
  "build_loop last_idx i b e A =
     do {
       (i, b, A) \<leftarrow> join_step last_idx i b e A;
       if e + 1 < last_idx then build_loop last_idx i b (e + 1) A else Some A }"
  by pat_completeness auto
termination by (relation "measure (\<lambda>(l, i, b, e, A). l - e)") auto

declare build_loop.simps [simp del]

definition build_tree :: "u32 list \<Rightarrow> nat \<Rightarrow> u32 list option" where
  "build_tree A sym_count = build_loop (sym_count - 1) 0 0 0 A"

section \<open>Counting the codeword lengths\<close>

text \<open>\<^verbatim>\<open>do { depth--; } while (len_counts[depth] == 0);\<close>\<close>

fun shorten :: "nat list \<Rightarrow> nat \<Rightarrow> nat option" where
  "shorten len_counts 0 = None"
| "shorten len_counts (Suc d) =
     do { c \<leftarrow> fetch len_counts d; if c = 0 then shorten len_counts d else Some d }"

definition node_step :: "nat \<Rightarrow> nat \<Rightarrow> u32 list \<times> nat list \<Rightarrow> (u32 list \<times> nat list) option" where
  "node_step max_codeword_len node = (\<lambda>(A, len_counts).
     do {
       x \<leftarrow> fetch A node;
       y \<leftarrow> fetch A (unat (drop_bit NUM_SYMBOL_BITS x));
       let depth = unat (drop_bit NUM_SYMBOL_BITS y + 1);
       A \<leftarrow> store A node ((x AND SYMBOL_MASK) OR push_bit NUM_SYMBOL_BITS (of_nat depth));
       depth \<leftarrow> (if depth \<ge> max_codeword_len then shorten len_counts max_codeword_len else Some depth);
       c \<leftarrow> fetch len_counts depth;
       len_counts \<leftarrow> (if c = 0 then None else store len_counts depth (c - 1));
       c \<leftarrow> fetch len_counts (depth + 1);
       len_counts \<leftarrow> store len_counts (depth + 1) (c + 2);
       Some (A, len_counts) })"

fun node_loop :: "nat \<Rightarrow> nat \<Rightarrow> u32 list \<times> nat list \<Rightarrow> (u32 list \<times> nat list) option" where
  "node_loop max_codeword_len 0 s = Some s"
| "node_loop max_codeword_len (Suc node) s =
     do { s \<leftarrow> node_step max_codeword_len node s; node_loop max_codeword_len node s }"

definition compute_length_counts :: "u32 list \<Rightarrow> nat \<Rightarrow> nat \<Rightarrow> (u32 list \<times> nat list) option" where
  "compute_length_counts A root_idx max_codeword_len =
     (if DEFLATE_MAX_CODEWORD_LEN < max_codeword_len then None
      else do {
        len_counts \<leftarrow> store (replicate (max_codeword_len + 1) 0) 1 2;
        x \<leftarrow> fetch A root_idx;
        A \<leftarrow> store A root_idx (x AND SYMBOL_MASK);
        node_loop max_codeword_len root_idx (A, len_counts) })"

section \<open>The codewords\<close>

definition bitreverse_tab :: "byte list" where
  "bitreverse_tab =
     [0x00, 0x80, 0x40, 0xc0, 0x20, 0xa0, 0x60, 0xe0, 0x10, 0x90, 0x50, 0xd0, 0x30, 0xb0, 0x70, 0xf0,
      0x08, 0x88, 0x48, 0xc8, 0x28, 0xa8, 0x68, 0xe8, 0x18, 0x98, 0x58, 0xd8, 0x38, 0xb8, 0x78, 0xf8,
      0x04, 0x84, 0x44, 0xc4, 0x24, 0xa4, 0x64, 0xe4, 0x14, 0x94, 0x54, 0xd4, 0x34, 0xb4, 0x74, 0xf4,
      0x0c, 0x8c, 0x4c, 0xcc, 0x2c, 0xac, 0x6c, 0xec, 0x1c, 0x9c, 0x5c, 0xdc, 0x3c, 0xbc, 0x7c, 0xfc,
      0x02, 0x82, 0x42, 0xc2, 0x22, 0xa2, 0x62, 0xe2, 0x12, 0x92, 0x52, 0xd2, 0x32, 0xb2, 0x72, 0xf2,
      0x0a, 0x8a, 0x4a, 0xca, 0x2a, 0xaa, 0x6a, 0xea, 0x1a, 0x9a, 0x5a, 0xda, 0x3a, 0xba, 0x7a, 0xfa,
      0x06, 0x86, 0x46, 0xc6, 0x26, 0xa6, 0x66, 0xe6, 0x16, 0x96, 0x56, 0xd6, 0x36, 0xb6, 0x76, 0xf6,
      0x0e, 0x8e, 0x4e, 0xce, 0x2e, 0xae, 0x6e, 0xee, 0x1e, 0x9e, 0x5e, 0xde, 0x3e, 0xbe, 0x7e, 0xfe,
      0x01, 0x81, 0x41, 0xc1, 0x21, 0xa1, 0x61, 0xe1, 0x11, 0x91, 0x51, 0xd1, 0x31, 0xb1, 0x71, 0xf1,
      0x09, 0x89, 0x49, 0xc9, 0x29, 0xa9, 0x69, 0xe9, 0x19, 0x99, 0x59, 0xd9, 0x39, 0xb9, 0x79, 0xf9,
      0x05, 0x85, 0x45, 0xc5, 0x25, 0xa5, 0x65, 0xe5, 0x15, 0x95, 0x55, 0xd5, 0x35, 0xb5, 0x75, 0xf5,
      0x0d, 0x8d, 0x4d, 0xcd, 0x2d, 0xad, 0x6d, 0xed, 0x1d, 0x9d, 0x5d, 0xdd, 0x3d, 0xbd, 0x7d, 0xfd,
      0x03, 0x83, 0x43, 0xc3, 0x23, 0xa3, 0x63, 0xe3, 0x13, 0x93, 0x53, 0xd3, 0x33, 0xb3, 0x73, 0xf3,
      0x0b, 0x8b, 0x4b, 0xcb, 0x2b, 0xab, 0x6b, 0xeb, 0x1b, 0x9b, 0x5b, 0xdb, 0x3b, 0xbb, 0x7b, 0xfb,
      0x07, 0x87, 0x47, 0xc7, 0x27, 0xa7, 0x67, 0xe7, 0x17, 0x97, 0x57, 0xd7, 0x37, 0xb7, 0x77, 0xf7,
      0x0f, 0x8f, 0x4f, 0xcf, 0x2f, 0xaf, 0x6f, 0xef, 0x1f, 0x9f, 0x5f, 0xdf, 0x3f, 0xbf, 0x7f, 0xff]"

definition reverse_codeword :: "u32 \<Rightarrow> nat \<Rightarrow> u32 option" where
  "reverse_codeword codeword len =
     do {
       lo \<leftarrow> fetch bitreverse_tab (unat (codeword AND 0xff));
       hi \<leftarrow> fetch bitreverse_tab (unat (drop_bit 8 codeword));
       Some (drop_bit (16 - len) (push_bit 8 (ucast lo) OR ucast hi)) }"

text \<open>\<open>count\<close> symbols from index \<open>i\<close> on get the length \<open>len\<close>.\<close>

fun give_len :: "nat \<Rightarrow> nat \<Rightarrow> u32 list \<Rightarrow> nat \<Rightarrow> byte list \<Rightarrow> byte list option" where
  "give_len len 0 A i lens = Some lens"
| "give_len len (Suc count) A i lens =
     do {
       x \<leftarrow> fetch A i;
       lens \<leftarrow> store lens (unat (x AND SYMBOL_MASK)) (of_nat len);
       give_len len count A (i + 1) lens }"

fun give_lens :: "nat \<Rightarrow> nat list \<Rightarrow> u32 list \<Rightarrow> nat \<Rightarrow> byte list \<Rightarrow> byte list option" where
  "give_lens 0 len_counts A i lens = Some lens"
| "give_lens (Suc len) len_counts A i lens =
     do {
       count \<leftarrow> fetch len_counts (Suc len);
       lens \<leftarrow> give_len (Suc len) count A i lens;
       give_lens len len_counts A (i + count) lens }"

text \<open>The first codeword of each length, from length 2 on.\<close>

fun first_codewords :: "nat list \<Rightarrow> u32 \<Rightarrow> u32 list" where
  "first_codewords [] prev = []"
| "first_codewords (c # len_counts) prev =
     (let cw = push_bit 1 (prev + of_nat c) in cw # first_codewords len_counts cw)"

fun give_codewords :: "nat \<Rightarrow> nat \<Rightarrow> byte list \<Rightarrow> u32 list \<Rightarrow> u32 list \<Rightarrow> u32 list option" where
  "give_codewords 0 symb lens next_codewords A = Some A"
| "give_codewords (Suc n) symb lens next_codewords A =
     do {
       l \<leftarrow> fetch lens symb;
       cw \<leftarrow> fetch next_codewords (unat l);
       r \<leftarrow> reverse_codeword cw (unat l);
       A \<leftarrow> store A symb r;
       give_codewords n (symb + 1) lens (next_codewords[unat l := cw + 1]) A }"

definition gen_codewords :: "u32 list \<Rightarrow> byte list \<Rightarrow> nat list \<Rightarrow> nat \<Rightarrow> nat \<Rightarrow> (u32 list \<times> byte list) option" where
  "gen_codewords A lens len_counts max_codeword_len num_syms =
     do {
       lens \<leftarrow> give_lens max_codeword_len len_counts A 0 lens;
       A \<leftarrow> give_codewords num_syms 0 lens
              (0 # 0 # first_codewords (take (max_codeword_len - 1) (drop 1 len_counts)) 0) A;
       Some (A, lens) }"

section \<open>The whole construction\<close>

definition deflate_make_huffman_code :: "nat \<Rightarrow> nat \<Rightarrow> u32 list \<Rightarrow> byte list \<Rightarrow> u32 list \<Rightarrow>
    (byte list \<times> u32 list) option" where
  "deflate_make_huffman_code num_syms max_codeword_len freqs lens codewords =
     do {
       (num_used_syms, lens, A) \<leftarrow> sort_symbols num_syms freqs lens codewords;
       if num_used_syms = 0 then Some (lens, A)
       else if num_used_syms = 1
       then do {
         x \<leftarrow> fetch A 0;
         let symb = unat (x AND SYMBOL_MASK);
         let nonzero_idx = (if symb \<noteq> 0 then symb else 1);
         A \<leftarrow> store A 0 0;
         lens \<leftarrow> store lens 0 1;
         A \<leftarrow> store A nonzero_idx 1;
         lens \<leftarrow> store lens nonzero_idx 1;
         Some (lens, A) }
       else do {
         A \<leftarrow> build_tree A num_used_syms;
         (A, len_counts) \<leftarrow> compute_length_counts A (num_used_syms - 2) max_codeword_len;
         (A, lens) \<leftarrow> gen_codewords A lens len_counts max_codeword_len num_syms;
         Some (lens, A) } }"

declare sift_down.simps [code]

end
