(* ===== verification/Deflate_Heap_Sort.thy ===== *)
theory Deflate_Heap_Sort
  imports Deflate_Huffman "HOL-Library.Multiset"
begin

text \<open>
  The heap sort of the compressor sorts: sifting down repairs a heap that is broken at one node
  and permutes the part of the array it works on, building the heap bottom up and taking the
  maximum off repeatedly keep the elements, and the result is in order.
\<close>

section \<open>Heaps in an array indexed from 1\<close>

text \<open>From node \<open>k\<close> on no node is smaller than its children, node \<open>p\<close> excepted; the children of \<open>p\<close> are
  not greater than its parent.\<close>

definition heap_except :: "nat \<Rightarrow> nat \<Rightarrow> nat \<Rightarrow> u32 list \<Rightarrow> bool" where
  "heap_except k len p A \<longleftrightarrow>
     (\<forall>i. 2 \<le> i \<and> i \<le> len \<and> k \<le> i div 2 \<and> i div 2 \<noteq> p \<longrightarrow> A ! (i - 1) \<le> A ! (i div 2 - 1))"

definition below_grandparent :: "nat \<Rightarrow> nat \<Rightarrow> nat \<Rightarrow> u32 list \<Rightarrow> bool" where
  "below_grandparent k len p A \<longleftrightarrow>
     (\<forall>i. i \<le> len \<and> i div 2 = p \<and> k \<le> p div 2 \<longrightarrow> A ! (i - 1) \<le> A ! (p div 2 - 1))"

abbreviation heap_from :: "nat \<Rightarrow> nat \<Rightarrow> u32 list \<Rightarrow> bool" where
  "heap_from k len A \<equiv> heap_except k len 0 A"

lemma pred_neq: "0 < x \<Longrightarrow> 0 < y \<Longrightarrow> x \<noteq> y \<Longrightarrow> x - 1 \<noteq> y - (1 :: nat)"
  by linarith

lemma heap_exceptD: "heap_except k len p A \<Longrightarrow> 2 \<le> i \<Longrightarrow> i \<le> len \<Longrightarrow> k \<le> i div 2 \<Longrightarrow> i div 2 \<noteq> p \<Longrightarrow>
    A ! (i - 1) \<le> A ! (i div 2 - 1)"
  by (simp add: heap_except_def)

lemma peek1_Some: "0 < i \<Longrightarrow> i \<le> length A \<Longrightarrow> peek1 A i = Some (A ! (i - 1))"
  by (simp add: peek1_def fetch_def)

lemma poke1_Some: "0 < i \<Longrightarrow> i \<le> length A \<Longrightarrow> poke1 A i v = Some (A[i - 1 := v])"
  by (simp add: poke1_def store_def)

lemma greater_child_Some:
  assumes "0 < p" and "2 * p \<le> len" and "len \<le> length A"
  obtains c where "greater_child A len (p * 2) = Some c" and "c div 2 = p" and "2 \<le> c" and "c \<le> len"
    and "\<And>i. i \<le> len \<Longrightarrow> i div 2 = p \<Longrightarrow> A ! (i - 1) \<le> A ! (c - 1)"
proof -
  let ?c = "if 2 * p < len \<and> A ! (2 * p) > A ! (2 * p - 1) then 2 * p + 1 else 2 * p"
  have "greater_child A len (p * 2) = Some ?c"
    using assms by (simp add: greater_child_def peek1_Some mult.commute)
  moreover have "A ! (i - 1) \<le> A ! (?c - 1)" if i: "i \<le> len" "i div 2 = p" for i
  proof -
    have "i = 2 * p \<or> i = 2 * p + 1" using i(2) by linarith
    then show ?thesis using i(1) by auto
  qed
  ultimately show thesis using assms by (intro that [of ?c]) auto
qed

section \<open>Sifting down\<close>

definition sifted :: "nat \<Rightarrow> nat \<Rightarrow> u32 list \<Rightarrow> u32 list \<Rightarrow> bool" where
  "sifted k len A R \<longleftrightarrow> length R = length A \<and> mset R = mset A \<and> heap_from k len R \<and>
     (\<forall>j \<ge> len. R ! j = A ! j)"

lemma sift_down_sifts:
  assumes "1 \<le> p" and "p \<le> len" and "len \<le> length A"
    and "heap_except k len p (A[p - 1 := v])" and "below_grandparent k len p (A[p - 1 := v])"
  shows "\<exists>R. sift_down A len p v = Some R \<and> sifted k len (A[p - 1 := v]) R"
  using assms
proof (induction "len - p" arbitrary: p A rule: less_induct)
  case less
  note h = less.prems(4) and g = less.prems(5)
  let ?V = "A[p - 1 := v]"
  have p: "0 < p" "p - 1 < length A" using less.prems(1-3) by simp_all
  have poke: "poke1 A p w = Some (A[p - 1 := w])" for w using less.prems(1-3) by (simp add: poke1_Some)
  show ?case
  proof (cases "2 * p \<le> len")
    case False
    then have "i div 2 \<noteq> p" if "i \<le> len" for i using that by auto
    then have "heap_from k len ?V" using h by (simp add: heap_except_def)
    then show ?thesis using False poke by (subst sift_down.simps) (simp add: sifted_def mult.commute)
  next
    case True
    obtain c where c: "greater_child A len (p * 2) = Some c" "c div 2 = p" "2 \<le> c" "c \<le> len"
      "\<And>i. i \<le> len \<Longrightarrow> i div 2 = p \<Longrightarrow> A ! (i - 1) \<le> A ! (c - 1)"
      using greater_child_Some [OF p(1) True less.prems(3)] by metis
    have pc: "p < c" using c(2,3) by auto
    have peek: "peek1 A c = Some (A ! (c - 1))" using c(3,4) less.prems(3) by (simp add: peek1_Some)
    have child: "?V ! (i - 1) = A ! (i - 1)" if "i div 2 = p" for i
    proof -
      have "p < i" using that p by auto
      then have "i - 1 \<noteq> p - 1" using p(1) by linarith
      then show ?thesis by simp
    qed
    have at_p: "?V ! (p - 1) = v" using p by simp
    show ?thesis
    proof (cases "v \<ge> A ! (c - 1)")
      case v: True
      have "heap_from k len ?V"
        unfolding heap_except_def
      proof (intro allI impI)
        fix i assume i: "2 \<le> i \<and> i \<le> len \<and> k \<le> i div 2 \<and> i div 2 \<noteq> 0"
        show "?V ! (i - 1) \<le> ?V ! (i div 2 - 1)"
        proof (cases "i div 2 = p")
          case True
          then show ?thesis using c(5) [of i] child [of i] at_p v i by auto
        qed (use h i heap_exceptD in blast)
      qed
      then show ?thesis using True c(1) peek v poke
        by (subst sift_down.simps) (simp add: sifted_def mult.commute)
    next
      case v: False
      let ?x = "A ! (c - 1)"
      let ?A = "A[p - 1 := ?x]"
      let ?W = "?A[c - 1 := v]"
      have ne: "c - 1 \<noteq> p - 1" "c - 1 < length A" using pc c(3,4) p less.prems(3) by linarith+
      have W: "?W ! j = (if j = c - 1 then v else if j = p - 1 then ?x else A ! j)" if "j < length A" for j
        using that ne p by (simp add: nth_list_update)
      have V: "?V ! j = (if j = p - 1 then v else A ! j)" if "j < length A" for j
        using that by (simp add: nth_list_update)
      have "heap_except k len c ?W"
        unfolding heap_except_def
      proof (intro allI impI)
        fix i assume i: "2 \<le> i \<and> i \<le> len \<and> k \<le> i div 2 \<and> i div 2 \<noteq> c"
        then have l: "i - 1 < length A" "i div 2 - 1 < length A" "i - 1 \<noteq> i div 2 - 1" "0 < i div 2"
          using less.prems(3) by auto
        consider "i = c" | "i = p" | "i \<noteq> c" "i div 2 = p" | "i \<noteq> c" "i \<noteq> p" "i div 2 \<noteq> p" by blast
        then show "?W ! (i - 1) \<le> ?W ! (i div 2 - 1)"
        proof cases
          case 1
          then show ?thesis using v c(2) ne p by (simp add: W)
        next
          case 2
          have "?V ! (c - 1) \<le> ?V ! (p div 2 - 1)" using g c(2,4) i 2 by (auto simp: below_grandparent_def)
          moreover have "p div 2 - 1 \<noteq> p - 1" "p div 2 - 1 \<noteq> c - 1" using l i 2 pc by linarith+
          ultimately show ?thesis using 2 l ne p by (simp add: W V)
        next
          case 3
          have "i - 1 \<noteq> c - 1" "i - 1 \<noteq> p - 1" using 3 i l c(3) by linarith+
          then show ?thesis using 3 c(5) [of i] i l ne p by (simp add: W)
        next
          case 4
          have ic: "0 < i" "0 < c" "i div 2 \<noteq> c" using i c(3) by simp_all
          note ne' = pred_neq [OF ic(1,2) 4(1)] pred_neq [OF ic(1) p(1) 4(2)]
            pred_neq [OF l(4) ic(2,3)] pred_neq [OF l(4) p(1) 4(3)]
          then show ?thesis using heap_exceptD [OF h, of i] 4 i l(1,2) ne' by (simp add: W V)
        qed
      qed
      moreover have "below_grandparent k len c ?W"
        unfolding below_grandparent_def
      proof (intro allI impI)
        fix i assume i: "i \<le> len \<and> i div 2 = c \<and> k \<le> c div 2"
        then have l: "i - 1 < length A" "i - 1 \<noteq> c - 1" "i - 1 \<noteq> p - 1" "2 \<le> i" "k \<le> i div 2" "i div 2 \<noteq> p"
          using less.prems(3) c(2,3) pc by auto
        then have "?V ! (i - 1) \<le> ?V ! (c - 1)" using heap_exceptD [OF h, of i] i by simp
        then show "?W ! (i - 1) \<le> ?W ! (c div 2 - 1)" using l ne p c(2) by (simp add: W V)
      qed
      moreover have "len - c < len - p" "1 \<le> c" "len \<le> length ?A" using pc c(4) less.prems(3) by simp_all
      ultimately obtain R where R: "sift_down ?A len c v = Some R" "sifted k len ?W R"
        using less.hyps [of c ?A] c(4) by blast
      have "mset ?W = mset ?V"
      proof -
        have "?W = ?V[p - 1 := ?V ! (c - 1), c - 1 := ?V ! (p - 1)]"
          using ne p by (simp add: list_update_swap)
        then show ?thesis using mset_swap [of "c - 1" ?V "p - 1"] ne p by simp
      qed
      moreover have "?W ! j = ?V ! j" if "len \<le> j" for j
        using that c(3,4) less.prems(1,2) by simp
      ultimately have "sifted k len ?V R" using R(2) by (simp add: sifted_def)
      then show ?thesis using True c(1) peek v poke R(1)
        by (subst sift_down.simps) (simp add: mult.commute)
    qed
  qed
qed

lemma sifted_take:
  assumes "sifted k len A R" and "len \<le> length A"
  shows "mset (take len R) = mset (take len A)" and "set (take len R) = set (take len A)"
proof -
  have "drop len R = drop len A" using assms by (intro nth_equalityI) (auto simp: sifted_def)
  moreover have "mset (take len R) + mset (drop len R) = mset (take len A) + mset (drop len A)"
    using assms by (simp add: sifted_def flip: mset_append)
  ultimately show 1: "mset (take len R) = mset (take len A)" by simp
  show "set (take len R) = set (take len A)" by (rule mset_eq_setD [OF 1])
qed

lemma heap_root_max:
  assumes "heap_from 1 len A" and "1 \<le> i" and "i \<le> len"
  shows "A ! (i - 1) \<le> A ! 0"
  using assms(2,3)
proof (induction i rule: less_induct)
  case (less i)
  show ?case
  proof (cases "i = 1")
    case False
    then have "A ! (i - 1) \<le> A ! (i div 2 - 1)" using heap_exceptD [OF assms(1), of i] less.prems by simp
    also have "\<dots> \<le> A ! 0" using less.IH [of "i div 2"] less.prems False by simp
    finally show ?thesis .
  qed simp
qed

section \<open>Sorting\<close>

lemma heapify_loop_heaps:
  assumes "heap_from (k + 1) len A" and "k \<le> len" and "len \<le> length A"
  shows "\<exists>R. heapify_loop len k A = Some R \<and> sifted 1 len A R"
  using assms
proof (induction k arbitrary: A)
  case 0
  then show ?case by (simp add: sifted_def)
next
  case (Suc k)
  have "heap_except (Suc k) len (Suc k) (A[Suc k - 1 := A ! k])"
    using Suc.prems(1) by (auto simp: heap_except_def)
  moreover have "below_grandparent (Suc k) len (Suc k) (A[Suc k - 1 := A ! k])"
    by (auto simp: below_grandparent_def)
  ultimately obtain B where B: "sift_down A len (Suc k) (A ! k) = Some B" "sifted (Suc k) len A B"
    using sift_down_sifts [of "Suc k" len A "Suc k" "A ! k"] Suc.prems(2,3) by auto
  then have "heapify_subtree A len (Suc k) = Some B"
    using Suc.prems(2,3) by (simp add: heapify_subtree_def peek1_Some)
  moreover obtain R where "heapify_loop len k B = Some R" "sifted 1 len B R"
    using Suc.IH [of B] B(2) Suc.prems(2,3) by (auto simp: sifted_def)
  ultimately show ?case using B(2) by (auto simp: sifted_def)
qed

text \<open>From index \<open>n\<close> on every element is in its place.\<close>

definition placed :: "nat \<Rightarrow> nat \<Rightarrow> u32 list \<Rightarrow> bool" where
  "placed len n A \<longleftrightarrow> (\<forall>i j. i < j \<and> j < len \<and> n \<le> j \<longrightarrow> A ! i \<le> A ! j)"

lemma heap_sort_loop_sorts:
  assumes "heap_from 1 n A" and "placed len n A" and "n \<le> len" and "len \<le> length A"
  shows "\<exists>R. heap_sort_loop n A = Some R \<and> placed len 1 R \<and> length R = length A \<and>
    mset R = mset A \<and> (\<forall>j \<ge> len. R ! j = A ! j)"
  using assms
proof (induction n arbitrary: A)
  case 0
  then show ?case by (auto simp: placed_def)
next
  case (Suc k)
  show ?case
  proof (cases k)
    case 0
    then show ?thesis using Suc.prems by (auto simp: placed_def)
  next
  case k: (Suc m)
  let ?n = "Suc m"
  note prems = Suc.prems [unfolded k]
  have l: "?n < length A" using prems(3,4) by simp
  let ?B = "A[?n := A ! 0, 0 := A ! ?n]"
  have "heap_except 1 ?n 1 ?B"
    unfolding heap_except_def
  proof (intro allI impI)
    fix i assume i: "2 \<le> i \<and> i \<le> ?n \<and> 1 \<le> i div 2 \<and> i div 2 \<noteq> 1"
    then have "i - 1 \<noteq> 0" "i - 1 \<noteq> ?n" "i div 2 - 1 \<noteq> 0" "i div 2 - 1 \<noteq> ?n" by linarith+
    then show "?B ! (i - 1) \<le> ?B ! (i div 2 - 1)"
      using heap_exceptD [OF prems(1), of i] i by (simp add: nth_list_update_neq)
  qed
  moreover have "below_grandparent 1 ?n 1 ?B" by (auto simp: below_grandparent_def)
  moreover have "?B[1 - 1 := A ! ?n] = ?B" by simp
  ultimately obtain R where R: "sift_down ?B ?n 1 (A ! ?n) = Some R" "sifted 1 ?n ?B R"
    using sift_down_sifts [of 1 ?n ?B 1 "A ! ?n"] l by auto
  have "0 < length A" using l by linarith
  then have swap: "mset ?B = mset A" by (rule mset_swap [OF _ l])
  have B0: "?B ! 0 = A ! ?n" using \<open>0 < length A\<close> by (intro nth_list_update_eq) (simp only: length_list_update)
  have st: "heap_sort_loop (Suc (Suc m)) A = heap_sort_loop ?n R"
    using R(1) l B0 by (simp add: peek1_Some poke1_Some heapify_subtree_def)
  have B: "?B ! j = A ! j" if "Suc m < j" for j using that by simp
  have Bn: "?B ! ?n = A ! 0" using l by simp
  have Rj: "R ! j = ?B ! j" if "?n \<le> j" for j using R(2) that by (simp add: sifted_def)
  have low: "\<exists>i' \<le> ?n. R ! i = A ! i'" if "i < ?n" for i
  proof -
    have "R ! i \<in> set (take ?n R)"
      using that l R(2) by (auto simp: sifted_def in_set_conv_nth intro!: exI [of _ i])
    then have "R ! i \<in> set (take ?n ?B)" using sifted_take(2) [OF R(2)] l by simp
    then obtain i' where "i' < ?n" "R ! i = ?B ! i'" using l by (auto simp: in_set_conv_nth)
    moreover have "\<exists>k \<le> ?n. ?B ! i' = A ! k"
    proof (cases "i' = 0")
      case True
      then show ?thesis using B0 by (intro exI [of _ ?n]) simp
    next
      case False
      then show ?thesis using \<open>i' < ?n\<close> by (intro exI [of _ i']) simp
    qed
    ultimately show ?thesis by simp
  qed
  have max: "A ! i' \<le> A ! 0" if "i' \<le> ?n" for i' using heap_root_max [OF prems(1), of "i' + 1"] that by simp
  have "placed len ?n R"
    unfolding placed_def
  proof (intro allI impI)
    fix i j assume ij: "i < j \<and> j < len \<and> ?n \<le> j"
    consider "j = ?n" | "?n < j" "i < ?n" | "?n < j" "i = ?n" | "?n < i" using ij by linarith
    then show "R ! i \<le> R ! j"
    proof cases
      case 1
      then show ?thesis using low [of i] max ij Rj Bn by auto
    next
      case 2
      then obtain i' where "i' \<le> ?n" "R ! i = A ! i'" using low by blast
      then show ?thesis using prems(2) 2 ij Rj [of j] B [of j] by (auto simp: placed_def)
    next
      case 3
      then show ?thesis using prems(2) ij Rj B [of j] Bn by (auto simp: placed_def)
    next
      case 4
      then show ?thesis using prems(2) ij Rj B by (auto simp: placed_def)
    qed
  qed
  moreover have "heap_from 1 ?n R" using R(2) by (simp add: sifted_def)
  moreover have lR: "length R = length A" "mset R = mset A" using R(2) swap by (simp_all add: sifted_def)
  ultimately obtain S where S: "heap_sort_loop ?n R = Some S" "placed len 1 S" "length S = length R" "mset S = mset R"
    "\<forall>j \<ge> len. S ! j = R ! j"
    using Suc.IH [of R] prems(3,4) k by auto
  have "R ! j = A ! j" if "len \<le> j" for j using Rj [of j] B [of j] that prems(3) by simp
  then show ?thesis using st S lR k by simp
  qed
qed

lemma heap_sort_sorts:
  assumes "len \<le> length A"
  shows "\<exists>R. heap_sort A len = Some R \<and> sorted (take len R) \<and> mset (take len R) = mset (take len A) \<and>
    drop len R = drop len A \<and> length R = length A"
proof -
  have "heap_from (len div 2 + 1) len A" by (auto simp: heap_except_def)
  then obtain B where B: "heapify_array A len = Some B" "sifted 1 len A B"
    using heapify_loop_heaps [of "len div 2" len A] assms by (auto simp: heapify_array_def)
  moreover have "placed len len B" by (auto simp: placed_def)
  ultimately obtain R where R: "heap_sort_loop len B = Some R" "placed len 1 R" "length R = length B" "mset R = mset B"
    "\<forall>j \<ge> len. R ! j = B ! j"
    using heap_sort_loop_sorts [of len B len] assms by (auto simp: sifted_def)

  have d: "drop len R = drop len A" using R(3,5) B(2) by (intro nth_equalityI) (auto simp: sifted_def)
  have "mset (take len R) + mset (drop len R) = mset (take len A) + mset (drop len A)"
    using R(4) B(2) by (simp add: sifted_def flip: mset_append)
  then have m: "mset (take len R) = mset (take len A)" using d by simp
  have "sorted (take len R)"
    using R(2,3) B(2) assms by (auto simp: sorted_iff_nth_mono_less placed_def sifted_def)
  then show ?thesis using B R d m by (simp add: heap_sort_def sifted_def)
qed

end
