(* ===== verification/Counting_Sort.thy ===== *)
theory Counting_Sort
  imports Deflate_Table "HOL-Library.Multiset"
begin

text \<open>
  Counting sort, as both ends of the DEFLATE code use it: counting keys, adding the counts up to
  offsets, and placing every item at the offset of its key. The items end up bucket by bucket, in
  the order in which they came.
\<close>

section \<open>Counting\<close>

lemma count_lens_counts:
  "\<forall>k \<in> set keys. k < length cs \<Longrightarrow>
   \<exists>cs'. count_lens keys cs = Some cs' \<and> length cs' = length cs \<and> (\<forall>k < length cs. cs' ! k = cs ! k + count_list keys k)"
proof (induction keys arbitrary: cs)
  case (Cons l keys)
  then obtain cs' where "count_lens keys (cs[l := cs ! l + 1]) = Some cs'" "length cs' = length cs"
    "\<forall>k < length cs. cs' ! k = cs[l := cs ! l + 1] ! k + count_list keys k"
    using Cons.IH [of "cs[l := cs ! l + 1]"] by auto
  then show ?case using Cons.prems by (auto simp: fetch_def nth_list_update)
qed simp

section \<open>Placing\<close>

fun place :: "(nat \<times> 'a) list \<Rightarrow> nat list \<Rightarrow> 'a list \<Rightarrow> (nat list \<times> 'a list) option" where
  "place [] offs out = Some (offs, out)"
| "place ((k, x) # items) offs out =
     do { p \<leftarrow> fetch offs k; out \<leftarrow> store out p x; place items (offs[k := p + 1]) out }"

definition bucket :: "nat \<Rightarrow> (nat \<times> 'a) list \<Rightarrow> 'a list" where
  "bucket k items = map snd (filter (\<lambda>(k', x). k' = k) items)"

lemma bucket_simps [simp]:
  "bucket k [] = []"
  "bucket k ((k', x) # items) = (if k' = k then x # bucket k items else bucket k items)"
  by (auto simp: bucket_def)

lemma length_bucket: "length (bucket k items) = count_list (map fst items) k"
  by (induction items) auto

text \<open>Where the items of key \<open>k\<close> go.\<close>

definition slots :: "(nat \<times> 'a) list \<Rightarrow> nat list \<Rightarrow> nat \<Rightarrow> nat set" where
  "slots items offs k = {offs ! k ..< offs ! k + length (bucket k items)}"

definition room :: "(nat \<times> 'a) list \<Rightarrow> nat list \<Rightarrow> nat \<Rightarrow> bool" where
  "room items offs n \<longleftrightarrow> (\<forall>(k, x) \<in> set items. k < length offs) \<and>
     (\<forall>k < length offs. slots items offs k \<subseteq> {..<n}) \<and>
     (\<forall>k < length offs. \<forall>k' < length offs. k \<noteq> k' \<longrightarrow> slots items offs k \<inter> slots items offs k' = {})"

lemma place_Some:
  assumes "room items offs (length out)"
  shows "\<exists>offs' out'. place items offs out = Some (offs', out') \<and> length offs' = length offs \<and> length out' = length out \<and>
    (\<forall>k < length offs. offs' ! k = offs ! k + length (bucket k items)) \<and>
    (\<forall>k < length offs. \<forall>j < length (bucket k items). out' ! (offs ! k + j) = bucket k items ! j) \<and>
    (\<forall>p. (\<forall>k < length offs. p \<notin> slots items offs k) \<longrightarrow> out' ! p = out ! p)"
  using assms
proof (induction items arbitrary: offs out)
  case (Cons kx items)
  obtain k x where kx: "kx = (k, x)" by fastforce
  let ?offs = "offs[k := offs ! k + 1]" and ?out = "out[offs ! k := x]"
  note r = Cons.prems [unfolded kx]
  have k: "k < length offs" using r by (auto simp: room_def)
  have sk: "slots ((k, x) # items) offs k = insert (offs ! k) (slots items ?offs k)"
    using k by (auto simp: slots_def)
  have so: "slots ((k, x) # items) offs i = slots items ?offs i" if "i \<noteq> k" for i
    using that by (auto simp: slots_def)
  have p: "offs ! k < length out" using r k sk by (auto simp: room_def)
  have notin: "offs ! k \<notin> slots items ?offs i" if "i < length offs" for i
  proof (cases "i = k")
    case False
    then show ?thesis using r k that sk so [OF False] unfolding room_def by blast
  qed (use k in \<open>auto simp: slots_def\<close>)
  have sub: "slots items ?offs i \<subseteq> slots ((k, x) # items) offs i" for i
    using sk so by (cases "i = k") auto
  have "room items ?offs (length ?out)"
    using r sub unfolding room_def by (simp add: disjoint_iff subset_iff) blast
  then obtain offs' out' where ih: "place items ?offs ?out = Some (offs', out')" "length offs' = length offs"
    "length out' = length out" "\<forall>i < length offs. offs' ! i = ?offs ! i + length (bucket i items)"
    "\<forall>i < length offs. \<forall>j < length (bucket i items). out' ! (?offs ! i + j) = bucket i items ! j"
    "\<forall>p. (\<forall>i < length offs. p \<notin> slots items ?offs i) \<longrightarrow> out' ! p = ?out ! p"
    using Cons.IH [of ?offs ?out] by auto
  have at: "out' ! (offs ! k) = x" using ih(6) notin p by auto
  have "out' ! (offs ! i + j) = bucket i ((k, x) # items) ! j"
    if "i < length offs" "j < length (bucket i ((k, x) # items))" for i j
  proof (cases "i = k")
    case True
    then show ?thesis using ih(5) k at that by (cases j) auto
  qed (use ih(5) that in auto)
  moreover have "out' ! p = out ! p" if "\<forall>i < length offs. p \<notin> slots ((k, x) # items) offs i" for p
  proof -
    have "\<forall>i < length offs. p \<notin> slots items ?offs i" using that sub by blast
    moreover have "p \<noteq> offs ! k" using that k sk by blast
    ultimately show ?thesis using ih(6) by simp
  qed
  moreover have "offs' ! i = offs ! i + length (bucket i ((k, x) # items))" if "i < length offs" for i
    using ih(4) that k by (auto simp: nth_list_update)
  ultimately show ?case using ih(1-3) k p by (simp add: kx fetch_def store_def)
qed simp

section \<open>Offsets that are sums of counts\<close>

lemma room_sums:
  assumes offs: "length offs = K"
      "\<And>k. k < K \<Longrightarrow> bucket k items \<noteq> [] \<Longrightarrow> offs ! k = (\<Sum>i<k. length (bucket i items))"
    and keys: "\<forall>(k, x) \<in> set items. k < K" and n: "(\<Sum>i<K. length (bucket i items)) \<le> n"
  shows "room items offs n"
proof -
  have step: "offs ! k + length (bucket k items) = (\<Sum>i<Suc k. length (bucket i items))"
    if "k < K" "bucket k items \<noteq> []" for k
    using offs(2) [OF that] by simp
  have mono: "(\<Sum>i<a. length (bucket i items)) \<le> (\<Sum>i<b. length (bucket i items))" if "a \<le> b" for a b
    using that by (intro sum_mono2) auto
  have sub: "slots items offs k \<subseteq> {..<n}" if "k < K" for k
  proof (cases "bucket k items = []")
    case False
    then have "offs ! k + length (bucket k items) \<le> n" using step [OF that False] mono [of "Suc k" K] n that by simp
    then show ?thesis by (auto simp: slots_def)
  qed (simp add: slots_def)
  have lt: "slots items offs k \<inter> slots items offs k' = {}" if "k < k'" "k' < K" for k k'
  proof (cases "bucket k items = [] \<or> bucket k' items = []")
    case False
    then have "offs ! k + length (bucket k items) \<le> offs ! k'"
      using step [of k] offs(2) [of k'] mono [of "Suc k" k'] that by simp
    then show ?thesis by (auto simp: slots_def)
  qed (auto simp: slots_def)
  have "slots items offs k \<inter> slots items offs k' = {}" if "k < K" "k' < K" "k \<noteq> k'" for k k'
    using that lt [of k k'] lt [of k' k] by (cases "k < k'") auto
  then show ?thesis using keys sub offs(1) unfolding room_def by simp
qed

lemma concat_buckets:
  assumes "\<And>k j. k < K \<Longrightarrow> j < length (B k) \<Longrightarrow> out ! ((\<Sum>i<k. length (B i)) + j) = B k ! j"
    and "(\<Sum>i<K. length (B i)) \<le> length out"
  shows "take (\<Sum>i<K. length (B i)) out = concat (map B [0..<K])"
  using assms
proof (induction K)
  case (Suc K)
  let ?n = "\<Sum>i<K. length (B i)"
  have "take (length (B K)) (drop ?n out) = B K"
    using Suc.prems by (intro nth_equalityI) auto
  moreover have "take (?n + length (B K)) out = take ?n out @ take (length (B K)) (drop ?n out)"
    by (simp add: take_add)
  ultimately show ?case using Suc by simp
qed simp

text \<open>Placing with such offsets sorts the items into buckets.\<close>

lemma place_sorts:
  assumes offs: "length offs = K"
      "\<And>k. k < K \<Longrightarrow> bucket k items \<noteq> [] \<Longrightarrow> offs ! k = (\<Sum>i<k. length (bucket i items))"
    and keys: "\<forall>(k, x) \<in> set items. k < K" and n: "(\<Sum>i<K. length (bucket i items)) \<le> length out"
  obtains offs' out' where "place items offs out = Some (offs', out')" and "length offs' = K"
    and "\<And>k. k < K \<Longrightarrow> offs' ! k = offs ! k + length (bucket k items)"
    and "out' = concat (map (\<lambda>k. bucket k items) [0..<K]) @ drop (\<Sum>i<K. length (bucket i items)) out"
proof -
  obtain offs' out' where p: "place items offs out = Some (offs', out')" "length offs' = K" "length out' = length out"
    "\<forall>k < K. offs' ! k = offs ! k + length (bucket k items)"
    "\<forall>k < K. \<forall>j < length (bucket k items). out' ! (offs ! k + j) = bucket k items ! j"
    "\<forall>p. (\<forall>k < K. p \<notin> slots items offs k) \<longrightarrow> out' ! p = out ! p"
    using place_Some [OF room_sums [OF offs keys n]] offs(1) by auto
  let ?n = "\<Sum>i<K. length (bucket i items)"
  have "take ?n out' = concat (map (\<lambda>k. bucket k items) [0..<K])"
  proof (rule concat_buckets)
    fix k j assume k: "k < K" "j < length (bucket k items)"
    then have "offs ! k = (\<Sum>i<k. length (bucket i items))" using offs(2) [of k] by fastforce
    then show "out' ! ((\<Sum>i<k. length (bucket i items)) + j) = bucket k items ! j" using p(5) k by auto
  qed (use p(3) n in simp)
  moreover have "drop ?n out' = drop ?n out"
  proof (rule nth_equalityI)
    fix j assume "j < length (drop ?n out')"
    moreover have "?n + j \<notin> slots items offs k" if "k < K" for k
    proof (cases "bucket k items = []")
      case False
      have "offs ! k + length (bucket k items) \<le> ?n"
        using offs(2) [OF that False] sum_mono2 [of "{..<K}" "{..<Suc k}" "\<lambda>i. length (bucket i items)"] that by auto
      then show ?thesis by (auto simp: slots_def)
    qed (simp add: slots_def)
    ultimately show "drop ?n out' ! j = drop ?n out ! j" using p(3,6) n by simp
  qed (use p(3) in simp)
  ultimately have "out' = concat (map (\<lambda>k. bucket k items) [0..<K]) @ drop ?n out" by (metis append_take_drop_id)
  then show thesis using p(1,2,4) by (intro that) auto
qed

lemma mset_concat_buckets:
  "mset (concat (map (\<lambda>k. bucket k items) [0..<K])) = mset (map snd (filter (\<lambda>(k, x). k < K) items))"
proof (induction K)
  case (Suc K)
  have "mset (map snd (filter (\<lambda>(k, x). k < Suc K) items)) =
      mset (map snd (filter (\<lambda>(k, x). k < K) items)) + mset (bucket K items)"
    by (induction items) (auto simp: less_Suc_eq)
  then show ?case using Suc by simp
qed simp

lemma set_bucket: "set (bucket k items) = snd ` {kx \<in> set items. fst kx = k}"
  by (force simp: bucket_def)

end
