(* ===== verification/Deflate_Sort_Symbols.thy ===== *)
theory Deflate_Sort_Symbols
  imports Deflate_Heap_Sort Counting_Sort
begin

text \<open>
  Sorting the symbols by frequency: the counting sort with a heap sort of its last bucket yields
  the sorted list of the pairs of frequency and symbol of all symbols in use.
\<close>

section \<open>Entries\<close>

definition entry :: "u32 list \<Rightarrow> nat \<Rightarrow> u32" where
  "entry freqs symb = of_nat symb OR push_bit NUM_SYMBOL_BITS (freqs ! symb)"

definition used_syms :: "nat \<Rightarrow> u32 list \<Rightarrow> nat list" where
  "used_syms n freqs = filter (\<lambda>symb. freqs ! symb \<noteq> 0) [0..<n]"

lemma unat_entry_value:
  assumes "symb < 1024" and "unat f < 2 ^ 22"
  shows "unat (of_nat symb OR push_bit NUM_SYMBOL_BITS (f :: u32)) = 1024 * unat f + symb"
proof -
  have "of_nat symb AND push_bit 10 f = 0"
  proof (rule bit_word_eqI)
    fix j assume "j < LENGTH(32)"
    have "\<not> bit (of_nat symb :: u32) j" if "10 \<le> j"
    proof -
      have "\<not> bit symb j" using that assms(1) bit_take_bit_iff [of 10 symb j] by (simp add: take_bit_nat_eq_self)
      then show ?thesis by (simp add: bit_of_nat_iff)
    qed
    then show "bit (of_nat symb AND push_bit 10 f) j = bit (0 :: u32) j" by (auto simp: bit_simps)
  qed
  then have "of_nat symb OR push_bit 10 f = of_nat symb + push_bit 10 f" by (simp add: disjunctive_add_eq_or)
  also have "\<dots> = of_nat (1024 * unat f + symb)" by (simp add: push_bit_eq_mult)
  also have "unat \<dots> = 1024 * unat f + symb" using assms by (intro unat_of_nat_u32) simp
  finally show ?thesis by (simp add: NUM_SYMBOL_BITS_def)
qed

lemma unat_entry:
  "symb < 1024 \<Longrightarrow> unat (freqs ! symb) < 2 ^ 22 \<Longrightarrow> unat (entry freqs symb) = 1024 * unat (freqs ! symb) + symb"
  unfolding entry_def by (rule unat_entry_value)

section \<open>The passes over the frequencies\<close>

lemma count_freqs_lens: "count_freqs nc freqs cs = count_lens (map (\<lambda>f. min (unat f) (nc - 1)) freqs) cs"
  by (induction freqs arbitrary: cs) (simp_all add: Let_def)

lemma cumulate_sums:
  "cumulate cs used = (map (\<lambda>i. used + sum_list (take i cs)) [0..<length cs], used + sum_list cs)"
  by (induction cs arbitrary: used) (simp_all add: upt_conv_Cons map_Suc_upt [symmetric] add.assoc del: upt_Suc)

definition sym_items :: "nat \<Rightarrow> (nat \<times> u32) list \<Rightarrow> (nat \<times> u32) list" where
  "sym_items nc fs = map (\<lambda>(j, f). (min (unat f) (nc - 1), of_nat j OR push_bit NUM_SYMBOL_BITS f)) (filter (\<lambda>(j, f). f \<noteq> 0) fs)"

fun zero_unused :: "u32 list \<Rightarrow> nat \<Rightarrow> byte list \<Rightarrow> byte list" where
  "zero_unused [] symb lens = lens"
| "zero_unused (f # freqs) symb lens = zero_unused freqs (symb + 1) (if f = 0 then lens[symb := 0] else lens)"

lemma length_zero_unused [simp]: "length (zero_unused freqs symb lens) = length lens"
  by (induction freqs arbitrary: symb lens) simp_all

lemma zero_unused_nth:
  "j < length lens \<Longrightarrow> symb + length freqs \<le> length lens \<Longrightarrow> zero_unused freqs symb lens ! j =
     (if symb \<le> j \<and> j < symb + length freqs \<and> freqs ! (j - symb) = 0 then 0 else lens ! j)"
  by (induction freqs arbitrary: symb lens) (auto simp: nth_Cons' nth_list_update)

lemma place_syms_place:
  "symb + length freqs \<le> length lens \<Longrightarrow>
   place_syms nc freqs symb cs lens out =
     map_option (\<lambda>(cs, out). (cs, zero_unused freqs symb lens, out))
       (place (sym_items nc (zip [symb..<symb + length freqs] freqs)) cs out)"
proof (induction freqs arbitrary: symb cs lens out)
  case (Cons f freqs)
  have u: "[symb..<symb + length (f # freqs)] = symb # [symb + 1..<symb + 1 + length freqs]"
    by (simp add: upt_conv_Cons del: upt_Suc)
  show ?case
  proof (cases "f = 0")
    case True
    then show ?thesis
      using Cons.prems Cons.IH [of "symb + 1" "lens[symb := 0]"] unfolding u
      by (simp add: sym_items_def store_def)
  next
    case False
    then show ?thesis
      using Cons.prems Cons.IH [of "symb + 1" lens] unfolding u
      by (simp add: sym_items_def option.map_comp split: option.splits Option.bind_split)
  qed
qed (simp add: sym_items_def)

lemma sym_items_used:
  assumes "n \<le> length freqs"
  shows "sym_items nc (zip [0..<0 + length (take n freqs)] (take n freqs)) =
    map (\<lambda>j. (min (unat (freqs ! j)) (nc - 1), entry freqs j)) (used_syms n freqs)"
proof -
  have "zip [0..<0 + length (take n freqs)] (take n freqs) = map (\<lambda>j. (j, freqs ! j)) [0..<n]"
    using assms by (intro nth_equalityI) auto
  then show ?thesis by (simp add: sym_items_def used_syms_def filter_map comp_def entry_def)
qed

section \<open>The buckets\<close>

definition freq_bucket :: "nat \<Rightarrow> u32 list \<Rightarrow> nat \<Rightarrow> nat list" where
  "freq_bucket n freqs k = filter (\<lambda>j. min (unat (freqs ! j)) (n - 1) = k) (used_syms n freqs)"

lemma bucket_items:
  "bucket k (map (\<lambda>j. (min (unat (freqs ! j)) (n - 1), entry freqs j)) (used_syms n freqs)) =
     map (entry freqs) (freq_bucket n freqs k)"
  by (simp add: bucket_def freq_bucket_def filter_map comp_def)

lemma freq_bucket_count:
  assumes "n \<le> length freqs" and "0 < k" and "1 < n"
  shows "count_list (map (\<lambda>f. min (unat f) (n - 1)) (take n freqs)) k = length (freq_bucket n freqs k)"
proof -
  have "count_list (map (\<lambda>f. min (unat f) (n - 1)) (take n freqs)) k =
      length (filter (\<lambda>j. min (unat (freqs ! j)) (n - 1) = k) [0..<n])"
  proof -
    have "take n freqs = map ((!) freqs) [0..<n]" using assms(1) by (intro nth_equalityI) simp_all
    then show ?thesis by (simp add: count_list_eq_length_filter filter_map comp_def) metis
  qed
  also have "\<dots> = length (freq_bucket n freqs k)"
    using assms(2,3) unfolding freq_bucket_def used_syms_def filter_filter
    by (intro arg_cong [where f = length] filter_cong) auto
  finally show ?thesis .
qed

lemma freq_bucket_0: "1 < n \<Longrightarrow> freq_bucket n freqs 0 = []"
  by (auto simp: freq_bucket_def used_syms_def filter_empty_conv unat_eq_zero)

lemma entry_bounds:
  assumes "j \<in> set (freq_bucket n freqs k)" and "n \<le> 1024" and "\<forall>j < n. unat (freqs ! j) < 2 ^ 22"
  shows "1024 * k \<le> unat (entry freqs j)" and "k < n - 1 \<Longrightarrow> unat (entry freqs j) < 1024 * (k + 1)"
proof -
  have j: "j < n" "min (unat (freqs ! j)) (n - 1) = k" using assms(1) by (auto simp: freq_bucket_def used_syms_def)
  then have e: "unat (entry freqs j) = 1024 * unat (freqs ! j) + j" using assms(2,3) by (intro unat_entry) auto
  then show "1024 * k \<le> unat (entry freqs j)" using j by simp
  show "unat (entry freqs j) < 1024 * (k + 1)" if "k < n - 1"
  proof -
    have "unat (freqs ! j) = k" using j(2) that by simp
    then show ?thesis using e j(1) assms(2) by simp
  qed
qed

lemma sorted_bucket:
  assumes "k < n - 1" and "n \<le> 1024" and "\<forall>j < n. unat (freqs ! j) < 2 ^ 22"
  shows "sorted (map (entry freqs) (freq_bucket n freqs k))"
proof -
  have "sorted_wrt (<) (freq_bucket n freqs k)"
    by (simp add: freq_bucket_def used_syms_def sorted_wrt_filter)
  moreover have "entry freqs i \<le> entry freqs j"
    if "i \<in> set (freq_bucket n freqs k)" "j \<in> set (freq_bucket n freqs k)" "i < j" for i j
  proof -
    have "i < n" "j < n" "unat (freqs ! i) = k" "unat (freqs ! j) = k"
      using that assms(1) by (auto simp: freq_bucket_def used_syms_def min_def split: if_splits)
    then have "unat (entry freqs i) = 1024 * k + i" "unat (entry freqs j) = 1024 * k + j"
      using assms(2,3) unat_entry [of i freqs] unat_entry [of j freqs] by auto
    then show ?thesis using that(3) by (simp add: word_le_nat_alt)
  qed
  ultimately show ?thesis by (auto simp: sorted_map intro: sorted_wrt_mono_rel)
qed

lemma sorted_buckets:
  assumes "K \<le> n - 1" and "n \<le> 1024" and "\<forall>j < n. unat (freqs ! j) < 2 ^ 22"
    and "sorted high" and "set high \<subseteq> set (map (entry freqs) (freq_bucket n freqs (n - 1)))"
  shows "sorted (concat (map (\<lambda>k. map (entry freqs) (freq_bucket n freqs k)) [K..<n - 1]) @ high)"
  using assms(1)
proof (induction K rule: inc_induct)
  case base
  then show ?case using assms(4) by simp
next
  case (step k)
  let ?B = "\<lambda>k. map (entry freqs) (freq_bucket n freqs k)"
  have "x \<le> y" if x: "x \<in> set (?B k)" and y: "y \<in> set (concat (map ?B [Suc k..<n - 1]) @ high)" for x y
  proof -
    obtain i where "x = entry freqs i" "i \<in> set (freq_bucket n freqs k)" using x by auto
    moreover obtain k' where k': "k < k'" "y \<in> set (?B k')"
    proof (cases "y \<in> set high")
      case True
      then show thesis using assms(5) step.hyps(2) that [of "n - 1"] by blast
    next
      case False
      then obtain k' where "k' \<in> {Suc k..<n - 1}" "y \<in> set (?B k')" using y by auto
      then show thesis using that [of k'] by simp
    qed
    moreover obtain j where "y = entry freqs j" "j \<in> set (freq_bucket n freqs k')" using k'(2) by auto
    ultimately have "unat x < 1024 * (k + 1)" "1024 * k' \<le> unat y" "k + 1 \<le> k'"
      using entry_bounds [OF _ assms(2,3)] step.hyps by auto
    then have "unat x \<le> unat y" by simp
    then show ?thesis by (simp add: word_le_nat_alt)
  qed
  then show ?case
    using step sorted_bucket [OF step.hyps(2) assms(2,3)]
    by (subst upt_conv_Cons) (auto simp: sorted_append)
qed

section \<open>The sort\<close>

lemma sort_symbols_Some:
  assumes n: "3 \<le> n" "n \<le> DEFLATE_MAX_NUM_SYMS" "n \<le> length freqs" "n \<le> length lens" "n \<le> length symout"
    and f: "\<forall>j < n. unat (freqs ! j) < 2 ^ 22"
  shows "\<exists>out. sort_symbols n freqs lens symout =
      Some (length (used_syms n freqs), zero_unused (take n freqs) 0 lens, out) \<and>
    out = sort (map (entry freqs) (used_syms n freqs)) @ drop (length (used_syms n freqs)) symout"
proof -
  let ?keys = "map (\<lambda>f. min (unat f) (n - 1)) (take n freqs)"
  let ?items = "map (\<lambda>j. (min (unat (freqs ! j)) (n - 1), entry freqs j)) (used_syms n freqs)"
  let ?B = "\<lambda>k. map (entry freqs) (freq_bucket n freqs k)"
  let ?u = "length (used_syms n freqs)"
  have n1024: "n \<le> 1024" using n(2) by (simp add: DEFLATE_MAX_NUM_SYMS_def)
  have "\<forall>k \<in> set ?keys. k < length (replicate n 0)" using n(1) by auto
  then obtain cs where cs: "count_freqs n (take n freqs) (replicate n 0) = Some cs" "length cs = n"
    "\<forall>k < n. cs ! k = count_list ?keys k"
    using count_lens_counts [of ?keys "replicate n 0"] unfolding count_freqs_lens by auto
  define S where "S k = (\<Sum>i<k. length (?B i))" for k
  have c: "cs ! k = length (?B k)" if "0 < k" "k < n" for k
    using cs(3) freq_bucket_count [OF n(3) that(1)] n(1) that by simp
  have S1: "S (Suc k) = sum_list (take k (drop 1 cs))" if "k < n" for k
    using that
  proof (induction k)
    case 0
    then show ?case using freq_bucket_0 [of n freqs] n(1) by (simp add: S_def)
  next
    case (Suc k)
    have "take (Suc k) (drop 1 cs) = take k (drop 1 cs) @ [cs ! Suc k]"
      using Suc.prems cs(2) by (simp add: take_Suc_conv_app_nth)
    then show ?case using Suc c [of "Suc k"] by (simp add: S_def)
  qed
  have cum: "cumulate (drop 1 cs) 0 = (map (\<lambda>i. S (Suc i)) [0..<n - 1], S n)"
  proof -
    have "S n = sum_list (drop 1 cs)" using S1 [of "n - 1"] n(1) cs(2) by simp
    moreover have "map (\<lambda>i. S (Suc i)) [0..<n - 1] = map (\<lambda>i. 0 + sum_list (take i (drop 1 cs))) [0..<n - 1]"
      using S1 by (intro map_cong) auto
    ultimately show ?thesis using cs(2) by (simp add: cumulate_sums)
  qed
  let ?offs = "cs ! 0 # map (\<lambda>i. S (Suc i)) [0..<n - 1]"
  have keys: "\<forall>(k, x) \<in> set ?items. k < n" using n(1) by auto
  have mall: "mset (concat (map (\<lambda>k. bucket k ?items) [0..<n])) = mset (map (entry freqs) (used_syms n freqs))"
  proof -
    have "filter (\<lambda>(k, x). k < n) ?items = ?items" using keys by (intro filter_True) auto
    then show ?thesis unfolding mset_concat_buckets by (simp add: comp_def)
  qed
  have Sn: "S n = ?u"
  proof -
    have "S n = length (concat (map (\<lambda>k. bucket k ?items) [0..<n]))"
      unfolding bucket_items
      by (simp add: S_def length_concat comp_def interv_sum_list_conv_sum_set_nat atLeast0LessThan)
    then show ?thesis using mset_eq_length [OF mall] by simp
  qed
  have un: "?u \<le> n" using length_filter_le [of _ "[0..<n]"] by (simp add: used_syms_def)
  have off: "?offs ! k = S k" if "0 < k" "k < n" for k using that by (cases k) simp_all
  have o: "?offs ! k = (\<Sum>i<k. length (bucket i ?items))" if "k < n" "bucket k ?items \<noteq> []" for k
  proof -
    have "k \<noteq> 0" using that(2) freq_bucket_0 [of n freqs] n(1) unfolding bucket_items by (auto intro: ccontr)
    then show ?thesis unfolding bucket_items using that(1) off by (simp add: S_def)
  qed
  have room: "(\<Sum>i<n. length (bucket i ?items)) \<le> length symout"
    unfolding bucket_items using Sn un n(5) by (simp add: S_def)
  have lo: "length ?offs = n" using n(1) by simp
  obtain offs' out where p: "place ?items ?offs symout = Some (offs', out)" "length offs' = n"
    "\<And>k. k < n \<Longrightarrow> offs' ! k = ?offs ! k + length (bucket k ?items)"
    "out = concat (map (\<lambda>k. bucket k ?items) [0..<n]) @ drop (\<Sum>i<n. length (bucket i ?items)) symout"
    by (rule place_sorts [OF lo o keys room]) blast+
  have e1: "offs' ! (n - 2) = S (n - 1)" "offs' ! (n - 1) = S n"
  proof -
    have "Suc (n - 2) = n - 1" "Suc (n - 1) = n" using n(1) by simp_all
    moreover have "S k + length (?B k) = S (Suc k)" for k by (simp add: S_def)
    moreover have "0 < n - 2" "n - 2 < n" "0 < n - 1" "n - 1 < n" using n(1) by simp_all
    ultimately show "offs' ! (n - 2) = S (n - 1)" "offs' ! (n - 1) = S n"
      using p(3) off unfolding bucket_items by metis+
  qed
  let ?low = "concat (map ?B [0..<n - 1])"
  have low: "length ?low = S (n - 1)"
    by (simp add: S_def length_concat comp_def interv_sum_list_conv_sum_set_nat atLeast0LessThan)
  have SS: "S n = S (n - 1) + length (?B (n - 1))" using n(1) by (cases n) (simp_all add: S_def)
  have out: "out = ?low @ ?B (n - 1) @ drop ?u symout"
  proof -
    have "[0..<n] = [0..<n - 1] @ [n - 1]" using n(1) by (cases n) simp_all
    then show ?thesis unfolding p(4) bucket_items using Sn by (simp add: S_def)
  qed
  let ?high = "?B (n - 1) @ drop ?u symout"
  obtain R where R: "heap_sort ?high (length (?B (n - 1))) = Some R" "sorted (take (length (?B (n - 1))) R)"
    "mset (take (length (?B (n - 1))) R) = mset (?B (n - 1))" "drop (length (?B (n - 1))) R = drop ?u symout"
    using heap_sort_sorts [of "length (?B (n - 1))" ?high] by auto
  let ?H = "take (length (?B (n - 1))) R"
  have res: "sort_symbols n freqs lens symout = Some (S n, zero_unused (take n freqs) 0 lens, ?low @ R)"
  proof -
    have "place_syms n (take n freqs) 0 ?offs lens symout = Some (offs', zero_unused (take n freqs) 0 lens, out)"
      using n(3,4) p(1) place_syms_place [of 0 "take n freqs" lens n ?offs symout]
      unfolding sym_items_used [OF n(3)] by simp
    moreover have "take (S (n - 1)) out = ?low" "drop (S (n - 1)) out = ?high" using out low by simp_all
    moreover have "S n - S (n - 1) = length (?B (n - 1))" "\<not> S n < S (n - 1)" using SS by simp_all
    ultimately show ?thesis
      using n(1-3) cs cum R(1) e1 by (simp add: sort_symbols_def GET_NUM_COUNTERS_def Let_def del: map_map)
  qed
  have "?low @ R = (?low @ ?H) @ drop ?u symout" using R(4) by (metis append.assoc append_take_drop_id)
  also have "?low @ ?H = sort (map (entry freqs) (used_syms n freqs))"
  proof (rule properties_for_sort [symmetric])
    have "set ?H = set (?B (n - 1))" using R(3) by (rule mset_eq_setD)
    then show "sorted (?low @ ?H)" using sorted_buckets [of 0 n freqs ?H] n1024 f R(2) by simp
    have "[0..<n] = [0..<n - 1] @ [n - 1]" using n(1) by (cases n) simp_all
    then show "mset (?low @ ?H) = mset (map (entry freqs) (used_syms n freqs))"
      using mall R(3) unfolding bucket_items by simp
  qed
  finally show ?thesis using res Sn by simp
qed

end
