(* ===== verification/Deflate_Huffman_Tree.thy ===== *)
theory Deflate_Huffman_Tree
  imports Deflate_Huffman
begin

text \<open>
  The stripped-down Huffman tree: building it stays inside the array and keeps the symbols, the
  parent of a node has a greater index than the node, parents come in order and no node gets more
  than two children; counting the lengths of its codewords, limited to a maximum, yields the lengths of a
  complete prefix code with as many codewords as there are symbols.
\<close>

section \<open>Packed entries\<close>

lemma symbol_mask: "SYMBOL_MASK = mask 10" "FREQ_MASK = NOT (mask 10)"
  by (simp_all add: SYMBOL_MASK_def FREQ_MASK_def NUM_SYMBOL_BITS_def mask_eq_exp_minus_1 push_bit_eq_mult)

lemma and_symbol_mask: "x AND SYMBOL_MASK = take_bit 10 x"
  by (simp add: symbol_mask take_bit_eq_mask)

lemma take_bit_or_low:
  "take_bit 10 x = 0 \<Longrightarrow> take_bit 10 (x OR (y AND SYMBOL_MASK)) = take_bit 10 y" for x y :: u32
  by (simp add: and_symbol_mask take_bit_or)

lemma take_bit_freqs: "take_bit 10 ((x AND FREQ_MASK) + (y AND FREQ_MASK)) = 0" for x y :: u32
proof -
  have "z AND FREQ_MASK = push_bit 10 (drop_bit 10 z)" for z :: u32
    by (rule bit_word_eqI) (auto simp: symbol_mask bit_simps)
  then have "(x AND FREQ_MASK) + (y AND FREQ_MASK) = push_bit 10 (drop_bit 10 x + drop_bit 10 y)"
    by (simp add: push_bit_add)
  then show ?thesis by (simp add: take_bit_push_bit)
qed

lemma packed:
  assumes "k < 2 ^ 22"
  shows "drop_bit NUM_SYMBOL_BITS (push_bit NUM_SYMBOL_BITS (of_nat k) OR (x AND SYMBOL_MASK)) = (of_nat k :: u32)"
    and "take_bit 10 (push_bit NUM_SYMBOL_BITS (of_nat k) OR (x AND SYMBOL_MASK)) = take_bit 10 (x :: u32)"
proof -
  have "take_bit 22 (of_nat k :: u32) = of_nat k"
    using assms by (simp add: take_bit_of_nat take_bit_nat_eq_self del: of_nat_numeral)
  then have k: "\<not> bit (of_nat k :: u32) j" if "22 \<le> j" for j using that by (metis bit_take_bit_iff not_le)
  show "drop_bit NUM_SYMBOL_BITS (push_bit NUM_SYMBOL_BITS (of_nat k) OR (x AND SYMBOL_MASK)) = (of_nat k :: u32)"
    by (rule bit_word_eqI) (use k in \<open>auto simp: NUM_SYMBOL_BITS_def and_symbol_mask bit_simps intro: ccontr\<close>)
  show "take_bit 10 (push_bit NUM_SYMBOL_BITS (of_nat k) OR (x AND SYMBOL_MASK)) = take_bit 10 (x :: u32)"
    by (rule bit_word_eqI) (auto simp: NUM_SYMBOL_BITS_def and_symbol_mask bit_simps)
qed

definition upper :: "u32 list \<Rightarrow> nat \<Rightarrow> nat" where
  "upper A j = unat (drop_bit NUM_SYMBOL_BITS (A ! j))"

definition same_syms :: "u32 list \<Rightarrow> u32 list \<Rightarrow> bool" where
  "same_syms A B \<longleftrightarrow> length B = length A \<and> (\<forall>j < length A. take_bit 10 (B ! j) = take_bit 10 (A ! j))"

lemma set_parent_Some:
  assumes "b < length A" and "e < 2 ^ 22"
  obtains B where "set_parent e A b = Some B" and "same_syms A B" and "upper B b = e" and "\<And>j. j \<noteq> b \<Longrightarrow> B ! j = A ! j"
proof -
  have "upper (A[b := push_bit NUM_SYMBOL_BITS (of_nat e) OR (A ! b AND SYMBOL_MASK)]) b = e"
    unfolding upper_def nth_list_update_eq [OF assms(1)] packed(1) [OF assms(2)]
    using assms(2) by (intro unat_of_nat_u32) simp
  then show thesis
    using assms packed(2) [OF assms(2)]
    by (intro that [OF _ _ \<open>upper _ b = e\<close>])
      (auto simp: set_parent_def fetch_def store_def same_syms_def nth_list_update simp del: take_bit_or take_bit_and)
qed

lemma same_syms_refl [simp]: "same_syms A A" by (simp add: same_syms_def)

lemma same_syms_trans: "same_syms A B \<Longrightarrow> same_syms B C \<Longrightarrow> same_syms A C" by (simp add: same_syms_def)

section \<open>Building the tree\<close>

text \<open>Node \<open>N - 1\<close> is the root; every other node has its parent behind it, in order, and no three have the same.\<close>

definition ordered_parents :: "nat \<Rightarrow> (nat \<Rightarrow> nat) \<Rightarrow> bool" where
  "ordered_parents b par \<longleftrightarrow> (\<forall>j < b. j < par j) \<and> (\<forall>j. j + 1 < b \<longrightarrow> par j \<le> par (j + 1)) \<and>
     (\<forall>j. j + 2 < b \<longrightarrow> par j < par (j + 2))"

definition tree_inv :: "nat \<Rightarrow> u32 list \<Rightarrow> nat \<Rightarrow> nat \<Rightarrow> nat \<Rightarrow> u32 list \<Rightarrow> bool" where
  "tree_inv n A\<^sub>0 i b e A \<longleftrightarrow> i + b = 2 * e \<and> b \<le> e \<and> i \<le> n \<and> same_syms A\<^sub>0 A \<and>
     ordered_parents b (upper A) \<and> (\<forall>j < b. upper A j < e)"

lemma ordered_parents_Suc:
  assumes "ordered_parents b par" and "\<forall>j < b. par j < e" and "b < e"
    and "par' b = e" and "\<And>j. j < b \<Longrightarrow> par' j = par j"
  shows "ordered_parents (b + 1) par'" and "\<forall>j < b + 1. par' j < e + 1"
  using assms by (auto simp: ordered_parents_def less_Suc_eq intro: less_imp_le)

lemma ordered_parents_Suc2:
  assumes "ordered_parents b par" and "\<forall>j < b. par j < e" and "b + 1 < e"
    and "par' b = e" and "par' (b + 1) = e" and "\<And>j. j < b \<Longrightarrow> par' j = par j"
  shows "ordered_parents (b + 2) par'" and "\<forall>j < b + 2. par' j < e + 1"
  using assms by (auto simp: ordered_parents_def less_Suc_eq numeral_2_eq_2 intro: less_imp_le)

lemma join_step_tree:
  assumes inv: "tree_inv n A\<^sub>0 i b e A" and e: "e < n - 1" and n: "n \<le> length A\<^sub>0" "n \<le> 1024"
  shows "\<exists>i' b' A'. join_step (n - 1) i b e A = Some (i', b', A') \<and> tree_inv n A\<^sub>0 i' b' (e + 1) A'"
proof -
  have ib: "i + b = 2 * e" "b \<le> e" "i \<le> n" and sy: "same_syms A\<^sub>0 A" and op: "ordered_parents b (upper A)" "\<forall>j < b. upper A j < e"
    using inv by (simp_all add: tree_inv_def)
  have l: "length A = length A\<^sub>0" using sy by (simp add: same_syms_def)
  have e22: "e < 2 ^ 22" using e n by simp
  have fa: "freq_at A j = Some (A ! j AND FREQ_MASK)" if "j < n" for j
    using that l n by (simp add: freq_at_def fetch_def)
  have fin: "\<exists>B. do { x \<leftarrow> fetch A' e; A' \<leftarrow> store A' e (f OR (x AND SYMBOL_MASK)); Some (i', b', A') } = Some (i', b', B) \<and>
      tree_inv n A\<^sub>0 i' b' (e + 1) B"
    if A': "same_syms A A'" "take_bit 10 f = 0" "ordered_parents b' (upper A')" "\<forall>j < b'. upper A' j < e + 1"
      "i' + b' = 2 * (e + 1)" "b' \<le> e" "i' \<le> n" for A' f i' b'
  proof -
    let ?B = "A'[e := f OR (A' ! e AND SYMBOL_MASK)]"
    have lA: "length A' = length A" using A'(1) by (simp add: same_syms_def)
    have le: "e < length A'" using e n l lA by simp
    have "same_syms A' ?B"
      using take_bit_or_low [OF A'(2)] le by (simp add: same_syms_def nth_list_update del: take_bit_or take_bit_and)
    then have "same_syms A\<^sub>0 ?B" using sy A'(1) same_syms_trans by blast
    moreover have up: "upper ?B j = upper A' j" if "j < b'" for j using that A'(6) by (simp add: upper_def)
    then have "ordered_parents b' (upper ?B)" using A'(3) by (simp add: ordered_parents_def)
    ultimately show ?thesis using A'(4-7) le up by (simp add: tree_inv_def fetch_def store_def)
  qed
  note js = join_step_def
  consider (leaves) "two_leaves (n - 1) i b e A = Some True"
    | (nodes) "two_leaves (n - 1) i b e A = Some False" "two_nodes (n - 1) i b e A = Some True"
    | (mixed) "two_leaves (n - 1) i b e A = Some False" "two_nodes (n - 1) i b e A = Some False"
  proof -
    have "\<exists>x. two_leaves (n - 1) i b e A = Some x"
    proof (cases "i + 1 \<le> n - 1 \<and> b \<noteq> e")
      case True
      then have "b < n" "i + 1 < n" using ib e by linarith+
      then show ?thesis using fa True by (simp add: two_leaves_def)
    qed (auto simp: two_leaves_def)
    then obtain x where x: "two_leaves (n - 1) i b e A = Some x" ..
    have "\<exists>y. two_nodes (n - 1) i b e A = Some y"
    proof (cases "b + 2 \<le> e \<and> \<not> n - 1 < i")
      case True
      then have "b + 1 < n" "i < n" using e by linarith+
      then show ?thesis using fa True by (simp add: two_nodes_def)
    qed (auto simp: two_nodes_def)
    then obtain y where "two_nodes (n - 1) i b e A = Some y" ..
    with x show thesis using that by (cases x; cases y) simp_all
  qed
  then show ?thesis
  proof cases
    case leaves
    have i1: "i + 1 < n" using leaves by (simp add: two_leaves_def split: if_splits)
    obtain B where "do { x \<leftarrow> fetch A e; A' \<leftarrow> store A e ((A ! i AND FREQ_MASK) + (A ! (i + 1) AND FREQ_MASK) OR (x AND SYMBOL_MASK));
        Some (i + 2, b, A') } = Some (i + 2, b, B)" "tree_inv n A\<^sub>0 (i + 2) b (e + 1) B"
      using fin [OF same_syms_refl take_bit_freqs op(1), of "i + 2"] op(2) ib i1 by fastforce
    then show ?thesis using leaves fa i1 by (simp add: js)
  next
    case nodes
    have b2: "b + 2 \<le> e" using nodes(2) by (simp add: two_nodes_def split: if_splits)
    then have bl: "b < n" "b + 1 < n" using e by linarith+
    obtain B where B: "set_parent e A b = Some B" "same_syms A B" "upper B b = e" "\<And>j. j \<noteq> b \<Longrightarrow> B ! j = A ! j"
      using set_parent_Some [of b A e] bl l n e22 by auto
    have "b + 1 < length B" using B(2) bl l n by (simp add: same_syms_def)
    then obtain C where C: "set_parent e B (b + 1) = Some C" "same_syms B C" "upper C (b + 1) = e" "\<And>j. j \<noteq> b + 1 \<Longrightarrow> C ! j = B ! j"
      using set_parent_Some [of "b + 1" B e] e22 by blast
    have "upper C j = upper A j" if "j < b" for j using that B(4) [of j] C(4) [of j] by (simp add: upper_def)
    moreover have "upper C b = e" using B(3) C(4) [of b] by (simp add: upper_def)
    ultimately have "ordered_parents (b + 2) (upper C)" "\<forall>j < b + 2. upper C j < e + 1"
      using ordered_parents_Suc2 [OF op] b2 C(3) by simp_all
    then obtain D where "do { x \<leftarrow> fetch C e; A' \<leftarrow> store C e ((A ! b AND FREQ_MASK) + (A ! (b + 1) AND FREQ_MASK) OR (x AND SYMBOL_MASK));
        Some (i, b + 2, A') } = Some (i, b + 2, D)" "tree_inv n A\<^sub>0 i (b + 2) (e + 1) D"
      using fin [OF same_syms_trans [OF B(2) C(2)] take_bit_freqs, of "b + 2" i] ib b2 by fastforce
    then show ?thesis using nodes fa bl B(1) C(1) by (simp add: js)
  next
    case mixed
    have be: "b < e"
    proof (rule ccontr)
      assume "\<not> b < e"
      then have "b = e" "i = e" using ib by simp_all
      then show False using mixed(1) e by (simp add: two_leaves_def split: if_splits)
    qed
    have il: "i < n"
    proof (rule ccontr)
      assume "\<not> i < n"
      then have "i = n" "b + 2 \<le> e" using ib e by linarith+
      then show False using mixed(2) e by (simp add: two_nodes_def split: if_splits)
    qed
    have bl: "b < n" using be e by simp
    obtain B where B: "set_parent e A b = Some B" "same_syms A B" "upper B b = e" "\<And>j. j \<noteq> b \<Longrightarrow> B ! j = A ! j"
      using set_parent_Some [of b A e] bl l n e22 by auto
    have "upper B j = upper A j" if "j < b" for j using that B(4) [of j] by (simp add: upper_def)
    then have "ordered_parents (b + 1) (upper B)" "\<forall>j < b + 1. upper B j < e + 1"
      using ordered_parents_Suc [OF op be, of "upper B"] B(3) by simp_all
    then obtain D where "do { x \<leftarrow> fetch B e; A' \<leftarrow> store B e ((A ! i AND FREQ_MASK) + (A ! b AND FREQ_MASK) OR (x AND SYMBOL_MASK));
        Some (i + 1, b + 1, A') } = Some (i + 1, b + 1, D)" "tree_inv n A\<^sub>0 (i + 1) (b + 1) (e + 1) D"
      using fin [OF B(2) take_bit_freqs, of "b + 1" "i + 1"] ib be il by fastforce
    then show ?thesis using mixed fa il bl B(1) by (simp add: js)
  qed
qed

lemma build_loop_tree:
  assumes "tree_inv n A\<^sub>0 i b e A" and "e < n - 1" and "n \<le> length A\<^sub>0" and "n \<le> 1024"
  shows "\<exists>i' b' A'. build_loop (n - 1) i b e A = Some A' \<and> tree_inv n A\<^sub>0 i' b' (n - 1) A'"
  using assms(1,2)
proof (induction "n - 1 - e" arbitrary: i b e A rule: less_induct)
  case less
  obtain i' b' A' where j: "join_step (n - 1) i b e A = Some (i', b', A')" "tree_inv n A\<^sub>0 i' b' (e + 1) A'"
    using join_step_tree [OF less.prems assms(3,4)] by blast
  show ?case
  proof (cases "e + 1 < n - 1")
    case True
    then have "n - 1 - (e + 1) < n - 1 - e" by simp
    from less.hyps [OF this j(2) True] show ?thesis using j(1) True by (subst build_loop.simps) simp
  next
    case False
    then have "e + 1 = n - 1" using less.prems(2) by simp
    then show ?thesis using j by (subst build_loop.simps) auto
  qed
qed

lemma build_tree_tree:
  assumes "2 \<le> n" and "n \<le> length A" and "n \<le> 1024"
  obtains B where "build_tree A n = Some B" and "same_syms A B" and "ordered_parents (n - 2) (upper B)"
    and "\<And>j. j < n - 2 \<Longrightarrow> upper B j < n - 1"
proof -
  have "tree_inv n A 0 0 0 A" by (simp add: tree_inv_def ordered_parents_def)
  then obtain i b B where B: "build_tree A n = Some B" "tree_inv n A i b (n - 1) B"
    using build_loop_tree [of n A 0 0 0 A] assms by (auto simp: build_tree_def)
  then have "n - 2 \<le> b" by (auto simp: tree_inv_def)
  then show thesis using B by (intro that [of B]) (auto simp: tree_inv_def ordered_parents_def)
qed

end
