(* ===== verification/Deflate_Length_Counts.thy ===== *)
theory Deflate_Length_Counts
  imports Deflate_Huffman_Tree
begin

text \<open>
  Counting the codeword lengths of the tree, limited to \<^verbatim>\<open>max_codeword_len\<close>: the depths overwrite the
  parents, a length that is still free is always found, and the counts are those of a complete
  prefix code with one codeword per symbol.
\<close>

lemma word_of_unat: "unat (w :: 'a::len word) = n \<Longrightarrow> w = of_nat n"
  by auto

section \<open>Depths\<close>

function dep :: "nat \<Rightarrow> (nat \<Rightarrow> nat) \<Rightarrow> nat \<Rightarrow> nat" where
  "dep N par j = (if j + 1 < N \<and> j < par j then Suc (dep N par (par j)) else 0)"
  by pat_completeness auto
termination by (relation "measure (\<lambda>(N, par, j). N - j)") auto

declare dep.simps [simp del]

definition tree_of :: "nat \<Rightarrow> (nat \<Rightarrow> nat) \<Rightarrow> bool" where
  "tree_of N par \<longleftrightarrow> ordered_parents (N - 1) par \<and> (\<forall>j < N - 1. par j < N)"

lemma dep_root: "N \<le> j + 1 \<Longrightarrow> dep N par j = 0"
  by (subst dep.simps) simp

lemma dep_node: "tree_of N par \<Longrightarrow> j + 1 < N \<Longrightarrow> dep N par j = Suc (dep N par (par j))"
  by (subst dep.simps) (auto simp: tree_of_def ordered_parents_def)

lemma parents_mono:
  assumes "ordered_parents b par" and "i \<le> j" and "j < b"
  shows "par i \<le> par j"
  using assms(2,3)
proof (induction j rule: dec_induct)
  case (step j)
  then have "par i \<le> par j" by simp
  also have "par j \<le> par (Suc j)" using assms(1) step.prems by (simp add: ordered_parents_def)
  finally show ?case .
qed simp

lemma children_le_2:
  assumes "ordered_parents b par"
  shows "card {j. j < b \<and> par j = p} \<le> 2"
proof (cases "{j. j < b \<and> par j = p} = {}")
  case False
  let ?S = "{j. j < b \<and> par j = p}"
  define a where "a = Min ?S"
  have fin: "finite ?S" by simp
  have a: "a < b" "par a = p" using Min_in [OF fin False] by (auto simp: a_def)
  have "?S \<subseteq> {a, a + 1}"
  proof
    fix j assume j: "j \<in> ?S"
    have "a \<le> j" unfolding a_def using Min_le [OF fin j] .
    moreover have "\<not> a + 2 \<le> j"
    proof
      assume "a + 2 \<le> j"
      then have "par (a + 2) \<le> par j" "a + 2 < b" using parents_mono [OF assms] j by auto
      moreover have "par a < par (a + 2)" using assms \<open>a + 2 < b\<close> by (simp add: ordered_parents_def)
      ultimately show False using a(2) j by simp
    qed
    ultimately show "j \<in> {a, a + 1}" by auto
  qed
  then have "card ?S \<le> card {a, a + 1}" by (intro card_mono) auto
  then show ?thesis by simp
qed (simp only: card.empty)

lemma dep_antimono:
  assumes tr: "tree_of N par" and "i \<le> j" and "j < N"
  shows "dep N par j \<le> dep N par i"
  using assms(2,3)
proof (induction "N - i" arbitrary: i j rule: less_induct)
  case less
  show ?case
  proof (cases "j + 1 < N")
    case True
    have i: "i + 1 < N" using True less.prems(1) by simp
    have op: "ordered_parents (N - 1) par" and lt: "par i < N" "par j < N" "i < par i"
      using tr True i by (auto simp: tree_of_def ordered_parents_def)
    have "par i \<le> par j" using parents_mono [OF op less.prems(1)] True by simp
    then have "dep N par (par j) \<le> dep N par (par i)" using less.hyps [of "par i" "par j"] lt less.prems by simp
    then show ?thesis using dep_node [OF tr] True i by simp
  qed (simp add: dep_root)
qed

lemma dep_less:
  assumes "tree_of N par" and "j < N"
  shows "dep N par j + j < N"
  using assms(2)
proof (induction "N - j" arbitrary: j rule: less_induct)
  case less
  show ?case
  proof (cases "j + 1 < N")
    case True
    then have "par j < N" "j < par j" using assms(1) by (auto simp: tree_of_def ordered_parents_def)
    then have "dep N par (par j) + par j < N" using less by simp
    then show ?thesis using dep_node [OF assms(1) True] \<open>j < par j\<close> by simp
  qed (use less.prems in \<open>simp add: dep_root\<close>)
qed

text \<open>The nodes from \<open>m\<close> on at depth \<open>k\<close>.\<close>

definition nodes_at :: "nat \<Rightarrow> (nat \<Rightarrow> nat) \<Rightarrow> nat \<Rightarrow> nat \<Rightarrow> nat" where
  "nodes_at N par m k = card {j. m \<le> j \<and> j < N \<and> dep N par j = k}"

lemma nodes_at_level:
  assumes tr: "tree_of N par"
  shows "nodes_at N par m (Suc k) \<le> 2 * nodes_at N par (Suc m) k"
proof -
  let ?P = "{p. Suc m \<le> p \<and> p < N \<and> dep N par p = k}"
  have "{j. m \<le> j \<and> j < N \<and> dep N par j = Suc k} \<subseteq> (\<Union>p \<in> ?P. {j. j < N - 1 \<and> par j = p})"
  proof
    fix j assume j: "j \<in> {j. m \<le> j \<and> j < N \<and> dep N par j = Suc k}"
    have "j + 1 < N" using j dep_root [of N j par] by (cases "N \<le> j + 1") auto
    then have "j < par j" "par j < N" "dep N par (par j) = k"
      using j tr dep_node [OF tr] by (auto simp: tree_of_def ordered_parents_def)
    then show "j \<in> (\<Union>p \<in> ?P. {j. j < N - 1 \<and> par j = p})" using j \<open>j + 1 < N\<close> by auto
  qed
  then have "nodes_at N par m (Suc k) \<le> card (\<Union>p \<in> ?P. {j. j < N - 1 \<and> par j = p})"
    unfolding nodes_at_def by (intro card_mono) auto
  also have "\<dots> \<le> (\<Sum>p \<in> ?P. card {j. j < N - 1 \<and> par j = p})" by (rule card_UN_le) simp
  also have "\<dots> \<le> (\<Sum>p \<in> ?P. 2)" using tr by (intro sum_mono children_le_2) (simp add: tree_of_def)
  finally show ?thesis by (simp add: nodes_at_def mult.commute)
qed

lemma nodes_at_Suc:
  assumes "m < N"
  shows "nodes_at N par m k = nodes_at N par (Suc m) k + (if dep N par m = k then 1 else 0)"
proof (cases "dep N par m = k")
  case True
  then have "{j. m \<le> j \<and> j < N \<and> dep N par j = k} = insert m {j. Suc m \<le> j \<and> j < N \<and> dep N par j = k}"
    using assms by auto
  then show ?thesis using True by (simp add: nodes_at_def)
next
  case False
  then have "{j. m \<le> j \<and> j < N \<and> dep N par j = k} = {j. Suc m \<le> j \<and> j < N \<and> dep N par j = k}"
    by (auto simp: Suc_le_eq order_le_less)
  then show ?thesis using False by (simp add: nodes_at_def)
qed

section \<open>Splitting a codeword\<close>

definition split_len :: "nat \<Rightarrow> nat list \<Rightarrow> nat list" where
  "split_len k cs = cs[k := cs ! k - 1, k + 1 := cs ! (k + 1) + 2]"

lemma split_len_sum:
  assumes "k < L" and "length cs = L + 1" and "0 < cs ! k"
  shows "(\<Sum>i\<le>L. split_len k cs ! i * g i) + g k = (\<Sum>i\<le>L. cs ! i * g i) + 2 * g (k + 1)"
proof -
  have pt: "split_len k cs ! i * g i + (if i = k then g k else 0) = cs ! i * g i + (if i = k + 1 then 2 * g (k + 1) else 0)"
    if "i \<le> L" for i
    using assms that by (cases "cs ! k") (auto simp: split_len_def nth_list_update add_mult_distrib)
  have "(\<Sum>i\<le>L. split_len k cs ! i * g i) + g k = (\<Sum>i\<le>L. split_len k cs ! i * g i + (if i = k then g k else 0))"
    using assms(1) by (simp add: sum.distrib sum.delta)
  also have "\<dots> = (\<Sum>i\<le>L. cs ! i * g i + (if i = k + 1 then 2 * g (k + 1) else 0))"
    by (intro sum.cong refl pt) simp
  also have "\<dots> = (\<Sum>i\<le>L. cs ! i * g i) + 2 * g (k + 1)"
    using assms(1) by (simp add: sum.distrib sum.delta)
  finally show ?thesis .
qed

text \<open>The lengths of a complete code with \<open>t\<close> codewords.\<close>

definition complete_counts :: "nat \<Rightarrow> nat \<Rightarrow> nat list \<Rightarrow> bool" where
  "complete_counts L t cs \<longleftrightarrow> length cs = L + 1 \<and> cs ! 0 = 0 \<and>
     (\<Sum>k\<le>L. cs ! k * 2 ^ (L - k)) = 2 ^ L \<and> (\<Sum>k\<le>L. cs ! k) = t"

lemma split_len_complete:
  assumes "complete_counts L t cs" and "k < L" and "0 < cs ! k"
  shows "complete_counts L (t + 1) (split_len k cs)"
proof -
  have c: "length cs = L + 1" "cs ! 0 = 0" "(\<Sum>k\<le>L. cs ! k * 2 ^ (L - k)) = 2 ^ L" "(\<Sum>k\<le>L. cs ! k) = t"
    using assms(1) by (simp_all add: complete_counts_def)
  have "(2 :: nat) ^ (L - k) = 2 * 2 ^ (L - (k + 1))"
    using assms(2) by (metis Suc_diff_Suc Suc_eq_plus1 power_Suc)
  then have "(\<Sum>i\<le>L. split_len k cs ! i * 2 ^ (L - i)) = 2 ^ L"
    using split_len_sum [OF assms(2) c(1) assms(3), of "\<lambda>i. 2 ^ (L - i)"] c(3) by simp
  moreover have "(\<Sum>i\<le>L. split_len k cs ! i) = t + 1"
    using split_len_sum [OF assms(2) c(1) assms(3), of "\<lambda>i. 1"] c(4) by simp
  moreover have "k \<noteq> 0" using assms(3) c(2) by (intro notI) simp
  ultimately show ?thesis using c by (simp add: complete_counts_def split_len_def)
qed

lemma shorten_Some:
  "\<exists>k < d. cs ! k \<noteq> 0 \<Longrightarrow> d \<le> length cs \<Longrightarrow> \<exists>k < d. shorten cs d = Some k \<and> cs ! k \<noteq> 0"
proof (induction d)
  case (Suc d)
  show ?case
  proof (cases "cs ! d = 0")
    case True
    then have "\<exists>k < d. cs ! k \<noteq> 0" using Suc.prems(1) by (metis less_Suc_eq)
    then show ?thesis using Suc True by (auto simp: fetch_def)
  qed (use Suc.prems in \<open>auto simp: fetch_def\<close>)
qed simp

lemma free_length:
  assumes "complete_counts L t cs" and "t < 2 ^ L"
  shows "\<exists>k < L. cs ! k \<noteq> 0"
proof (rule ccontr)
  assume "\<not> ?thesis"
  then have z: "cs ! k = 0" if "k < L" for k using that by blast
  have "(\<Sum>k\<le>L. cs ! k * 2 ^ (L - k)) = (\<Sum>k\<le>L. cs ! k)"
    by (intro sum.cong refl) (use z in \<open>auto simp: le_less\<close>)
  then show False using assms by (simp add: complete_counts_def)
qed

section \<open>The pass over the nodes\<close>

definition lengths_inv :: "nat \<Rightarrow> nat \<Rightarrow> u32 list \<Rightarrow> nat \<Rightarrow> u32 list \<times> nat list \<Rightarrow> bool" where
  "lengths_inv N L B m = (\<lambda>(A, cs). same_syms B A \<and> (\<forall>j < m. A ! j = B ! j) \<and>
     (\<forall>j. m \<le> j \<and> j < N \<longrightarrow> upper A j = dep N (upper B) j) \<and>
     complete_counts L (N - m + 1) cs \<and>
     (dep N (upper B) m < L \<longrightarrow>
        (\<forall>k. 1 \<le> k \<and> k \<le> L \<longrightarrow> cs ! k + nodes_at N (upper B) m k = 2 * nodes_at N (upper B) m (k - 1))))"

lemma lengths_step:
  assumes tr: "tree_of N (upper B)" and N: "N \<le> length B" "N < 1024" "N < 2 ^ L" and m: "Suc m < N"
    and inv: "lengths_inv N L B (Suc m) (A, cs)"
  shows "\<exists>s. node_step L m (A, cs) = Some s \<and> lengths_inv N L B m s"
proof -
  let ?par = "upper B" and ?D = "dep N (upper B) m"
  have sy: "same_syms B A" and old: "A ! m = B ! m" "\<forall>j < Suc m. A ! j = B ! j"
    and new: "\<And>j. Suc m \<le> j \<Longrightarrow> j < N \<Longrightarrow> upper A j = dep N ?par j"
    and cc: "complete_counts L (N - Suc m + 1) cs"
    and lv: "dep N ?par (Suc m) < L \<Longrightarrow> 1 \<le> k \<Longrightarrow> k \<le> L \<Longrightarrow>
      cs ! k + nodes_at N ?par (Suc m) k = 2 * nodes_at N ?par (Suc m) (k - 1)" for k
    using inv by (auto simp: lengths_inv_def)
  have lA: "length A = length B" using sy by (simp add: same_syms_def)
  have p: "m < ?par m" "?par m < N" using tr m by (auto simp: tree_of_def ordered_parents_def)
  have D: "?D = Suc (dep N ?par (?par m))" using dep_node [OF tr] m by simp
  have Dl: "?D < 1024" using dep_less [OF tr, of m] m N(2) by simp
  have "unat (drop_bit NUM_SYMBOL_BITS (A ! ?par m)) = dep N ?par (?par m)"
    using new [of "?par m"] p by (simp add: upper_def)
  then have "drop_bit NUM_SYMBOL_BITS (A ! ?par m) = of_nat (dep N ?par (?par m))" by (rule word_of_unat)
  then have depth: "unat (drop_bit NUM_SYMBOL_BITS (A ! ?par m) + 1) = ?D"
    using Dl D unat_of_nat_u32 [of ?D] by (simp add: add.commute)
  let ?A = "A[m := (A ! m AND SYMBOL_MASK) OR push_bit NUM_SYMBOL_BITS (of_nat ?D)]"
  have D22: "?D < 2 ^ 22" using Dl by simp
  have ml: "m < length A" using m N lA by simp
  have syA: "same_syms B ?A"
  proof -
    have "same_syms A ?A"
      using packed(2) [OF D22, of "A ! m"] ml
      by (auto simp: same_syms_def nth_list_update or.commute simp del: take_bit_or take_bit_and)
    then show ?thesis using sy same_syms_trans by blast
  qed
  have upA: "upper ?A j = dep N ?par j" if "m \<le> j" "j < N" for j
  proof (cases "j = m")
    case True
    have "?A ! m = push_bit NUM_SYMBOL_BITS (of_nat ?D) OR (A ! m AND SYMBOL_MASK)"
      unfolding nth_list_update_eq [OF ml] by (rule or.commute)
    then have "drop_bit NUM_SYMBOL_BITS (?A ! m) = of_nat ?D" using packed(1) [OF D22] by simp
    then show ?thesis using True Dl by (simp add: upper_def unat_of_nat_u32)
  next
    case False
    then show ?thesis using new [of j] that by (simp add: upper_def)
  qed
  have cl: "length cs = L + 1" using cc by (simp add: complete_counts_def)
  have Nm: "N - Suc m + 1 + 1 = N - m + 1" using m by simp
  have fin: ?thesis if k: "(if L \<le> ?D then shorten cs L else Some ?D) = Some k" "k < L" "0 < cs ! k"
    and r: "?D < L \<Longrightarrow> (\<forall>i. 1 \<le> i \<and> i \<le> L \<longrightarrow>
      split_len k cs ! i + nodes_at N ?par m i = 2 * nodes_at N ?par m (i - 1))" for k
  proof -
    have f: "fetch A m = Some (A ! m)" "fetch A (unat (drop_bit NUM_SYMBOL_BITS (A ! m))) = Some (A ! ?par m)"
      using ml p N lA old(1) by (simp_all add: fetch_def flip: upper_def)
    have g: "store A m v = Some (A[m := v])" for v using ml by (simp add: store_def)
    have "node_step L m (A, cs) = Some (?A, split_len k cs)"
      unfolding node_step_def prod.case f g Option.bind.bind_lunit Let_def depth k(1)
      using cl k(2,3) by (simp add: fetch_def store_def split_len_def)
    moreover have "lengths_inv N L B m (?A, split_len k cs)"
      using syA old(2) upA split_len_complete [OF cc k(2,3)] r unfolding lengths_inv_def Nm by auto
    ultimately show ?thesis by blast
  qed
  show ?thesis
  proof (cases "?D < L")
    case True
    have mono: "dep N ?par (Suc m) < L" using dep_antimono [OF tr, of m "Suc m"] m True by simp
    have nd: "nodes_at N ?par m i = nodes_at N ?par (Suc m) i + (if i = ?D then 1 else 0)" for i
      using nodes_at_Suc [of m N ?par i] m by auto
    have D1: "1 \<le> ?D" "?D = Suc (?D - 1)" using D by simp_all
    have "nodes_at N ?par m ?D \<le> 2 * nodes_at N ?par (Suc m) (?D - 1)"
      using nodes_at_level [OF tr, of m "?D - 1"] D1(2) by simp
    then have "0 < cs ! ?D" using lv [OF mono D1(1)] nd [of ?D] True by simp
    moreover have "split_len ?D cs ! i + nodes_at N ?par m i = 2 * nodes_at N ?par m (i - 1)"
      if i: "1 \<le> i" "i \<le> L" for i
    proof -
      consider "i = ?D" | "i = ?D + 1" | "i \<noteq> ?D" "i \<noteq> ?D + 1" "i - 1 \<noteq> ?D" using i(1) by fastforce
      then show ?thesis
        using lv [OF mono i] nd [of i] nd [of "i - 1"] True \<open>0 < cs ! ?D\<close> cl i D1(1)
        by cases (auto simp: split_len_def nth_list_update)
    qed
    ultimately show ?thesis using fin [of ?D] True by simp
  next
    case False
    have "N - Suc m + 1 < 2 ^ L" using N(3) m by simp
    then obtain k where "k < L" "shorten cs L = Some k" "cs ! k \<noteq> 0"
      using shorten_Some [OF free_length [OF cc]] cl by auto
    then show ?thesis using fin [of k] False by simp
  qed
qed

lemma node_loop_lengths:
  assumes tr: "tree_of N (upper B)" and N: "N \<le> length B" "N < 1024" "N < 2 ^ L" and m: "m < N"
    and inv: "lengths_inv N L B m s"
  shows "\<exists>s'. node_loop L m s = Some s' \<and> lengths_inv N L B 0 s'"
  using m inv
proof (induction m arbitrary: s)
  case (Suc m)
  obtain A cs where "s = (A, cs)" by fastforce
  then obtain t where "node_step L m s = Some t" "lengths_inv N L B m t"
    using lengths_step [OF tr N, of m A cs] Suc.prems by auto
  then show ?case using Suc by simp
qed simp

lemma compute_length_counts_complete:
  assumes tr: "ordered_parents (n - 2) (upper B)" "\<And>j. j < n - 2 \<Longrightarrow> upper B j < n - 1"
    and n: "2 \<le> n" "n \<le> length B" "n \<le> 1024" "n \<le> 2 ^ L" and L: "1 \<le> L" "L \<le> DEFLATE_MAX_CODEWORD_LEN"
  obtains A cs where "compute_length_counts B (n - 2) L = Some (A, cs)" and "same_syms B A" and "complete_counts L n cs"
proof -
  let ?N = "n - 1"
  let ?B = "B[n - 2 := B ! (n - 2) AND SYMBOL_MASK]" 
  define c\<^sub>0 :: "nat list" where "c\<^sub>0 = (replicate (L + 1) 0)[1 := 2]"
  have l: "n - 2 < length B" using n by simp
  have up: "upper ?B j = upper B j" if "j < n - 2" for j using that by (simp add: upper_def)
  have tree: "tree_of ?N (upper ?B)" using tr up by (simp add: tree_of_def ordered_parents_def numeral_2_eq_2)
  have sy: "same_syms B ?B"
    using l by (auto simp: same_syms_def nth_list_update and_symbol_mask)
  have "drop_bit 10 (take_bit 10 x) = (0 :: u32)" for x by (rule bit_word_eqI) (simp add: bit_simps)
  then have root: "upper ?B (n - 2) = 0" using l by (simp add: upper_def NUM_SYMBOL_BITS_def and_symbol_mask)
  have deproot: "dep ?N (upper ?B) (n - 2) = 0" by (rule dep_root) simp
  have na: "nodes_at ?N (upper ?B) (n - 2) k = (if k = 0 then 1 else 0)" for k
  proof -
    have "j = n - 2" if "n - 2 \<le> j" "j < ?N" for j using that n(1) by linarith
    moreover have "n - 2 < ?N" using n(1) by linarith
    ultimately have "(n - 2 \<le> j \<and> j < ?N \<and> dep ?N (upper ?B) j = k) \<longleftrightarrow> (j = n - 2 \<and> k = 0)" for j
      using deproot by (cases "j = n - 2") auto
    then have "{j. n - 2 \<le> j \<and> j < ?N \<and> dep ?N (upper ?B) j = k} = (if k = 0 then {n - 2} else {})"
      by auto
    then show ?thesis by (simp add: nodes_at_def)
  qed
  have cs: "c\<^sub>0 ! k = (if k = 1 then 2 else 0)" if "k \<le> L" for k
    using that L(1) unfolding c\<^sub>0_def by (subst nth_list_update) (auto simp del: replicate_Suc)
  have lc: "length c\<^sub>0 = L + 1" by (simp add: c\<^sub>0_def)
  have cc2: "complete_counts L 2 c\<^sub>0"
  proof -
    have "(\<Sum>k\<le>L. c\<^sub>0 ! k * g k) = 2 * g 1" for g
    proof -
      have "(\<Sum>k\<le>L. c\<^sub>0 ! k * g k) = (\<Sum>k\<le>L. if k = 1 then 2 * g 1 else 0)" by (intro sum.cong refl) (use cs in auto)
      then show ?thesis using L(1) by (simp add: sum.delta)
    qed
    from this [of "\<lambda>k. 2 ^ (L - k)"] this [of "\<lambda>k. 1"] have "(\<Sum>k\<le>L. c\<^sub>0 ! k * 2 ^ (L - k)) = 2 ^ L" "(\<Sum>k\<le>L. c\<^sub>0 ! k) = 2"
      using L(1) by (simp_all flip: power_Suc)
    then show ?thesis using L(1) cs lc by (simp add: complete_counts_def)
  qed
  have eq: "?N - (n - 2) + 1 = 2" using n(1) by simp
  have "complete_counts L (?N - (n - 2) + 1) c\<^sub>0" unfolding eq by (rule cc2)
  moreover have "upper ?B j = dep ?N (upper ?B) j" if "n - 2 \<le> j" "j < ?N" for j
  proof -
    have "j = n - 2" using that n(1) by linarith
    then show ?thesis using root deproot by simp
  qed
  moreover have "c\<^sub>0 ! k + nodes_at ?N (upper ?B) (n - 2) k = 2 * nodes_at ?N (upper ?B) (n - 2) (k - 1)"
    if "1 \<le> k" "k \<le> L" for k
    unfolding na using that by (cases "k = 1") (simp_all add: cs)
  ultimately have "lengths_inv ?N L ?B (n - 2) (?B, c\<^sub>0)"
    unfolding lengths_inv_def by simp
  note inv = this
  have bn: "?N \<le> length ?B" "?N < 1024" "?N < 2 ^ L" "n - 2 < ?N"
    using n by (simp_all add: less_eq_Suc_le)
  obtain s where s: "node_loop L (n - 2) (?B, c\<^sub>0) = Some s" "lengths_inv ?N L ?B 0 s"
    using node_loop_lengths [OF tree bn inv] by blast
  obtain A cs' where sp: "s = (A, cs')" by fastforce
  have "compute_length_counts B (n - 2) L = node_loop L (n - 2) (?B, c\<^sub>0)"
    using l L by (simp add: compute_length_counts_def fetch_def store_def c\<^sub>0_def)
  then have "compute_length_counts B (n - 2) L = Some (A, cs')" using s(1) sp by simp
  moreover have "same_syms ?B A" "complete_counts L (?N - 0 + 1) cs'" using s(2) sp by (simp_all add: lengths_inv_def)
  moreover have "?N - 0 + 1 = n" using n(1) by simp
  ultimately show thesis using that sy same_syms_trans by metis
qed

end
