(* ===== verification/Canonical_Code.thy ===== *)
theory Canonical_Code
  imports Prelude
begin

text \<open>
  Canonical prefix codes: the code that a list of codeword lengths determines. Symbols are ordered
  by length, then by value; in that order the codewords, seen as intervals of the \<open>2^L\<close> bit strings
  of the maximal length \<open>L\<close>, lie one behind the other. A symbol of length 0 has no codeword.
\<close>

section \<open>The code\<close>

definition precedes :: "nat list \<Rightarrow> nat \<Rightarrow> nat \<Rightarrow> bool" where
  "precedes ls t s \<longleftrightarrow> ls ! t < ls ! s \<or> ls ! t = ls ! s \<and> t < s"

definition predecessors :: "nat list \<Rightarrow> nat \<Rightarrow> nat set" where
  "predecessors ls s = {t. t < length ls \<and> 0 < ls ! t \<and> precedes ls t s}"

definition start_of :: "nat \<Rightarrow> nat list \<Rightarrow> nat \<Rightarrow> nat" where
  "start_of L ls s = (\<Sum>t \<in> predecessors ls s. 2 ^ (L - ls ! t))"

definition kraft :: "nat \<Rightarrow> nat list \<Rightarrow> nat" where
  "kraft L ls = (\<Sum>l \<leftarrow> ls. if l = 0 then 0 else 2 ^ (L - l))"

definition canonical :: "nat \<Rightarrow> nat list \<Rightarrow> nat \<Rightarrow> nat" where
  "canonical L ls s = start_of L ls s div 2 ^ (L - ls ! s)"

text \<open>The bits of a codeword in the opposite order.\<close>

definition rev_bits :: "nat \<Rightarrow> nat \<Rightarrow> nat" where
  "rev_bits n c = horner_sum of_bool 2 (map (\<lambda>j. bit c (n - 1 - j)) [0..<n])"

lemma bit_rev_bits: "bit (rev_bits n c) j \<longleftrightarrow> j < n \<and> bit c (n - 1 - j)"
  by (auto simp: rev_bits_def bit_horner_sum_bit_iff)

lemma rev_bits_less: "rev_bits n c < 2 ^ n"
proof -
  have "take_bit n (rev_bits n c) = rev_bits n c"
    by (rule bit_eqI) (auto simp: bit_take_bit_iff bit_rev_bits)
  then show ?thesis by (metis take_bit_nat_less_exp)
qed

lemma rev_bits_rev_bits: "c < 2 ^ n \<Longrightarrow> rev_bits n (rev_bits n c) = c"
proof (rule bit_eqI)
  fix j assume "c < 2 ^ n"
  then have "take_bit n c = c" by (simp add: take_bit_nat_eq_self)
  then have "bit c j \<Longrightarrow> j < n" by (metis bit_take_bit_iff)
  moreover have "j < n \<Longrightarrow> n - 1 - j < n \<and> n - 1 - (n - 1 - j) = j" by simp
  ultimately show "bit (rev_bits n (rev_bits n c)) j = bit c j" by (auto simp: bit_rev_bits)
qed

lemma take_rev_bits:
  assumes "m \<le> n"
  shows "take_bit m (rev_bits n c) = rev_bits m (c div 2 ^ (n - m))"
proof (rule bit_eqI)
  fix j
  have "n - 1 - j = n - m + (m - 1 - j)" if "j < m" using that assms by simp
  then show "bit (take_bit m (rev_bits n c)) j = bit (rev_bits m (c div 2 ^ (n - m))) j"
    using assms by (auto simp: bit_rev_bits bit_simps simp flip: drop_bit_eq_div)
qed

section \<open>Intervals\<close>

lemma finite_predecessors [simp]: "finite (predecessors ls s)"
  by (simp add: predecessors_def)

lemma precedes_linear: "s \<noteq> t \<Longrightarrow> precedes ls s t \<or> precedes ls t s"
  by (auto simp: precedes_def)

lemma precedes_trans: "precedes ls a b \<Longrightarrow> precedes ls b c \<Longrightarrow> precedes ls a c"
  by (auto simp: precedes_def)

lemma start_dvd:
  assumes "\<forall>l \<in> set ls. l \<le> L" and "s < length ls"
  shows "2 ^ (L - ls ! s) dvd start_of L ls s"
  unfolding start_of_def
proof (rule dvd_sum)
  fix t assume "t \<in> predecessors ls s"
  then have "ls ! t \<le> ls ! s" by (auto simp: predecessors_def precedes_def)
  then show "(2 :: nat) ^ (L - ls ! s) dvd 2 ^ (L - ls ! t)" by (intro le_imp_power_dvd) simp
qed

lemma start_step:
  assumes "precedes ls s t" and "s < length ls" and "0 < ls ! s"
  shows "start_of L ls s + 2 ^ (L - ls ! s) \<le> start_of L ls t"
proof -
  have "insert s (predecessors ls s) \<subseteq> predecessors ls t"
    using assms precedes_trans by (auto simp: predecessors_def)
  then have "(\<Sum>i \<in> insert s (predecessors ls s). 2 ^ (L - ls ! i)) \<le> start_of L ls t"
    unfolding start_of_def by (intro sum_mono2) auto
  moreover have "s \<notin> predecessors ls s" by (simp add: predecessors_def precedes_def)
  ultimately show ?thesis by (simp add: start_of_def)
qed

lemma kraft_sum: "kraft L ls = (\<Sum>t \<in> {t. t < length ls \<and> 0 < ls ! t}. 2 ^ (L - ls ! t))"
proof -
  have "kraft L ls = (\<Sum>t<length ls. if ls ! t = 0 then 0 else 2 ^ (L - ls ! t))"
    by (simp add: kraft_def sum_list_sum_nth atLeast0LessThan)
  also have "\<dots> = (\<Sum>t \<in> {t. t < length ls \<and> 0 < ls ! t}. 2 ^ (L - ls ! t))"
    by (intro sum.mono_neutral_cong_right) auto
  finally show ?thesis .
qed

lemma start_end:
  assumes "s < length ls" and "0 < ls ! s"
  shows "start_of L ls s + 2 ^ (L - ls ! s) \<le> kraft L ls"
proof -
  have "insert s (predecessors ls s) \<subseteq> {t. t < length ls \<and> 0 < ls ! t}"
    using assms by (auto simp: predecessors_def)
  then have "(\<Sum>i \<in> insert s (predecessors ls s). 2 ^ (L - ls ! i)) \<le> kraft L ls"
    unfolding kraft_sum by (intro sum_mono2) auto
  moreover have "s \<notin> predecessors ls s" by (simp add: predecessors_def precedes_def)
  ultimately show ?thesis by (simp add: start_of_def)
qed

section \<open>Prefix codes\<close>

lemma canonical_mult:
  assumes "\<forall>l \<in> set ls. l \<le> L" and "s < length ls"
  shows "canonical L ls s * 2 ^ (L - ls ! s) = start_of L ls s"
  using start_dvd [OF assms] by (simp add: canonical_def)

lemma canonical_less:
  assumes "\<forall>l \<in> set ls. l \<le> L" and "s < length ls" and "0 < ls ! s" and "kraft L ls \<le> 2 ^ L"
  shows "canonical L ls s < 2 ^ (ls ! s)"
proof -
  have "start_of L ls s < 2 ^ L"
  proof -
    have "0 < (2 :: nat) ^ (L - ls ! s)" by simp
    then show ?thesis using start_end [OF assms(2,3), of L] assms(4) by linarith
  qed
  moreover have "(2 :: nat) ^ L = 2 ^ (ls ! s) * 2 ^ (L - ls ! s)"
    using assms(1,2) by (simp flip: power_add)
  ultimately show ?thesis by (simp add: canonical_def less_mult_imp_div_less)
qed

lemma canonical_prefix_free:
  assumes ls: "\<forall>l \<in> set ls. l \<le> L" and s: "s < length ls" "0 < ls ! s" and t: "t < length ls" "0 < ls ! t"
    and "s \<noteq> t" and le: "ls ! s \<le> ls ! t"
  shows "canonical L ls t div 2 ^ (ls ! t - ls ! s) \<noteq> canonical L ls s"
proof
  assume eq: "canonical L ls t div 2 ^ (ls ! t - ls ! s) = canonical L ls s"
  have tL: "ls ! t \<le> L" using ls t by simp
  have "canonical L ls t div 2 ^ (ls ! t - ls ! s) = start_of L ls t div 2 ^ (L - ls ! s)"
    using le tL by (simp add: canonical_def div_mult2_eq [symmetric] flip: power_add)
  then have "start_of L ls t div 2 ^ (L - ls ! s) * 2 ^ (L - ls ! s) = start_of L ls s"
    using eq canonical_mult [OF ls s(1)] by simp
  then have "start_of L ls s \<le> start_of L ls t" "start_of L ls t < start_of L ls s + 2 ^ (L - ls ! s)"
    using div_times_less_eq_dividend [of "start_of L ls t" "2 ^ (L - ls ! s)"]
      dividend_less_div_times [of "2 ^ (L - ls ! s)" "start_of L ls t"] by simp_all
  moreover have "0 < (2 :: nat) ^ (L - ls ! t)" by simp
  ultimately show False
    using precedes_linear [OF \<open>s \<noteq> t\<close>, of ls] start_step [OF _ s, of t L] start_step [OF _ t, of s L] by linarith
qed

text \<open>With the bits in the order in which they are sent, no codeword starts another.\<close>

lemma rev_canonical_prefix_free:
  assumes ls: "\<forall>l \<in> set ls. l \<le> L" and k: "kraft L ls \<le> 2 ^ L"
    and s: "s < length ls" "0 < ls ! s" and t: "t < length ls" "0 < ls ! t"
    and "s \<noteq> t" and le: "ls ! s \<le> ls ! t"
  shows "take_bit (ls ! s) (rev_bits (ls ! t) (canonical L ls t)) \<noteq> rev_bits (ls ! s) (canonical L ls s)"
proof
  assume "take_bit (ls ! s) (rev_bits (ls ! t) (canonical L ls t)) = rev_bits (ls ! s) (canonical L ls s)"
  then have "rev_bits (ls ! s) (canonical L ls t div 2 ^ (ls ! t - ls ! s)) = rev_bits (ls ! s) (canonical L ls s)"
    by (simp add: take_rev_bits [OF le])
  moreover have "canonical L ls t div 2 ^ (ls ! t - ls ! s) < 2 ^ (ls ! s)"
    using canonical_less [OF ls t k] le by (simp add: less_mult_imp_div_less flip: power_add)
  ultimately have "canonical L ls t div 2 ^ (ls ! t - ls ! s) = canonical L ls s"
    using rev_bits_rev_bits canonical_less [OF ls s k] by metis
  then show False using canonical_prefix_free [OF ls s t \<open>s \<noteq> t\<close> le] by blast
qed

section \<open>Codewords by length and rank\<close>

definition len_count :: "nat list \<Rightarrow> nat \<Rightarrow> nat" where
  "len_count ls l = count_list ls l"

definition rank :: "nat list \<Rightarrow> nat \<Rightarrow> nat" where
  "rank ls s = count_list (take s ls) (ls ! s)"

lemma count_list_card: "count_list xs v = card {i. i < length xs \<and> xs ! i = v}"
  by (simp add: count_list_eq_length_filter length_filter_conv_card eq_commute)

lemma start_of_rank:
  assumes "\<forall>l \<in> set ls. l \<le> L" and "s < length ls" and "0 < ls ! s"
  shows "start_of L ls s = (\<Sum>k \<in> {1..<ls ! s}. len_count ls k * 2 ^ (L - k)) + rank ls s * 2 ^ (L - ls ! s)"
proof -
  let ?P = "\<lambda>k. {t. t < length ls \<and> ls ! t = k}" and ?R = "{t. t < s \<and> ls ! t = ls ! s}"
  have split: "predecessors ls s = (\<Union>k \<in> {1..<ls ! s}. ?P k) \<union> ?R"
    using assms(2,3) by (auto simp: predecessors_def precedes_def)
  have "start_of L ls s = (\<Sum>t \<in> (\<Union>k \<in> {1..<ls ! s}. ?P k). 2 ^ (L - ls ! t)) + (\<Sum>t \<in> ?R. 2 ^ (L - ls ! t))"
    unfolding start_of_def split by (rule sum.union_disjoint) auto
  also have "(\<Sum>t \<in> (\<Union>k \<in> {1..<ls ! s}. ?P k). 2 ^ (L - ls ! t)) = (\<Sum>k \<in> {1..<ls ! s}. \<Sum>t \<in> ?P k. 2 ^ (L - ls ! t))"
    by (rule sum.UNION_disjoint) auto
  also have "\<dots> = (\<Sum>k \<in> {1..<ls ! s}. len_count ls k * 2 ^ (L - k))"
    by (intro sum.cong refl) (simp add: len_count_def count_list_card)
  also have "(\<Sum>t \<in> ?R. 2 ^ (L - ls ! t)) = rank ls s * 2 ^ (L - ls ! s)"
  proof -
    have "card ?R = rank ls s"
      unfolding rank_def count_list_card by (rule arg_cong [where f = card]) (use assms(2) in auto)
    moreover have "(\<Sum>t \<in> ?R. 2 ^ (L - ls ! t)) = (\<Sum>t \<in> ?R. (2 :: nat) ^ (L - ls ! s))" by (intro sum.cong) auto
    ultimately show ?thesis by simp
  qed
  finally show ?thesis .
qed

text \<open>The first codeword of each length, as the format computes it.\<close>

fun first_code :: "nat list \<Rightarrow> nat \<Rightarrow> nat" where
  "first_code ls 0 = 0"
| "first_code ls (Suc 0) = 0"
| "first_code ls (Suc (Suc l)) = 2 * (first_code ls (Suc l) + len_count ls (Suc l))"

lemma first_code_sum:
  "1 \<le> l \<Longrightarrow> l \<le> L \<Longrightarrow> first_code ls l * 2 ^ (L - l) = (\<Sum>k \<in> {1..<l}. len_count ls k * 2 ^ (L - k))"
proof (induction ls l rule: first_code.induct)
  case (3 ls l)
  have "(2 :: nat) ^ (L - Suc l) = 2 * 2 ^ (L - Suc (Suc l))"
    using "3.prems"(2) by (metis Suc_diff_Suc Suc_le_lessD power_Suc)
  then have "first_code ls (Suc (Suc l)) * 2 ^ (L - Suc (Suc l)) =
      first_code ls (Suc l) * 2 ^ (L - Suc l) + len_count ls (Suc l) * 2 ^ (L - Suc l)"
    by (simp add: algebra_simps)
  also have "first_code ls (Suc l) * 2 ^ (L - Suc l) = (\<Sum>k \<in> {1..<Suc l}. len_count ls k * 2 ^ (L - k))"
    using 3 by simp
  finally show ?case by (simp add: atLeastLessThanSuc)
qed simp_all

lemma canonical_rank:
  assumes "\<forall>l \<in> set ls. l \<le> L" and "s < length ls" and "0 < ls ! s"
  shows "canonical L ls s = first_code ls (ls ! s) + rank ls s"
proof -
  have "ls ! s \<le> L" using assms by simp
  then have "start_of L ls s = (first_code ls (ls ! s) + rank ls s) * 2 ^ (L - ls ! s)"
    using start_of_rank [OF assms] first_code_sum [of "ls ! s" L ls] assms(3) by (simp add: add_mult_distrib)
  then show ?thesis by (simp add: canonical_def)
qed

lemma kraft_counts:
  assumes "\<forall>l \<in> set ls. l \<le> L"
  shows "kraft L ls = (\<Sum>k \<in> {1..L}. len_count ls k * 2 ^ (L - k))"
proof -
  have "kraft L ls = (\<Sum>k \<in> set ls. count_list ls k * (if k = 0 then 0 else 2 ^ (L - k)))"
    unfolding kraft_def by (rule sum_list_map_eq_sum_count)
  also have "\<dots> = (\<Sum>k \<in> {0..L}. count_list ls k * (if k = 0 then 0 else 2 ^ (L - k)))"
    using assms by (intro sum.mono_neutral_left) auto
  also have "\<dots> = (\<Sum>k \<in> {1..L}. len_count ls k * 2 ^ (L - k))"
    by (intro sum.mono_neutral_cong_right) (auto simp: len_count_def)
  finally show ?thesis .
qed

end
