(* ===== verification/Deflate_Codewords.thy ===== *)
theory Deflate_Codewords
  imports Deflate_Sort_Symbols Deflate_Length_Counts Canonical_Code
begin

text \<open>
  The codewords of the compressor: lengths go to the symbols in order of frequency, codewords are
  those of the canonical code of the lengths, with their bits reversed. The whole construction
  yields a complete prefix code in which a more frequent symbol never has the longer codeword.
\<close>

section \<open>Reversing a codeword\<close>

definition rev8 :: "int \<Rightarrow> int" where
  "rev8 i = i mod 2 * 128 + i div 2 mod 2 * 64 + i div 4 mod 2 * 32 + i div 8 mod 2 * 16 +
     i div 16 mod 2 * 8 + i div 32 mod 2 * 4 + i div 64 mod 2 * 2 + i div 128 mod 2"

lemma rev8: "int (rev_bits 8 i) = rev8 (int i)"
proof -
  have u: "[0..<8] = [0, 1, 2, 3, 4, 5, 6, 7 :: nat]" by code_simp
  have b: "of_bool (bit i k) = int i div 2 ^ k mod 2" for k
    by (simp add: bit_iff_odd mod_2_eq_odd flip: of_nat_power of_nat_div) (metis even_of_nat of_nat_numeral of_nat_power zdiv_int)
  show ?thesis by (simp add: rev_bits_def u b rev8_def)
qed

lemma bitreverse_tab: "i < 256 \<Longrightarrow> i < length bitreverse_tab \<and> bitreverse_tab ! i = of_nat (rev_bits 8 i)"
proof -
  assume i: "i < 256"
  have t: "bitreverse_tab = map (\<lambda>i. of_int (rev8 i)) [0..255]" by code_simp
  define xs where "xs = [0..255]"
  have "length xs = 256" unfolding xs_def length_upto by simp
  moreover have "xs ! i = int i" unfolding xs_def using i by (subst nth_upto) simp_all
  moreover have "of_int (rev8 (int i)) = (of_nat (rev_bits 8 i) :: byte)"
    by (simp only: rev8 [symmetric] of_int_of_nat_eq)
  ultimately show ?thesis using i unfolding t xs_def [symmetric] by simp
qed

lemma reverse_codeword_Some:
  assumes c: "c < 2 ^ 16" and l: "l \<le> 16"
  shows "reverse_codeword (of_nat c) l = Some (of_nat (rev_bits l c))"
proof -
  have u: "unat (of_nat c :: u32) = c" using c by (intro unat_of_nat_u32) simp
  have "unat ((of_nat c :: u32) AND 0xff) = c mod 256"
  proof -
    have "(0xff :: u32) = mask 8" by (simp add: mask_eq_exp_minus_1)
    then have "unat ((of_nat c :: u32) AND 0xff) = take_bit 8 (unat (of_nat c :: u32))"
      by (simp only: unsigned_take_bit_eq flip: take_bit_eq_mask)
    then show ?thesis by (simp only: u take_bit_eq_mod) simp
  qed
  moreover have "unat (drop_bit 8 (of_nat c :: u32)) = c div 256"
    by (simp only: unat_drop_bit_eq u) (simp add: drop_bit_eq_div)
  moreover have "c div 256 < 256" using c by (simp add: less_mult_imp_div_less)
  ultimately have r: "reverse_codeword (of_nat c) l =
      Some (drop_bit (16 - l) (push_bit 8 (ucast (bitreverse_tab ! (c mod 256))) OR ucast (bitreverse_tab ! (c div 256))))"
    using bitreverse_tab [of "c mod 256"] bitreverse_tab [of "c div 256"] by (simp add: reverse_codeword_def fetch_def)
  have m: "c mod 256 = take_bit 8 c" "c div 256 = drop_bit 8 c" by (simp_all add: take_bit_eq_mod drop_bit_eq_div)
  have "c mod 256 < 256" by simp
  then have e: "bitreverse_tab ! (c mod 256) = of_nat (rev_bits 8 (take_bit 8 c))"
    "bitreverse_tab ! (c div 256) = of_nat (rev_bits 8 (drop_bit 8 c))"
    using bitreverse_tab \<open>c div 256 < 256\<close> unfolding m by blast+
  have lo: "bit (bitreverse_tab ! (c mod 256)) k \<longleftrightarrow> k < 8 \<and> bit c (7 - k)" for k
    unfolding e by (auto simp: bit_of_nat_iff bit_rev_bits bit_take_bit_iff)
  have hi: "bit (bitreverse_tab ! (c div 256)) k \<longleftrightarrow> k < 8 \<and> bit c (15 - k)" for k
    unfolding e by (auto simp: bit_of_nat_iff bit_rev_bits bit_drop_bit_eq)
  show ?thesis
    unfolding r
  proof (rule arg_cong [where f = Some], rule bit_word_eqI)
    fix j assume j: "j < LENGTH(32)"
    define i where "i = 16 - l + j"
    have "bit (drop_bit (16 - l) (push_bit 8 (ucast (bitreverse_tab ! (c mod 256))) OR ucast (bitreverse_tab ! (c div 256))) :: u32) j
        \<longleftrightarrow> (8 \<le> i \<and> i < 32 \<and> bit (bitreverse_tab ! (c mod 256)) (i - 8)) \<or> bit (bitreverse_tab ! (c div 256)) i"
      by (auto simp: i_def bit_simps dest: bit_imp_le_length)
    also have "\<dots> \<longleftrightarrow> i < 16 \<and> bit c (15 - i)"
    proof (cases "i < 8")
      case False
      then have "7 - (i - 8) = 15 - i" by simp
      then show ?thesis using False unfolding lo hi by auto
    qed (simp add: lo hi)
    also have "\<dots> \<longleftrightarrow> j < l \<and> bit c (l - 1 - j)"
    proof (cases "j < l")
      case True
      then have "15 - i = l - 1 - j" "i < 16" using l by (simp_all add: i_def)
      then show ?thesis using True by simp
    next
      case False
      then have "\<not> i < 16" using l unfolding i_def by linarith
      then show ?thesis using False by simp
    qed
    also have "\<dots> \<longleftrightarrow> bit (of_nat (rev_bits l c) :: u32) j" using j by (simp add: bit_of_nat_iff bit_rev_bits)
    finally show "bit (drop_bit (16 - l) (push_bit 8 (ucast (bitreverse_tab ! (c mod 256))) OR ucast (bitreverse_tab ! (c div 256))) :: u32) j
        = bit (of_nat (rev_bits l c) :: u32) j" .
  qed
qed

section \<open>Giving out the lengths\<close>

definition sym_at :: "u32 list \<Rightarrow> nat \<Rightarrow> nat" where
  "sym_at A i = unat (A ! i AND SYMBOL_MASK)"

lemma give_len_Some:
  assumes "i + cnt \<le> length A" and "inj_on (sym_at A) {..<i + cnt}"
    and "\<forall>j < i + cnt. sym_at A j < length lens"
  shows "\<exists>lens'. give_len len cnt A i lens = Some lens' \<and> length lens' = length lens \<and>
    (\<forall>j. i \<le> j \<and> j < i + cnt \<longrightarrow> lens' ! sym_at A j = of_nat len) \<and>
    (\<forall>s. s \<notin> sym_at A ` {i..<i + cnt} \<longrightarrow> lens' ! s = lens ! s)"
  using assms
proof (induction cnt arbitrary: i lens)
  case (Suc cnt)
  let ?l = "lens[sym_at A i := of_nat len]"
  obtain lens' where ih: "give_len len cnt A (i + 1) ?l = Some lens'" "length lens' = length lens"
    "\<forall>j. i + 1 \<le> j \<and> j < i + 1 + cnt \<longrightarrow> lens' ! sym_at A j = of_nat len"
    "\<forall>s. s \<notin> sym_at A ` {i + 1..<i + 1 + cnt} \<longrightarrow> lens' ! s = ?l ! s"
    using Suc.IH [of "i + 1" ?l] Suc.prems by auto
  have "sym_at A i \<notin> sym_at A ` {i + 1..<i + 1 + cnt}"
  proof
    assume "sym_at A i \<in> sym_at A ` {i + 1..<i + 1 + cnt}"
    then obtain k where "sym_at A i = sym_at A k" "i < k" "k < i + Suc cnt" by auto
    then show False using inj_onD [OF Suc.prems(2), of i k] by simp
  qed
  then have "lens' ! sym_at A i = of_nat len" using ih(4) Suc.prems(3) by simp
  then have "lens' ! sym_at A j = of_nat len" if "i \<le> j" "j < i + Suc cnt" for j
    using ih(3) that by (cases "j = i") auto
  moreover have "lens' ! s = lens ! s" if "s \<notin> sym_at A ` {i..<i + Suc cnt}" for s
  proof -
    have "s \<noteq> sym_at A i" "s \<notin> sym_at A ` {i + 1..<i + 1 + cnt}" using that by auto
    then show ?thesis using ih(4) by simp
  qed
  moreover have "give_len len (Suc cnt) A i lens = Some lens'"
    using ih(1) Suc.prems(1,3) by (simp add: fetch_def store_def flip: sym_at_def)
  ultimately show ?case using ih(2) by blast
qed auto

text \<open>The lengths in the order in which they are given out.\<close>

fun lens_list :: "nat \<Rightarrow> nat list \<Rightarrow> nat list" where
  "lens_list 0 cs = []"
| "lens_list (Suc l) cs = replicate (cs ! Suc l) (Suc l) @ lens_list l cs"

lemma count_lens_list: "count_list (lens_list L cs) k = (if 1 \<le> k \<and> k \<le> L then cs ! k else 0)"
  by (induction L) (auto simp: count_list_eq_length_filter le_Suc_eq)

lemma set_lens_list: "k \<in> set (lens_list L cs) \<Longrightarrow> 1 \<le> k \<and> k \<le> L"
  using count_lens_list [of L cs k] count_list_0_iff [of "lens_list L cs" k] by (auto split: if_splits)

lemma length_lens_list: "length (lens_list L cs) = (\<Sum>k \<in> {1..L}. cs ! k)"
  by (induction L) (simp_all add: atLeastAtMostSuc_conv)

lemma sorted_lens_list: "sorted_wrt (\<ge>) (lens_list L cs)"
proof (induction L)
  case (Suc L)
  have "k \<le> Suc L" if "k \<in> set (lens_list L cs)" for k using set_lens_list [OF that] by simp
  moreover have "sorted_wrt (\<ge>) (replicate n (Suc L))" for n by (induction n) auto
  ultimately show ?case using Suc by (auto simp: sorted_wrt_append)
qed simp

lemma give_lens_Some:
  assumes "L < length cs" and "i + length (lens_list L cs) \<le> length A"
    and "inj_on (sym_at A) {..<i + length (lens_list L cs)}"
    and "\<forall>j < i + length (lens_list L cs). sym_at A j < length lens"
  shows "\<exists>lens'. give_lens L cs A i lens = Some lens' \<and> length lens' = length lens \<and>
    (\<forall>j < length (lens_list L cs). lens' ! sym_at A (i + j) = of_nat (lens_list L cs ! j)) \<and>
    (\<forall>s. s \<notin> sym_at A ` {i..<i + length (lens_list L cs)} \<longrightarrow> lens' ! s = lens ! s)"
  using assms
proof (induction L arbitrary: i lens)
  case (Suc L)
  let ?c = "cs ! Suc L" and ?n = "length (lens_list L cs)"
  have "inj_on (sym_at A) {..<i + ?c}" by (rule inj_on_subset [OF Suc.prems(3)]) auto
  then obtain l1 where l1: "give_len (Suc L) ?c A i lens = Some l1" "length l1 = length lens"
    "\<And>j. i \<le> j \<Longrightarrow> j < i + ?c \<Longrightarrow> l1 ! sym_at A j = of_nat (Suc L)"
    "\<And>s. s \<notin> sym_at A ` {i..<i + ?c} \<Longrightarrow> l1 ! s = lens ! s"
    using give_len_Some [of i ?c A lens "Suc L"] Suc.prems by auto
  obtain l2 where l2: "give_lens L cs A (i + ?c) l1 = Some l2" "length l2 = length lens"
    "\<And>j. j < ?n \<Longrightarrow> l2 ! sym_at A (i + ?c + j) = of_nat (lens_list L cs ! j)"
    "\<And>s. s \<notin> sym_at A ` {i + ?c..<i + ?c + ?n} \<Longrightarrow> l2 ! s = l1 ! s"
  proof -
    have n: "i + length (lens_list (Suc L) cs) = i + ?c + ?n" by simp
    note p = Suc.prems(2-4) [unfolded n]
    have "L < length cs" "\<forall>j < i + ?c + ?n. sym_at A j < length l1" using Suc.prems(1) p(3) l1(2) by simp_all
    note ih = Suc.IH [of "i + ?c" l1, OF this(1) p(1,2) this(2)]
    then obtain l2 where h: "give_lens L cs A (i + ?c) l1 = Some l2" "length l2 = length l1"
      "\<forall>j < ?n. l2 ! sym_at A (i + ?c + j) = of_nat (lens_list L cs ! j)"
      "\<forall>s. s \<notin> sym_at A ` {i + ?c..<i + ?c + ?n} \<longrightarrow> l2 ! s = l1 ! s"
      by (elim exE conjE) (rule that)
    show thesis using h l1(2) by (intro that [of l2]) simp_all
  qed
  have "l2 ! sym_at A (i + j) = of_nat (lens_list (Suc L) cs ! j)" if j: "j < length (lens_list (Suc L) cs)" for j
  proof (cases "j < ?c")
    case True
    have "sym_at A (i + j) \<notin> sym_at A ` {i + ?c..<i + ?c + ?n}"
    proof
      assume "sym_at A (i + j) \<in> sym_at A ` {i + ?c..<i + ?c + ?n}"
      then obtain k where "sym_at A (i + j) = sym_at A k" "i + ?c \<le> k" "k < i + ?c + ?n"
        by (auto elim: imageE)
      have "i + j = k"
        by (rule inj_onD [OF Suc.prems(3) \<open>sym_at A (i + j) = sym_at A k\<close>]) (use True \<open>k < i + ?c + ?n\<close> in simp_all)
      then show False using \<open>i + ?c \<le> k\<close> True by simp
    qed
    then show ?thesis using l2(4) l1(3) [of "i + j"] True by (simp add: nth_append)
  next
    case False
    then have "l2 ! sym_at A (i + ?c + (j - ?c)) = of_nat (lens_list L cs ! (j - ?c))" using j by (intro l2(3)) simp
    then show ?thesis using False by (simp add: nth_append)
  qed
  moreover have "l2 ! s = lens ! s" if "s \<notin> sym_at A ` {i..<i + length (lens_list (Suc L) cs)}" for s
  proof -
    have "s \<notin> sym_at A ` {i + ?c..<i + ?c + ?n}" "s \<notin> sym_at A ` {i..<i + ?c}" using that by auto
    then show ?thesis using l2(4) l1(4) by simp
  qed
  moreover have "give_lens (Suc L) cs A i lens = Some l2"
    using l1(1) l2(1) Suc.prems(1) by (simp add: fetch_def)
  ultimately show ?case using l2(2) by blast
qed simp

section \<open>Giving out the codewords\<close>

lemma first_codewords_first:
  assumes "prev = of_nat (first_code ls m)" and "1 \<le> m" and "\<And>j. j < length cs \<Longrightarrow> cs ! j = len_count ls (m + j)"
  shows "j < length cs \<Longrightarrow> first_codewords cs prev ! j = of_nat (first_code ls (m + 1 + j))"
  using assms
proof (induction cs arbitrary: prev m j)
  case (Cons c cs)
  obtain m' where m': "m = Suc m'" using Cons.prems(3) by (cases m) auto
  have c: "c = len_count ls m" using Cons.prems(4) [of 0] by simp
  have next': "push_bit 1 (prev + of_nat c) = of_nat (first_code ls (m + 1))"
    unfolding Cons.prems(2) c m' by (simp add: push_bit_eq_mult algebra_simps)
  then have fc: "first_codewords (c # cs) prev =
      of_nat (first_code ls (m + 1)) # first_codewords cs (of_nat (first_code ls (m + 1)))"
    by (simp only: first_codewords.simps Let_def)
  show ?case
  proof (cases j)
    case (Suc k)
    have "first_codewords cs (of_nat (first_code ls (m + 1))) ! k = of_nat (first_code ls (m + 1 + 1 + k))"
    proof (rule Cons.IH)
      show "k < length cs" using Cons.prems(1) Suc by simp
      show "cs ! i = len_count ls (m + 1 + i)" if "i < length cs" for i
        using Cons.prems(4) [of "Suc i"] that by simp
    qed simp_all
    then show ?thesis unfolding fc Suc by simp
  qed (simp add: fc del: first_codewords.simps)
qed simp

lemma length_first_codewords [simp]: "length (first_codewords cs prev) = length cs"
  by (induction cs arbitrary: prev) (simp_all add: Let_def)

text \<open>What the code assigns to a symbol: the canonical codeword with its bits reversed.\<close>

definition code_of :: "nat list \<Rightarrow> nat \<Rightarrow> u32" where
  "code_of ls s = of_nat (rev_bits (ls ! s) (first_code ls (ls ! s) + rank ls s))"

lemma give_codewords_Some:
  assumes ls: "ls = map unat (take n lens)" "n \<le> length lens" "n \<le> length A"
    and L: "\<forall>l \<in> set ls. l \<le> L" "L \<le> 16"
    and small: "\<And>s. s < n \<Longrightarrow> first_code ls (ls ! s) + rank ls s < 2 ^ 16"
    and next': "length nx = L + 1" "\<And>l. l \<le> L \<Longrightarrow> nx ! l = of_nat (first_code ls l + count_list (take s ls) l)"
    and s: "s + k = n"
  shows "\<exists>B. give_codewords k s lens nx A = Some B \<and> length B = length A \<and>
    (\<forall>t. s \<le> t \<and> t < n \<longrightarrow> B ! t = code_of ls t) \<and> (\<forall>t. t < s \<or> n \<le> t \<longrightarrow> B ! t = A ! t)"
  using ls(3) next' s
proof (induction k arbitrary: s nx A)
  case (Suc k)
  have sn: "s < n" using Suc.prems(4) by simp
  let ?l = "ls ! s"
  have lls: "s < length ls" using sn ls(1,2) by simp
  then have "?l \<in> set ls" by (rule nth_mem)
  then have l: "unat (lens ! s) = ?l" "?l \<le> L" using sn ls(1,2) L(1) by auto
  have cw: "nx ! ?l = of_nat (first_code ls ?l + rank ls s)" using Suc.prems(3) [OF l(2)] by (simp add: rank_def)
  have rev: "reverse_codeword (nx ! ?l) ?l = Some (code_of ls s)"
    unfolding cw code_of_def by (rule reverse_codeword_Some) (use small [OF sn] l(2) L(2) in auto)
  let ?nx = "nx[?l := nx ! ?l + 1]" and ?A = "A[s := code_of ls s]"
  have "?nx ! i = of_nat (first_code ls i + count_list (take (s + 1) ls) i)" if "i \<le> L" for i
    using that Suc.prems(2) Suc.prems(3) [OF that] take_Suc_conv_app_nth [OF lls] by (auto simp: nth_list_update)
  then obtain B where B: "give_codewords k (s + 1) lens ?nx ?A = Some B" "length B = length A"
    "\<forall>t. s + 1 \<le> t \<and> t < n \<longrightarrow> B ! t = code_of ls t" "\<forall>t. t < s + 1 \<or> n \<le> t \<longrightarrow> B ! t = ?A ! t"
    using Suc.IH [of ?A ?nx "s + 1"] Suc.prems by auto
  have "B ! s = code_of ls s" using B(4) sn Suc.prems(1) by auto
  then have "B ! t = code_of ls t" if "s \<le> t" "t < n" for t using B(3) that by (cases "t = s") auto
  moreover have "give_codewords (Suc k) s lens nx A = Some B"
    using B(1) rev l sn ls(2) Suc.prems(1,2) by (simp add: fetch_def store_def)
  moreover have "B ! t = A ! t" if "t < s \<or> n \<le> t" for t using B(4) that sn by auto
  ultimately show ?case using B(2) by blast
qed auto

lemma complete_length:
  assumes "complete_counts L u cs"
  shows "length (lens_list L cs) = u"
proof -
  have "(\<Sum>k\<le>L. cs ! k) = cs ! 0 + (\<Sum>k \<in> {1..L}. cs ! k)"
    by (simp add: sum.atMost_shift atLeast0AtMost [symmetric] sum.atLeast_Suc_atMost)
  then show ?thesis using assms by (simp add: complete_counts_def length_lens_list)
qed

lemma gen_codewords_Some:
  assumes cs: "complete_counts L u cs" and L: "1 \<le> L" "L \<le> 15" and n: "n \<le> 1024" "n \<le> length lens" "n \<le> length A" "u \<le> n"
    and inj: "inj_on (sym_at A) {..<u}" and sym: "\<forall>j < u. sym_at A j < n"
    and unused: "\<forall>s < n. s \<notin> sym_at A ` {..<u} \<longrightarrow> lens ! s = 0"
  obtains B lens' ls where "gen_codewords A lens cs L n = Some (B, lens')" and "length B = length A"
    and "length lens' = length lens" and "ls = map unat (take n lens')" and "\<forall>l \<in> set ls. l \<le> L"
    and "kraft L ls = 2 ^ L" and "\<And>j. j < u \<Longrightarrow> ls ! sym_at A j = lens_list L cs ! j"
    and "\<And>s. s < n \<Longrightarrow> s \<notin> sym_at A ` {..<u} \<Longrightarrow> ls ! s = 0"
    and "\<And>t. t < n \<Longrightarrow> B ! t = code_of ls t"
proof -
  have u: "length (lens_list L cs) = u" by (rule complete_length [OF cs])
  have c: "length cs = L + 1" "(\<Sum>k\<le>L. cs ! k * 2 ^ (L - k)) = 2 ^ L" using cs by (simp_all add: complete_counts_def)
  have "\<forall>j < u. sym_at A j < length lens" using sym n(2) by auto
  then obtain lens' where g: "give_lens L cs A 0 lens = Some lens'" "length lens' = length lens"
    "\<forall>j < u. lens' ! sym_at A j = of_nat (lens_list L cs ! j)"
    "\<forall>s. s \<notin> sym_at A ` {..<u} \<longrightarrow> lens' ! s = lens ! s"
    using give_lens_Some [of L cs 0 A lens] c(1) u inj n(3,4) by (auto simp: atLeast0LessThan)
  define ls where "ls = map unat (take n lens')"
  have ln: "length ls = n" using n(2) g(2) by (simp add: ls_def)
  have used: "ls ! sym_at A j = lens_list L cs ! j" "1 \<le> lens_list L cs ! j" "lens_list L cs ! j \<le> L" if "j < u" for j
  proof -
    show b: "1 \<le> lens_list L cs ! j" "lens_list L cs ! j \<le> L"
      using set_lens_list [of "lens_list L cs ! j" L cs] that u by auto
    then have "lens_list L cs ! j < 256" using L(2) by simp
    then have "unat (of_nat (lens_list L cs ! j) :: byte) = lens_list L cs ! j" by (simp add: unat_of_nat)
    then show "ls ! sym_at A j = lens_list L cs ! j" using that sym g(2,3) n(2) by (simp add: ls_def)
  qed
  have zero: "ls ! s = 0" if "s < n" "s \<notin> sym_at A ` {..<u}" for s
    using that g(2,4) unused n(2) by (simp add: ls_def)
  have "ls ! s \<le> L" if "s < n" for s
    using used zero [OF that] by (cases "s \<in> sym_at A ` {..<u}") auto
  then have le: "\<forall>l \<in> set ls. l \<le> L" using ln by (auto simp: in_set_conv_nth)
  have cnt: "len_count ls k = cs ! k" if "1 \<le> k" "k \<le> L" for k
  proof -
    have "{s. s < length ls \<and> ls ! s = k} = sym_at A ` {j. j < u \<and> lens_list L cs ! j = k}"
    proof (rule Set.set_eqI, rule iffI)
      fix s assume s: "s \<in> {s. s < length ls \<and> ls ! s = k}"
      then have "s \<in> sym_at A ` {..<u}" using zero [of s] ln that(1) by fastforce
      then obtain j where "j < u" "s = sym_at A j" by auto
      then show "s \<in> sym_at A ` {j. j < u \<and> lens_list L cs ! j = k}" using used(1) s by auto
    next
      fix s assume "s \<in> sym_at A ` {j. j < u \<and> lens_list L cs ! j = k}"
      then obtain j where "j < u" "s = sym_at A j" "lens_list L cs ! j = k" by auto
      then show "s \<in> {s. s < length ls \<and> ls ! s = k}" using used(1) sym ln by simp
    qed
    then have "len_count ls k = card {j. j < u \<and> lens_list L cs ! j = k}"
      unfolding len_count_def count_list_card by (simp add: card_image inj_on_subset [OF inj] subset_iff)
    then show ?thesis using count_lens_list [of L cs k] that unfolding count_list_card u by simp
  qed
  have kraft: "kraft L ls = 2 ^ L"
  proof -
    have "kraft L ls = (\<Sum>k \<in> {1..L}. cs ! k * 2 ^ (L - k))"
      unfolding kraft_counts [OF le] by (intro sum.cong refl) (simp add: cnt)
    also have "\<dots> = (\<Sum>k\<le>L. cs ! k * 2 ^ (L - k))"
      using cs by (intro sum.mono_neutral_left) (auto simp: complete_counts_def not_le less_Suc0)
    finally show ?thesis using c(2) by simp
  qed
  have small: "first_code ls (ls ! s) + rank ls s < 2 ^ 16" if "s < n" for s
  proof (cases "ls ! s = 0")
    case True
    have "rank ls s \<le> length (take s ls)" unfolding rank_def by (rule count_le_length)
    then show ?thesis using True that n(1) by simp
  next
    case False
    have "canonical L ls s < 2 ^ (ls ! s)" using canonical_less [OF le, of s] that ln False kraft by simp
    moreover have "ls ! s \<in> set ls" using that ln by simp
    then have "ls ! s \<le> 15" using le L(2) by fastforce
    then have "(2 :: nat) ^ (ls ! s) \<le> 2 ^ 15" by (rule power_increasing) simp
    ultimately show ?thesis using canonical_rank [OF le, of s] that ln False \<open>(2 :: nat) ^ (ls ! s) \<le> 2 ^ 15\<close> by simp
  qed
  let ?nx = "0 # 0 # first_codewords (take (L - 1) (drop 1 cs)) 0"
  have "?nx ! l = of_nat (first_code ls l + count_list (take 0 ls) l)" if "l \<le> L" for l
  proof -
    consider "l = 0" | "l = 1" | l' where "l = Suc (Suc l')" by (metis One_nat_def not0_implies_Suc)
    then show ?thesis
    proof cases
      case 3
      have "first_codewords (take (L - 1) (drop 1 cs)) 0 ! l' = of_nat (first_code ls (1 + 1 + l'))"
      proof (rule first_codewords_first)
        show "take (L - 1) (drop 1 cs) ! j = len_count ls (1 + j)" if "j < length (take (L - 1) (drop 1 cs))" for j
          using that cnt [of "1 + j"] c(1) by simp
      qed (use 3 that c(1) in simp_all)
      then show ?thesis using 3 by simp
    qed simp_all
  qed
  moreover have "length ?nx = L + 1" using L(1) c(1) by simp
  ultimately obtain B where B: "give_codewords n 0 lens' ?nx A = Some B" "length B = length A"
    "\<And>t. t < n \<Longrightarrow> B ! t = code_of ls t"
    using give_codewords_Some [OF ls_def _ n(3) le _ small, of ?nx 0 n] L(2) g(2) n(2) by auto
  show thesis
  proof (rule that [OF _ B(2) g(2) ls_def le kraft used(1) zero B(3)])
    show "gen_codewords A lens cs L n = Some (B, lens')" using g(1) B(1) by (simp add: gen_codewords_def)
  qed
qed

end
