(* ===== verification/Deflate_Huffman_Code.thy ===== *)
theory Deflate_Huffman_Code
  imports Deflate_Codewords
begin

text \<open>
  The result of \<^verbatim>\<open>deflate_make_huffman_code\<close>: for any frequencies, a complete canonical prefix
  code within the length limit.
\<close>

section \<open>The sorted symbols\<close>

lemma entry_sym:
  assumes "j < 1024" and "unat (freqs ! j) < 2 ^ 22"
  shows "unat (entry freqs j AND SYMBOL_MASK) = j"
proof -
  have "unat (entry freqs j AND SYMBOL_MASK) = unat (entry freqs j) mod 1024"
  proof -
    have "unat (take_bit 10 (entry freqs j)) = take_bit 10 (unat (entry freqs j))" by (rule unsigned_take_bit_eq)
    then show ?thesis unfolding and_symbol_mask by (simp only: take_bit_eq_mod) simp
  qed
  then show ?thesis using unat_entry [OF assms] assms(1) by simp
qed

definition sorted_entries :: "nat \<Rightarrow> u32 list \<Rightarrow> u32 list" where
  "sorted_entries n freqs = sort (map (entry freqs) (used_syms n freqs))"

lemma sorted_entries_syms:
  assumes n: "n \<le> 1024" and f: "\<forall>j < n. unat (freqs ! j) < 2 ^ 22"
    and A: "A = sorted_entries n freqs @ rest" and u: "u = length (used_syms n freqs)"
  shows "inj_on (sym_at A) {..<u}" and "sym_at A ` {..<u} = {s. s < n \<and> freqs ! s \<noteq> 0}"
    and "i < u \<Longrightarrow> A ! i = entry freqs (sym_at A i)"
    and "i < j \<Longrightarrow> j < u \<Longrightarrow> freqs ! sym_at A i \<le> freqs ! sym_at A j"
proof -
  let ?E = "sorted_entries n freqs"
  have len: "length ?E = u" by (simp add: sorted_entries_def u)
  have nth: "A ! i = ?E ! i" if "i < u" for i using that len by (simp add: A nth_append)
  have us: "s \<in> set (used_syms n freqs) \<longleftrightarrow> s < n \<and> freqs ! s \<noteq> 0" for s by (auto simp: used_syms_def)
  have key: "unat (entry freqs s AND SYMBOL_MASK) = s" if "s \<in> set (used_syms n freqs)" for s
    using that n f by (intro entry_sym) (auto simp: us)
  have map: "map (\<lambda>x. unat (x AND SYMBOL_MASK)) ?E = map (sym_at A) [0..<u]"
    using len nth by (intro nth_equalityI) (simp_all add: sym_at_def)
  have "mset (map (sym_at A) [0..<u]) = mset (map (\<lambda>x. unat (x AND SYMBOL_MASK)) (map (entry freqs) (used_syms n freqs)))"
    unfolding map [symmetric] mset_map sorted_entries_def mset_sort ..
  also have "map (\<lambda>x. unat (x AND SYMBOL_MASK)) (map (entry freqs) (used_syms n freqs)) = used_syms n freqs"
    using key by (simp add: map_idI)
  finally have ms: "mset (map (sym_at A) [0..<u]) = mset (used_syms n freqs)" .
  have "distinct (used_syms n freqs)" by (simp add: used_syms_def)
  then have "distinct (map (sym_at A) [0..<u])" using mset_eq_imp_distinct_iff [OF ms] by simp
  then show "inj_on (sym_at A) {..<u}" by (simp add: distinct_map atLeast0LessThan)
  have "set (map (sym_at A) [0..<u]) = set (used_syms n freqs)" by (rule mset_eq_setD [OF ms])
  then show set: "sym_at A ` {..<u} = {s. s < n \<and> freqs ! s \<noteq> 0}" using us by (auto simp: atLeast0LessThan)
  have ent: "A ! i = entry freqs (sym_at A i) \<and> sym_at A i < n" if "i < u" for i
  proof -
    have "?E ! i \<in> set ?E" using that len by simp
    then obtain s where "s \<in> set (used_syms n freqs)" "?E ! i = entry freqs s" by (auto simp: sorted_entries_def)
    then show ?thesis using key nth [OF that] us by (simp add: sym_at_def)
  qed
  then show "i < u \<Longrightarrow> A ! i = entry freqs (sym_at A i)" by blast
  assume ij: "i < j" "j < u"
  have "A ! i \<le> A ! j"
    using ij len nth sorted_nth_mono [of ?E i j] by (simp add: sorted_entries_def)
  then have "unat (entry freqs (sym_at A i)) \<le> unat (entry freqs (sym_at A j))"
    using ent [of i] ent [of j] ij by (simp add: word_le_nat_alt)
  moreover have "unat (entry freqs (sym_at A k)) = 1024 * unat (freqs ! sym_at A k) + sym_at A k" "sym_at A k < 1024"
    if "k < u" for k
    using ent [OF that] n f by (auto intro!: unat_entry)
  ultimately have "1024 * unat (freqs ! sym_at A i) \<le> 1024 * unat (freqs ! sym_at A j) + sym_at A j" "sym_at A j < 1024"
    using ij by fastforce+
  then have "unat (freqs ! sym_at A i) \<le> unat (freqs ! sym_at A j)" by linarith
  then show "freqs ! sym_at A i \<le> freqs ! sym_at A j" by (simp add: word_le_nat_alt)
qed

section \<open>The code\<close>

text \<open>What the construction promises of the lengths \<open>ls\<close> and the codewords \<open>cw\<close>.\<close>

definition huffman_code :: "nat \<Rightarrow> u32 list \<Rightarrow> nat list \<Rightarrow> u32 list \<Rightarrow> bool" where
  "huffman_code L freqs ls cw \<longleftrightarrow>
     (\<forall>s < length ls. ls ! s \<le> L) \<and>
     (\<forall>s < length ls. freqs ! s \<noteq> 0 \<longrightarrow> 0 < ls ! s) \<and>
     ((\<exists>s < length ls. freqs ! s \<noteq> 0) \<longrightarrow> kraft L ls = 2 ^ L) \<and>
     (\<forall>s < length ls. 0 < ls ! s \<longrightarrow> cw ! s = of_nat (rev_bits (ls ! s) (canonical L ls s))) \<and>
     (\<forall>s < length ls. \<forall>t < length ls. 0 < ls ! s \<and> ls ! s \<le> ls ! t \<and> s \<noteq> t \<longrightarrow> take_bit (ls ! s) (cw ! t) \<noteq> cw ! s) \<and>
     (\<forall>s < length ls. \<forall>t < length ls. freqs ! s \<noteq> 0 \<and> freqs ! s < freqs ! t \<longrightarrow> ls ! t \<le> ls ! s)"

lemma huffman_codeI:
  assumes le: "\<forall>l \<in> set ls. l \<le> L" and L: "L \<le> 15"
    and pos: "\<And>s. s < length ls \<Longrightarrow> freqs ! s \<noteq> 0 \<Longrightarrow> 0 < ls ! s"
    and kraft: "kraft L ls = 2 ^ L"
    and cw: "\<And>s. s < length ls \<Longrightarrow> 0 < ls ! s \<Longrightarrow> cw ! s = code_of ls s"
    and mono: "\<And>s t. s < length ls \<Longrightarrow> t < length ls \<Longrightarrow> freqs ! s \<noteq> 0 \<Longrightarrow> freqs ! s < freqs ! t \<Longrightarrow> ls ! t \<le> ls ! s"
  shows "huffman_code L freqs ls cw"
proof -
  have code: "cw ! s = of_nat (rev_bits (ls ! s) (canonical L ls s))" if "s < length ls" "0 < ls ! s" for s
    using cw [OF that] canonical_rank [OF le that] by (simp add: code_of_def)
  have less: "rev_bits (ls ! s) c < 2 ^ 32" if "s < length ls" for s c
  proof -
    have "ls ! s \<in> set ls" using that by simp
    then have "ls ! s \<le> 32" using le L by fastforce
    then have "(2 :: nat) ^ (ls ! s) \<le> 2 ^ 32" by (rule power_increasing) simp
    then show ?thesis using rev_bits_less [of "ls ! s" c] by simp
  qed
  have "take_bit (ls ! s) (cw ! t) \<noteq> cw ! s"
    if st: "s < length ls" "t < length ls" "0 < ls ! s" "ls ! s \<le> ls ! t" "s \<noteq> t" for s t
  proof
    have t0: "0 < ls ! t" using st by simp
    let ?s = "rev_bits (ls ! s) (canonical L ls s)" and ?t = "rev_bits (ls ! t) (canonical L ls t)"
    assume "take_bit (ls ! s) (cw ! t) = cw ! s"
    then have "of_nat (take_bit (ls ! s) ?t) = (of_nat ?s :: u32)"
      using code st t0 by (simp add: take_bit_of_nat)
    moreover have "take_bit (ls ! s) ?t < 2 ^ 32"
      using less [OF st(2)] by (meson le_less_trans take_bit_nat_less_eq_self)
    ultimately have "take_bit (ls ! s) ?t = ?s"
      using less [OF st(1)] unat_of_nat_u32 by metis
    then show False using rev_canonical_prefix_free [OF le _ st(1,3,2) t0 st(5,4)] kraft by simp
  qed
  then show ?thesis using le pos kraft code mono by (simp add: huffman_code_def)
qed

lemma zero_unused_zero:
  "n \<le> length freqs \<Longrightarrow> n \<le> length lens \<Longrightarrow> s < n \<Longrightarrow> freqs ! s = 0 \<Longrightarrow> zero_unused (take n freqs) 0 lens ! s = 0"
  by (simp add: zero_unused_nth)

text \<open>Two codewords of length 1.\<close>

lemma two_codewords:
  assumes ls: "ls = (replicate n 0)[0 := 1, k := 1]" and k: "0 < k" "k < n" and L: "1 \<le> L"
  shows "kraft L ls = 2 ^ L" and "code_of ls 0 = 0" and "code_of ls k = 1"
proof -
  have len: "length ls = n" by (simp add: ls)
  have nth: "ls ! s = (if s = 0 \<or> s = k then 1 else 0)" if "s < n" for s
    using that k by (auto simp: ls nth_list_update)
  have "s < length ls \<and> 0 < ls ! s \<longleftrightarrow> s \<in> {0, k}" for s
  proof (cases "s < n")
    case True
    then show ?thesis using nth [OF True] len by simp
  next
    case False
    then show ?thesis using k len by auto
  qed
  then have "{s. s < length ls \<and> 0 < ls ! s} = {0, k}" by blast
  then have "kraft L ls = (\<Sum>s \<in> {0, k}. 2 ^ (L - ls ! s))" by (simp only: kraft_sum)
  also have "\<dots> = 2 * 2 ^ (L - 1)" using nth k by simp
  finally show "kraft L ls = 2 ^ L" using L by (simp flip: power_Suc)
  have "rank ls 0 = 0" by (simp add: rank_def)
  then show "code_of ls 0 = 0" using nth [of 0] k by (simp add: code_of_def rev_bits_def)
  have "i < length (take k ls) \<and> take k ls ! i = 1 \<longleftrightarrow> i = 0" for i
  proof (cases "i < k")
    case True
    then show ?thesis using nth [of i] k len by simp
  next
    case False
    then show ?thesis using k by simp
  qed
  then have "{i. i < length (take k ls) \<and> take k ls ! i = 1} = {0}" by blast
  then have "rank ls k = 1" using nth k by (simp add: rank_def count_list_card)
  moreover have "rev_bits 1 1 = 1" by (rule bit_eqI) (auto simp: bit_rev_bits bit_Suc_0_iff)
  ultimately show "code_of ls k = 1" using nth [of k] k by (simp add: code_of_def)
qed

lemma make_huffman_code_aux:
  assumes n: "3 \<le> n" "n \<le> DEFLATE_MAX_NUM_SYMS" "n \<le> length freqs" "n \<le> length lens" "n \<le> length codewords"
    and f: "\<forall>s < n. unat (freqs ! s) < 2 ^ 22" and L: "1 \<le> L" "L \<le> DEFLATE_MAX_CODEWORD_LEN" "n \<le> 2 ^ L"
  obtains lens' cw where "deflate_make_huffman_code n L freqs lens codewords = Some (lens', cw)"
    and "length lens' = length lens" and "length cw = length codewords"
    and "huffman_code L freqs (map unat (take n lens')) cw"
    and "2 \<le> length (used_syms n freqs) \<Longrightarrow> s < n \<Longrightarrow> freqs ! s = 0 \<Longrightarrow> lens' ! s = 0"
proof -
  let ?u = "length (used_syms n freqs)" and ?lens = "zero_unused (take n freqs) 0 lens"
  define A where "A = sorted_entries n freqs @ drop ?u codewords"
  have n1024: "n \<le> 1024" using n(2) by (simp add: DEFLATE_MAX_NUM_SYMS_def)
  have L15: "L \<le> 15" using L(2) by (simp add: DEFLATE_MAX_CODEWORD_LEN_def)
  have sort: "sort_symbols n freqs lens codewords = Some (?u, ?lens, A)"
    using sort_symbols_Some [OF n f] by (auto simp: A_def sorted_entries_def)
  have un: "?u \<le> n" using length_filter_le [of _ "[0..<n]"] by (simp add: used_syms_def)
  have lA: "length A = length codewords" using un n(5) by (simp add: A_def sorted_entries_def)
  note sy = sorted_entries_syms [OF n1024 f A_def refl]
  note z = zero_unused_zero [OF n(3,4)]
  have us: "set (used_syms n freqs) = {s. s < n \<and> freqs ! s \<noteq> 0}" by (auto simp: used_syms_def)
  consider (none) "?u = 0" | (one) "?u = 1" | (more) "2 \<le> ?u" by linarith
  then show thesis
  proof cases
    case none
    then have z0: "freqs ! s = 0" if "s < n" for s using us that by auto
    then have zero: "\<forall>s < n. map unat (take n ?lens) ! s = 0" using z n(4) by simp
    have "huffman_code L freqs (map unat (take n ?lens)) A"
      unfolding huffman_code_def using zero z0 n(4) by auto
    then show thesis using none sort lA by (intro that [of ?lens A]) (simp_all add: deflate_make_huffman_code_def)
  next
    case one
    define x where "x = sym_at A 0"
    have x: "{x} = {s. s < n \<and> freqs ! s \<noteq> 0}" using sy(2) one by (simp add: x_def lessThan_Suc)
    then have xn: "x < n" "freqs ! x \<noteq> 0" and xD: "\<And>s. s < n \<Longrightarrow> freqs ! s \<noteq> 0 \<Longrightarrow> s = x" by blast+
    define k where "k = (if x \<noteq> 0 then x else 1)"
    have k: "0 < k" "k < n" using xn n(1) by (simp_all add: k_def)
    let ?l = "?lens[0 := 1, k := 1]" and ?A = "A[0 := 0, k := 1]"
    have pos: "0 < length A" "0 < length ?lens" unfolding length_zero_unused lA using n by linarith+
    have k_eq: "(if unat (A ! 0 AND SYMBOL_MASK) \<noteq> 0 then unat (A ! 0 AND SYMBOL_MASK) else 1) = k"
      by (simp add: k_def x_def sym_at_def)
    have st: "fetch A 0 = Some (A ! 0)" "store A 0 v = Some (A[0 := v])" "store (A[0 := v]) k w = Some (A[0 := v, k := w])"
      "store ?lens 0 b = Some (?lens[0 := b])" "store (?lens[0 := b]) k c = Some (?lens[0 := b, k := c])" for v w b c
      using pos k n lA by (simp_all only: fetch_def store_def length_list_update length_zero_unused if_True if_False) simp_all
    have res: "deflate_make_huffman_code n L freqs lens codewords = Some (?l, ?A)"
      unfolding deflate_make_huffman_code_def sort Option.bind.bind_lunit prod.case one Let_def st k_eq by simp
    let ?ls = "map unat (take n ?l)"
    have ls: "?ls = (replicate n 0)[0 := 1, k := 1]"
    proof (rule nth_equalityI)
      fix s assume "s < length ?ls"
      then have s: "s < n" by simp
      have zero: "unat (?lens ! s) = 0" if "s \<noteq> 0" "s \<noteq> k"
      proof -
        have "s \<noteq> x" using that by (auto simp: k_def)
        then show ?thesis using z [OF s] xD [OF s] by (cases "freqs ! s = 0") simp_all
      qed
      have k0: "k < length ?lens" using k n(4) by simp
      consider (first) "s = 0" | (second) "s = k" | (other) "s \<noteq> 0" "s \<noteq> k" by blast
      then show "?ls ! s = (replicate n 0)[0 := 1, k := 1] ! s"
      proof cases
        case first
        have "0 < n" using n(1) by simp
        moreover have "?l ! 0 = 1" using k(1) nth_list_update_eq [OF pos(2)] by simp
        ultimately show ?thesis using first k n(4) by (simp add: nth_list_update)
      next
        case second
        have "?l ! k = 1" using k0 by simp
        then show ?thesis using second s k n(4) by simp
      next
        case other
        then show ?thesis using s zero n(4) by simp
      qed
    qed (use n(4) in simp)
    have nth: "?ls ! s = (if s = 0 \<or> s = k then 1 else 0)" if "s < n" for s
      unfolding ls using that k by (auto simp: nth_list_update)
    have ln: "length ?ls = n" unfolding ls by simp
    have "huffman_code L freqs ?ls ?A"
    proof (rule huffman_codeI)
      have "?ls ! s \<le> L" if "s < n" for s using L(1) unfolding nth [OF that] by simp
      then show "\<forall>l \<in> set ?ls. l \<le> L" using ln by (metis in_set_conv_nth)
      show "0 < ?ls ! s" if "s < length ?ls" "freqs ! s \<noteq> 0" for s
      proof -
        have s: "s < n" using that(1) ln by simp
        have "s = x" using xD s that(2) by blast
        then have "s = 0 \<or> s = k" by (simp add: k_def)
        then show ?thesis unfolding nth [OF s] by simp
      qed
      show "?A ! s = code_of ?ls s" if "s < length ?ls" "0 < ?ls ! s" for s
      proof -
        have s: "s < n" using that(1) ln by simp
        have "s = 0 \<or> s = k" using that(2) unfolding nth [OF s] by (auto split: if_splits)
        moreover have "?A ! 0 = 0" using k(1) nth_list_update_eq [OF pos(1)] by simp
        moreover have "?A ! k = 1" using k n(5) lA by simp
        ultimately show ?thesis using two_codewords(2,3) [OF ls k L(1)] by auto
      qed
      show "?ls ! t \<le> ?ls ! s" if "s < length ?ls" "t < length ?ls" "freqs ! s \<noteq> 0" "freqs ! s < freqs ! t" for s t
      proof -
        have "s < n" "t < n" using that(1,2) ln by simp_all
        moreover have "freqs ! t \<noteq> 0" using that(4) by (auto simp: word_less_nat_alt)
        ultimately have "s = x" "t = x" using xD that(3) by blast+
        then show ?thesis by simp
      qed
    qed (use L15 two_codewords(1) [OF ls k L(1)] in simp_all)
    then show thesis using res one lA by (intro that [of ?l ?A]) simp_all
  next
    case more
    obtain B where B: "build_tree A ?u = Some B" "same_syms A B" "ordered_parents (?u - 2) (upper B)"
      "\<And>j. j < ?u - 2 \<Longrightarrow> upper B j < ?u - 1"
      using build_tree_tree [OF more, of A] lA un n(5) n1024 by auto
    have "?u \<le> length B" "?u \<le> 1024" "?u \<le> 2 ^ L"
      using B(2) lA un n(5) n1024 L(3) by (simp_all add: same_syms_def)
    then obtain C cs where C: "compute_length_counts B (?u - 2) L = Some (C, cs)" "same_syms B C" "complete_counts L ?u cs"
      using compute_length_counts_complete [OF B(3,4) more _ _ _ L(1,2)] by blast
    have AC: "same_syms A C" using same_syms_trans [OF B(2) C(2)] .
    then have lC: "length C = length codewords" using lA by (simp add: same_syms_def)
    have sym: "sym_at C j = sym_at A j" if "j < ?u" for j
      using AC that un lA n(5) by (simp add: same_syms_def sym_at_def and_symbol_mask)
    have im: "sym_at C ` {..<?u} = {s. s < n \<and> freqs ! s \<noteq> 0}" using sy(2) sym by (simp add: image_def)
    have inj: "inj_on (sym_at C) {..<?u}" using sy(1) sym by (simp add: inj_on_def)
    have lt: "\<forall>j < ?u. sym_at C j < n" using im by auto
    have un0: "\<forall>s < n. s \<notin> sym_at C ` {..<?u} \<longrightarrow> ?lens ! s = 0" using im z by auto
    have ll: "n \<le> length ?lens" "n \<le> length C" using n(4,5) lC by simp_all
    obtain D lens' ls where D: "gen_codewords C ?lens cs L n = Some (D, lens')" "length D = length C"
      "length lens' = length ?lens" "ls = map unat (take n lens')" "\<forall>l \<in> set ls. l \<le> L" "kraft L ls = 2 ^ L"
      "\<And>j. j < ?u \<Longrightarrow> ls ! sym_at C j = lens_list L cs ! j"
      "\<And>s. s < n \<Longrightarrow> s \<notin> sym_at C ` {..<?u} \<Longrightarrow> ls ! s = 0"
      "\<And>t. t < n \<Longrightarrow> D ! t = code_of ls t"
      by (rule gen_codewords_Some [OF C(3) L(1) L15 n1024 ll un inj lt un0]) blast
    have ln: "length ls = n" using D(3,4) n(4) by simp
    have res: "deflate_make_huffman_code n L freqs lens codewords = Some (lens', D)"
      using sort more B(1) C(1) D(1) by (cases "used_syms n freqs = []") (simp_all add: deflate_make_huffman_code_def)
    have llen: "length (lens_list L cs) = ?u" by (rule complete_length [OF C(3)])
    have "huffman_code L freqs ls D"
    proof (rule huffman_codeI [OF D(5) L15 _ D(6)])
      show "0 < ls ! s" if s: "s < length ls" "freqs ! s \<noteq> 0" for s
      proof -
        have "s \<in> sym_at C ` {..<?u}" using im s ln by simp
        then obtain j where "j < ?u" "s = sym_at C j" by auto
        then show ?thesis using D(7) set_lens_list [of "lens_list L cs ! j" L cs] llen by simp
      qed
      show "D ! s = code_of ls s" if "s < length ls" "0 < ls ! s" for s using D(9) that ln by simp
      show "ls ! t \<le> ls ! s" if st: "s < length ls" "t < length ls" "freqs ! s \<noteq> 0" "freqs ! s < freqs ! t" for s t
      proof -
        have "freqs ! t \<noteq> 0" using st(4) by (auto simp: word_less_nat_alt)
        then have "s \<in> sym_at C ` {..<?u}" "t \<in> sym_at C ` {..<?u}" using im st ln by simp_all
        then obtain i j where ij: "i < ?u" "s = sym_at C i" "j < ?u" "t = sym_at C j" by auto
        have "i < j"
        proof (rule ccontr)
          assume "\<not> i < j"
          then have "freqs ! t \<le> freqs ! s" using sy(4) [of j i] ij sym by (cases "i = j") auto
          then show False using st(4) by simp
        qed
        then have "lens_list L cs ! j \<le> lens_list L cs ! i"
          using sorted_lens_list [of L cs] llen ij by (simp add: sorted_wrt_iff_nth_less)
        then show ?thesis using D(7) ij by simp
      qed
    qed
    moreover have "lens' ! s = 0" if "s < n" "freqs ! s = 0" for s
    proof -
      have "ls ! s = 0" using D(8) that im by auto
      then show ?thesis using D(3,4) that n(4) by (simp add: unat_eq_zero)
    qed
    ultimately show thesis using res D(2-4) lC by (intro that [of lens' D]) simp_all
  qed
qed

lemma small_freqs: "\<forall>j < 4. unat ([5, 0, 9, 1] ! j :: u32) < 2 ^ 22"
proof (intro allI impI)
  fix j :: nat
  assume "j < 4"
  then consider "j = 0" | "j = 1" | "j = 2" | "j = 3" by linarith
  then show "unat ([5, 0, 9, 1] ! j :: u32) < 2 ^ 22" by cases simp_all
qed

text \<open>C34. Sorting the symbols: for at least three symbols whose frequencies fit 22 bits, \<open>sort_symbols\<close>
  returns the number of symbols in use, clears the lengths of the others, and leaves the used symbols
  with their frequencies, as packed entries in increasing order, at the front of the output; what lies
  behind them stays.
\<close>

theorem sort_symbols_sorts:
  assumes "3 \<le> n" "n \<le> DEFLATE_MAX_NUM_SYMS" "n \<le> length freqs" "n \<le> length lens" "n \<le> length symout"
    and "\<forall>j < n. unat (freqs ! j) < 2 ^ 22"
  shows "\<exists>lens' out. sort_symbols n freqs lens symout = Some (length (used_syms n freqs), lens', out) \<and>
    (\<forall>j < n. lens' ! j = (if freqs ! j = 0 then 0 else lens ! j)) \<and>
    sorted (take (length (used_syms n freqs)) out) \<and>
    mset (take (length (used_syms n freqs)) out) = mset (map (entry freqs) (used_syms n freqs)) \<and>
    drop (length (used_syms n freqs)) out = drop (length (used_syms n freqs)) symout"
proof -
  let ?E = "sort (map (entry freqs) (used_syms n freqs))"
  have len: "length ?E = length (used_syms n freqs)" by simp
  have "\<forall>j < n. zero_unused (take n freqs) 0 lens ! j = (if freqs ! j = 0 then 0 else lens ! j)"
    using assms(3,4) by (simp add: zero_unused_nth)
  moreover have "take (length (used_syms n freqs)) (?E @ rest) = ?E" "drop (length (used_syms n freqs)) (?E @ rest) = rest"
    for rest using len by simp_all
  ultimately show ?thesis using sort_symbols_Some [OF assms] by (auto simp del: drop_append take_append)
qed

theorem sort_symbols_sorts_witness:
  "\<exists>lens' out. sort_symbols 4 [5, 0, 9, 1] [0, 7, 0, 0] [0, 0, 0, 8] = Some (3, lens', out) \<and>
     (\<forall>j < 4. lens' ! j = (if [5, 0, 9, 1] ! j = (0 :: u32) then 0 else [0, 7, 0, 0] ! j)) \<and>
     sorted (take 3 out) \<and>
     mset (take 3 out) = mset (map (entry [5, 0, 9, 1]) (used_syms 4 [5, 0, 9, 1])) \<and> drop 3 out = drop 3 [0, 0, 0, 8]"
proof -
  have u: "length (used_syms 4 [5, 0, 9, 1]) = 3" by (simp add: used_syms_def upt_rec)
  show ?thesis
    by (rule sort_symbols_sorts [of 4 "[5, 0, 9, 1]" "[0, 7, 0, 0]" "[0, 0, 0, 8]", unfolded u, OF _ _ _ _ _ small_freqs])
      (simp_all add: DEFLATE_MAX_NUM_SYMS_def)
qed

text \<open>C35. The Huffman code construction: for at least three symbols whose frequencies fit 22 bits and a
  length limit that leaves room for a codeword each, \<open>deflate_make_huffman_code\<close> succeeds. No length
  exceeds the limit, every used symbol has a codeword, the lengths fill the code space exactly, the
  codewords are the canonical ones of their lengths with the bits reversed, none is a prefix of
  another, and a more frequent symbol never has a longer codeword than a less frequent one.
\<close>

theorem make_huffman_code_prefix_code:
  assumes "3 \<le> n" "n \<le> DEFLATE_MAX_NUM_SYMS" "n \<le> length freqs" "n \<le> length lens" "n \<le> length codewords"
    and "\<forall>s < n. unat (freqs ! s) < 2 ^ 22" and "1 \<le> L" "L \<le> DEFLATE_MAX_CODEWORD_LEN" "n \<le> 2 ^ L"
  shows "\<exists>lens' cw. deflate_make_huffman_code n L freqs lens codewords = Some (lens', cw) \<and>
    length lens' = length lens \<and> length cw = length codewords \<and>
    huffman_code L freqs (map unat (take n lens')) cw"
  by (rule make_huffman_code_aux [OF assms]) blast

theorem make_huffman_code_prefix_code_witness:
  "\<exists>lens' cw. deflate_make_huffman_code 4 2 [5, 0, 9, 1] [0, 0, 0, 0] [0, 0, 0, 0] = Some (lens', cw) \<and>
     length lens' = length [0, 0, 0, 0 :: byte] \<and> length cw = length [0, 0, 0, 0 :: u32] \<and>
     huffman_code 2 [5, 0, 9, 1] (map unat (take 4 lens')) cw"
  by (rule make_huffman_code_prefix_code [OF _ _ _ _ _ small_freqs])
    (simp_all add: DEFLATE_MAX_NUM_SYMS_def DEFLATE_MAX_CODEWORD_LEN_def)

text \<open>
  The comment allows two symbols; if neither is used, the length that \<open>heap_sort\<close> gets is \<open>0 - 2\<close>,
  since the zero-th counter is not made cumulative.
\<close>

lemma sort_two_unused: "sort_symbols 2 [0, 0] lens [a, b] = None" if "2 \<le> length lens"
  using that by (auto simp: sort_symbols_def GET_NUM_COUNTERS_def DEFLATE_MAX_NUM_SYMS_def fetch_def store_def
    eval_nat_numeral Let_def)

end
