(* ===== verification/Deflate_Sequences.thy ===== *)
theory Deflate_Sequences
  imports Deflate_Huffman Deflate_Stored
begin

text \<open>
  The choices of the DEFLATE parsers (\<^verbatim>\<open>tools/deflate/lib/deflate_compress.c\<close>): the state of a
  compressor, the sequences of literals and matches chosen for a block, the counts of the symbols, and
  the statistics that decide where a block ends. Counters and packed fields keep their width and
  wrap around; \<open>None\<close> is an access outside an array. The union of the parsers' data is a
  type parameter for the match finder and one array of sequences; the precode and the full length
  codewords, which share memory in the source, are separate fields.
\<close>

unbundle bit_operations_syntax

section \<open>Constants\<close>

definition SOFT_MAX_BLOCK_LENGTH :: nat where "SOFT_MAX_BLOCK_LENGTH = 300000"
definition SEQ_STORE_LENGTH :: nat where "SEQ_STORE_LENGTH = 50000"
definition FAST_SOFT_MAX_BLOCK_LENGTH :: nat where "FAST_SOFT_MAX_BLOCK_LENGTH = 65535"
definition FAST_SEQ_STORE_LENGTH :: nat where "FAST_SEQ_STORE_LENGTH = 8192"
definition MAX_LITLEN_CODEWORD_LEN :: nat where "MAX_LITLEN_CODEWORD_LEN = 14"
definition MAX_OFFSET_CODEWORD_LEN :: nat where "MAX_OFFSET_CODEWORD_LEN = DEFLATE_MAX_OFFSET_CODEWORD_LEN"
definition MAX_PRE_CODEWORD_LEN :: nat where "MAX_PRE_CODEWORD_LEN = DEFLATE_MAX_PRE_CODEWORD_LEN"
definition MAX_BLOCK_LENGTH :: nat where
  "MAX_BLOCK_LENGTH =
     max (SOFT_MAX_BLOCK_LENGTH + MIN_BLOCK_LENGTH - 1) (SOFT_MAX_BLOCK_LENGTH + 1 + DEFLATE_MAX_MATCH_LEN)"
definition DEFLATE_NUM_LITERALS :: nat where "DEFLATE_NUM_LITERALS = 256"
definition DEFLATE_END_OF_BLOCK :: nat where "DEFLATE_END_OF_BLOCK = 256"
definition DEFLATE_FIRST_LEN_SYM :: nat where "DEFLATE_FIRST_LEN_SYM = 257"
definition DEFLATE_MIN_MATCH_LEN :: nat where "DEFLATE_MIN_MATCH_LEN = 3"

section \<open>Slots\<close>

definition deflate_length_slot_base :: "nat list" where
  "deflate_length_slot_base =
     [3, 4, 5, 6, 7, 8, 9, 10, 11, 13, 15, 17, 19, 23, 27, 31, 35, 43, 51, 59, 67, 83, 99, 115,
      131, 163, 195, 227, 258]"

definition deflate_extra_length_bits :: "nat list" where
  "deflate_extra_length_bits =
     [0, 0, 0, 0, 0, 0, 0, 0, 1, 1, 1, 1, 2, 2, 2, 2, 3, 3, 3, 3, 4, 4, 4, 4,
      5, 5, 5, 5, 0]"

definition deflate_offset_slot_base :: "nat list" where
  "deflate_offset_slot_base =
     [1, 2, 3, 4, 5, 7, 9, 13, 17, 25, 33, 49,
      65, 97, 129, 193, 257, 385, 513, 769, 1025, 1537, 2049, 3073,
      4097, 6145, 8193, 12289, 16385, 24577]"

definition deflate_extra_offset_bits :: "nat list" where
  "deflate_extra_offset_bits =
     [0, 0, 0, 0, 1, 1, 2, 2, 3, 3, 4, 4, 5, 5, 6, 6, 7, 7, 8, 8, 9, 9, 10, 10,
      11, 11, 12, 12, 13, 13]"

definition deflate_length_slot :: "nat list" where
  "deflate_length_slot =
     [0, 0, 0, 0, 1, 2, 3, 4, 5, 6, 7, 8, 8, 9, 9, 10, 10, 11, 11, 12, 12, 12, 12, 13, 13, 13, 13, 14, 14, 14, 14, 15,
      15, 15, 15, 16, 16, 16, 16, 16, 16, 16, 16, 17, 17, 17, 17, 17, 17, 17, 17, 18, 18, 18, 18, 18, 18, 18, 18, 19, 19, 19, 19, 19,
      19, 19, 19, 20, 20, 20, 20, 20, 20, 20, 20, 20, 20, 20, 20, 20, 20, 20, 20, 21, 21, 21, 21, 21, 21, 21, 21, 21, 21, 21, 21, 21,
      21, 21, 21, 22, 22, 22, 22, 22, 22, 22, 22, 22, 22, 22, 22, 22, 22, 22, 22, 23, 23, 23, 23, 23, 23, 23, 23, 23, 23, 23, 23, 23,
      23, 23, 23, 24, 24, 24, 24, 24, 24, 24, 24, 24, 24, 24, 24, 24, 24, 24, 24, 24, 24, 24, 24, 24, 24, 24, 24, 24, 24, 24, 24, 24,
      24, 24, 24, 25, 25, 25, 25, 25, 25, 25, 25, 25, 25, 25, 25, 25, 25, 25, 25, 25, 25, 25, 25, 25, 25, 25, 25, 25, 25, 25, 25, 25,
      25, 25, 25, 26, 26, 26, 26, 26, 26, 26, 26, 26, 26, 26, 26, 26, 26, 26, 26, 26, 26, 26, 26, 26, 26, 26, 26, 26, 26, 26, 26, 26,
      26, 26, 26, 27, 27, 27, 27, 27, 27, 27, 27, 27, 27, 27, 27, 27, 27, 27, 27, 27, 27, 27, 27, 27, 27, 27, 27, 27, 27, 27, 27, 27,
      27, 27, 28]"

definition deflate_offset_slot :: "nat list" where
  "deflate_offset_slot =
     [0, 0, 1, 2, 3, 4, 4, 5, 5, 6, 6, 6, 6, 7, 7, 7, 7, 8, 8, 8, 8, 8, 8, 8, 8, 9, 9, 9, 9, 9, 9, 9,
      9, 10, 10, 10, 10, 10, 10, 10, 10, 10, 10, 10, 10, 10, 10, 10, 10, 11, 11, 11, 11, 11, 11, 11, 11, 11, 11, 11, 11, 11, 11, 11,
      11, 12, 12, 12, 12, 12, 12, 12, 12, 12, 12, 12, 12, 12, 12, 12, 12, 12, 12, 12, 12, 12, 12, 12, 12, 12, 12, 12, 12, 12, 12, 12,
      12, 13, 13, 13, 13, 13, 13, 13, 13, 13, 13, 13, 13, 13, 13, 13, 13, 13, 13, 13, 13, 13, 13, 13, 13, 13, 13, 13, 13, 13, 13, 13,
      13, 14, 14, 14, 14, 14, 14, 14, 14, 14, 14, 14, 14, 14, 14, 14, 14, 14, 14, 14, 14, 14, 14, 14, 14, 14, 14, 14, 14, 14, 14, 14,
      14, 14, 14, 14, 14, 14, 14, 14, 14, 14, 14, 14, 14, 14, 14, 14, 14, 14, 14, 14, 14, 14, 14, 14, 14, 14, 14, 14, 14, 14, 14, 14,
      14, 15, 15, 15, 15, 15, 15, 15, 15, 15, 15, 15, 15, 15, 15, 15, 15, 15, 15, 15, 15, 15, 15, 15, 15, 15, 15, 15, 15, 15, 15, 15,
      15, 15, 15, 15, 15, 15, 15, 15, 15, 15, 15, 15, 15, 15, 15, 15, 15, 15, 15, 15, 15, 15, 15, 15, 15, 15, 15, 15, 15, 15, 15, 15,
      15, 0, 16, 17, 18, 18, 19, 19, 20, 20, 20, 20, 21, 21, 21, 21, 22, 22, 22, 22, 22, 22, 22, 22, 23, 23, 23, 23, 23, 23, 23, 23,
      24, 24, 24, 24, 24, 24, 24, 24, 24, 24, 24, 24, 24, 24, 24, 24, 25, 25, 25, 25, 25, 25, 25, 25, 25, 25, 25, 25, 25, 25, 25, 25,
      26, 26, 26, 26, 26, 26, 26, 26, 26, 26, 26, 26, 26, 26, 26, 26, 26, 26, 26, 26, 26, 26, 26, 26, 26, 26, 26, 26, 26, 26, 26, 26,
      27, 27, 27, 27, 27, 27, 27, 27, 27, 27, 27, 27, 27, 27, 27, 27, 27, 27, 27, 27, 27, 27, 27, 27, 27, 27, 27, 27, 27, 27, 27, 27,
      28, 28, 28, 28, 28, 28, 28, 28, 28, 28, 28, 28, 28, 28, 28, 28, 28, 28, 28, 28, 28, 28, 28, 28, 28, 28, 28, 28, 28, 28, 28, 28,
      28, 28, 28, 28, 28, 28, 28, 28, 28, 28, 28, 28, 28, 28, 28, 28, 28, 28, 28, 28, 28, 28, 28, 28, 28, 28, 28, 28, 28, 28, 28, 28,
      29, 29, 29, 29, 29, 29, 29, 29, 29, 29, 29, 29, 29, 29, 29, 29, 29, 29, 29, 29, 29, 29, 29, 29, 29, 29, 29, 29, 29, 29, 29, 29,
      29, 29, 29, 29, 29, 29, 29, 29, 29, 29, 29, 29, 29, 29, 29, 29, 29, 29, 29, 29, 29, 29, 29, 29, 29, 29, 29, 29, 29, 29, 29, 29]"

definition deflate_get_offset_slot :: "nat \<Rightarrow> nat option" where
  "deflate_get_offset_slot off =
     (if off \<le> 256 then fetch deflate_offset_slot off
      else fetch deflate_offset_slot (256 + drop_bit 7 (off - 1)))"

section \<open>State\<close>

record deflate_freqs =
  litlen_freqs :: "u32 list"
  offset_freqs :: "u32 list"

record deflate_codes =
  litlen_codewords :: "u32 list"
  offset_codewords :: "u32 list"
  litlen_lens :: "byte list"
  offset_lens :: "byte list"

record deflate_sequence =
  litrunlen_and_length :: u32
  seq_offset :: u16
  seq_offset_slot :: u16

record block_split_stats =
  new_observations :: "u32 list"
  observations :: "u32 list"
  num_new_observations :: u32
  num_observations :: u32

record precode_info =
  pre_freqs :: "u32 list"
  pre_codewords :: "u32 list"
  pre_lens :: "byte list"
  pre_items :: "u32 list"
  num_litlen_syms :: nat
  num_offset_syms :: nat
  num_explicit_lens :: nat
  num_items :: nat

record full_lengths =
  len_codewords :: "u32 list"
  len_lens :: "byte list"

record 'm compressor =
  max_search_depth :: u32
  nice_match_length :: nat
  freqs :: deflate_freqs
  split_stats :: block_split_stats
  codes :: deflate_codes
  static_codes :: deflate_codes
  precode :: precode_info
  lengths :: full_lengths
  matchfinder :: 'm
  sequences :: "deflate_sequence list"

text \<open>\<^verbatim>\<open>a[i]++\<close>.\<close>

definition incr :: "u32 list \<Rightarrow> nat \<Rightarrow> u32 list option" where
  "incr A i = do { x \<leftarrow> fetch A i; store A i (x + 1) }"

section \<open>Block splitting\<close>

definition NUM_LITERAL_OBSERVATION_TYPES :: nat where "NUM_LITERAL_OBSERVATION_TYPES = 8"
definition NUM_MATCH_OBSERVATION_TYPES :: nat where "NUM_MATCH_OBSERVATION_TYPES = 2"
definition NUM_OBSERVATION_TYPES :: nat where
  "NUM_OBSERVATION_TYPES = NUM_LITERAL_OBSERVATION_TYPES + NUM_MATCH_OBSERVATION_TYPES"
definition NUM_OBSERVATIONS_PER_BLOCK_CHECK :: u32 where "NUM_OBSERVATIONS_PER_BLOCK_CHECK = 512"

definition init_block_split_stats :: "block_split_stats \<Rightarrow> block_split_stats" where
  "init_block_split_stats st =
     st\<lparr>new_observations := replicate NUM_OBSERVATION_TYPES 0, observations := replicate NUM_OBSERVATION_TYPES 0,
       num_new_observations := 0, num_observations := 0\<rparr>"

definition observe :: "nat \<Rightarrow> block_split_stats \<Rightarrow> block_split_stats option" where
  "observe i st =
     do {
       obs \<leftarrow> incr (new_observations st) i;
       Some (st\<lparr>new_observations := obs, num_new_observations := num_new_observations st + 1\<rparr>) }"

definition observe_literal :: "byte \<Rightarrow> block_split_stats \<Rightarrow> block_split_stats option" where
  "observe_literal lit st = observe (unat ((drop_bit 5 lit AND 0x6) OR (lit AND 1))) st"

definition observe_match :: "nat \<Rightarrow> block_split_stats \<Rightarrow> block_split_stats option" where
  "observe_match len st = observe (NUM_LITERAL_OBSERVATION_TYPES + (if 9 \<le> len then 1 else 0)) st"

definition merge_new_observations :: "block_split_stats \<Rightarrow> block_split_stats" where
  "merge_new_observations st =
     st\<lparr>observations := map2 (+) (observations st) (new_observations st),
       new_observations := map (\<lambda>_. 0) (new_observations st),
       num_observations := num_observations st + num_new_observations st,
       num_new_observations := 0\<rparr>"

definition total_delta :: "block_split_stats \<Rightarrow> u32" where
  "total_delta st =
     sum_list (map2 (\<lambda>old new.
       let expected = old * num_new_observations st; actual = new * num_observations st
       in if actual > expected then actual - expected else expected - actual)
       (observations st) (new_observations st))"

definition end_cutoff :: "block_split_stats \<Rightarrow> u32 \<Rightarrow> u32" where
  "end_cutoff st block_length =
     (let num_items = num_observations st + num_new_observations st;
          cutoff = num_new_observations st * 200 div 512 * num_observations st
      in if block_length < 10000 \<and> num_items < 8192
         then cutoff + ucast (ucast cutoff * ucast (8192 - num_items) div 8192 :: u64)
         else cutoff)"

definition do_end_block_check :: "block_split_stats \<Rightarrow> u32 \<Rightarrow> bool \<times> block_split_stats" where
  "do_end_block_check st block_length =
     (if 0 < num_observations st \<and>
         end_cutoff st block_length \<le> total_delta st + block_length div 4096 * num_observations st
      then (True, st)
      else (False, merge_new_observations st))"

definition ready_to_check_block :: "block_split_stats \<Rightarrow> nat \<Rightarrow> nat \<Rightarrow> nat \<Rightarrow> bool" where
  "ready_to_check_block st in_block_begin cur fin \<longleftrightarrow>
     NUM_OBSERVATIONS_PER_BLOCK_CHECK \<le> num_new_observations st \<and>
     MIN_BLOCK_LENGTH \<le> cur - in_block_begin \<and> MIN_BLOCK_LENGTH \<le> fin - cur"

definition should_end_block :: "block_split_stats \<Rightarrow> nat \<Rightarrow> nat \<Rightarrow> nat \<Rightarrow> bool \<times> block_split_stats" where
  "should_end_block st in_block_begin cur fin =
     (if \<not> ready_to_check_block st in_block_begin cur fin then (False, st)
      else do_end_block_check st (of_nat (cur - in_block_begin)))"

section \<open>Sequences\<close>

definition SEQ_LENGTH_SHIFT :: nat where "SEQ_LENGTH_SHIFT = 23"
definition SEQ_LITRUNLEN_MASK :: u32 where "SEQ_LITRUNLEN_MASK = push_bit SEQ_LENGTH_SHIFT 1 - 1"

definition deflate_reset_symbol_frequencies :: "'m compressor \<Rightarrow> 'm compressor" where
  "deflate_reset_symbol_frequencies c =
     c\<lparr>freqs := \<lparr>litlen_freqs = map (\<lambda>_. 0) (litlen_freqs (freqs c)), offset_freqs = map (\<lambda>_. 0) (offset_freqs (freqs c))\<rparr>\<rparr>"

text \<open>\<^verbatim>\<open>seq->litrunlen_and_length = f(seq->litrunlen_and_length)\<close>.\<close>

definition update_run :: "(u32 \<Rightarrow> u32) \<Rightarrow> nat \<Rightarrow> 'm compressor \<Rightarrow> 'm compressor option" where
  "update_run f i c =
     do {
       s \<leftarrow> fetch (sequences c) i;
       seqs \<leftarrow> store (sequences c) i (s\<lparr>litrunlen_and_length := f (litrunlen_and_length s)\<rparr>);
       Some (c\<lparr>sequences := seqs\<rparr>) }"

definition deflate_begin_sequences :: "'m compressor \<Rightarrow> 'm compressor option" where
  "deflate_begin_sequences c = update_run (\<lambda>_. 0) 0 (deflate_reset_symbol_frequencies c)"

definition count_litlen :: "nat \<Rightarrow> 'm compressor \<Rightarrow> 'm compressor option" where
  "count_litlen s c =
     do { f \<leftarrow> incr (litlen_freqs (freqs c)) s; Some (c\<lparr>freqs := (freqs c)\<lparr>litlen_freqs := f\<rparr>\<rparr>) }"

definition count_offset :: "nat \<Rightarrow> 'm compressor \<Rightarrow> 'm compressor option" where
  "count_offset s c =
     do { f \<leftarrow> incr (offset_freqs (freqs c)) s; Some (c\<lparr>freqs := (freqs c)\<lparr>offset_freqs := f\<rparr>\<rparr>) }"

definition gather :: "bool \<Rightarrow> (block_split_stats \<Rightarrow> block_split_stats option) \<Rightarrow> 'm compressor \<Rightarrow> 'm compressor option" where
  "gather b obs c = (if b then map_option (\<lambda>st. c\<lparr>split_stats := st\<rparr>) (obs (split_stats c)) else Some c)"

definition deflate_choose_literal :: "byte \<Rightarrow> bool \<Rightarrow> nat \<Rightarrow> 'm compressor \<Rightarrow> 'm compressor option" where
  "deflate_choose_literal lit gather_split_stats sq c =
     do {
       c \<leftarrow> count_litlen (unat lit) c;
       c \<leftarrow> gather gather_split_stats (observe_literal lit) c;
       update_run (\<lambda>x. x + 1) sq c }"

definition set_match :: "nat \<Rightarrow> nat \<Rightarrow> nat \<Rightarrow> nat \<Rightarrow> 'm compressor \<Rightarrow> 'm compressor option" where
  "set_match len off slot i c =
     do {
       s \<leftarrow> fetch (sequences c) i;
       seqs \<leftarrow> store (sequences c) i
         \<lparr>litrunlen_and_length = litrunlen_and_length s OR push_bit SEQ_LENGTH_SHIFT (of_nat len),
          seq_offset = of_nat off, seq_offset_slot = of_nat slot\<rparr>;
       Some (c\<lparr>sequences := seqs\<rparr>) }"

text \<open>The second component of the result is the place of the next sequence.\<close>

definition deflate_choose_match :: "nat \<Rightarrow> nat \<Rightarrow> bool \<Rightarrow> nat \<Rightarrow> 'm compressor \<Rightarrow> ('m compressor \<times> nat) option" where
  "deflate_choose_match len off gather_split_stats sq c =
     do {
       length_slot \<leftarrow> fetch deflate_length_slot len;
       offset_slot \<leftarrow> deflate_get_offset_slot off;
       c \<leftarrow> count_litlen (DEFLATE_FIRST_LEN_SYM + length_slot) c;
       c \<leftarrow> count_offset offset_slot c;
       c \<leftarrow> gather gather_split_stats (observe_match len) c;
       c \<leftarrow> set_match len off offset_slot sq c;
       c \<leftarrow> update_run (\<lambda>_. 0) (sq + 1) c;
       Some (c, sq + 1) }"

section \<open>The length of matches and blocks\<close>

definition adjust_max_and_nice_len :: "nat \<Rightarrow> nat \<times> nat \<Rightarrow> nat \<times> nat" where
  "adjust_max_and_nice_len remaining = (\<lambda>(max_len, nice_len).
     if remaining < DEFLATE_MAX_MATCH_LEN then (remaining, min nice_len remaining) else (max_len, nice_len))"

definition min_lens :: "nat list" where
  "min_lens =
     [9, 9, 9, 9, 9, 9, 8, 8, 7, 7, 6, 6, 6, 6, 6, 6, 5, 5, 5, 5, 5, 5, 5, 5, 5, 5, 5, 5, 5, 5, 5, 5,
      5, 5, 5, 5, 5, 5, 5, 5, 5, 5, 5, 5, 5, 4, 4, 4, 4, 4, 4, 4, 4, 4, 4, 4, 4, 4, 4, 4, 4, 4, 4, 4,
      4, 4, 4, 4, 4, 4, 4, 4, 4, 4, 4, 4, 4, 4, 4, 4]"

definition choose_min_match_len :: "nat \<Rightarrow> u32 \<Rightarrow> nat" where
  "choose_min_match_len num_used_literals depth =
     (if length min_lens \<le> num_used_literals then 3
      else
        let min_len = min_lens ! num_used_literals in
        if depth < 16 then (if depth < 5 then min min_len 4 else if depth < 10 then min min_len 5 else min min_len 7)
        else min_len)"

definition calculate_min_match_len :: "byte list \<Rightarrow> nat \<Rightarrow> nat \<Rightarrow> u32 \<Rightarrow> nat option" where
  "calculate_min_match_len inp start data_len depth =
     (let n = min data_len 4096; data = take n (drop start inp);
          used = fold (\<lambda>b used. used[unat b := 1]) data (replicate 256 (0 :: nat))
      in if start + n \<le> length inp then Some (choose_min_match_len (sum_list used) depth) else None)"

definition recalculate_min_match_len :: "deflate_freqs \<Rightarrow> u32 \<Rightarrow> nat" where
  "recalculate_min_match_len fr depth =
     (let lits = take DEFLATE_NUM_LITERALS (litlen_freqs fr); cutoff = drop_bit 10 (sum_list lits)
      in choose_min_match_len (length (filter (\<lambda>f. cutoff < f) lits)) depth)"

definition choose_max_block_end :: "nat \<Rightarrow> nat \<Rightarrow> nat \<Rightarrow> nat" where
  "choose_max_block_end in_block_begin fin soft_max_len =
     (if fin - in_block_begin < soft_max_len + MIN_BLOCK_LENGTH then fin else in_block_begin + soft_max_len)"

end
