(* ===== verification/Deflate_Output.thy ===== *)
theory Deflate_Output
  imports Deflate_Sequences
begin

text \<open>
  Writing a block (\<^verbatim>\<open>tools/deflate/lib/deflate_compress.c\<close>): the output bit stream, the lengths of the
  codewords in run-length form with their own code, the full codewords of the match lengths, the costs of the
  three kinds of block, and the block itself. The position in the output buffer and the number of bits in the
  bit buffer are natural numbers; the bit buffer has 64 bits. \<open>None\<close> is an access outside an array.
\<close>

section \<open>The bit stream\<close>

record ostream =
  obuf :: u64
  obits :: nat
  onext :: nat
  oend :: nat
  obytes :: "byte list"

definition OUT_BITBUF_NBITS :: nat where "OUT_BITBUF_NBITS = 8 * 8 - 1"

definition CAN_BUFFER :: "nat \<Rightarrow> bool" where "CAN_BUFFER n \<longleftrightarrow> 7 + n \<le> OUT_BITBUF_NBITS"

definition ADD_BITS :: "u64 \<Rightarrow> nat \<Rightarrow> ostream \<Rightarrow> ostream" where
  "ADD_BITS bits n os = os\<lparr>obuf := obuf os OR push_bit (obits os) bits, obits := obits os + n\<rparr>"

definition put_word :: "platform \<Rightarrow> u64 \<Rightarrow> nat \<Rightarrow> byte list \<Rightarrow> byte list option" where
  "put_word P v i out =
     (if i + WORDBYTES \<le> length out then Some (take i out @ put_unaligned_leword P v (drop i out)) else None)"

text \<open>\<^verbatim>\<open>bitcount & ~7\<close>, the bits of the whole bytes.\<close>

definition whole_bits :: "nat \<Rightarrow> nat" where "whole_bits n = n - n mod 8"

fun flush_bytes :: "nat \<Rightarrow> ostream \<Rightarrow> ostream option" where
  "flush_bytes 0 os = Some os"
| "flush_bytes (Suc k) os =
     do {
       out \<leftarrow> store (obytes os) (onext os) (ucast (obuf os));
       flush_bytes k (os\<lparr>obytes := out,
         onext := (if onext os \<noteq> oend os then onext os + 1 else onext os),
         obits := obits os - 8, obuf := drop_bit 8 (obuf os)\<rparr>) }"

definition FLUSH_BITS :: "platform \<Rightarrow> ostream \<Rightarrow> ostream option" where
  "FLUSH_BITS P os =
     (if unaligned_fast P
      then do {
        out \<leftarrow> put_word P (obuf os) (onext os) (obytes os);
        Some (os\<lparr>obytes := out, obuf := drop_bit (whole_bits (obits os)) (obuf os),
          onext := onext os + min (oend os - onext os) (obits os div 8),
          obits := obits os mod 8\<rparr>) }
      else flush_bytes (obits os div 8) os)"

section \<open>The lengths in run-length form\<close>

text \<open>The end of the run of \<open>len\<close> that contains the place \<open>i\<close>.\<close>

function run_end_from :: "byte list \<Rightarrow> nat \<Rightarrow> byte \<Rightarrow> nat \<Rightarrow> nat option" where
  "run_end_from ls num_lens len run_end =
     (if num_lens \<le> run_end then Some run_end
      else do { l \<leftarrow> fetch ls run_end; if len = l then run_end_from ls num_lens len (run_end + 1) else Some run_end })"
  by pat_completeness auto
termination by (relation "measure (\<lambda>(ls, n, len, e). n - e)") auto

declare run_end_from.simps [simp del]

text \<open>One item: its symbol is counted, and it is appended.\<close>

type_synonym items = "u32 list \<times> u32 list"

definition put_item :: "nat \<Rightarrow> nat \<Rightarrow> items \<Rightarrow> items option" where
  "put_item presym extra_bits = (\<lambda>(pf, its).
     do {
       pf \<leftarrow> incr pf presym;
       if length its < DEFLATE_NUM_LITLEN_SYMS + DEFLATE_NUM_OFFSET_SYMS
       then Some (pf, its @ [of_nat presym OR push_bit 5 (of_nat extra_bits)]) else None })"

text \<open>Runs as symbol 18, as long as eleven zeros are left.\<close>

function long_zeros :: "nat \<Rightarrow> items \<Rightarrow> (nat \<times> items) option" where
  "long_zeros n its =
     (if 11 \<le> n
      then do { its \<leftarrow> put_item 18 (min (n - 11) 0x7F) its; long_zeros (n - (11 + min (n - 11) 0x7F)) its }
      else Some (n, its))"
  by pat_completeness auto
termination by (relation "measure (\<lambda>(n, its). n)") auto

declare long_zeros.simps [simp del]

definition short_zeros :: "nat \<Rightarrow> items \<Rightarrow> (nat \<times> items) option" where
  "short_zeros n its =
     (if 3 \<le> n then do { its \<leftarrow> put_item 17 (min (n - 3) 0x7) its; Some (n - (3 + min (n - 3) 0x7), its) }
      else Some (n, its))"

text \<open>Repetitions of a length as symbol 16, at least one.\<close>

function repeat_len :: "nat \<Rightarrow> items \<Rightarrow> (nat \<times> items) option" where
  "repeat_len n its =
     (let extra_bits = min (n - 3) 0x3 in
      do {
        its \<leftarrow> put_item 16 extra_bits its;
        if 3 \<le> n - (3 + extra_bits) then repeat_len (n - (3 + extra_bits)) its else Some (n - (3 + extra_bits), its) })"
  by pat_completeness auto
termination by (relation "measure (\<lambda>(n, its). n)") auto

declare repeat_len.simps [simp del]

definition nonzero_run :: "byte \<Rightarrow> nat \<Rightarrow> items \<Rightarrow> (nat \<times> items) option" where
  "nonzero_run len n its =
     (if 4 \<le> n then do { its \<leftarrow> put_item (unat len) 0 its; repeat_len (n - 1) its } else Some (n, its))"

fun single_lens :: "byte \<Rightarrow> nat \<Rightarrow> items \<Rightarrow> items option" where
  "single_lens len 0 its = Some its"
| "single_lens len (Suc n) its = do { its \<leftarrow> put_item (unat len) 0 its; single_lens len n its }"

definition run_items :: "byte \<Rightarrow> nat \<Rightarrow> items \<Rightarrow> items option" where
  "run_items len n its =
     do {
       (n, its) \<leftarrow> (if len = 0 then do { (n, its) \<leftarrow> long_zeros n its; short_zeros n its } else nonzero_run len n its);
       single_lens len n its }"

lemma run_end_later: "run_end_from ls n len e = Some e' \<Longrightarrow> e \<le> e'"
proof (induction ls n len e rule: run_end_from.induct)
  case (1 ls n len e)
  show ?case
  proof (cases "n \<le> e")
    case False
    then obtain l where l: "fetch ls e = Some l" using 1(2) by (subst (asm) run_end_from.simps) (auto split: bind_splits)
    show ?thesis
    proof (cases "len = l")
      case True
      then have "e + 1 \<le> e'" using False l 1 by (subst (asm) run_end_from.simps) simp
      then show ?thesis by simp
    qed (use False l 1(2) in \<open>subst (asm) run_end_from.simps; simp\<close>)
  qed (use 1(2) in \<open>subst (asm) run_end_from.simps; simp\<close>)
qed

function precode_items_loop :: "byte list \<Rightarrow> nat \<Rightarrow> nat \<Rightarrow> items \<Rightarrow> items option" where
  "precode_items_loop ls num_lens run_start its =
     (case fetch ls run_start of
        None \<Rightarrow> None
      | Some len \<Rightarrow>
         (case run_end_from ls num_lens len (run_start + 1) of
            None \<Rightarrow> None
          | Some run_end \<Rightarrow>
             do {
               its \<leftarrow> run_items len (run_end - run_start) its;
               if run_end < num_lens then precode_items_loop ls num_lens run_end its else Some its }))"
  by pat_completeness auto
termination
  by (relation "measure (\<lambda>(ls, n, s, its). n - s)") (auto dest: run_end_later)

declare precode_items_loop.simps [simp del]

definition deflate_compute_precode_items :: "byte list \<Rightarrow> nat \<Rightarrow> items option" where
  "deflate_compute_precode_items ls num_lens =
     precode_items_loop ls num_lens 0 (replicate DEFLATE_NUM_PRECODE_SYMS 0, [])"

section \<open>The Huffman codes of a block\<close>

definition deflate_make_huffman_codes :: "deflate_freqs \<Rightarrow> deflate_codes \<Rightarrow> deflate_codes option" where
  "deflate_make_huffman_codes fr cs =
     do {
       (ll, lc) \<leftarrow> deflate_make_huffman_code DEFLATE_NUM_LITLEN_SYMS MAX_LITLEN_CODEWORD_LEN
         (litlen_freqs fr) (litlen_lens cs) (litlen_codewords cs);
       (ol, oc) \<leftarrow> deflate_make_huffman_code DEFLATE_NUM_OFFSET_SYMS MAX_OFFSET_CODEWORD_LEN
         (offset_freqs fr) (offset_lens cs) (offset_codewords cs);
       Some \<lparr>litlen_codewords = lc, offset_codewords = oc, litlen_lens = ll, offset_lens = ol\<rparr> }"

definition static_litlen_freqs :: "u32 list \<Rightarrow> u32 list option" where
  "static_litlen_freqs fs =
     splice 0 (replicate 144 (push_bit (9 - 8) 1) @ replicate 112 (push_bit (9 - 9) 1) @
       replicate 24 (push_bit (9 - 7) 1) @ replicate 8 (push_bit (9 - 8) 1)) fs"

definition deflate_init_static_codes :: "'m compressor \<Rightarrow> 'm compressor option" where
  "deflate_init_static_codes c =
     do {
       lf \<leftarrow> static_litlen_freqs (litlen_freqs (freqs c));
       ofr \<leftarrow> splice 0 (replicate 32 (push_bit (5 - 5) 1)) (offset_freqs (freqs c));
       let fr = \<lparr>litlen_freqs = lf, offset_freqs = ofr\<rparr>;
       cs \<leftarrow> deflate_make_huffman_codes fr (static_codes c);
       Some (c\<lparr>freqs := fr, static_codes := cs\<rparr>) }"

text \<open>The number of lengths up to the last one that is not 0, but at least \<open>least\<close>.\<close>

fun trim_lens :: "(nat \<Rightarrow> byte option) \<Rightarrow> nat \<Rightarrow> nat \<Rightarrow> nat option" where
  "trim_lens len_at least 0 = Some 0"
| "trim_lens len_at least (Suc n) =
     (if least < Suc n then do { l \<leftarrow> len_at n; if l \<noteq> 0 then Some (Suc n) else trim_lens len_at least n }
      else Some (Suc n))"

text \<open>\<^verbatim>\<open>memmove\<close> within the two arrays of lengths, which are contiguous.\<close>

definition move_lens :: "nat \<Rightarrow> nat \<Rightarrow> nat \<Rightarrow> byte list \<Rightarrow> byte list option" where
  "move_lens dst src n ls = do { vs \<leftarrow> slice src n ls; splice dst vs ls }"

definition permuted_len :: "byte list \<Rightarrow> nat \<Rightarrow> byte option" where
  "permuted_len ls i = do { s \<leftarrow> fetch deflate_precode_lens_permutation i; fetch ls s }"

definition deflate_precompute_huffman_header :: "'m compressor \<Rightarrow> 'm compressor option" where
  "deflate_precompute_huffman_header c =
     do {
       let cs = codes c;
       let pre = precode c;
       nl \<leftarrow> trim_lens (fetch (litlen_lens cs)) 257 DEFLATE_NUM_LITLEN_SYMS;
       no \<leftarrow> trim_lens (fetch (offset_lens cs)) 1 DEFLATE_NUM_OFFSET_SYMS;
       let all = litlen_lens cs @ offset_lens cs;
       all \<leftarrow> (if nl \<noteq> DEFLATE_NUM_LITLEN_SYMS then move_lens nl DEFLATE_NUM_LITLEN_SYMS no all else Some all);
       (pf, its) \<leftarrow> deflate_compute_precode_items all (nl + no);
       (pl, pc) \<leftarrow> deflate_make_huffman_code DEFLATE_NUM_PRECODE_SYMS MAX_PRE_CODEWORD_LEN pf (pre_lens pre) (pre_codewords pre);
       ne \<leftarrow> trim_lens (permuted_len pl) 4 DEFLATE_NUM_PRECODE_SYMS;
       all \<leftarrow> (if nl \<noteq> DEFLATE_NUM_LITLEN_SYMS then move_lens DEFLATE_NUM_LITLEN_SYMS nl no all else Some all);
       Some (c\<lparr>codes := cs\<lparr>litlen_lens := take DEFLATE_NUM_LITLEN_SYMS all, offset_lens := drop DEFLATE_NUM_LITLEN_SYMS all\<rparr>,
         precode := \<lparr>pre_freqs = pf, pre_codewords = pc, pre_lens = pl, pre_items = its, num_litlen_syms = nl,
           num_offset_syms = no, num_explicit_lens = ne, num_items = length its\<rparr>\<rparr>) }"

section \<open>Matches and literals\<close>

fun full_len_loop :: "deflate_codes \<Rightarrow> nat list \<Rightarrow> full_lengths \<Rightarrow> full_lengths option" where
  "full_len_loop cs [] f = Some f"
| "full_len_loop cs (len # rest) f =
     do {
       slot \<leftarrow> fetch deflate_length_slot len;
       base \<leftarrow> fetch deflate_length_slot_base slot;
       extra \<leftarrow> fetch deflate_extra_length_bits slot;
       cw \<leftarrow> fetch (litlen_codewords cs) (DEFLATE_FIRST_LEN_SYM + slot);
       l \<leftarrow> fetch (litlen_lens cs) (DEFLATE_FIRST_LEN_SYM + slot);
       fc \<leftarrow> store (len_codewords f) len (cw OR push_bit (unat l) (of_nat len - of_nat base));
       fl \<leftarrow> store (len_lens f) len (l + of_nat extra);
       full_len_loop cs rest \<lparr>len_codewords = fc, len_lens = fl\<rparr> }"

definition deflate_compute_full_len_codewords :: "deflate_codes \<Rightarrow> 'm compressor \<Rightarrow> 'm compressor option" where
  "deflate_compute_full_len_codewords cs c =
     map_option (\<lambda>f. c\<lparr>lengths := f\<rparr>) (full_len_loop cs [DEFLATE_MIN_MATCH_LEN..<DEFLATE_MAX_MATCH_LEN + 1] (lengths c))"

definition flush_unless :: "nat \<Rightarrow> platform \<Rightarrow> ostream \<Rightarrow> ostream option" where
  "flush_unless n P os = (if CAN_BUFFER n then Some os else FLUSH_BITS P os)"

definition add_code :: "u32 list \<Rightarrow> byte list \<Rightarrow> nat \<Rightarrow> ostream \<Rightarrow> ostream option" where
  "add_code cws ls s os = do { cw \<leftarrow> fetch cws s; l \<leftarrow> fetch ls s; Some (ADD_BITS (ucast cw) (unat l) os) }"

definition WRITE_MATCH :: "platform \<Rightarrow> full_lengths \<Rightarrow> deflate_codes \<Rightarrow> nat \<Rightarrow> nat \<Rightarrow> nat \<Rightarrow> ostream \<Rightarrow> ostream option" where
  "WRITE_MATCH P f cs len off slot os =
     do {
       os \<leftarrow> add_code (len_codewords f) (len_lens f) len os;
       os \<leftarrow> flush_unless (MAX_LITLEN_CODEWORD_LEN + DEFLATE_MAX_EXTRA_LENGTH_BITS + MAX_OFFSET_CODEWORD_LEN +
         DEFLATE_MAX_EXTRA_OFFSET_BITS) P os;
       os \<leftarrow> add_code (offset_codewords cs) (offset_lens cs) slot os;
       os \<leftarrow> flush_unless (MAX_OFFSET_CODEWORD_LEN + DEFLATE_MAX_EXTRA_OFFSET_BITS) P os;
       base \<leftarrow> fetch deflate_offset_slot_base slot;
       extra \<leftarrow> fetch deflate_extra_offset_bits slot;
       FLUSH_BITS P (ADD_BITS (ucast (of_nat off - of_nat base :: u32)) extra os) }"

definition add_literal :: "deflate_codes \<Rightarrow> byte list \<Rightarrow> nat \<Rightarrow> ostream \<Rightarrow> ostream option" where
  "add_literal cs inp cur os = do { b \<leftarrow> fetch inp cur; add_code (litlen_codewords cs) (litlen_lens cs) (unat b) os }"

fun add_literals :: "deflate_codes \<Rightarrow> byte list \<Rightarrow> nat \<Rightarrow> nat \<Rightarrow> ostream \<Rightarrow> ostream option" where
  "add_literals cs inp 0 cur os = Some os"
| "add_literals cs inp (Suc n) cur os = do { os \<leftarrow> add_literal cs inp cur os; add_literals cs inp n (cur + 1) os }"

text \<open>Four literals at a time, then up to three.\<close>

function literal_quads :: "platform \<Rightarrow> deflate_codes \<Rightarrow> byte list \<Rightarrow> nat \<Rightarrow> nat \<Rightarrow> ostream \<Rightarrow> ostream option" where
  "literal_quads P cs inp litrunlen cur os =
     (if 4 \<le> litrunlen
      then do {
        os \<leftarrow> add_literals cs inp 4 cur os;
        os \<leftarrow> FLUSH_BITS P os;
        literal_quads P cs inp (litrunlen - 4) (cur + 4) os }
      else if litrunlen \<noteq> 0 then do { os \<leftarrow> add_literals cs inp litrunlen cur os; FLUSH_BITS P os }
      else Some os)"
  by pat_completeness auto
termination by (relation "measure (\<lambda>(P, cs, inp, n, cur, os). n)") auto

declare literal_quads.simps [simp del]

fun literal_singles :: "platform \<Rightarrow> deflate_codes \<Rightarrow> byte list \<Rightarrow> nat \<Rightarrow> nat \<Rightarrow> ostream \<Rightarrow> ostream option" where
  "literal_singles P cs inp 0 cur os = Some os"
| "literal_singles P cs inp (Suc n) cur os =
     do { os \<leftarrow> add_literal cs inp cur os; os \<leftarrow> FLUSH_BITS P os; literal_singles P cs inp n (cur + 1) os }"

definition write_literals :: "platform \<Rightarrow> deflate_codes \<Rightarrow> byte list \<Rightarrow> nat \<Rightarrow> nat \<Rightarrow> ostream \<Rightarrow> ostream option" where
  "write_literals P cs inp litrunlen cur os =
     (if CAN_BUFFER (4 * MAX_LITLEN_CODEWORD_LEN) then literal_quads P cs inp litrunlen cur os
      else literal_singles P cs inp litrunlen cur os)"

text \<open>The sequences of a block from \<open>sq\<close> on, up to the one without a match; the result has the place in the input.\<close>

fun write_sequences :: "platform \<Rightarrow> full_lengths \<Rightarrow> deflate_codes \<Rightarrow> byte list \<Rightarrow> deflate_sequence list \<Rightarrow> nat \<Rightarrow> ostream \<Rightarrow>
    (nat \<times> ostream) option" where
  "write_sequences P f cs inp [] cur os = None"
| "write_sequences P f cs inp (sq # seqs) cur os =
     do {
       let litrunlen = unat (litrunlen_and_length sq AND SEQ_LITRUNLEN_MASK);
       let len = unat (drop_bit SEQ_LENGTH_SHIFT (litrunlen_and_length sq));
       os \<leftarrow> write_literals P cs inp litrunlen cur os;
       if len = 0 then Some (cur + litrunlen, os)
       else do {
         os \<leftarrow> WRITE_MATCH P f cs len (unat (seq_offset sq)) (unat (seq_offset_slot sq)) os;
         write_sequences P f cs inp seqs (cur + litrunlen + len) os } }"

section \<open>Costs\<close>

fun add_terms :: "(nat \<Rightarrow> u32 option) \<Rightarrow> nat list \<Rightarrow> u32 \<Rightarrow> u32 option" where
  "add_terms term [] acc = Some acc"
| "add_terms term (s # ss) acc = do { t \<leftarrow> term s; add_terms term ss (acc + t) }"

text \<open>\<^verbatim>\<open>freqs[sym] * (extra + lens[sym])\<close>; and with a fixed number of bits.\<close>

definition coded :: "u32 list \<Rightarrow> byte list \<Rightarrow> (nat \<Rightarrow> nat option) \<Rightarrow> nat \<Rightarrow> u32 option" where
  "coded fs ls extra s = do { f \<leftarrow> fetch fs s; e \<leftarrow> extra s; l \<leftarrow> fetch ls s; Some (f * (of_nat e + ucast l)) }"

definition coded_fixed :: "u32 list \<Rightarrow> nat \<Rightarrow> (nat \<Rightarrow> nat option) \<Rightarrow> nat \<Rightarrow> u32 option" where
  "coded_fixed fs n extra s = do { f \<leftarrow> fetch fs s; e \<leftarrow> extra s; Some (f * (of_nat e + of_nat n)) }"

definition deflate_extra_precode_bits :: "nat list" where
  "deflate_extra_precode_bits = [0, 0, 0, 0, 0, 0, 0, 0, 0, 0, 0, 0, 0, 0, 0, 0, 2, 3, 7]"

definition len_extra :: "nat \<Rightarrow> nat option" where
  "len_extra s = fetch deflate_extra_length_bits (s - DEFLATE_FIRST_LEN_SYM)"

definition len_syms :: "nat list" where
  "len_syms = [DEFLATE_FIRST_LEN_SYM..<DEFLATE_FIRST_LEN_SYM + length deflate_extra_length_bits]"

definition off_syms :: "nat list" where "off_syms = [0..<length deflate_extra_offset_bits]"

definition dynamic_cost :: "'m compressor \<Rightarrow> u32 option" where
  "dynamic_cost c =
     (let lf = litlen_freqs (freqs c); ll = litlen_lens (codes c); pre = precode c in
      do {
        d \<leftarrow> add_terms (coded (pre_freqs pre) (pre_lens pre) (fetch deflate_extra_precode_bits)) [0..<DEFLATE_NUM_PRECODE_SYMS]
          (5 + 5 + 4 + 3 * of_nat (num_explicit_lens pre));
        d \<leftarrow> add_terms (coded lf ll (\<lambda>_. Some 0)) [0..<144] d;
        d \<leftarrow> add_terms (coded lf ll (\<lambda>_. Some 0)) [144..<256] d;
        e \<leftarrow> fetch ll DEFLATE_END_OF_BLOCK;
        d \<leftarrow> add_terms (coded lf ll len_extra) len_syms (d + ucast e);
        add_terms (coded (offset_freqs (freqs c)) (offset_lens (codes c)) (fetch deflate_extra_offset_bits)) off_syms d })"

definition static_cost :: "'m compressor \<Rightarrow> u32 option" where
  "static_cost c =
     (let lf = litlen_freqs (freqs c) in
      do {
        d \<leftarrow> add_terms (coded_fixed lf 8 (\<lambda>_. Some 0)) [0..<144] 0;
        d \<leftarrow> add_terms (coded_fixed lf 9 (\<lambda>_. Some 0)) [144..<256] d;
        d \<leftarrow> add_terms (coded lf (litlen_lens (static_codes c)) len_extra) len_syms (d + 7);
        add_terms (coded_fixed (offset_freqs (freqs c)) 5 (fetch deflate_extra_offset_bits)) off_syms d })"

definition uncompressed_cost :: "nat \<Rightarrow> nat \<Rightarrow> u32" where
  "uncompressed_cost n block_length =
     (- (of_nat n + 3) AND 7) + 32 + 40 * (of_nat (DIV_ROUND_UP block_length UINT16_MAX) - 1) + 8 * of_nat block_length"

section \<open>Blocks\<close>

fun write_pre_lens :: "byte list \<Rightarrow> nat \<Rightarrow> nat \<Rightarrow> ostream \<Rightarrow> ostream option" where
  "write_pre_lens pl i 0 os = Some os"
| "write_pre_lens pl i (Suc n) os =
     do { l \<leftarrow> permuted_len pl i; write_pre_lens pl (i + 1) n (ADD_BITS (ucast l) 3 os) }"

fun write_pre_lens_flushing :: "platform \<Rightarrow> byte list \<Rightarrow> nat \<Rightarrow> nat \<Rightarrow> ostream \<Rightarrow> ostream option" where
  "write_pre_lens_flushing P pl i 0 os = Some os"
| "write_pre_lens_flushing P pl i (Suc n) os =
     do { l \<leftarrow> permuted_len pl i; os \<leftarrow> FLUSH_BITS P (ADD_BITS (ucast l) 3 os); write_pre_lens_flushing P pl (i + 1) n os }"

fun write_items :: "platform \<Rightarrow> precode_info \<Rightarrow> u32 list \<Rightarrow> ostream \<Rightarrow> ostream option" where
  "write_items P pre [] os = Some os"
| "write_items P pre (it # its) os =
     do {
       let s = unat (it AND 0x1F);
       os \<leftarrow> add_code (pre_codewords pre) (pre_lens pre) s os;
       e \<leftarrow> fetch deflate_extra_precode_bits s;
       os \<leftarrow> FLUSH_BITS P (ADD_BITS (ucast (drop_bit 5 it)) e os);
       write_items P pre its os }"

text \<open>\<^verbatim>\<open>num_explicit_lens\<close> is at least 4 and there is at least one item, so that the loops are entered.\<close>

definition write_dynamic_header :: "platform \<Rightarrow> precode_info \<Rightarrow> bool \<Rightarrow> ostream \<Rightarrow> ostream option" where
  "write_dynamic_header P pre is_final_block os =
     do {
       let os = ADD_BITS (of_bool is_final_block) 1 os;
       let os = ADD_BITS 2 2 os;
       let os = ADD_BITS (of_nat (num_litlen_syms pre - 257)) 5 os;
       let os = ADD_BITS (of_nat (num_offset_syms pre - 1)) 5 os;
       let os = ADD_BITS (of_nat (num_explicit_lens pre - 4)) 4 os;
       os \<leftarrow> (if CAN_BUFFER (3 * (DEFLATE_NUM_PRECODE_SYMS - 1))
         then do {
           l \<leftarrow> permuted_len (pre_lens pre) 0;
           os \<leftarrow> FLUSH_BITS P (ADD_BITS (ucast l) 3 os);
           os \<leftarrow> write_pre_lens (pre_lens pre) 1 (num_explicit_lens pre - 1) os;
           FLUSH_BITS P os }
         else do {
           os \<leftarrow> FLUSH_BITS P os;
           write_pre_lens_flushing P (pre_lens pre) 0 (num_explicit_lens pre) os });
       write_items P pre (pre_items pre) os }"

text \<open>Uncompressed blocks: one for every 65535 bytes. \<open>vs\<close> are the bytes that are left.\<close>

definition poke_le16 :: "platform \<Rightarrow> u16 \<Rightarrow> nat \<Rightarrow> byte list \<Rightarrow> byte list option" where
  "poke_le16 P v i out = (if i + 2 \<le> length out then Some (put_at i (put_unaligned_le16 P v) out) else None)"

definition write_stored :: "platform \<Rightarrow> bool \<Rightarrow> byte list \<Rightarrow> ostream \<Rightarrow> ostream option" where
  "write_stored P bfinal vs os =
     do {
       out \<leftarrow> store (obytes os) (onext os) (ucast (push_bit (obits os) (of_bool bfinal) OR obuf os));
       (out, k) \<leftarrow> (if 5 < obits os then map_option (\<lambda>out. (out, onext os + 2)) (store out (onext os + 1) 0)
                   else Some (out, onext os + 1));
       out \<leftarrow> poke_le16 P (of_nat (length vs)) k out;
       out \<leftarrow> poke_le16 P (ucast (NOT (of_nat (length vs) :: u64))) (k + 2) out;
       out \<leftarrow> splice (k + 4) vs out;
       Some (os\<lparr>obytes := out, onext := k + 4 + length vs, obuf := 0, obits := 0\<rparr>) }"

function write_uncompressed :: "platform \<Rightarrow> bool \<Rightarrow> byte list \<Rightarrow> ostream \<Rightarrow> ostream option" where
  "write_uncompressed P is_final_block vs os =
     (let short = (length vs \<le> UINT16_MAX);
          len = (if short then length vs else UINT16_MAX)
      in if oend os - onext os < (obits os + 3 + 7) div 8 + 4 + len then Some (os\<lparr>onext := oend os\<rparr>)
         else do {
           os \<leftarrow> write_stored P (short \<and> is_final_block) (take len vs) os;
           if drop len vs \<noteq> [] then write_uncompressed P is_final_block (drop len vs) os else Some os })"
  by pat_completeness auto
termination
  by (relation "measure (\<lambda>(P, f, vs, os). length vs)") (auto simp: UINT16_MAX_def split: if_splits)

declare write_uncompressed.simps [simp del]

definition write_block_symbols :: "platform \<Rightarrow> deflate_codes \<Rightarrow> byte list \<Rightarrow> nat \<Rightarrow> 'm compressor \<Rightarrow> ostream \<Rightarrow>
    ('m compressor \<times> ostream) option" where
  "write_block_symbols P cs inp block_begin c os =
     do {
       c \<leftarrow> deflate_compute_full_len_codewords cs c;
       (cur, os) \<leftarrow> write_sequences P (lengths c) cs inp (sequences c) block_begin os;
       os \<leftarrow> add_code (litlen_codewords cs) (litlen_lens cs) DEFLATE_END_OF_BLOCK os;
       os \<leftarrow> FLUSH_BITS P os;
       Some (c, os) }"

definition deflate_flush_block :: "platform \<Rightarrow> byte list \<Rightarrow> nat \<Rightarrow> nat \<Rightarrow> bool \<Rightarrow> 'm compressor \<Rightarrow> ostream \<Rightarrow>
    ('m compressor \<times> ostream) option" where
  "deflate_flush_block P inp block_begin block_length is_final_block c os =
     do {
       c \<leftarrow> deflate_precompute_huffman_header c;
       dyn \<leftarrow> dynamic_cost c;
       sta \<leftarrow> static_cost c;
       let unc = uncompressed_cost (obits os) block_length;
       if dyn < min sta unc
       then do {
         os \<leftarrow> write_dynamic_header P (precode c) is_final_block os;
         write_block_symbols P (codes c) inp block_begin c os }
       else if sta < unc
       then do {
         os \<leftarrow> FLUSH_BITS P (ADD_BITS 1 2 (ADD_BITS (of_bool is_final_block) 1 os));
         write_block_symbols P (static_codes c) inp block_begin c os }
       else do {
         vs \<leftarrow> slice block_begin block_length inp;
         os \<leftarrow> write_uncompressed P is_final_block vs os;
         Some (c, os) } }"

definition deflate_finish_block :: "platform \<Rightarrow> byte list \<Rightarrow> nat \<Rightarrow> nat \<Rightarrow> bool \<Rightarrow> 'm compressor \<Rightarrow> ostream \<Rightarrow>
    ('m compressor \<times> ostream) option" where
  "deflate_finish_block P inp block_begin block_length is_final_block c os =
     do {
       c \<leftarrow> count_litlen DEFLATE_END_OF_BLOCK c;
       cs \<leftarrow> deflate_make_huffman_codes (freqs c) (codes c);
       deflate_flush_block P inp block_begin block_length is_final_block (c\<lparr>codes := cs\<rparr>) os }"

end
