(* ===== verification/Deflate_Match.thy ===== *)
theory Deflate_Match
  imports Deflate_Table
begin

text \<open>
  What the match finders of the DEFLATE compressor share (\<^verbatim>\<open>matchfinder_common.h\<close>): the comparison
  of two places of the input, the hash function, and the positions of 16 bits relative to a base that
  slides with the window. The input is a list of bytes, pointers into it are indices. \<open>None\<close> stands
  for an access outside the input.
\<close>

section \<open>Loads\<close>

definition byte_at :: "byte list \<Rightarrow> nat \<Rightarrow> byte option" where
  "byte_at inp p = fetch inp p"

definition load_word_at :: "platform \<Rightarrow> byte list \<Rightarrow> nat \<Rightarrow> u64 option" where
  "load_word_at P inp p = (if p + WORDBYTES \<le> length inp then Some (load_unaligned P WORDBYTES (drop p inp)) else None)"

definition load_u32_at :: "platform \<Rightarrow> byte list \<Rightarrow> nat \<Rightarrow> u32 option" where
  "load_u32_at P inp p = (if p + 4 \<le> length inp then Some (load_unaligned P 4 (drop p inp)) else None)"

definition loaded_u32_to_u24 :: "platform \<Rightarrow> u32 \<Rightarrow> u32" where
  "loaded_u32_to_u24 P v = (if little_endian P then v AND 0xFFFFFF else drop_bit 8 v)"

definition load_u24_at :: "platform \<Rightarrow> byte list \<Rightarrow> nat \<Rightarrow> u32 option" where
  "load_u24_at P inp p =
     (if unaligned_fast P then map_option (loaded_u32_to_u24 P) (load_u32_at P inp p)
      else do {
        a \<leftarrow> byte_at inp p; b \<leftarrow> byte_at inp (p + 1); c \<leftarrow> byte_at inp (p + 2);
        Some (if little_endian P
              then push_bit 0 (ucast a) OR push_bit 8 (ucast b) OR push_bit 16 (ucast c)
              else push_bit 0 (ucast c) OR push_bit 8 (ucast b) OR push_bit 16 (ucast a)) })"

section \<open>Positions\<close>

type_synonym mf_pos = "16 word"

definition MATCHFINDER_WINDOW_ORDER :: nat where "MATCHFINDER_WINDOW_ORDER = 15"
definition MATCHFINDER_WINDOW_SIZE :: nat where "MATCHFINDER_WINDOW_SIZE = 2 ^ MATCHFINDER_WINDOW_ORDER"
definition MATCHFINDER_INITVAL :: mf_pos where "MATCHFINDER_INITVAL = - of_nat MATCHFINDER_WINDOW_SIZE"

definition matchfinder_init :: "mf_pos list \<Rightarrow> mf_pos list" where
  "matchfinder_init data = map (\<lambda>_. MATCHFINDER_INITVAL) data"

text \<open>One entry is rebased; the second case is for other window sizes, and as the source has it.\<close>

definition rebase_entry :: "nat \<Rightarrow> mf_pos \<Rightarrow> mf_pos" where
  "rebase_entry window x =
     (if window = 32768 then 0x8000 OR (x AND NOT (signed_drop_bit 15 x))
      else if 0 \<le> sint x then x - (- of_nat window) else - of_nat window)"

definition matchfinder_rebase :: "mf_pos list \<Rightarrow> mf_pos list" where
  "matchfinder_rebase data = map (rebase_entry MATCHFINDER_WINDOW_SIZE) data"

definition lz_hash :: "u32 \<Rightarrow> nat \<Rightarrow> u32" where
  "lz_hash seq num_bits = drop_bit (32 - num_bits) (seq * 0x1E35A7BD)"

section \<open>Extending a match\<close>

text \<open>Lengths are numbers that do not wrap. In the source \<^verbatim>\<open>len + WORDBYTES\<close> has 32 bits and would wrap for a
  maximum length above \<^verbatim>\<open>2^32 - 8\<close>; every caller passes at most \<^verbatim>\<open>DEFLATE_MAX_MATCH_LEN\<close>, 258.\<close>

definition compare_word :: "platform \<Rightarrow> byte list \<Rightarrow> nat \<Rightarrow> nat \<Rightarrow> nat \<Rightarrow> u64 option" where
  "compare_word P inp strptr matchptr len =
     do { x \<leftarrow> load_word_at P inp (matchptr + len); y \<leftarrow> load_word_at P inp (strptr + len); Some (x XOR y) }"

text \<open>The result of comparing words: a length up to which all is equal, with the word that differs, if any.\<close>

type_synonym compared = "nat \<times> u64 option"

fun compare_steps :: "platform \<Rightarrow> byte list \<Rightarrow> nat \<Rightarrow> nat \<Rightarrow> nat \<Rightarrow> nat \<Rightarrow> compared option" where
  "compare_steps P inp strptr matchptr 0 len = Some (len, None)"
| "compare_steps P inp strptr matchptr (Suc n) len =
     do {
       v_word \<leftarrow> compare_word P inp strptr matchptr len;
       if v_word \<noteq> 0 then Some (len, Some v_word)
       else compare_steps P inp strptr matchptr n (len + WORDBYTES) }"

function word_loop :: "platform \<Rightarrow> byte list \<Rightarrow> nat \<Rightarrow> nat \<Rightarrow> nat \<Rightarrow> nat \<Rightarrow> compared option" where
  "word_loop P inp strptr matchptr max_len len =
     (if len + WORDBYTES \<le> max_len
      then do {
        v_word \<leftarrow> compare_word P inp strptr matchptr len;
        if v_word \<noteq> 0 then Some (len, Some v_word)
        else word_loop P inp strptr matchptr max_len (len + WORDBYTES) }
      else Some (len, None))"
  by pat_completeness auto
termination
  by (relation "measure (\<lambda>(P, inp, s, m, max_len, len). Suc max_len - len)") (auto simp: WORDBYTES_def)

function byte_loop :: "byte list \<Rightarrow> nat \<Rightarrow> nat \<Rightarrow> nat \<Rightarrow> nat \<Rightarrow> nat option" where
  "byte_loop inp strptr matchptr max_len len =
     (if len < max_len
      then do {
        x \<leftarrow> byte_at inp (matchptr + len);
        y \<leftarrow> byte_at inp (strptr + len);
        if x = y then byte_loop inp strptr matchptr max_len (len + 1) else Some len }
      else Some len)"
  by pat_completeness auto
termination
  by (relation "measure (\<lambda>(inp, s, m, max_len, len). max_len - len)") auto

declare word_loop.simps [simp del] byte_loop.simps [simp del]

definition word_differs :: "platform \<Rightarrow> nat \<Rightarrow> u64 \<Rightarrow> nat option" where
  "word_differs P len v_word =
     (if little_endian P then map_option (\<lambda>k. len + drop_bit 3 k) (bsfw v_word)
      else Some (len + drop_bit 3 (WORDBITS - 1 - bsrw v_word)))"

definition lz_extend :: "platform \<Rightarrow> byte list \<Rightarrow> nat \<Rightarrow> nat \<Rightarrow> nat \<Rightarrow> nat \<Rightarrow> nat option" where
  "lz_extend P inp strptr matchptr start_len max_len =
     do {
       (len, differs) \<leftarrow>
         (if unaligned_fast P
          then do {
            (len, differs) \<leftarrow>
              (if 4 * WORDBYTES \<le> unat (of_nat max_len - of_nat start_len :: u32)
               then compare_steps P inp strptr matchptr 4 start_len else Some (start_len, None));
            if differs = None then word_loop P inp strptr matchptr max_len len else Some (len, differs) }
          else Some (start_len, None));
       case differs of Some v_word \<Rightarrow> word_differs P len v_word
       | None \<Rightarrow> byte_loop inp strptr matchptr max_len len }"

section \<open>Bit scans\<close>

lemma bsf_loop_least: "bit v k \<Longrightarrow> \<forall>j < k. \<not> bit v j \<Longrightarrow> bsf_loop v i = Some (i + k)"
proof (induction k arbitrary: v i)
  case 0
  then have "v AND 1 \<noteq> 0" by (auto simp: and_one_eq odd_iff_mod_2_eq_one bit_0)
  then show ?case by (subst bsf_loop.simps) simp
next
  case (Suc k)
  then have "\<not> bit v 0" by blast
  then have "v AND 1 = 0" by (simp add: and_one_eq bit_0 even_iff_mod_2_eq_zero)
  moreover have "bsf_loop (drop_bit 1 v) (Suc i) = Some (Suc i + k)"
    using Suc.prems by (intro Suc.IH) (auto simp: bit_drop_bit_eq)
  ultimately show ?case by (subst bsf_loop.simps) simp
qed

lemma bsr_loop_greatest: "bit v k \<Longrightarrow> \<forall>j > k. \<not> bit v j \<Longrightarrow> bsr_loop v i = i + k"
proof (induction k arbitrary: v i)
  case 0
  then have "drop_bit 1 v = 0" by (intro bit_word_eqI) (simp add: bit_drop_bit_eq)
  then show ?case by (subst bsr_loop.simps) simp
next
  case (Suc k)
  then have "bit (drop_bit 1 v) k" by (simp add: bit_drop_bit_eq)
  moreover from this have "drop_bit 1 v \<noteq> 0" by auto
  moreover have "bsr_loop (drop_bit 1 v) (Suc i) = Suc i + k"
    using Suc.prems by (intro Suc.IH) (auto simp: bit_drop_bit_eq)
  ultimately show ?case by (subst bsr_loop.simps) simp
qed


lemma least_bit:
  assumes "z \<noteq> (0 :: 'a::len word)"
  obtains b where "b < LENGTH('a)" and "bit z b" and "\<forall>j < b. \<not> bit z j"
proof -
  have "\<exists>b. bit z b" using assms by (metis bit_0_eq bit_eqI bot_apply bot_bool_def)
  then have "bit z (LEAST b. bit z b)" by (rule LeastI_ex)
  then show thesis using not_less_Least by (intro that) (auto dest: bit_imp_le_length)
qed

lemma greatest_bit:
  assumes "z \<noteq> (0 :: 'a::len word)"
  obtains b where "b < LENGTH('a)" and "bit z b" and "\<forall>j > b. \<not> bit z j"
proof -
  define B where "B = {b. bit z b}"
  have fin: "finite B" unfolding B_def by (rule finite_subset [of _ "{..<LENGTH('a)}"]) (auto dest: bit_imp_le_length)
  have "\<exists>b. bit z b" using assms by (metis bit_0_eq bit_eqI bot_apply bot_bool_def)
  then have M: "Max B \<in> B" using fin by (intro Max_in) (auto simp: B_def)
  have "\<not> bit z j" if "Max B < j" for j
  proof
    assume "bit z j"
    then have "j \<le> Max B" using Max_ge [OF fin] by (simp add: B_def)
    then show False using that by simp
  qed
  moreover have "bit z (Max B)" using M by (simp add: B_def)
  moreover from this have "Max B < LENGTH('a)" by (rule bit_imp_le_length)
  ultimately show thesis using that by blast
qed

lemma split_below:
  assumes "b < 8"
  shows "j < 8 * i + b \<Longrightarrow> j div 8 < i \<or> (j div 8 = i \<and> j mod 8 < b)"
    and "8 * i + b < j \<Longrightarrow> i < j div 8 \<or> (j div 8 = i \<and> b < j mod (8 :: nat))"
proof -
  obtain q r where j: "j = 8 * q + r" "r < 8" using mult_div_mod_eq [of 8 j] by (metis mod_less_divisor zero_less_numeral)
  then have d: "j div 8 = q" "j mod 8 = r" by simp_all
  show "j < 8 * i + b \<Longrightarrow> j div 8 < i \<or> (j div 8 = i \<and> j mod 8 < b)"
    unfolding d using j assms by linarith
  show "8 * i + b < j \<Longrightarrow> i < j div 8 \<or> (j div 8 = i \<and> b < j mod 8)"
    unfolding d using j assms by linarith
qed

text \<open>In the difference of two words the first byte that differs is found from the low end, or with
  the bytes in the opposite order, from the high end.\<close>

lemma first_difference:
  assumes len: "length xs = 8" "length ys = 8" and i: "i < 8" "xs ! i \<noteq> ys ! i" and eq: "\<forall>j < i. xs ! j = ys ! j"
  shows "\<exists>k. bsfw (bytes_word xs XOR bytes_word ys) = Some k \<and> k div 8 = i"
    and "(63 - bsrw (bytes_word (rev xs) XOR bytes_word (rev ys))) div 8 = i"
proof -
  have z: "xs ! i XOR ys ! i \<noteq> 0"
  proof
    assume "xs ! i XOR ys ! i = 0"
    then have "(xs ! i XOR ys ! i) XOR ys ! i = ys ! i" by simp
    then show False using i(2) by (simp add: xor.assoc)
  qed
  have bit: "bit (bytes_word xs XOR bytes_word ys :: u64) n \<longleftrightarrow> n < 64 \<and> bit (xs ! (n div 8) XOR ys ! (n div 8)) (n mod 8)"
    for n using len by (auto simp: bit_xor_iff bit_bytes_word)
  obtain b where b: "b < 8" "bit (xs ! i XOR ys ! i) b" "\<forall>j < b. \<not> bit (xs ! i XOR ys ! i) j"
    using least_bit [OF z] by auto
  have k: "(8 * i + b) div 8 = i" "(8 * i + b) mod 8 = b" using b(1) by simp_all
  have "bsf_loop (bytes_word xs XOR bytes_word ys :: u64) 0 = Some (0 + (8 * i + b))"
  proof (rule bsf_loop_least)
    show "bit (bytes_word xs XOR bytes_word ys :: u64) (8 * i + b)" unfolding bit k using b i(1) by simp
    show "\<forall>j < 8 * i + b. \<not> bit (bytes_word xs XOR bytes_word ys :: u64) j"
    proof (intro allI impI)
      fix j assume j: "j < 8 * i + b"
      then consider "j div 8 < i" | "j div 8 = i" "j mod 8 < b" using split_below(1) [OF b(1)] by blast
      then show "\<not> bit (bytes_word xs XOR bytes_word ys :: u64) j" unfolding bit by cases (use b(3) eq in simp_all)
    qed
  qed
  then show "\<exists>k. bsfw (bytes_word xs XOR bytes_word ys) = Some k \<and> k div 8 = i"
    using k by (simp add: bsfw_def bsf64_def WORDBITS_def WORDBYTES_def)
  obtain b where b: "b < 8" "bit (xs ! i XOR ys ! i) b" "\<forall>j > b. \<not> bit (xs ! i XOR ys ! i) j"
    using greatest_bit [OF z] by auto
  have rev: "rev xs ! n = xs ! (7 - n)" "rev ys ! n = ys ! (7 - n)" if "n < 8" for n
    using that len by (simp_all add: rev_nth)
  have bit: "bit (bytes_word (rev xs) XOR bytes_word (rev ys) :: u64) n \<longleftrightarrow>
      n < 64 \<and> bit (xs ! (7 - n div 8) XOR ys ! (7 - n div 8)) (n mod 8)" for n
    using len rev [of "n div 8"] by (auto simp: bit_xor_iff bit_bytes_word)
  let ?k = "8 * (7 - i) + b"
  have k: "?k div 8 = 7 - i" "?k mod 8 = b" using b(1) by simp_all
  have "bsr_loop (bytes_word (rev xs) XOR bytes_word (rev ys) :: u64) 0 = 0 + ?k"
  proof (rule bsr_loop_greatest)
    show "bit (bytes_word (rev xs) XOR bytes_word (rev ys) :: u64) ?k" unfolding bit k using b i(1) by simp
    show "\<forall>j > ?k. \<not> bit (bytes_word (rev xs) XOR bytes_word (rev ys) :: u64) j"
    proof (intro allI impI)
      fix j assume j: "?k < j"
      then consider "64 \<le> j" | "j < 64" "7 - j div 8 < i" | "j < 64" "7 - j div 8 = i" "b < j mod 8"
        using split_below(2) [OF b(1), of "7 - i" j] i(1) by fastforce
      then show "\<not> bit (bytes_word (rev xs) XOR bytes_word (rev ys) :: u64) j"
        unfolding bit by cases (use b(3) eq in simp_all)
    qed
  qed
  then have "bsrw (bytes_word (rev xs) XOR bytes_word (rev ys)) = ?k"
    by (simp add: bsrw_def bsr64_def WORDBITS_def WORDBYTES_def)
  moreover have "63 - ?k = 8 * i + (7 - b)" using i(1) b(1) by simp
  moreover have "(8 * i + (7 - b)) div 8 = i" by simp
  ultimately show "(63 - bsrw (bytes_word (rev xs) XOR bytes_word (rev ys))) div 8 = i" by simp
qed

section \<open>What extending finds\<close>

text \<open>The two places agree on \<open>n\<close> bytes; the length on which they agree, up to a maximum.\<close>

definition agree :: "byte list \<Rightarrow> nat \<Rightarrow> nat \<Rightarrow> nat \<Rightarrow> bool" where
  "agree inp s m n \<longleftrightarrow> (\<forall>i < n. inp ! (m + i) = inp ! (s + i))"

definition match_len :: "byte list \<Rightarrow> nat \<Rightarrow> nat \<Rightarrow> nat \<Rightarrow> nat" where
  "match_len inp s m max_len = length (takeWhile (\<lambda>i. inp ! (m + i) = inp ! (s + i)) [0..<max_len])"

lemma agree_0 [simp]: "agree inp s m 0"
  by (simp add: agree_def)

lemma agree_mono: "agree inp s m n \<Longrightarrow> k \<le> n \<Longrightarrow> agree inp s m k"
  by (simp add: agree_def)

lemma match_len_eq:
  assumes "agree inp s m n" and "n \<le> max_len" and "n < max_len \<Longrightarrow> inp ! (m + n) \<noteq> inp ! (s + n)"
  shows "match_len inp s m max_len = n"
proof -
  have "[0..<max_len] = [0..<n] @ [n..<max_len]" using assms(2) by (metis upt_add_eq_append le0 le_add_diff_inverse)
  moreover have "takeWhile (\<lambda>i. inp ! (m + i) = inp ! (s + i)) [n..<max_len] = []"
    using assms(3) by (cases "n < max_len") (simp_all add: upt_conv_Cons)
  ultimately show ?thesis
    using assms(1) by (simp add: match_len_def agree_def takeWhile_append)
qed

lemma match_len_agree: "agree inp s m (match_len inp s m max_len)" "match_len inp s m max_len \<le> max_len"
proof -
  let ?t = "takeWhile (\<lambda>i. inp ! (m + i) = inp ! (s + i)) [0..<max_len]"
  show "match_len inp s m max_len \<le> max_len"
    using length_takeWhile_le [of _ "[0..<max_len]"] by (simp add: match_len_def)
  have "inp ! (m + i) = inp ! (s + i)" if "i < length ?t" for i
  proof -
    have "length ?t \<le> max_len" using length_takeWhile_le [of _ "[0..<max_len]"] by simp
    then have "?t ! i = i" using that takeWhile_nth [OF that] by simp
    moreover have "?t ! i \<in> set ?t" using that by (rule nth_mem)
    ultimately show ?thesis using set_takeWhileD [of i "\<lambda>i. inp ! (m + i) = inp ! (s + i)" "[0..<max_len]"] by simp
  qed
  then show "agree inp s m (match_len inp s m max_len)" by (simp add: agree_def match_len_def)
qed


lemma match_len_ge: "agree inp s m k \<Longrightarrow> k \<le> max_len \<Longrightarrow> k \<le> match_len inp s m max_len"
proof (rule ccontr)
  assume a: "agree inp s m k" "k \<le> max_len" "\<not> k \<le> match_len inp s m max_len"
  let ?P = "\<lambda>i. inp ! (m + i) = inp ! (s + i)"
  have "[0..<max_len] = [0..<k] @ [k..<max_len]" using a(2) by (metis upt_add_eq_append le0 le_add_diff_inverse)
  then have "takeWhile ?P [0..<max_len] = [0..<k] @ takeWhile ?P [k..<max_len]"
    using a(1) by (simp add: agree_def takeWhile_append)
  then show False using a(3) by (simp add: match_len_def)
qed

lemma agree_Suc: "agree inp s m n \<Longrightarrow> inp ! (m + n) = inp ! (s + n) \<Longrightarrow> agree inp s m (Suc n)"
  by (simp add: agree_def less_Suc_eq)

lemma bytes_word_inj:
  assumes "length xs = length ys" and "8 * length xs \<le> LENGTH('a)" and "(bytes_word xs :: 'a::len word) = bytes_word ys"
  shows "xs = ys"
  using word_of_bytes [of xs, where 'a = 'a] word_of_bytes [of ys, where 'a = 'a] assms by metis

lemma compare_word_equal:
  assumes "s + len + 8 \<le> length inp" and "m + len + 8 \<le> length inp" and "agree inp s m (len + 8)"
  shows "compare_word P inp s m len = Some 0"
proof -
  have "take 8 (drop (m + len) inp) = take 8 (drop (s + len) inp)"
  proof (rule nth_equalityI)
    fix i assume "i < length (take 8 (drop (m + len) inp))"
    then have "i < 8" by simp
    then have "inp ! (m + (len + i)) = inp ! (s + (len + i))" using assms(3) by (simp add: agree_def)
    then show "take 8 (drop (m + len) inp) ! i = take 8 (drop (s + len) inp) ! i"
      using assms(1,2) \<open>i < 8\<close> by (simp add: add.assoc)
  qed (use assms in simp)
  then show ?thesis using assms(1,2)
    by (simp add: compare_word_def load_word_at_def load_unaligned_def WORDBYTES_def)
qed

lemma compare_word_differs:
  assumes len: "s + len + 8 \<le> length inp" "m + len + 8 \<le> length inp" and eq: "agree inp s m (len + i)"
    and i: "i < 8" "inp ! (m + (len + i)) \<noteq> inp ! (s + (len + i))"
  shows "\<exists>v. compare_word P inp s m len = Some v \<and> v \<noteq> 0 \<and> word_differs P len v = Some (len + i)"
proof -
  define xs ys where "xs = take 8 (drop (m + len) inp)" and "ys = take 8 (drop (s + len) inp)"
  have l: "length xs = 8" "length ys = 8" using len by (simp_all add: xs_def ys_def)
  have nth: "xs ! j = inp ! (m + (len + j))" "ys ! j = inp ! (s + (len + j))" if "j < 8" for j
    using that len by (simp_all add: xs_def ys_def add.assoc)
  have d: "xs ! i \<noteq> ys ! i" using i nth by simp
  have e: "\<forall>j < i. xs ! j = ys ! j" using eq nth i(1) by (simp add: agree_def)
  note fd = first_difference [OF l i(1) d e]
  define v :: u64 where "v = bytes_word ((if little_endian P then id else rev) xs) XOR bytes_word ((if little_endian P then id else rev) ys)"
  have c: "compare_word P inp s m len = Some v"
    using len by (simp add: compare_word_def load_word_at_def load_unaligned_def WORDBYTES_def v_def xs_def ys_def)
  have w: "word_differs P len v = Some (len + i)"
  proof (cases "little_endian P")
    case True
    then show ?thesis using fd(1) by (auto simp: word_differs_def v_def drop_bit_eq_div)
  next
    case False
    then show ?thesis using fd(2) by (simp add: word_differs_def v_def drop_bit_eq_div WORDBITS_def WORDBYTES_def)
  qed
  have "v \<noteq> 0"
  proof
    let ?f = "if little_endian P then id else rev"
    assume "v = 0"
    then have "(bytes_word (?f xs) XOR bytes_word (?f ys)) XOR bytes_word (?f ys) = (bytes_word (?f ys) :: u64)"
      by (simp add: v_def)
    then have "bytes_word (?f xs) = (bytes_word (?f ys) :: u64)" by (simp add: xor.assoc)
    then have "?f xs = ?f ys" using l by (intro bytes_word_inj [where 'a = 64]) simp_all
    then show False using d by (simp split: if_splits)
  qed
  then show ?thesis using c w by blast
qed


text \<open>What a comparison of words reports.\<close>

definition compared_ok :: "platform \<Rightarrow> byte list \<Rightarrow> nat \<Rightarrow> nat \<Rightarrow> nat \<Rightarrow> compared \<Rightarrow> bool" where
  "compared_ok P inp s m max_len = (\<lambda>(len, differs). case differs of
     None \<Rightarrow> agree inp s m len \<and> len \<le> max_len
   | Some v \<Rightarrow> word_differs P len v = Some (match_len inp s m max_len))"

lemma compare_word_cases:
  assumes "s + max_len \<le> length inp" and "m + max_len \<le> length inp" and "len + 8 \<le> max_len" and "agree inp s m len"
  obtains "compare_word P inp s m len = Some 0" and "agree inp s m (len + 8)"
  | v where "compare_word P inp s m len = Some v" and "v \<noteq> 0" and "compared_ok P inp s m max_len (len, Some v)"
proof (cases "agree inp s m (len + 8)")
  case True
  then show thesis using assms by (intro that(1) compare_word_equal) simp_all
next
  case False
  define i where "i = (LEAST i. inp ! (m + (len + i)) \<noteq> inp ! (s + (len + i)))"
  obtain j where "j < len + 8" "inp ! (m + j) \<noteq> inp ! (s + j)" using False by (auto simp: agree_def)
  moreover from this have "len \<le> j" using assms(4) by (metis agree_def linorder_not_le)
  ultimately have "inp ! (m + (len + (j - len))) \<noteq> inp ! (s + (len + (j - len)))" "j - len < 8" by simp_all
  then have i: "inp ! (m + (len + i)) \<noteq> inp ! (s + (len + i))" "i < 8"
    unfolding i_def using LeastI [of "\<lambda>i. inp ! (m + (len + i)) \<noteq> inp ! (s + (len + i))"]
      Least_le [of "\<lambda>i. inp ! (m + (len + i)) \<noteq> inp ! (s + (len + i))"] le_less_trans by blast+
  have eq: "agree inp s m (len + i)" unfolding agree_def
  proof (intro allI impI)
    fix k assume "k < len + i"
    then show "inp ! (m + k) = inp ! (s + k)"
    proof (cases "k < len")
      case False
      then have "k - len < i" using \<open>k < len + i\<close> by simp
      then have "inp ! (m + (len + (k - len))) = inp ! (s + (len + (k - len)))"
        unfolding i_def using not_less_Least by blast
      then show ?thesis using False by simp
    qed (use assms(4) in \<open>simp add: agree_def\<close>)
  qed
  have "s + len + 8 \<le> length inp" "m + len + 8 \<le> length inp" using assms(1-3) by simp_all
  then obtain v where v: "compare_word P inp s m len = Some v" "v \<noteq> 0" "word_differs P len v = Some (len + i)"
    using compare_word_differs [OF _ _ eq i(2,1)] by blast
  have "match_len inp s m max_len = len + i" using eq i assms(3) by (intro match_len_eq) simp_all
  then show thesis using v by (intro that(2)) (simp_all add: compared_ok_def)
qed

lemma compare_steps_ok:
  assumes "s + max_len \<le> length inp" and "m + max_len \<le> length inp"
  shows "len + 8 * n \<le> max_len \<Longrightarrow> agree inp s m len \<Longrightarrow>
    \<exists>r. compare_steps P inp s m n len = Some r \<and> compared_ok P inp s m max_len r"
proof (induction n arbitrary: len)
  case 0
  then show ?case by (simp add: compared_ok_def)
next
  case (Suc n)
  have l: "len + 8 \<le> max_len" using Suc.prems(1) by simp
  show ?case
  proof (cases rule: compare_word_cases [OF assms l Suc.prems(2), of P, case_names equal differs])
    case equal
    then show ?thesis using Suc.IH [of "len + 8"] Suc.prems(1) by (simp add: WORDBYTES_def)
  next
    case (differs v)
    then show ?thesis by simp
  qed
qed

lemma word_loop_ok:
  assumes "s + max_len \<le> length inp" and "m + max_len \<le> length inp"
  shows "len \<le> max_len \<Longrightarrow> agree inp s m len \<Longrightarrow>
    \<exists>r. word_loop P inp s m max_len len = Some r \<and> compared_ok P inp s m max_len r"
proof (induction "max_len - len" arbitrary: len rule: less_induct)
  case less
  show ?case
  proof (cases "len + 8 \<le> max_len")
    case False
    then show ?thesis using less.prems by (subst word_loop.simps) (simp add: WORDBYTES_def compared_ok_def)
  next
    case True
    show ?thesis
    proof (cases rule: compare_word_cases [OF assms True less.prems(2), of P, case_names equal differs])
      case equal
      then show ?thesis using less.hyps [of "len + 8"] True by (subst word_loop.simps) (simp add: WORDBYTES_def)
    next
      case (differs v)
      then show ?thesis using True by (subst word_loop.simps) (simp add: WORDBYTES_def)
    qed
  qed
qed

lemma byte_loop_ok:
  assumes "s + max_len \<le> length inp" and "m + max_len \<le> length inp"
  shows "len \<le> max_len \<Longrightarrow> agree inp s m len \<Longrightarrow> byte_loop inp s m max_len len = Some (match_len inp s m max_len)"
proof (induction "max_len - len" arbitrary: len)
  case 0
  then have "match_len inp s m max_len = len" by (intro match_len_eq) simp_all
  then show ?case using 0 by (subst byte_loop.simps) simp
next
  case (Suc k)
  have b: "len < max_len" "byte_at inp (m + len) = Some (inp ! (m + len))" "byte_at inp (s + len) = Some (inp ! (s + len))"
    using Suc.hyps(2) assms by (simp_all add: byte_at_def fetch_def)
  show ?case
  proof (cases "inp ! (m + len) = inp ! (s + len)")
    case True
    then have "byte_loop inp s m max_len (len + 1) = Some (match_len inp s m max_len)"
      using Suc.hyps(2) b(1) agree_Suc [OF Suc.prems(2) True] by (intro Suc.hyps(1)) simp_all
    then show ?thesis using b True by (subst byte_loop.simps) simp
  next
    case False
    then have "match_len inp s m max_len = len" using Suc.prems by (intro match_len_eq)
    then show ?thesis using b False by (subst byte_loop.simps) simp
  qed
qed

lemma lz_extend_aux:
  assumes len: "s + max_len \<le> length inp" "m + max_len \<le> length inp"
    and start: "start_len \<le> max_len" "max_len < 2 ^ 32" "agree inp s m start_len"
  shows "lz_extend P inp s m start_len max_len = Some (match_len inp s m max_len)"
proof (cases "unaligned_fast P")
  case False
  then show ?thesis using byte_loop_ok [OF len start(1,3)] by (simp add: lz_extend_def)
next
  case True
  have "(of_nat max_len - of_nat start_len :: u32) = of_nat (max_len - start_len)" using start(1) by (simp add: of_nat_diff)
  moreover have "unat (of_nat (max_len - start_len) :: u32) = max_len - start_len"
    using start(2) by (intro unat_of_nat_u32) simp
  ultimately have room: "unat (of_nat max_len - of_nat start_len :: u32) = max_len - start_len" by simp
  obtain l d where r: "(if 4 * WORDBYTES \<le> unat (of_nat max_len - of_nat start_len :: u32)
      then compare_steps P inp s m 4 start_len else Some (start_len, None)) = Some (l, d)"
    and ok: "compared_ok P inp s m max_len (l, d)"
  proof (cases "4 * WORDBYTES \<le> max_len - start_len")
    case True
    then have "start_len + 8 * 4 \<le> max_len" by (simp add: WORDBYTES_def)
    from compare_steps_ok [OF len this start(3), of P]
    obtain r where "compare_steps P inp s m 4 start_len = Some r" "compared_ok P inp s m max_len r" by blast
    then show ?thesis using True room by (cases r) (auto intro: that)
  next
    case False
    then show ?thesis using room start by (intro that [of start_len None]) (simp_all add: compared_ok_def)
  qed
  show ?thesis
  proof (cases d)
    case (Some v)
    then show ?thesis using r ok True by (simp add: lz_extend_def compared_ok_def)
  next
    case None
    then have "agree inp s m l" "l \<le> max_len" using ok by (simp_all add: compared_ok_def)
    from word_loop_ok [OF len this(2,1), of P]
    obtain l' d' where w: "word_loop P inp s m max_len l = Some (l', d')" "compared_ok P inp s m max_len (l', d')"
      by (metis surj_pair)
    show ?thesis
    proof (cases d')
      case (Some v)
      then show ?thesis using r w True None by (simp add: lz_extend_def compared_ok_def)
    next
      case None2: None
      then have "agree inp s m l'" "l' \<le> max_len" using w(2) by (simp_all add: compared_ok_def)
      then show ?thesis using r w True None None2 byte_loop_ok [OF len] by (simp add: lz_extend_def)
    qed
  qed
qed


text \<open>C38. Extending a match: on any platform, if two places of the input agree on the first \<open>start_len\<close> bytes,
  \<^verbatim>\<open>lz_extend\<close> returns the number of bytes on which they agree, up to the maximum, without reading
  behind the maximum.\<close>

theorem lz_extend_exact:
  assumes "s + max_len \<le> length inp" and "m + max_len \<le> length inp" and "start_len \<le> max_len" and "max_len < 2 ^ 32"
    and "agree inp s m start_len"
  shows "lz_extend P inp s m start_len max_len = Some (match_len inp s m max_len)"
  by (rule lz_extend_aux [OF assms])

theorem lz_extend_exact_witness:
  "lz_extend \<lparr>unaligned_fast = True, little_endian = False\<rparr> [1, 2, 3, 1, 2, 3, 1, 2, 9, 9, 9, 9] 3 0 1 9 = Some 5"
proof -
  have "match_len [1, 2, 3, 1, 2, 3, 1, 2, 9, 9, 9, 9] 3 0 9 = 5"
    by (simp add: match_len_def upt_rec)
  moreover have "agree [1, 2, 3, 1, 2, 3, 1, 2, 9, 9, 9, 9] 3 0 1" by (simp add: agree_def)
  ultimately show ?thesis
    using lz_extend_exact [of 3 9 "[1, 2, 3, 1, 2, 3, 1, 2, 9, 9, 9, 9]" 0 1] by simp
qed

section \<open>Sliding positions\<close>

lemma sint_pos: "- 32768 \<le> k \<Longrightarrow> k < 32768 \<Longrightarrow> sint (word_of_int k :: mf_pos) = k"
  using signed_take_bit_int_eq_self [of 15 k] by (simp add: signed_of_int)

lemma sint_range: "- 32768 \<le> sint (x :: mf_pos)" "sint (x :: mf_pos) < 32768"
  using sint_greater_eq [of x] sint_less [of x] by simp_all

lemma sint_of_nat_pos: "p < 32768 \<Longrightarrow> sint (of_nat p :: mf_pos) = int p"
  using sint_pos [of "int p"] by simp

lemma sint_cutoff: "p < 32768 \<Longrightarrow> sint (of_nat p - of_nat MATCHFINDER_WINDOW_SIZE :: mf_pos) = int p - 32768"
proof -
  assume "p < 32768"
  moreover have "(of_nat p - of_nat MATCHFINDER_WINDOW_SIZE :: mf_pos) = word_of_int (int p - 32768)"
    by (simp add: MATCHFINDER_WINDOW_SIZE_def MATCHFINDER_WINDOW_ORDER_def)
  ultimately show ?thesis using sint_pos [of "int p - 32768"] by simp
qed

lemma sint_INITVAL: "sint MATCHFINDER_INITVAL = - 32768"
proof -
  have "MATCHFINDER_INITVAL = word_of_int (- 32768)"
    by (simp add: MATCHFINDER_INITVAL_def MATCHFINDER_WINDOW_SIZE_def MATCHFINDER_WINDOW_ORDER_def)
  then show ?thesis using sint_pos [of "- 32768"] by simp
qed

lemma sign_bit: "bit (x :: mf_pos) 15 \<longleftrightarrow> sint x < 0"
  using bit_last_iff [of x] by simp

text \<open>Subtracting the window size with saturation.\<close>

lemma sint_rebase: "sint (rebase_entry MATCHFINDER_WINDOW_SIZE x) = (if sint x < 0 then - 32768 else sint x - 32768)"
proof -
  have w: "rebase_entry MATCHFINDER_WINDOW_SIZE x = 0x8000 OR (x AND NOT (signed_drop_bit 15 x))"
    by (simp add: rebase_entry_def MATCHFINDER_WINDOW_SIZE_def MATCHFINDER_WINDOW_ORDER_def)
  have s: "signed_drop_bit 15 x = (if bit x 15 then - 1 else 0)"
    by (rule bit_word_eqI) (auto simp: bit_signed_drop_bit_iff not_less_eq_eq)
  have top: "sint (0x8000 :: mf_pos) = - 32768" using sint_pos [of "- 32768"] by simp
  show ?thesis
  proof (cases "sint x < 0")
    case True
    then have "rebase_entry MATCHFINDER_WINDOW_SIZE x = 0x8000" unfolding w s by (simp add: sign_bit)
    then show ?thesis using True top by simp
  next
    case False
    have "x AND 2 ^ 15 = 0" using False by (simp only: and_exp_eq_0_iff_not_bit sign_bit not_False_eq_True)
    then have disj: "0x8000 AND x = 0" by (simp add: and.commute)
    have "rebase_entry MATCHFINDER_WINDOW_SIZE x = 0x8000 OR x" using False unfolding w s by (simp add: sign_bit)
    also have "\<dots> = 0x8000 + x"
      by (rule disjunctive_add_eq_or [OF disj, symmetric])
    also have "\<dots> = word_of_int (sint x - 32768)" by simp
    finally show ?thesis using False sint_pos [of "sint x - 32768"] sint_range [of x] by simp
  qed
qed

lemma slot_value: "unat ((x :: mf_pos) AND 0x7fff) = nat (sint x mod 32768)"
proof -
  have "x AND 0x7fff = take_bit 15 x" by (simp add: take_bit_eq_mask mask_eq_exp_minus_1)
  then have "uint (x AND 0x7fff) = take_bit 15 (uint x)" by (simp add: unsigned_take_bit_eq)
  also have "uint x = take_bit 16 (sint x)" by (simp add: uint_sint)
  also have "take_bit 15 (take_bit 16 (sint x)) = sint x mod 32768"
    unfolding take_bit_take_bit by (simp add: take_bit_eq_mod)
  finally show ?thesis by (metis nat_uint_eq)
qed

text \<open>For smaller windows the source adds the window size instead of subtracting it.\<close>

lemma rebase_other_window: "rebase_entry 16384 5 = 16389"
  by (simp add: rebase_entry_def)


section \<open>Equal loads are equal bytes\<close>

lemma load_u32_some: "p + 4 \<le> length inp \<Longrightarrow> load_u32_at P inp p = Some (bytes_word ((if little_endian P then id else rev) (take 4 (drop p inp))))"
  by (simp add: load_u32_at_def load_unaligned_def)

lemma take_drop_agree:
  assumes "take n (drop m inp) = take n (drop s inp)" and "m + n \<le> length inp" and "s + n \<le> length inp"
  shows "agree inp s m n"
  unfolding agree_def
proof (intro allI impI)
  fix i assume "i < n"
  then have "take n (drop m inp) ! i = inp ! (m + i)" "take n (drop s inp) ! i = inp ! (s + i)" using assms(2,3) by simp_all
  then show "inp ! (m + i) = inp ! (s + i)" using assms(1) by simp
qed

lemma load_u32_agree:
  assumes "m + 4 \<le> length inp" and "s + 4 \<le> length inp" and "load_u32_at P inp m = load_u32_at P inp s"
  shows "agree inp s m 4"
proof -
  let ?f = "if little_endian P then id else rev"
  have "bytes_word (?f (take 4 (drop m inp))) = (bytes_word (?f (take 4 (drop s inp))) :: u32)"
    using assms by (simp add: load_u32_some)
  then have "?f (take 4 (drop m inp)) = ?f (take 4 (drop s inp))"
    using assms by (intro bytes_word_inj [where 'a = 32]) simp_all
  then show ?thesis using assms by (intro take_drop_agree) (auto split: if_splits)
qed

lemma loaded_u24_bytes:
  assumes "4 \<le> length q"
  shows "loaded_u32_to_u24 P (bytes_word ((if little_endian P then id else rev) (take 4 q))) =
    bytes_word ((if little_endian P then id else rev) (take 3 q))"
proof -
  obtain a b c d r where q: "q = a # b # c # d # r"
    using assms by (auto simp: numeral_eq_Suc Suc_le_length_iff)
  have m: "x AND 0xFFFFFF = take_bit 24 x" for x :: u32
  proof -
    have "(0xFFFFFF :: u32) = mask 24" by (simp add: mask_eq_exp_minus_1)
    then show ?thesis by (simp only: take_bit_eq_mask)
  qed
  have byte: "\<not> bit (x :: byte) n" if "8 \<le> n" for x n using that bit_imp_le_length [of x n] by auto
  show ?thesis
  proof (cases "little_endian P")
    case True
    have "take_bit 24 (bytes_word [a, b, c, d] :: u32) = bytes_word [a, b, c]"
    proof (rule bit_word_eqI)
      fix n assume "n < LENGTH(32)"
      moreover have "n < 24 \<longleftrightarrow> n div 8 < 3" by (simp add: div_less_iff_less_mult)
      moreover have "n div 8 < 3 \<Longrightarrow> [a, b, c, d] ! (n div 8) = [a, b, c] ! (n div 8)"
        using nth_append [of "[a, b, c]" "[d]" "n div 8"] by simp
      ultimately show "bit (take_bit 24 (bytes_word [a, b, c, d] :: u32)) n = bit (bytes_word [a, b, c] :: u32) n"
        unfolding bit_take_bit_iff bit_bytes_word by auto
    qed
    then show ?thesis using True by (simp add: q loaded_u32_to_u24_def m)
  next
    case False
    have "drop_bit 8 (bytes_word [d, c, b, a] :: u32) = bytes_word [c, b, a]"
    proof (rule bit_word_eqI)
      fix n assume n: "n < LENGTH(32)"
      have "(8 + n) div 8 = Suc (n div 8)" "(8 + n) mod 8 = n mod 8" by simp_all
      moreover have "n div 8 < 3 \<longleftrightarrow> 8 + n < 32" by (auto simp: div_less_iff_less_mult)
      ultimately show "bit (drop_bit 8 (bytes_word [d, c, b, a] :: u32)) n = bit (bytes_word [c, b, a] :: u32) n"
        using n unfolding bit_drop_bit_eq comp_def bit_bytes_word by auto
    qed
    then show ?thesis using False by (simp add: q loaded_u32_to_u24_def)
  qed
qed

lemma load_u24_some:
  assumes "p + 4 \<le> length inp"
  shows "load_u24_at P inp p = Some (bytes_word ((if little_endian P then id else rev) (take 3 (drop p inp))))"
proof -
  have t: "take 3 (drop p inp) = [inp ! p, inp ! (p + 1), inp ! (p + 2)]"
    using assms by (intro nth_equalityI) (auto simp: nth_Cons' numeral_eq_Suc less_Suc_eq One_nat_def)
  have b: "byte_at inp p = Some (inp ! p)" "byte_at inp (p + 1) = Some (inp ! (p + 1))" "byte_at inp (p + 2) = Some (inp ! (p + 2))"
    using assms by (simp_all add: byte_at_def fetch_def)
  show ?thesis
  proof (cases "unaligned_fast P")
    case True
    then show ?thesis using assms loaded_u24_bytes [of "drop p inp" P] by (simp add: load_u24_at_def load_u32_some)
  next
    case False
    then show ?thesis using b by (simp add: load_u24_at_def t push_bit_or or.assoc or.commute or.left_commute)
  qed
qed

lemma load_u24_agree:
  assumes "m + 4 \<le> length inp" and "s + 4 \<le> length inp" and "load_u32_at P inp s = Some seq4"
    and "load_u24_at P inp m = Some (loaded_u32_to_u24 P seq4)"
  shows "agree inp s m 3"
proof -
  let ?f = "if little_endian P then id else rev"
  have "bytes_word (?f (take 3 (drop m inp))) = (bytes_word (?f (take 3 (drop s inp))) :: u32)"
    using assms loaded_u24_bytes [of "drop s inp" P] by (simp add: load_u24_some load_u32_some)
  then have "?f (take 3 (drop m inp)) = ?f (take 3 (drop s inp))"
    using assms(1,2) by (intro bytes_word_inj [where 'a = 32]) simp_all
  then show ?thesis using assms(1,2) by (intro take_drop_agree) (auto split: if_splits)
qed

end
