(* ===== verification/Deflate_Hash_Chains.thy ===== *)
theory Deflate_Hash_Chains
  imports Deflate_Match
begin

text \<open>
  The match finder with hash chains (\<^verbatim>\<open>hc_matchfinder.h\<close>): one hash table for matches of length 3, one
  with the heads of linked lists for longer matches, and the links. The state of a search is the node,
  the depth that remains, and the best match so far. What the source leaves with \<^verbatim>\<open>goto out\<close> is
  \<open>Some None\<close> in the search for the first match.
\<close>

section \<open>The tables\<close>

definition HC_MATCHFINDER_HASH3_ORDER :: nat where "HC_MATCHFINDER_HASH3_ORDER = 15"
definition HC_MATCHFINDER_HASH4_ORDER :: nat where "HC_MATCHFINDER_HASH4_ORDER = 16"

record hc_matchfinder =
  hash3_tab :: "mf_pos list"
  hash4_tab :: "mf_pos list"
  next_tab :: "mf_pos list"

text \<open>Only the hash tables are initialised.\<close>

definition hc_matchfinder_init :: "hc_matchfinder \<Rightarrow> hc_matchfinder" where
  "hc_matchfinder_init mf = mf\<lparr>hash3_tab := matchfinder_init (hash3_tab mf), hash4_tab := matchfinder_init (hash4_tab mf)\<rparr>"

definition hc_matchfinder_slide_window :: "hc_matchfinder \<Rightarrow> hc_matchfinder" where
  "hc_matchfinder_slide_window mf =
     \<lparr>hash3_tab = matchfinder_rebase (hash3_tab mf), hash4_tab = matchfinder_rebase (hash4_tab mf),
      next_tab = matchfinder_rebase (next_tab mf)\<rparr>"

section \<open>Searching\<close>

text \<open>\<^verbatim>\<open>&in_base[cur_node]\<close>, and the link of a node.\<close>

definition node_ptr :: "nat \<Rightarrow> mf_pos \<Rightarrow> nat option" where
  "node_ptr in_base node = (if 0 \<le> int in_base + sint node then Some (nat (int in_base + sint node)) else None)"

definition next_node :: "hc_matchfinder \<Rightarrow> mf_pos \<Rightarrow> mf_pos option" where
  "next_node mf node = fetch (next_tab mf) (unat (node AND of_nat (MATCHFINDER_WINDOW_SIZE - 1)))"

text \<open>\<^verbatim>\<open>cur_node4 <= cutoff\<close>, a comparison of signed numbers.\<close>

definition outdated :: "mf_pos \<Rightarrow> mf_pos \<Rightarrow> bool" where
  "outdated cutoff node \<longleftrightarrow> sint node \<le> sint cutoff"

lemma depth_decreases: "depth \<noteq> 1 \<Longrightarrow> unat (depth - 2) < unat (depth - 1 :: u32)"
  using unat_minus_one [of "depth - 1"] by (simp add: unat_gt_0)

text \<open>The first node with the same four bytes.\<close>

function hc_first_match :: "platform \<Rightarrow> byte list \<Rightarrow> hc_matchfinder \<Rightarrow> nat \<Rightarrow> mf_pos \<Rightarrow> u32 \<Rightarrow> mf_pos \<Rightarrow> u32 \<Rightarrow>
    (nat \<times> mf_pos \<times> u32) option option" where
  "hc_first_match P inp mf in_base cutoff seq4 node depth =
     do {
       matchptr \<leftarrow> node_ptr in_base node;
       v \<leftarrow> load_u32_at P inp matchptr;
       if v = seq4 then Some (Some (matchptr, node, depth))
       else do {
         node \<leftarrow> next_node mf node;
         if outdated cutoff node \<or> depth - 1 = 0 then Some None
         else hc_first_match P inp mf in_base cutoff seq4 node (depth - 1) } }"
  by pat_completeness auto
termination
  by (relation "measure (\<lambda>(P, inp, mf, in_base, cutoff, seq4, node, depth). unat (depth - 1))")
    (auto intro: depth_decreases)


text \<open>The checks before a match is extended: the last four bytes and the first four, or the last byte.\<close>

definition hc_candidate :: "platform \<Rightarrow> byte list \<Rightarrow> nat \<Rightarrow> nat \<Rightarrow> nat \<Rightarrow> bool option" where
  "hc_candidate P inp in_next matchptr best_len =
     (if unaligned_fast P
      then do {
        x \<leftarrow> load_u32_at P inp (matchptr + best_len - 3);
        y \<leftarrow> load_u32_at P inp (in_next + best_len - 3);
        if x \<noteq> y then Some False
        else do { x \<leftarrow> load_u32_at P inp matchptr; y \<leftarrow> load_u32_at P inp in_next; Some (x = y) } }
      else do { x \<leftarrow> byte_at inp (matchptr + best_len); y \<leftarrow> byte_at inp (in_next + best_len); Some (x = y) })"

text \<open>The nodes after the first match of length 4; the best match is a length and a place.\<close>

definition hc_try :: "platform \<Rightarrow> byte list \<Rightarrow> nat \<Rightarrow> nat \<Rightarrow> nat \<Rightarrow> nat \<times> nat \<Rightarrow> (nat \<times> nat) option" where
  "hc_try P inp in_next max_len matchptr best =
     do {
       c \<leftarrow> hc_candidate P inp in_next matchptr (fst best);
       if c
       then do {
         len \<leftarrow> lz_extend P inp in_next matchptr (if unaligned_fast P then 4 else 0) max_len;
         Some (if fst best < len then (len, matchptr) else best) }
       else Some best }"

function hc_longer_matches :: "platform \<Rightarrow> byte list \<Rightarrow> hc_matchfinder \<Rightarrow> nat \<Rightarrow> mf_pos \<Rightarrow> nat \<Rightarrow> nat \<Rightarrow> nat \<Rightarrow>
    mf_pos \<Rightarrow> u32 \<Rightarrow> nat \<times> nat \<Rightarrow> (nat \<times> nat) option" where
  "hc_longer_matches P inp mf in_base cutoff in_next max_len nice_len node depth best =
     do {
       matchptr \<leftarrow> node_ptr in_base node;
       new_best \<leftarrow> hc_try P inp in_next max_len matchptr best;
       if fst best < fst new_best \<and> nice_len \<le> fst new_best then Some new_best
       else do {
         node \<leftarrow> next_node mf node;
         if outdated cutoff node \<or> depth - 1 = 0 then Some new_best
         else hc_longer_matches P inp mf in_base cutoff in_next max_len nice_len node (depth - 1) new_best } }"
  by pat_completeness auto
termination
  by (relation "measure (\<lambda>(P, inp, mf, in_base, cutoff, in_next, max_len, nice_len, node, depth, best). unat (depth - 1))")
    (auto intro: depth_decreases)

declare hc_first_match.simps [simp del] hc_longer_matches.simps [simp del]

text \<open>A match of length 3, from its own table.\<close>

definition hc_short_match :: "platform \<Rightarrow> byte list \<Rightarrow> nat \<Rightarrow> nat \<Rightarrow> mf_pos \<Rightarrow> u32 \<Rightarrow> nat \<times> nat \<Rightarrow> (nat \<times> nat) option" where
  "hc_short_match P inp in_base in_next node seq4 best =
     (if fst best < 3
      then do {
        matchptr \<leftarrow> node_ptr in_base node;
        v \<leftarrow> load_u24_at P inp matchptr;
        Some (if v = loaded_u32_to_u24 P seq4 then (3, matchptr) else best) }
      else Some best)"

definition hc_search :: "platform \<Rightarrow> byte list \<Rightarrow> hc_matchfinder \<Rightarrow> nat \<Rightarrow> mf_pos \<Rightarrow> nat \<Rightarrow> nat \<Rightarrow> nat \<Rightarrow>
    mf_pos \<Rightarrow> mf_pos \<Rightarrow> u32 \<Rightarrow> nat \<times> nat \<Rightarrow> (nat \<times> nat) option" where
  "hc_search P inp mf in_base cutoff in_next max_len nice_len node3 node4 depth best =
     (if fst best < 4
      then if outdated cutoff node3 then Some best
      else do {
        seq4 \<leftarrow> load_u32_at P inp in_next;
        best \<leftarrow> hc_short_match P inp in_base in_next node3 seq4 best;
        if outdated cutoff node4 then Some best
        else do {
          first \<leftarrow> hc_first_match P inp mf in_base cutoff seq4 node4 depth;
          case first of
            None \<Rightarrow> Some best
          | Some (matchptr, node, depth) \<Rightarrow> do {
              len \<leftarrow> lz_extend P inp in_next matchptr 4 max_len;
              if nice_len \<le> len then Some (len, matchptr)
              else do {
                node \<leftarrow> next_node mf node;
                if outdated cutoff node \<or> depth - 1 = 0 then Some (len, matchptr)
                else hc_longer_matches P inp mf in_base cutoff in_next max_len nice_len node (depth - 1) (len, matchptr) } } } }
      else if outdated cutoff node4 \<or> nice_len \<le> fst best then Some best
      else hc_longer_matches P inp mf in_base cutoff in_next max_len nice_len node4 depth best)"

section \<open>One position\<close>

text \<open>The two hash codes of the sequence at a place.\<close>

definition hc_hashes :: "platform \<Rightarrow> byte list \<Rightarrow> nat \<Rightarrow> (u32 \<times> u32) option" where
  "hc_hashes P inp p =
     (if p + 4 \<le> length inp
      then let seq = get_unaligned_le32 P (drop p inp)
           in Some (lz_hash (seq AND 0xFFFFFF) HC_MATCHFINDER_HASH3_ORDER, lz_hash seq HC_MATCHFINDER_HASH4_ORDER)
      else None)"

text \<open>The window slides when the position reaches its size.\<close>

definition hc_slide :: "nat \<Rightarrow> hc_matchfinder \<times> nat \<Rightarrow> hc_matchfinder \<times> nat" where
  "hc_slide cur_pos = (\<lambda>(mf, in_base).
     if cur_pos = MATCHFINDER_WINDOW_SIZE then (hc_matchfinder_slide_window mf, in_base + MATCHFINDER_WINDOW_SIZE)
     else (mf, in_base))"

text \<open>The position is entered into both tables; its link is the old head of its list.\<close>

definition hc_insert :: "u32 \<times> u32 \<Rightarrow> nat \<Rightarrow> hc_matchfinder \<Rightarrow> (mf_pos \<times> mf_pos \<times> hc_matchfinder) option" where
  "hc_insert hashes cur_pos mf =
     do {
       node3 \<leftarrow> fetch (hash3_tab mf) (unat (fst hashes));
       node4 \<leftarrow> fetch (hash4_tab mf) (unat (snd hashes));
       tab3 \<leftarrow> store (hash3_tab mf) (unat (fst hashes)) (of_nat cur_pos);
       tab4 \<leftarrow> store (hash4_tab mf) (unat (snd hashes)) (of_nat cur_pos);
       links \<leftarrow> store (next_tab mf) cur_pos node4;
       Some (node3, node4, \<lparr>hash3_tab = tab3, hash4_tab = tab4, next_tab = links\<rparr>) }"

text \<open>The result: the tables, the base, the next hash codes, the length and the offset.\<close>

definition hc_matchfinder_longest_match :: "platform \<Rightarrow> byte list \<Rightarrow> hc_matchfinder \<Rightarrow> nat \<Rightarrow> nat \<Rightarrow> nat \<Rightarrow> nat \<Rightarrow> nat \<Rightarrow>
    u32 \<Rightarrow> u32 \<times> u32 \<Rightarrow> (hc_matchfinder \<times> nat \<times> (u32 \<times> u32) \<times> nat \<times> nat) option" where
  "hc_matchfinder_longest_match P inp mf in_base in_next best_len max_len nice_len max_search_depth next_hashes =
     (case hc_slide (in_next - in_base) (mf, in_base) of (mf, in_base) \<Rightarrow>
      let cur_pos = in_next - in_base;
          cutoff = of_nat cur_pos - of_nat MATCHFINDER_WINDOW_SIZE
      in if max_len < 5 then Some (mf, in_base, next_hashes, best_len, 0)
         else do {
           (node3, node4, mf) \<leftarrow> hc_insert next_hashes cur_pos mf;
           hashes \<leftarrow> hc_hashes P inp (in_next + 1);
           (len, matchptr) \<leftarrow> hc_search P inp mf in_base cutoff in_next max_len nice_len node3 node4 max_search_depth (best_len, in_next);
           Some (mf, in_base, hashes, len, in_next - matchptr) })"

section \<open>Skipping\<close>

text \<open>The body of the loop, on the tables, the base, the place and the hash codes.\<close>

definition hc_skip_step :: "platform \<Rightarrow> byte list \<Rightarrow> hc_matchfinder \<Rightarrow> nat \<Rightarrow> nat \<Rightarrow> u32 \<times> u32 \<Rightarrow>
    (hc_matchfinder \<times> nat \<times> (u32 \<times> u32)) option" where
  "hc_skip_step P inp mf in_base in_next hashes =
     (case hc_slide (in_next - in_base) (mf, in_base) of (mf, in_base) \<Rightarrow>
      do {
        (node3, node4, mf) \<leftarrow> hc_insert hashes (in_next - in_base) mf;
        hashes \<leftarrow> hc_hashes P inp (in_next + 1);
        Some (mf, in_base, hashes) })"

function hc_skip_loop :: "platform \<Rightarrow> byte list \<Rightarrow> u32 \<Rightarrow> hc_matchfinder \<Rightarrow> nat \<Rightarrow> nat \<Rightarrow> u32 \<times> u32 \<Rightarrow>
    (hc_matchfinder \<times> nat \<times> (u32 \<times> u32)) option" where
  "hc_skip_loop P inp remaining mf in_base in_next hashes =
     do {
       (mf, in_base, hashes) \<leftarrow> hc_skip_step P inp mf in_base in_next hashes;
       if remaining - 1 = 0 then Some (mf, in_base, hashes)
       else hc_skip_loop P inp (remaining - 1) mf in_base (in_next + 1) hashes }"
  by pat_completeness auto
termination
  by (relation "measure (\<lambda>(P, inp, remaining, mf, in_base, in_next, hashes). unat (remaining - 1))")
    (auto intro: depth_decreases)

declare hc_skip_loop.simps [simp del]

definition hc_matchfinder_skip_bytes :: "platform \<Rightarrow> byte list \<Rightarrow> hc_matchfinder \<Rightarrow> nat \<Rightarrow> nat \<Rightarrow> nat \<Rightarrow> u32 \<Rightarrow> u32 \<times> u32 \<Rightarrow>
    (hc_matchfinder \<times> nat \<times> (u32 \<times> u32)) option" where
  "hc_matchfinder_skip_bytes P inp mf in_base in_next in_end count next_hashes =
     (if int in_end - int in_next < int (unat (count + 5)) then Some (mf, in_base, next_hashes)
      else hc_skip_loop P inp count mf in_base in_next next_hashes)"


section \<open>Entries of the tables\<close>

text \<open>An entry is the initial value or, relative to the base, a place of the set \<open>J\<close>.\<close>

definition good_entry :: "nat \<Rightarrow> nat set \<Rightarrow> mf_pos \<Rightarrow> bool" where
  "good_entry base J e \<longleftrightarrow> sint e = - 32768 \<or> (\<exists>j \<in> J. int base + sint e = int j)"

lemma good_entry_INITVAL [simp]: "good_entry base J MATCHFINDER_INITVAL"
  by (simp add: good_entry_def sint_INITVAL)

lemma good_entry_mono: "good_entry base J e \<Longrightarrow> J \<subseteq> K \<Longrightarrow> good_entry base K e"
  by (auto simp: good_entry_def)

lemma good_entry_new: "p < 32768 \<Longrightarrow> base + p \<in> J \<Longrightarrow> good_entry base J (of_nat p)"
  by (auto simp: good_entry_def sint_of_nat_pos intro!: bexI [of _ "base + p"])

lemma good_entry_rebase:
  assumes "good_entry base J e"
  shows "good_entry (base + MATCHFINDER_WINDOW_SIZE) J (rebase_entry MATCHFINDER_WINDOW_SIZE e)"
proof (cases "sint e < 0")
  case True
  then show ?thesis by (simp add: good_entry_def sint_rebase)
next
  case False
  then obtain j where "j \<in> J" "int base + sint e = int j" using assms by (auto simp: good_entry_def)
  moreover have "int (base + MATCHFINDER_WINDOW_SIZE) = int base + 32768"
    by (simp add: MATCHFINDER_WINDOW_SIZE_def MATCHFINDER_WINDOW_ORDER_def)
  ultimately have "int (base + MATCHFINDER_WINDOW_SIZE) + (sint e - 32768) = int j" by simp
  then show ?thesis using False \<open>j \<in> J\<close> unfolding good_entry_def sint_rebase by auto
qed

text \<open>An entry within the window is a place not far behind.\<close>

lemma good_entry_place:
  assumes e: "good_entry base J e" and cur: "p < 32768" and J: "J \<subseteq> {..<base + p}"
    and new: "\<not> outdated (of_nat p - of_nat MATCHFINDER_WINDOW_SIZE) e"
  obtains j where "j \<in> J" and "node_ptr base e = Some j" and "j < base + p" and "base + p < j + 32768"
    and "int j - int base = sint e"
proof -
  have "int p - 32768 < sint e" using new by (simp add: outdated_def sint_cutoff [OF cur])
  then have "sint e \<noteq> - 32768" using cur by simp
  then obtain j where j: "j \<in> J" "int base + sint e = int j" using e by (auto simp: good_entry_def)
  then have "j < base + p" using J by auto
  then show thesis using j \<open>int p - 32768 < sint e\<close> by (intro that [of j]) (simp_all add: node_ptr_def)
qed

section \<open>The invariant\<close>

text \<open>
  The tables between two positions: the set \<open>J\<close> has the places that were entered. Their links are good
  as long as they are within the window. A link is found at the place modulo the window size.
\<close>

definition slot :: "nat \<Rightarrow> nat \<Rightarrow> nat" where
  "slot base j = nat ((int j - int base) mod 32768)"

definition hc_inv :: "hc_matchfinder \<Rightarrow> nat \<Rightarrow> nat \<Rightarrow> nat set \<Rightarrow> bool" where
  "hc_inv mf base pos J \<longleftrightarrow>
     length (hash3_tab mf) = 2 ^ 15 \<and> length (hash4_tab mf) = 2 ^ 16 \<and> length (next_tab mf) = 2 ^ 15 \<and>
     base \<le> pos \<and> J \<subseteq> {..<pos} \<and>
     (\<forall>e \<in> set (hash3_tab mf). good_entry base J e) \<and> (\<forall>e \<in> set (hash4_tab mf). good_entry base J e) \<and>
     (\<forall>j \<in> J. pos < j + 32768 \<longrightarrow> good_entry base J (next_tab mf ! slot base j))"

lemma slot_less [simp]: "slot base j < 32768"
  by (simp add: slot_def nat_less_iff)

lemma slot_slide: "slot (base + MATCHFINDER_WINDOW_SIZE) j = slot base j"
proof -
  have "(int j - int (base + MATCHFINDER_WINDOW_SIZE)) mod 32768 = (int j - int base - 32768) mod 32768"
    by (simp add: MATCHFINDER_WINDOW_SIZE_def MATCHFINDER_WINDOW_ORDER_def algebra_simps)
  also have "\<dots> = (int j - int base) mod 32768" by (rule minus_mod_self2)
  finally show ?thesis by (simp add: slot_def)
qed

lemma slot_new: "p < 32768 \<Longrightarrow> slot base (base + p) = p"
  by (simp add: slot_def nat_eq_iff)

lemma slot_differs:
  assumes "p < 32768" and "j < base + p" and "base + p < j + 32768"
  shows "slot base j \<noteq> p"
proof
  assume "slot base j = p"
  then have "(int j - int base) mod 32768 = int p" by (simp add: slot_def nat_eq_iff)
  then have "(int j - int base) mod 32768 = int p mod 32768" using assms(1) by simp
  then have "32768 dvd int j - int base - int p" by (simp only: mod_eq_dvd_iff)
  then obtain k where k: "int j - int base - int p = 32768 * k" by (auto elim: dvdE)
  moreover have "int j - int base - int p < 0" "- 32768 < int j - int base - int p" using assms by simp_all
  ultimately show False by simp
qed

lemma next_node_slot:
  assumes "length (next_tab mf) = 2 ^ 15" and "int j - int base = sint e"
  shows "next_node mf e = Some (next_tab mf ! slot base j)"
proof -
  have "unat (e AND of_nat (MATCHFINDER_WINDOW_SIZE - 1)) = slot base j"
    using slot_value [of e] by (simp add: MATCHFINDER_WINDOW_SIZE_def MATCHFINDER_WINDOW_ORDER_def slot_def assms(2))
  then show ?thesis using assms(1) by (simp add: next_node_def fetch_def)
qed

lemma hc_inv_slide:
  assumes inv: "hc_inv mf base pos J" and pos: "pos \<le> base + MATCHFINDER_WINDOW_SIZE"
    and s: "hc_slide (pos - base) (mf, base) = (mf', base')"
  shows "hc_inv mf' base' pos J" and "pos - base' < 32768"
proof -
  have "hc_inv mf' base' pos J \<and> pos - base' < 32768"
  proof (cases "pos - base = MATCHFINDER_WINDOW_SIZE")
    case False
    then show ?thesis
      using inv s pos by (simp add: hc_slide_def MATCHFINDER_WINDOW_SIZE_def MATCHFINDER_WINDOW_ORDER_def)
  next
    case True
    then have mf: "mf' = hc_matchfinder_slide_window mf" "base' = base + MATCHFINDER_WINDOW_SIZE"
      using s by (simp_all add: hc_slide_def)
    have "base \<le> pos" using inv by (simp add: hc_inv_def)
    then have "pos = base'" using True mf(2) by linarith
    moreover have "hc_inv mf' base' pos J"
      unfolding hc_inv_def
    proof (intro conjI ballI impI)
      show "base' \<le> pos" using \<open>pos = base'\<close> by simp
      show "J \<subseteq> {..<pos}" using inv by (simp add: hc_inv_def)
      show "length (hash3_tab mf') = 2 ^ 15" "length (hash4_tab mf') = 2 ^ 16" "length (next_tab mf') = 2 ^ 15"
        using inv by (simp_all add: hc_inv_def mf hc_matchfinder_slide_window_def matchfinder_rebase_def)
      show "good_entry base' J e" if "e \<in> set (hash3_tab mf')" for e
        using that inv by (auto simp: hc_inv_def mf hc_matchfinder_slide_window_def matchfinder_rebase_def intro: good_entry_rebase)
      show "good_entry base' J e" if "e \<in> set (hash4_tab mf')" for e
        using that inv by (auto simp: hc_inv_def mf hc_matchfinder_slide_window_def matchfinder_rebase_def intro: good_entry_rebase)
      show "good_entry base' J (next_tab mf' ! slot base' j)" if "j \<in> J" "pos < j + 32768" for j
        using that inv unfolding mf(2) slot_slide
        by (simp add: hc_inv_def mf(1) hc_matchfinder_slide_window_def matchfinder_rebase_def good_entry_rebase)
    qed
    ultimately show ?thesis by simp
  qed
  then show "hc_inv mf' base' pos J" and "pos - base' < 32768" by simp_all
qed

text \<open>Hash codes are indices of the tables.\<close>

definition hashes_ok :: "u32 \<times> u32 \<Rightarrow> bool" where
  "hashes_ok h \<longleftrightarrow> unat (fst h) < 2 ^ 15 \<and> unat (snd h) < 2 ^ 16"

lemma lz_hash_less: "n \<le> 32 \<Longrightarrow> unat (lz_hash seq n) < 2 ^ n"
proof -
  assume n: "n \<le> 32"
  let ?x = "unat (seq * 0x1E35A7BD)"
  have "?x < 2 ^ 32" by (rule unat_lt_u32)
  also have "(2 :: nat) ^ 32 = 2 ^ n * 2 ^ (32 - n)" using n by (simp flip: power_add)
  finally have "?x div 2 ^ (32 - n) < 2 ^ n" by (simp add: less_mult_imp_div_less)
  moreover have "unat (drop_bit (32 - n) (seq * 0x1E35A7BD)) = ?x div 2 ^ (32 - n)"
    unfolding unat_drop_bit_eq by (rule drop_bit_eq_div)
  ultimately show ?thesis by (simp only: lz_hash_def)
qed

lemma hc_hashes_ok: "p + 4 \<le> length inp \<Longrightarrow> \<exists>h. hc_hashes P inp p = Some h \<and> hashes_ok h"
  using lz_hash_less [of 15] lz_hash_less [of 16]
  by (simp add: hc_hashes_def Let_def hashes_ok_def HC_MATCHFINDER_HASH3_ORDER_def HC_MATCHFINDER_HASH4_ORDER_def)

text \<open>Entering a position.\<close>

lemma hc_insert_inv:
  assumes inv: "hc_inv mf base pos J" and p: "pos - base < 32768" and h: "hashes_ok h"
  obtains node3 node4 mf' where "hc_insert h (pos - base) mf = Some (node3, node4, mf')"
    and "good_entry base J node3" and "good_entry base J node4"
    and "hc_inv mf' base (Suc pos) (insert pos J)"
    and "length (next_tab mf') = 2 ^ 15"
    and "\<forall>j \<in> J. pos < j + 32768 \<longrightarrow> good_entry base J (next_tab mf' ! slot base j)"
proof -
  let ?p = "pos - base"
  have i: "unat (fst h) < length (hash3_tab mf)" "unat (snd h) < length (hash4_tab mf)" "?p < length (next_tab mf)"
    "base + ?p = pos"
    using inv p h by (simp_all add: hc_inv_def hashes_ok_def)
  let ?n3 = "hash3_tab mf ! unat (fst h)" and ?n4 = "hash4_tab mf ! unat (snd h)"
  let ?mf = "\<lparr>hash3_tab = (hash3_tab mf)[unat (fst h) := of_nat ?p], hash4_tab = (hash4_tab mf)[unat (snd h) := of_nat ?p],
      next_tab = (next_tab mf)[?p := ?n4]\<rparr>"
  have g: "good_entry base J ?n3" "good_entry base J ?n4" using inv i by (simp_all add: hc_inv_def)
  have new: "good_entry base (insert pos J) (of_nat ?p)" using p i(4) by (intro good_entry_new) simp_all
  have up: "good_entry base (insert pos J) e" if "good_entry base J e" for e
    using that by (rule good_entry_mono) blast
  have links: "good_entry base J (next_tab ?mf ! slot base j)" if "j \<in> J" "pos < j + 32768" for j
  proof -
    have "j < base + ?p" using inv that(1) i(4) by (auto simp: hc_inv_def)
    then have "slot base j \<noteq> ?p" using that(2) i(4) p by (intro slot_differs) simp_all
    then show ?thesis using inv that by (simp add: hc_inv_def)
  qed
  show thesis
  proof (rule that)
    show "hc_insert h ?p mf = Some (?n3, ?n4, ?mf)" using i by (simp add: hc_insert_def fetch_def store_def)
    show "hc_inv ?mf base (Suc pos) (insert pos J)"
      unfolding hc_inv_def
    proof (intro conjI ballI impI)
      show "good_entry base (insert pos J) e" if "e \<in> set (hash3_tab ?mf)" for e
        using that inv new up set_update_subset_insert [of "hash3_tab mf"] by (fastforce simp: hc_inv_def)
      show "good_entry base (insert pos J) e" if "e \<in> set (hash4_tab ?mf)" for e
        using that inv new up set_update_subset_insert [of "hash4_tab mf"] by (fastforce simp: hc_inv_def)
      show "good_entry base (insert pos J) (next_tab ?mf ! slot base j)" if "j \<in> insert pos J" "Suc pos < j + 32768" for j
      proof (cases "j = pos")
        case True
        then have "slot base j = ?p" using slot_new [OF p, of base] i(4) by simp
        then show ?thesis using g(2) up i(3) by simp
      next
        case False
        then show ?thesis using that links [of j] up by simp
      qed
    qed (use inv in \<open>auto simp: hc_inv_def\<close>)
  qed (use g links inv in \<open>simp_all add: hc_inv_def\<close>)
qed


section \<open>What a search finds\<close>

declare split_paired_Ex [simp del]

text \<open>The places a search may visit, and the state it works in.\<close>

definition in_window :: "nat set \<Rightarrow> nat \<Rightarrow> nat \<Rightarrow> bool" where
  "in_window J pos j \<longleftrightarrow> j \<in> J \<and> j < pos \<and> pos < j + 32768"

definition searchable :: "byte list \<Rightarrow> hc_matchfinder \<Rightarrow> nat \<Rightarrow> nat \<Rightarrow> nat set \<Rightarrow> nat \<Rightarrow> bool" where
  "searchable inp mf base pos J max_len \<longleftrightarrow>
     base \<le> pos \<and> pos - base < 32768 \<and> J \<subseteq> {..<pos} \<and> length (next_tab mf) = 2 ^ 15 \<and>
     (\<forall>j \<in> J. pos < j + 32768 \<longrightarrow> good_entry base J (next_tab mf ! slot base j)) \<and>
     5 \<le> max_len \<and> max_len < 2 ^ 32 \<and> pos + max_len \<le> length inp"

abbreviation cutoff_at :: "nat \<Rightarrow> nat \<Rightarrow> mf_pos" where
  "cutoff_at base pos \<equiv> of_nat (pos - base) - of_nat MATCHFINDER_WINDOW_SIZE"

lemma visit_node:
  assumes s: "searchable inp mf base pos J max_len" and e: "good_entry base J e" "\<not> outdated (cutoff_at base pos) e"
  obtains j e' where "node_ptr base e = Some j" and "in_window J pos j" and "next_node mf e = Some e'" and "good_entry base J e'"
proof -
  have p: "pos - base < 32768" "base + (pos - base) = pos" "J \<subseteq> {..<base + (pos - base)}"
    using s by (auto simp: searchable_def)
  obtain j where j: "j \<in> J" "node_ptr base e = Some j" "j < pos" "pos < j + 32768" "int j - int base = sint e"
    using good_entry_place [OF e(1) p(1,3) e(2)] p(2) by metis
  have "next_node mf e = Some (next_tab mf ! slot base j)"
    using s j(5) by (intro next_node_slot) (simp_all add: searchable_def)
  moreover have "good_entry base J (next_tab mf ! slot base j)" using s j by (simp add: searchable_def)
  ultimately show thesis using j by (intro that) (simp_all add: in_window_def)
qed

text \<open>A match that was found.\<close>

definition true_match :: "byte list \<Rightarrow> nat set \<Rightarrow> nat \<Rightarrow> nat \<Rightarrow> nat \<times> nat \<Rightarrow> bool" where
  "true_match inp J pos max_len = (\<lambda>(len, m). in_window J pos m \<and> len \<le> max_len \<and> agree inp pos m len)"

definition improved :: "byte list \<Rightarrow> nat set \<Rightarrow> nat \<Rightarrow> nat \<Rightarrow> nat \<times> nat \<Rightarrow> nat \<times> nat \<Rightarrow> bool" where
  "improved inp J pos max_len best r \<longleftrightarrow> r = best \<or> (fst best < fst r \<and> true_match inp J pos max_len r)"

lemma improved_refl [simp]: "improved inp J pos max_len best best"
  by (simp add: improved_def)

lemma improved_trans: "improved inp J pos max_len a b \<Longrightarrow> improved inp J pos max_len b c \<Longrightarrow> improved inp J pos max_len a c"
  by (auto simp: improved_def)

lemma extend_in_window:
  assumes s: "searchable inp mf base pos J max_len" and j: "in_window J pos j" and a: "agree inp pos j k" "k \<le> max_len"
  shows "\<exists>len. lz_extend P inp pos j k max_len = Some len \<and> true_match inp J pos max_len (len, j) \<and> k \<le> len"
proof -
  have "lz_extend P inp pos j k max_len = Some (match_len inp pos j max_len)"
    using s j a by (intro lz_extend_aux) (simp_all add: searchable_def in_window_def)
  moreover have "k \<le> match_len inp pos j max_len" by (rule match_len_ge [OF a])
  ultimately show ?thesis using match_len_agree [of inp pos j max_len] j by (simp add: true_match_def)
qed

lemma first_match_found:
  assumes s: "searchable inp mf base pos J max_len" and seq: "load_u32_at P inp pos = Some seq4"
  shows "good_entry base J node \<Longrightarrow> \<not> outdated (cutoff_at base pos) node \<Longrightarrow>
    \<exists>r. hc_first_match P inp mf base (cutoff_at base pos) seq4 node depth = Some r \<and>
      (case r of None \<Rightarrow> True | Some (m, node', d) \<Rightarrow> in_window J pos m \<and> agree inp pos m 4 \<and>
         good_entry base J node' \<and> \<not> outdated (cutoff_at base pos) node')"
proof (induction "unat (depth - 1)" arbitrary: node depth rule: less_induct)
  case less
  obtain j e where j: "node_ptr base node = Some j" "in_window J pos j" "next_node mf node = Some e" "good_entry base J e"
    by (rule visit_node [OF s less.prems])
  have r: "j + 4 \<le> length inp" "pos + 4 \<le> length inp" using s j(2) by (simp_all add: searchable_def in_window_def)
  obtain v where v: "load_u32_at P inp j = Some v" using load_u32_some [OF r(1)] by blast
  show ?case
  proof (cases "v = seq4")
    case True
    then have "agree inp pos j 4" using load_u32_agree [OF r, of P] v seq by simp
    then show ?thesis using j v True less.prems by (subst hc_first_match.simps) simp
  next
    case False
    show ?thesis
    proof (cases "outdated (cutoff_at base pos) e \<or> depth = 1")
      case True
      then show ?thesis using j v False by (subst hc_first_match.simps) auto
    next
      case go: False
      then have "unat (depth - 1 - 1) < unat (depth - 1)" using depth_decreases [of depth] by simp
      from less.hyps [OF this j(4)] go show ?thesis
        using j v False by (subst hc_first_match.simps) simp
    qed
  qed
qed

lemma candidate_agrees:
  assumes s: "searchable inp mf base pos J max_len" and j: "in_window J pos j" and k: "3 \<le> k" "k < max_len"
  shows "\<exists>c. hc_candidate P inp pos j k = Some c \<and> (c \<longrightarrow> unaligned_fast P \<longrightarrow> agree inp pos j 4)"
proof (cases "unaligned_fast P")
  case False
  then show ?thesis using s j k by (simp add: hc_candidate_def byte_at_def fetch_def searchable_def in_window_def)
next
  case True
  have r: "j + k - 3 + 4 \<le> length inp" "pos + k - 3 + 4 \<le> length inp" "j + 4 \<le> length inp" "pos + 4 \<le> length inp"
    using s j k by (simp_all add: searchable_def in_window_def)
  obtain w x y z where l: "load_u32_at P inp (j + k - 3) = Some w" "load_u32_at P inp (pos + k - 3) = Some x"
    "load_u32_at P inp j = Some y" "load_u32_at P inp pos = Some z"
    using r [THEN load_u32_some [of _ inp P]] by blast
  have "y = z \<Longrightarrow> agree inp pos j 4" using load_u32_agree [OF r(3,4), of P] l by simp
  then show ?thesis using True l by (intro exI [of _ "w = x \<and> y = z"]) (simp add: hc_candidate_def)
qed

lemma try_improves:
  assumes s: "searchable inp mf base pos J max_len" and j: "in_window J pos j" and k: "3 \<le> fst best" "fst best < max_len"
  shows "\<exists>r. hc_try P inp pos max_len j best = Some r \<and> improved inp J pos max_len best r"
proof -
  obtain c where c: "hc_candidate P inp pos j (fst best) = Some c" "c \<longrightarrow> unaligned_fast P \<longrightarrow> agree inp pos j 4"
    using candidate_agrees [OF s j k] by blast
  show ?thesis
  proof (cases c)
    case False
    then show ?thesis using c(1) by (simp add: hc_try_def)
  next
    case True
    let ?k = "if unaligned_fast P then 4 else 0"
    have "agree inp pos j ?k" "?k \<le> max_len" using c(2) True s by (simp_all add: searchable_def)
    from extend_in_window [OF s j this, of P]
    obtain len where "lz_extend P inp pos j ?k max_len = Some len" "true_match inp J pos max_len (len, j)" by blast
    then show ?thesis using c(1) True by (simp add: hc_try_def improved_def)
  qed
qed

lemma longer_matches_improve:
  assumes s: "searchable inp mf base pos J max_len" and nice: "nice_len \<le> max_len"
  shows "good_entry base J node \<Longrightarrow> \<not> outdated (cutoff_at base pos) node \<Longrightarrow> 3 \<le> fst best \<Longrightarrow> fst best < nice_len \<Longrightarrow>
    \<exists>r. hc_longer_matches P inp mf base (cutoff_at base pos) pos max_len nice_len node depth best = Some r \<and>
      improved inp J pos max_len best r"
proof (induction "unat (depth - 1)" arbitrary: node depth best rule: less_induct)
  case less
  obtain j e where j: "node_ptr base node = Some j" "in_window J pos j" "next_node mf node = Some e" "good_entry base J e"
    by (rule visit_node [OF s less.prems(1,2)])
  have "fst best < max_len" using less.prems(4) nice by simp
  then obtain r where r: "hc_try P inp pos max_len j best = Some r" "improved inp J pos max_len best r"
    using try_improves [OF s j(2) less.prems(3)] by blast
  have ge: "fst best \<le> fst r" using r(2) by (auto simp: improved_def)
  show ?case
  proof (cases "(fst best < fst r \<and> nice_len \<le> fst r) \<or> outdated (cutoff_at base pos) e \<or> depth = 1")
    case True
    then show ?thesis using j r by (intro exI [of _ r]) (subst hc_longer_matches.simps, auto)
  next
    case False
    then have "fst r < nice_len" using ge less.prems(4) by (cases "fst best < fst r") simp_all
    moreover have "unat (depth - 1 - 1) < unat (depth - 1)" using depth_decreases [of depth] False by simp
    ultimately obtain r' where "hc_longer_matches P inp mf base (cutoff_at base pos) pos max_len nice_len e (depth - 1) r = Some r'"
      "improved inp J pos max_len r r'"
      using less.hyps [of "depth - 1" e r] j(4) False ge less.prems(3) by fastforce
    then show ?thesis using False j r improved_trans [OF r(2)]
      by (intro exI [of _ r']) (subst hc_longer_matches.simps, auto)
  qed
qed


lemma short_match_improves:
  assumes s: "searchable inp mf base pos J max_len" and seq: "load_u32_at P inp pos = Some seq4"
    and e: "good_entry base J node" "\<not> outdated (cutoff_at base pos) node" and b: "fst best < 4"
  shows "\<exists>r. hc_short_match P inp base pos node seq4 best = Some r \<and> improved inp J pos max_len best r \<and> fst r < 4"
proof -
  obtain j e where j: "node_ptr base node = Some j" "in_window J pos j" by (rule visit_node [OF s e])
  have r: "j + 4 \<le> length inp" "pos + 4 \<le> length inp" using s j(2) by (simp_all add: searchable_def in_window_def)
  obtain v where v: "load_u24_at P inp j = Some v" using load_u24_some [OF r(1)] by blast
  have "agree inp pos j 3" if "v = loaded_u32_to_u24 P seq4"
    using load_u24_agree [OF r seq] v that by simp
  then show ?thesis
    using j v b s by (auto simp: hc_short_match_def improved_def true_match_def searchable_def)
qed

lemma search_improves:
  assumes s: "searchable inp mf base pos J max_len" and nice: "nice_len \<le> max_len"
    and e: "good_entry base J node3" "good_entry base J node4"
  shows "\<exists>r. hc_search P inp mf base (cutoff_at base pos) pos max_len nice_len node3 node4 depth best = Some r \<and>
    improved inp J pos max_len best r"
proof (cases "fst best < 4")
  case False
  then show ?thesis
    using longer_matches_improve [OF s nice e(2), of best P depth] by (auto simp: hc_search_def)
next
  case True
  show ?thesis
  proof (cases "outdated (cutoff_at base pos) node3")
    case True
    then show ?thesis using \<open>fst best < 4\<close> by (simp add: hc_search_def)
  next
    case 3: False
    have "pos + 4 \<le> length inp" using s by (simp add: searchable_def)
    then obtain seq4 where seq: "load_u32_at P inp pos = Some seq4" using load_u32_some by blast
    obtain b where b: "hc_short_match P inp base pos node3 seq4 best = Some b" "improved inp J pos max_len best b" "fst b < 4"
      using short_match_improves [OF s seq e(1) 3 True] by blast
    show ?thesis
    proof (cases "outdated (cutoff_at base pos) node4")
      case True
      then show ?thesis using \<open>fst best < 4\<close> 3 seq b by (simp add: hc_search_def)
    next
      case 4: False
      obtain f where f: "hc_first_match P inp mf base (cutoff_at base pos) seq4 node4 depth = Some f"
        "case f of None \<Rightarrow> True | Some (m, node', d) \<Rightarrow> in_window J pos m \<and> agree inp pos m 4 \<and>
         good_entry base J node' \<and> \<not> outdated (cutoff_at base pos) node'"
        using first_match_found [OF s seq e(2) 4] by blast
      show ?thesis
      proof (cases f)
        case None
        then show ?thesis using True 3 4 seq b f(1) by (simp add: hc_search_def)
      next
        case (Some t)
        obtain m node d where t: "t = (m, node, d)" by (cases t)
        have m: "in_window J pos m" "agree inp pos m 4" "good_entry base J node" "\<not> outdated (cutoff_at base pos) node"
          using f(2) by (simp_all add: Some t)
        have "(4 :: nat) \<le> max_len" using s by (simp add: searchable_def)
        from extend_in_window [OF s m(1,2) this, of P]
        obtain len where len: "lz_extend P inp pos m 4 max_len = Some len" "true_match inp J pos max_len (len, m)" "4 \<le> len"
          by blast
        have imp: "improved inp J pos max_len best (len, m)"
          using b(2,3) len(2,3) by (intro improved_trans [OF b(2)]) (simp add: improved_def)
        obtain j e' where e': "next_node mf node = Some e'" "good_entry base J e'" by (rule visit_node [OF s m(3,4)])
        show ?thesis
        proof (cases "nice_len \<le> len \<or> outdated (cutoff_at base pos) e' \<or> d = 1")
          case stop: True
          then show ?thesis
            using True 3 4 seq b f(1) Some t len(1) imp e'(1)
            by (intro exI [of _ "(len, m)"]) (auto simp: hc_search_def)
        next
          case go: False
          then obtain r where "hc_longer_matches P inp mf base (cutoff_at base pos) pos max_len nice_len e' (d - 1) (len, m) = Some r"
            "improved inp J pos max_len (len, m) r"
            using longer_matches_improve [OF s nice e'(2), of "(len, m)" P "d - 1"] len(3) by auto
          then show ?thesis
            using True 3 4 seq b f(1) Some t len(1) e'(1) go improved_trans [OF imp]
            by (intro exI [of _ r]) (auto simp: hc_search_def)
        qed
      qed
    qed
  qed
qed

section \<open>The operations\<close>

lemma hc_inv_init:
  assumes "length (hash3_tab mf) = 2 ^ 15" and "length (hash4_tab mf) = 2 ^ 16" and "length (next_tab mf) = 2 ^ 15"
  shows "hc_inv (hc_matchfinder_init mf) 0 0 {}"
  using assms by (auto simp: hc_inv_def hc_matchfinder_init_def matchfinder_init_def)

lemma hc_inv_later: "hc_inv mf base pos J \<Longrightarrow> hc_inv mf base (Suc pos) J"
  by (auto simp: hc_inv_def)

lemma hc_longest_match_aux:
  assumes inv: "hc_inv mf base pos J" and pos: "pos \<le> base + MATCHFINDER_WINDOW_SIZE" and h: "hashes_ok h"
    and len: "pos + max_len \<le> length inp" "max_len < 2 ^ 32" "nice_len \<le> max_len"
  obtains mf' base' h' len m where "hc_matchfinder_longest_match P inp mf base pos best_len max_len nice_len depth h =
      Some (mf', base', h', len, pos - m)"
    and "hashes_ok h'" and "Suc pos \<le> base' + MATCHFINDER_WINDOW_SIZE"
    and "hc_inv mf' base' (Suc pos) (if 5 \<le> max_len then insert pos J else J)"
    and "improved inp J pos max_len (best_len, pos) (len, m)"
proof -
  obtain mf1 base' where sl: "hc_slide (pos - base) (mf, base) = (mf1, base')" by fastforce
  note i1 = hc_inv_slide [OF inv pos sl]
  have le: "base' \<le> pos" using i1(1) by (simp add: hc_inv_def)
  have next_pos: "Suc pos \<le> base' + MATCHFINDER_WINDOW_SIZE"
    using i1(2) le by (simp add: MATCHFINDER_WINDOW_SIZE_def MATCHFINDER_WINDOW_ORDER_def)
  show thesis
  proof (cases "max_len < 5")
    case True
    then show thesis
      using sl h next_pos hc_inv_later [OF i1(1)]
      by (intro that [of mf1 base' h best_len pos]) (simp_all add: hc_matchfinder_longest_match_def)
  next
    case False
    obtain node3 node4 mf' where ins: "hc_insert h (pos - base') mf1 = Some (node3, node4, mf')"
      "good_entry base' J node3" "good_entry base' J node4" "hc_inv mf' base' (Suc pos) (insert pos J)"
      "length (next_tab mf') = 2 ^ 15" "\<forall>j \<in> J. pos < j + 32768 \<longrightarrow> good_entry base' J (next_tab mf' ! slot base' j)"
      by (rule hc_insert_inv [OF i1 h])
    have s: "searchable inp mf' base' pos J max_len"
      using i1 ins(5,6) le len False by (simp add: searchable_def hc_inv_def)
    have "pos + 1 + 4 \<le> length inp" using len False by simp
    from hc_hashes_ok [OF this, of P]
    obtain h' where h': "hc_hashes P inp (pos + 1) = Some h'" "hashes_ok h'" by blast
    obtain r where r: "hc_search P inp mf' base' (cutoff_at base' pos) pos max_len nice_len node3 node4 depth (best_len, pos) = Some r"
      "improved inp J pos max_len (best_len, pos) r"
      using search_improves [OF s len(3) ins(2,3)] by blast
    have "hc_matchfinder_longest_match P inp mf base pos best_len max_len nice_len depth h =
        Some (mf', base', h', fst r, pos - snd r)"
      using sl ins(1) h'(1) r(1) False by (simp add: hc_matchfinder_longest_match_def Let_def split_beta)
    then show thesis
      using h'(2) next_pos ins(4) r(2) False by (intro that [of mf' base' h' "fst r" "snd r"]) simp_all
  qed
qed

lemma hc_skip_step_aux:
  assumes inv: "hc_inv mf base pos J" and pos: "pos \<le> base + MATCHFINDER_WINDOW_SIZE" and h: "hashes_ok h"
    and len: "pos + 5 \<le> length inp"
  obtains mf' base' h' where "hc_skip_step P inp mf base pos h = Some (mf', base', h')"
    and "hashes_ok h'" and "Suc pos \<le> base' + MATCHFINDER_WINDOW_SIZE" and "hc_inv mf' base' (Suc pos) (insert pos J)"
proof -
  obtain mf1 base' where sl: "hc_slide (pos - base) (mf, base) = (mf1, base')" by fastforce
  note i1 = hc_inv_slide [OF inv pos sl]
  have "base' \<le> pos" using i1(1) by (simp add: hc_inv_def)
  then have next_pos: "Suc pos \<le> base' + MATCHFINDER_WINDOW_SIZE"
    using i1(2) by (simp add: MATCHFINDER_WINDOW_SIZE_def MATCHFINDER_WINDOW_ORDER_def)
  obtain node3 node4 mf' where ins: "hc_insert h (pos - base') mf1 = Some (node3, node4, mf')"
    "hc_inv mf' base' (Suc pos) (insert pos J)"
    by (rule hc_insert_inv [OF i1 h])
  have "pos + 1 + 4 \<le> length inp" using len by simp
  from hc_hashes_ok [OF this, of P]
  obtain h' where "hc_hashes P inp (pos + 1) = Some h'" "hashes_ok h'" by blast
  then show thesis using sl ins next_pos by (intro that [of mf' base' h']) (simp_all add: hc_skip_step_def)
qed

lemma hc_skip_loop_aux:
  "hc_inv mf base pos J \<Longrightarrow> pos \<le> base + MATCHFINDER_WINDOW_SIZE \<Longrightarrow> hashes_ok h \<Longrightarrow>
   pos + n + 5 \<le> length inp \<Longrightarrow> remaining = of_nat (Suc n) \<Longrightarrow> Suc n < 2 ^ 32 \<Longrightarrow>
   \<exists>mf' base' h'. hc_skip_loop P inp remaining mf base pos h = Some (mf', base', h') \<and>
     hashes_ok h' \<and> pos + Suc n \<le> base' + MATCHFINDER_WINDOW_SIZE \<and> hc_inv mf' base' (pos + Suc n) (J \<union> {pos..<pos + Suc n})"
proof (induction n arbitrary: remaining mf base pos J h)
  case 0
  then have "pos + 5 \<le> length inp" by simp
  then obtain mf' base' h' where "hc_skip_step P inp mf base pos h = Some (mf', base', h')"
    "hashes_ok h'" "Suc pos \<le> base' + MATCHFINDER_WINDOW_SIZE" "hc_inv mf' base' (Suc pos) (insert pos J)"
    using hc_skip_step_aux [OF "0.prems"(1-3)] by blast
  then show ?case using "0.prems"(5) by (subst hc_skip_loop.simps) (simp add: insert_commute Un_commute)
next
  case (Suc n)
  then have "pos + 5 \<le> length inp" by simp
  then obtain mf1 base1 h1 where 1: "hc_skip_step P inp mf base pos h = Some (mf1, base1, h1)"
    "hashes_ok h1" "Suc pos \<le> base1 + MATCHFINDER_WINDOW_SIZE" "hc_inv mf1 base1 (Suc pos) (insert pos J)"
    using hc_skip_step_aux [OF Suc.prems(1-3)] by blast
  have r: "remaining - 1 = of_nat (Suc n)" using Suc.prems(5) by simp
  have "of_nat (Suc n) \<noteq> (0 :: u32)"
  proof -
    have "unat (of_nat (Suc n) :: u32) = Suc n" using Suc.prems(6) by (intro unat_of_nat_u32) simp
    then show ?thesis by (metis nat.distinct(1) unat_0)
  qed
  moreover have "Suc pos + n + 5 \<le> length inp" "Suc n < 2 ^ 32" using Suc.prems(4,6) by simp_all
  from Suc.IH [OF 1(4,3,2) this(1) r this(2)]
  obtain mf' base' h' where "hc_skip_loop P inp (remaining - 1) mf1 base1 (Suc pos) h1 = Some (mf', base', h')"
    "hashes_ok h'" "Suc pos + Suc n \<le> base' + MATCHFINDER_WINDOW_SIZE"
    "hc_inv mf' base' (Suc pos + Suc n) (insert pos J \<union> {Suc pos..<Suc pos + Suc n})"
    by blast
  moreover have "insert pos J \<union> {Suc pos..<Suc pos + Suc n} = J \<union> {pos..<pos + Suc (Suc n)}" by auto
  ultimately show ?case using 1(1) r by (subst hc_skip_loop.simps) simp
qed


text \<open>Skipping enters all the places, or does nothing when fewer than five bytes would be left.\<close>

lemma hc_skip_bytes_inv:
  assumes inv: "hc_inv mf base pos J" and pos: "pos \<le> base + MATCHFINDER_WINDOW_SIZE" and h: "hashes_ok h"
    and n: "0 < n" "n + 5 < 2 ^ 32" "pos \<le> length inp"
  shows "\<exists>mf' base' h'. hc_matchfinder_skip_bytes P inp mf base pos (length inp) (of_nat n) h = Some (mf', base', h') \<and>
    hashes_ok h' \<and>
    (if length inp < pos + n + 5 then mf' = mf \<and> base' = base
     else pos + n \<le> base' + MATCHFINDER_WINDOW_SIZE \<and> hc_inv mf' base' (pos + n) (J \<union> {pos..<pos + n}))"
proof -
  have u: "unat (of_nat n + 5 :: u32) = n + 5"
  proof -
    have "(of_nat n + 5 :: u32) = of_nat (n + 5)" by simp
    then show ?thesis using n(2) by (simp only: unat_of_nat_u32)
  qed
  have c: "int (length inp) - int pos < int (unat (of_nat n + 5 :: u32)) \<longleftrightarrow> length inp < pos + n + 5"
    unfolding u using n(3) by linarith
  show ?thesis
  proof (cases "length inp < pos + n + 5")
    case True
    then show ?thesis using h unfolding hc_matchfinder_skip_bytes_def c by simp
  next
    case False
    obtain k where k: "n = Suc k" using n(1) by (cases n) auto
    have "pos + k + 5 \<le> length inp" using False k by simp
    from hc_skip_loop_aux [OF inv pos h this, of "of_nat n" P] k n(2) False
    show ?thesis unfolding hc_matchfinder_skip_bytes_def c by simp
  qed
qed

text \<open>C39. A search with hash chains: from a state in which every entry of the tables is a place of the
  input that was entered before (or the initial value), on any platform and whatever collisions there
  are, \<^verbatim>\<open>hc_matchfinder_longest_match\<close> reads only the input and returns the given length with no offset,
  or a longer length and an offset of less than the window at which the input really repeats; and the
  state stays so, with the new place entered.\<close>

theorem hc_longest_match_valid:
  assumes "hc_inv mf base pos J" and "pos \<le> base + MATCHFINDER_WINDOW_SIZE" and "hashes_ok h"
    and "pos + max_len \<le> length inp" and "max_len < 2 ^ 32" and "nice_len \<le> max_len"
  shows "\<exists>mf' base' h' len off.
    hc_matchfinder_longest_match P inp mf base pos best_len max_len nice_len depth h = Some (mf', base', h', len, off) \<and>
    hashes_ok h' \<and> Suc pos \<le> base' + MATCHFINDER_WINDOW_SIZE \<and>
    hc_inv mf' base' (Suc pos) (if 5 \<le> max_len then insert pos J else J) \<and>
    (len = best_len \<and> off = 0 \<or>
     best_len < len \<and> len \<le> max_len \<and> 0 < off \<and> off < 32768 \<and> off \<le> pos \<and>
       (\<forall>i < len. inp ! (pos - off + i) = inp ! (pos + i)))"
proof -
  obtain mf' base' h' len m where r: "hc_matchfinder_longest_match P inp mf base pos best_len max_len nice_len depth h =
      Some (mf', base', h', len, pos - m)" "hashes_ok h'" "Suc pos \<le> base' + MATCHFINDER_WINDOW_SIZE"
    "hc_inv mf' base' (Suc pos) (if 5 \<le> max_len then insert pos J else J)"
    "improved inp J pos max_len (best_len, pos) (len, m)"
    by (rule hc_longest_match_aux [OF assms])
  have "len = best_len \<and> pos - m = 0 \<or>
     best_len < len \<and> len \<le> max_len \<and> 0 < pos - m \<and> pos - m < 32768 \<and> pos - m \<le> pos \<and>
       (\<forall>i < len. inp ! (pos - (pos - m) + i) = inp ! (pos + i))"
  proof (cases "(len, m) = (best_len, pos)")
    case False
    then have m: "best_len < len" "len \<le> max_len" "m < pos" "pos < m + 32768" "agree inp pos m len"
      using r(5) by (auto simp: improved_def true_match_def in_window_def)
    then have "pos - (pos - m) = m" by simp
    then show ?thesis using m by (auto simp: agree_def)
  qed simp
  then show ?thesis using r(1-4) by blast
qed

theorem hc_longest_match_valid_witness:
  "\<exists>mf' base' h' len off.
     hc_matchfinder_longest_match \<lparr>unaligned_fast = True, little_endian = True\<rparr> [1, 2, 3, 1, 2, 3, 1, 2, 3]
       (hc_matchfinder_init \<lparr>hash3_tab = replicate 32768 0, hash4_tab = replicate 65536 0, next_tab = replicate 32768 7\<rparr>)
       0 0 2 9 9 16 (0, 0) = Some (mf', base', h', len, off) \<and> hc_inv mf' base' 1 {0}"
proof -
  let ?mf = "\<lparr>hash3_tab = replicate 32768 0, hash4_tab = replicate 65536 0, next_tab = replicate 32768 7\<rparr>"
  have "hc_inv (hc_matchfinder_init ?mf) 0 0 {}" by (rule hc_inv_init) simp_all
  moreover have "hashes_ok (0, 0)" by (simp add: hashes_ok_def)
  ultimately have "\<exists>mf' base' h' len off.
    hc_matchfinder_longest_match \<lparr>unaligned_fast = True, little_endian = True\<rparr> [1, 2, 3, 1, 2, 3, 1, 2, 3]
      (hc_matchfinder_init ?mf) 0 0 2 9 9 16 (0, 0) = Some (mf', base', h', len, off) \<and>
    hashes_ok h' \<and> Suc 0 \<le> base' + MATCHFINDER_WINDOW_SIZE \<and>
    hc_inv mf' base' (Suc 0) (if 5 \<le> (9 :: nat) then insert 0 {} else {}) \<and>
    (len = 2 \<and> off = 0 \<or>
     2 < len \<and> len \<le> 9 \<and> 0 < off \<and> off < 32768 \<and> off \<le> 0 \<and>
       (\<forall>i < len. [1, 2, 3, 1, 2, 3, 1, 2, 3 :: byte] ! (0 - off + i) = [1, 2, 3, 1, 2, 3, 1, 2, 3] ! (0 + i)))"
    by - (rule hc_longest_match_valid, simp_all)
  then show ?thesis by (elim exE conjE) (intro exI conjI, assumption, simp)
qed

end
