(* ===== verification/Deflate_Hash_Table.thy ===== *)
theory Deflate_Hash_Table
  imports Deflate_Hash_Chains
begin

text \<open>
  The match finder of the fastest compression level (\<^verbatim>\<open>ht_matchfinder.h\<close>): a hash table with two places
  in every bucket, the newer one first.
\<close>

section \<open>The table\<close>

definition HT_MATCHFINDER_HASH_ORDER :: nat where "HT_MATCHFINDER_HASH_ORDER = 15"
definition HT_MATCHFINDER_MIN_MATCH_LEN :: nat where "HT_MATCHFINDER_MIN_MATCH_LEN = 4"
definition HT_MATCHFINDER_REQUIRED_NBYTES :: nat where "HT_MATCHFINDER_REQUIRED_NBYTES = 5"

type_synonym ht_matchfinder = "(mf_pos \<times> mf_pos) list"

definition ht_matchfinder_init :: "ht_matchfinder \<Rightarrow> ht_matchfinder" where
  "ht_matchfinder_init mf = map (\<lambda>_. (MATCHFINDER_INITVAL, MATCHFINDER_INITVAL)) mf"

definition ht_matchfinder_slide_window :: "ht_matchfinder \<Rightarrow> ht_matchfinder" where
  "ht_matchfinder_slide_window mf =
     map (map_prod (rebase_entry MATCHFINDER_WINDOW_SIZE) (rebase_entry MATCHFINDER_WINDOW_SIZE)) mf"

definition ht_hash :: "platform \<Rightarrow> byte list \<Rightarrow> nat \<Rightarrow> u32 option" where
  "ht_hash P inp p =
     (if p + 4 \<le> length inp then Some (lz_hash (get_unaligned_le32 P (drop p inp)) HT_MATCHFINDER_HASH_ORDER) else None)"

section \<open>Searching\<close>

text \<open>A place is tried: its first four bytes, and with a match at hand, the last four of a longer one.\<close>

definition ht_first :: "platform \<Rightarrow> byte list \<Rightarrow> nat \<Rightarrow> nat \<Rightarrow> u32 \<Rightarrow> nat \<Rightarrow> nat option option" where
  "ht_first P inp in_next max_len seq matchptr =
     do {
       v \<leftarrow> load_u32_at P inp matchptr;
       if v = seq then map_option Some (lz_extend P inp in_next matchptr 4 max_len) else Some None }"

definition ht_second :: "platform \<Rightarrow> byte list \<Rightarrow> nat \<Rightarrow> nat \<Rightarrow> u32 \<Rightarrow> nat \<Rightarrow> nat \<times> nat \<Rightarrow> (nat \<times> nat) option" where
  "ht_second P inp in_next max_len seq matchptr best =
     do {
       v \<leftarrow> load_u32_at P inp matchptr;
       if v \<noteq> seq then Some best
       else do {
         x \<leftarrow> load_u32_at P inp (matchptr + fst best - 3);
         y \<leftarrow> load_u32_at P inp (in_next + fst best - 3);
         if x \<noteq> y then Some best
         else do {
           len \<leftarrow> lz_extend P inp in_next matchptr 4 max_len;
           Some (if fst best < len then (len, matchptr) else best) } } }"

text \<open>The search in a bucket: the new bucket, the length and the place.\<close>

definition ht_bucket :: "platform \<Rightarrow> byte list \<Rightarrow> nat \<Rightarrow> mf_pos \<Rightarrow> nat \<Rightarrow> nat \<Rightarrow> nat \<Rightarrow> mf_pos \<Rightarrow> mf_pos \<times> mf_pos \<Rightarrow>
    ((mf_pos \<times> mf_pos) \<times> nat \<times> nat) option" where
  "ht_bucket P inp in_base cutoff in_next max_len nice_len new = (\<lambda>(node0, node1).
     do {
       seq \<leftarrow> load_u32_at P inp in_next;
       if outdated cutoff node0 then Some ((new, node1), 0, in_next)
       else do {
         matchptr \<leftarrow> node_ptr in_base node0;
         first \<leftarrow> ht_first P inp in_next max_len seq matchptr;
         case first of
           Some best_len \<Rightarrow>
             if outdated cutoff node1 \<or> nice_len \<le> best_len then Some ((new, node0), best_len, matchptr)
             else do {
               matchptr1 \<leftarrow> node_ptr in_base node1;
               best \<leftarrow> ht_second P inp in_next max_len seq matchptr1 (best_len, matchptr);
               Some ((new, node0), best) }
         | None \<Rightarrow>
             if outdated cutoff node1 then Some ((new, node0), 0, in_next)
             else do {
               matchptr1 \<leftarrow> node_ptr in_base node1;
               second \<leftarrow> ht_first P inp in_next max_len seq matchptr1;
               Some ((new, node0), case second of Some len \<Rightarrow> (len, matchptr1) | None \<Rightarrow> (0, in_next)) } } })"

definition ht_slide :: "nat \<Rightarrow> ht_matchfinder \<times> nat \<Rightarrow> ht_matchfinder \<times> nat" where
  "ht_slide cur_pos = (\<lambda>(mf, in_base).
     if cur_pos = MATCHFINDER_WINDOW_SIZE then (ht_matchfinder_slide_window mf, in_base + MATCHFINDER_WINDOW_SIZE)
     else (mf, in_base))"

definition ht_matchfinder_longest_match :: "platform \<Rightarrow> byte list \<Rightarrow> ht_matchfinder \<Rightarrow> nat \<Rightarrow> nat \<Rightarrow> nat \<Rightarrow> nat \<Rightarrow> u32 \<Rightarrow>
    (ht_matchfinder \<times> nat \<times> u32 \<times> nat \<times> nat) option" where
  "ht_matchfinder_longest_match P inp mf in_base in_next max_len nice_len next_hash =
     (case ht_slide (in_next - in_base) (mf, in_base) of (mf, in_base) \<Rightarrow>
      let cur_pos = in_next - in_base;
          cutoff = of_nat cur_pos - of_nat MATCHFINDER_WINDOW_SIZE
      in do {
        hash \<leftarrow> ht_hash P inp (in_next + 1);
        bucket \<leftarrow> fetch mf (unat next_hash);
        (bucket, len, matchptr) \<leftarrow> ht_bucket P inp in_base cutoff in_next max_len nice_len (of_nat cur_pos) bucket;
        mf \<leftarrow> store mf (unat next_hash) bucket;
        Some (mf, in_base, hash, len, in_next - matchptr) })"

section \<open>Skipping\<close>

text \<open>The window slides before the loop, so that positions may be negative in it.\<close>

function ht_skip_loop :: "platform \<Rightarrow> byte list \<Rightarrow> u32 \<Rightarrow> int \<Rightarrow> ht_matchfinder \<Rightarrow> nat \<Rightarrow> u32 \<Rightarrow> (ht_matchfinder \<times> u32) option" where
  "ht_skip_loop P inp remaining cur_pos mf in_next hash =
     do {
       (node0, node1) \<leftarrow> fetch mf (unat hash);
       mf \<leftarrow> store mf (unat hash) (word_of_int cur_pos, node0);
       hash \<leftarrow> ht_hash P inp (in_next + 1);
       if remaining - 1 = 0 then Some (mf, hash)
       else ht_skip_loop P inp (remaining - 1) (cur_pos + 1) mf (in_next + 1) hash }"
  by pat_completeness auto
termination
  by (relation "measure (\<lambda>(P, inp, remaining, cur_pos, mf, in_next, hash). unat (remaining - 1))")
    (auto intro: depth_decreases)

declare ht_skip_loop.simps [simp del]

definition ht_matchfinder_skip_bytes :: "platform \<Rightarrow> byte list \<Rightarrow> ht_matchfinder \<Rightarrow> nat \<Rightarrow> nat \<Rightarrow> nat \<Rightarrow> u32 \<Rightarrow> u32 \<Rightarrow>
    (ht_matchfinder \<times> nat \<times> u32) option" where
  "ht_matchfinder_skip_bytes P inp mf in_base in_next in_end count next_hash =
     (if int in_end - int in_next < int (unat (count + of_nat HT_MATCHFINDER_REQUIRED_NBYTES)) then Some (mf, in_base, next_hash)
      else
        let cur_pos = int in_next - int in_base;
            slides = (MATCHFINDER_WINDOW_SIZE \<le> unat (word_of_int cur_pos + count - 1));
            (mf, in_base, cur_pos) =
              (if slides
               then (ht_matchfinder_slide_window mf, in_base + MATCHFINDER_WINDOW_SIZE, cur_pos - int MATCHFINDER_WINDOW_SIZE)
               else (mf, in_base, cur_pos))
        in map_option (\<lambda>(mf, hash). (mf, in_base, hash)) (ht_skip_loop P inp count cur_pos mf in_next next_hash))"

section \<open>The invariant\<close>

definition ht_entries :: "ht_matchfinder \<Rightarrow> nat \<Rightarrow> nat set \<Rightarrow> bool" where
  "ht_entries mf base J \<longleftrightarrow>
     length mf = 2 ^ 15 \<and> (\<forall>e \<in> set mf. good_entry base J (fst e) \<and> good_entry base J (snd e))"

definition ht_inv :: "ht_matchfinder \<Rightarrow> nat \<Rightarrow> nat \<Rightarrow> nat set \<Rightarrow> bool" where
  "ht_inv mf base pos J \<longleftrightarrow> ht_entries mf base J \<and> base \<le> pos \<and> J \<subseteq> {..<pos}"

lemma ht_entries_slide:
  "ht_entries mf base J \<Longrightarrow> ht_entries (ht_matchfinder_slide_window mf) (base + MATCHFINDER_WINDOW_SIZE) J"
  by (auto simp: ht_entries_def ht_matchfinder_slide_window_def intro: good_entry_rebase)

lemma ht_entries_bucket:
  assumes "ht_entries mf base J" and "unat h < 2 ^ 15"
  obtains e0 e1 where "fetch mf (unat h) = Some (e0, e1)" and "good_entry base J e0" and "good_entry base J e1"
proof -
  obtain e0 e1 where e: "mf ! unat h = (e0, e1)" by fastforce
  have "mf ! unat h \<in> set mf" using assms by (simp add: ht_entries_def)
  then have "good_entry base J (fst (mf ! unat h))" "good_entry base J (snd (mf ! unat h))"
    using assms(1) by (simp_all add: ht_entries_def)
  then show thesis using assms e by (intro that [of e0 e1]) (simp_all add: ht_entries_def fetch_def)
qed

lemma ht_entries_store:
  assumes "ht_entries mf base J" and "unat h < 2 ^ 15" and "good_entry base K e0" and "good_entry base K e1" and "J \<subseteq> K"
  shows "store mf (unat h) (e0, e1) = Some (mf[unat h := (e0, e1)]) \<and> ht_entries (mf[unat h := (e0, e1)]) base K"
proof -
  have "good_entry base K (fst e) \<and> good_entry base K (snd e)" if mem: "e \<in> set (mf[unat h := (e0, e1)])" for e
  proof -
    consider "e = (e0, e1)" | "e \<in> set mf" using mem set_update_subset_insert [of mf "unat h" "(e0, e1)"] by blast
    then show ?thesis
    proof cases
      case 2
      then have "good_entry base J (fst e)" "good_entry base J (snd e)" using assms(1) by (simp_all add: ht_entries_def)
      then show ?thesis using good_entry_mono [OF _ assms(5)] by blast
    qed (use assms(3,4) in simp)
  qed
  then show ?thesis using assms(1,2) by (simp add: ht_entries_def store_def)
qed

lemma ht_inv_slide:
  assumes inv: "ht_inv mf base pos J" and pos: "pos \<le> base + MATCHFINDER_WINDOW_SIZE"
    and s: "ht_slide (pos - base) (mf, base) = (mf', base')"
  shows "ht_inv mf' base' pos J" and "pos - base' < 32768"
proof -
  have "ht_inv mf' base' pos J \<and> pos - base' < 32768"
  proof (cases "pos - base = MATCHFINDER_WINDOW_SIZE")
    case False
    then show ?thesis
      using inv s pos by (simp add: ht_slide_def MATCHFINDER_WINDOW_SIZE_def MATCHFINDER_WINDOW_ORDER_def)
  next
    case True
    then have mf: "mf' = ht_matchfinder_slide_window mf" "base' = base + MATCHFINDER_WINDOW_SIZE"
      using s by (simp_all add: ht_slide_def)
    have "base \<le> pos" using inv by (simp add: ht_inv_def)
    then have "pos = base'" using True mf(2) by linarith
    then show ?thesis using inv mf ht_entries_slide [of mf base J] by (simp add: ht_inv_def)
  qed
  then show "ht_inv mf' base' pos J" and "pos - base' < 32768" by simp_all
qed

lemma ht_hash_ok: "p + 4 \<le> length inp \<Longrightarrow> \<exists>h. ht_hash P inp p = Some h \<and> unat h < 2 ^ 15"
  using lz_hash_less [of 15] by (simp add: ht_hash_def HT_MATCHFINDER_HASH_ORDER_def)

lemma ht_inv_init: "length mf = 2 ^ 15 \<Longrightarrow> ht_inv (ht_matchfinder_init mf) 0 0 {}"
  by (auto simp: ht_inv_def ht_entries_def ht_matchfinder_init_def)


section \<open>What a search finds\<close>

text \<open>What the search in a bucket relies on, and a match it finds.\<close>

definition ht_place :: "byte list \<Rightarrow> nat set \<Rightarrow> nat \<Rightarrow> nat \<Rightarrow> bool" where
  "ht_place inp J pos max_len \<longleftrightarrow> 5 \<le> max_len \<and> max_len < 2 ^ 32 \<and> pos + max_len \<le> length inp"

lemma extend_place:
  assumes s: "ht_place inp J pos max_len" and j: "in_window J pos j" and a: "agree inp pos j 4"
  obtains len where "lz_extend P inp pos j 4 max_len = Some len" and "true_match inp J pos max_len (len, j)" and "4 \<le> len"
proof -
  have "lz_extend P inp pos j 4 max_len = Some (match_len inp pos j max_len)"
    using s j a by (intro lz_extend_aux) (simp_all add: ht_place_def in_window_def)
  moreover have "4 \<le> match_len inp pos j max_len" using s by (intro match_len_ge [OF a]) (simp add: ht_place_def)
  ultimately show thesis using match_len_agree [of inp pos j max_len] j by (intro that) (simp_all add: true_match_def)
qed

lemma ht_first_found:
  assumes s: "ht_place inp J pos max_len" and seq: "load_u32_at P inp pos = Some seq4" and j: "in_window J pos j"
  obtains r where "ht_first P inp pos max_len seq4 j = Some r"
    and "\<And>len. r = Some len \<Longrightarrow> true_match inp J pos max_len (len, j) \<and> 4 \<le> len"
proof -
  have r: "j + 4 \<le> length inp" "pos + 4 \<le> length inp" using s j by (simp_all add: ht_place_def in_window_def)
  obtain v where v: "load_u32_at P inp j = Some v" using load_u32_some [OF r(1)] by blast
  show thesis
  proof (cases "v = seq4")
    case True
    then have "agree inp pos j 4" using load_u32_agree [OF r, of P] v seq by simp
    then obtain len where "lz_extend P inp pos j 4 max_len = Some len" "true_match inp J pos max_len (len, j)" "4 \<le> len"
      by (rule extend_place [OF s j])
    then show thesis using True v by (intro that [of "Some len"]) (simp_all add: ht_first_def)
  next
    case False
    then show thesis using v by (intro that [of None]) (simp_all add: ht_first_def)
  qed
qed

lemma ht_second_found:
  assumes s: "ht_place inp J pos max_len" and seq: "load_u32_at P inp pos = Some seq4" and j: "in_window J pos j"
    and b: "true_match inp J pos max_len best" "4 \<le> fst best" "fst best < max_len"
  obtains r where "ht_second P inp pos max_len seq4 j best = Some r" and "true_match inp J pos max_len r" and "4 \<le> fst r"
proof -
  have r: "j + 4 \<le> length inp" "pos + 4 \<le> length inp" using s j by (simp_all add: ht_place_def in_window_def)
  have r': "j + fst best - 3 + 4 \<le> length inp" "pos + fst best - 3 + 4 \<le> length inp"
    using s j b by (simp_all add: ht_place_def in_window_def)
  obtain v x y where v: "load_u32_at P inp j = Some v" "load_u32_at P inp (j + fst best - 3) = Some x"
    "load_u32_at P inp (pos + fst best - 3) = Some y"
    using load_u32_some [OF r(1)] r' [THEN load_u32_some] by blast
  show thesis
  proof (cases "v = seq4 \<and> x = y")
    case True
    then have "agree inp pos j 4" using load_u32_agree [OF r, of P] v seq by simp
    then obtain len where "lz_extend P inp pos j 4 max_len = Some len" "true_match inp J pos max_len (len, j)" "4 \<le> len"
      by (rule extend_place [OF s j])
    then show thesis using True v b by (intro that [of "if fst best < len then (len, j) else best"]) (simp_all add: ht_second_def)
  next
    case False
    then show thesis using v b by (intro that [of best]) (auto simp: ht_second_def)
  qed
qed

lemma ht_node:
  assumes "good_entry base J e" and "pos - base < 32768" and "base \<le> pos" and "J \<subseteq> {..<pos}" and "\<not> outdated (cutoff_at base pos) e"
  obtains j where "node_ptr base e = Some j" and "in_window J pos j"
proof -
  have "J \<subseteq> {..<base + (pos - base)}" using assms(3,4) by simp
  from good_entry_place [OF assms(1,2) this assms(5)]
  show thesis using assms(3) that by (metis in_window_def le_add_diff_inverse)
qed

lemma ht_bucket_found:
  assumes s: "ht_place inp J pos max_len" and b: "base \<le> pos" "pos - base < 32768" "J \<subseteq> {..<pos}"
    and e: "good_entry base J e0" "good_entry base J e1" and nice: "nice_len \<le> max_len"
  obtains e len m where "ht_bucket P inp base (cutoff_at base pos) pos max_len nice_len new (e0, e1) = Some ((new, e), len, m)"
    and "good_entry base J e" and "(len, m) = (0, pos) \<or> (4 \<le> len \<and> true_match inp J pos max_len (len, m))"
proof -
  have "pos + 4 \<le> length inp" using s by (simp add: ht_place_def)
  then obtain seq4 where seq: "load_u32_at P inp pos = Some seq4" using load_u32_some by blast
  show thesis
  proof (cases "outdated (cutoff_at base pos) e0")
    case True
    then show thesis using seq e by (intro that [of e1 0 pos]) (simp_all add: ht_bucket_def)
  next
    case 0: False
    obtain j where j: "node_ptr base e0 = Some j" "in_window J pos j" by (rule ht_node [OF e(1) b(2,1,3) 0])
    obtain f where f: "ht_first P inp pos max_len seq4 j = Some f"
      "\<And>len. f = Some len \<Longrightarrow> true_match inp J pos max_len (len, j) \<and> 4 \<le> len"
      by (rule ht_first_found [OF s seq j(2)]) blast
    show thesis
    proof (cases f)
      case (Some len)
      then have m: "true_match inp J pos max_len (len, j)" "4 \<le> len" using f(2) by simp_all
      show thesis
      proof (cases "outdated (cutoff_at base pos) e1 \<or> nice_len \<le> len")
        case True
        then show thesis using 0 seq j f(1) Some m e by (intro that [of e0 len j]) (simp_all add: ht_bucket_def)
      next
        case False
        then have 1: "\<not> outdated (cutoff_at base pos) e1" and l: "len < max_len" using nice by simp_all
        obtain k where k: "node_ptr base e1 = Some k" "in_window J pos k" by (rule ht_node [OF e(2) b(2,1,3) 1])
        obtain r where r: "ht_second P inp pos max_len seq4 k (len, j) = Some r" "true_match inp J pos max_len r" "4 \<le> fst r"
          by (rule ht_second_found [OF s seq k(2) m(1)]) (use m l in simp_all)
        show thesis
          using 0 seq j f(1) Some False k r e by (intro that [of e0 "fst r" "snd r"]) (simp_all add: ht_bucket_def)
      qed
    next
      case None
      show thesis
      proof (cases "outdated (cutoff_at base pos) e1")
        case True
        then show thesis using 0 seq j f(1) None e by (intro that [of e0 0 pos]) (simp_all add: ht_bucket_def)
      next
        case 1: False
        obtain k where k: "node_ptr base e1 = Some k" "in_window J pos k" by (rule ht_node [OF e(2) b(2,1,3) 1])
        obtain g where g: "ht_first P inp pos max_len seq4 k = Some g"
          "\<And>len. g = Some len \<Longrightarrow> true_match inp J pos max_len (len, k) \<and> 4 \<le> len"
          by (rule ht_first_found [OF s seq k(2)]) blast
        show thesis
        proof (cases g)
          case None2: None
          then show thesis using 0 1 seq j f(1) None k g(1) e by (intro that [of e0 0 pos]) (simp_all add: ht_bucket_def)
        next
          case (Some len)
          then show thesis using 0 1 seq j f(1) None k g e by (intro that [of e0 len k]) (simp_all add: ht_bucket_def)
        qed
      qed
    qed
  qed
qed


section \<open>The operations\<close>

lemma ht_longest_match_aux:
  assumes inv: "ht_inv mf base pos J" and pos: "pos \<le> base + MATCHFINDER_WINDOW_SIZE" and h: "unat h < 2 ^ 15"
    and len: "5 \<le> max_len" "pos + max_len \<le> length inp" "max_len < 2 ^ 32" "nice_len \<le> max_len"
  obtains mf' base' h' len m where "ht_matchfinder_longest_match P inp mf base pos max_len nice_len h =
      Some (mf', base', h', len, pos - m)"
    and "unat h' < 2 ^ 15" and "Suc pos \<le> base' + MATCHFINDER_WINDOW_SIZE" and "ht_inv mf' base' (Suc pos) (insert pos J)"
    and "(len, m) = (0, pos) \<or> (4 \<le> len \<and> true_match inp J pos max_len (len, m))"
proof -
  obtain mf1 base' where sl: "ht_slide (pos - base) (mf, base) = (mf1, base')" by fastforce
  note i1 = ht_inv_slide [OF inv pos sl]
  have b: "base' \<le> pos" "J \<subseteq> {..<pos}" "ht_entries mf1 base' J" using i1(1) by (simp_all add: ht_inv_def)
  have next_pos: "Suc pos \<le> base' + MATCHFINDER_WINDOW_SIZE"
    using i1(2) b(1) by (simp add: MATCHFINDER_WINDOW_SIZE_def MATCHFINDER_WINDOW_ORDER_def)
  obtain e0 e1 where f: "fetch mf1 (unat h) = Some (e0, e1)" "good_entry base' J e0" "good_entry base' J e1"
    by (rule ht_entries_bucket [OF b(3) h])
  have "pos + 1 + 4 \<le> length inp" using len by simp
  from ht_hash_ok [OF this, of P] obtain h' where h': "ht_hash P inp (pos + 1) = Some h'" "unat h' < 2 ^ 15" by blast
  have s: "ht_place inp J pos max_len" using len by (simp add: ht_place_def)
  obtain e l m where r: "ht_bucket P inp base' (cutoff_at base' pos) pos max_len nice_len (of_nat (pos - base')) (e0, e1) =
      Some ((of_nat (pos - base'), e), l, m)" "good_entry base' J e" "(l, m) = (0, pos) \<or> (4 \<le> l \<and> true_match inp J pos max_len (l, m))"
    by (rule ht_bucket_found [OF s b(1) i1(2) b(2) f(2,3) len(4)])
  have "good_entry base' (insert pos J) (of_nat (pos - base'))" using i1(2) b(1) by (intro good_entry_new) simp_all
  moreover have "good_entry base' (insert pos J) e" using r(2) by (rule good_entry_mono) blast
  ultimately have st: "store mf1 (unat h) (of_nat (pos - base'), e) = Some (mf1[unat h := (of_nat (pos - base'), e)])"
    "ht_entries (mf1[unat h := (of_nat (pos - base'), e)]) base' (insert pos J)"
    using ht_entries_store [OF b(3) h] by blast+
  show thesis
    using sl f(1) h' r st b(1,2) next_pos
    by (intro that [of "mf1[unat h := (of_nat (pos - base'), e)]" base' h' l m])
      (auto simp: ht_matchfinder_longest_match_def Let_def ht_inv_def)
qed

text \<open>The loop of skipping: positions from \<open>cur_pos\<close> on, negative ones included, are entered.\<close>

lemma good_entry_int:
  "- 32768 \<le> p \<Longrightarrow> p < 32768 \<Longrightarrow> int base + p = int j \<Longrightarrow> j \<in> J \<Longrightarrow> good_entry base J (word_of_int p)"
  by (auto simp: good_entry_def sint_pos)

lemma ht_skip_one:
  assumes t: "ht_entries mf base J" and h: "unat h < 2 ^ 15" and len: "pos + 5 \<le> length inp"
    and p: "p = int pos - int base" "- 32768 \<le> p" "p < 32768"
  obtains mf' h' e0 e1 where "fetch mf (unat h) = Some (e0, e1)"
    and "store mf (unat h) (word_of_int p, e0) = Some mf'" and "ht_entries mf' base (insert pos J)"
    and "ht_hash P inp (pos + 1) = Some h'" and "unat h' < 2 ^ 15"
proof -
  obtain e0 e1 where f: "fetch mf (unat h) = Some (e0, e1)" "good_entry base J e0" by (rule ht_entries_bucket [OF t h])
  have "good_entry base (insert pos J) (word_of_int p)" using p by (intro good_entry_int [of p base pos]) simp_all
  moreover have "good_entry base (insert pos J) e0" using f(2) by (rule good_entry_mono) blast
  ultimately have st: "store mf (unat h) (word_of_int p, e0) = Some (mf[unat h := (word_of_int p, e0)])"
    "ht_entries (mf[unat h := (word_of_int p, e0)]) base (insert pos J)"
    using ht_entries_store [OF t h] by blast+
  have "pos + 1 + 4 \<le> length inp" using len by simp
  from ht_hash_ok [OF this, of P] obtain h' where "ht_hash P inp (pos + 1) = Some h'" "unat h' < 2 ^ 15" by blast
  then show thesis using f(1) st by (intro that)
qed

lemma of_nat_Suc_nonzero: "Suc n < 2 ^ 32 \<Longrightarrow> of_nat (Suc n) \<noteq> (0 :: u32)"
  using unat_of_nat_u32 [of "Suc n"] by (metis nat.distinct(1) unat_0)

lemma ht_skip_loop_aux:
  "ht_entries mf base J \<Longrightarrow> unat h < 2 ^ 15 \<Longrightarrow> pos + n + 5 \<le> length inp \<Longrightarrow> remaining = of_nat (Suc n) \<Longrightarrow> Suc n < 2 ^ 32 \<Longrightarrow>
   p = int pos - int base \<Longrightarrow> - 32768 \<le> p \<Longrightarrow> p + int n < 32768 \<Longrightarrow>
   \<exists>mf' h'. ht_skip_loop P inp remaining p mf pos h = Some (mf', h') \<and> unat h' < 2 ^ 15 \<and>
     ht_entries mf' base (J \<union> {pos..<pos + Suc n})"
proof (induction n arbitrary: remaining mf pos J h p)
  case 0
  have "pos + 5 \<le> length inp" "p < 32768" using 0 by simp_all
  then obtain mf' h' e0 e1 where "fetch mf (unat h) = Some (e0, e1)" "store mf (unat h) (word_of_int p, e0) = Some mf'"
    "ht_entries mf' base (insert pos J)" "ht_hash P inp (pos + 1) = Some h'" "unat h' < 2 ^ 15"
    by (rule ht_skip_one [OF "0.prems"(1,2) _ "0.prems"(6,7)])
  then show ?case using "0.prems"(4) by (subst ht_skip_loop.simps) (simp add: insert_commute Un_commute)
next
  case (Suc n)
  have "pos + 5 \<le> length inp" "p < 32768" using Suc.prems by simp_all
  then obtain mf1 h1 e0 e1 where 1: "fetch mf (unat h) = Some (e0, e1)" "store mf (unat h) (word_of_int p, e0) = Some mf1"
    "ht_entries mf1 base (insert pos J)" "ht_hash P inp (pos + 1) = Some h1" "unat h1 < 2 ^ 15"
    by (rule ht_skip_one [OF Suc.prems(1,2) _ Suc.prems(6,7)])
  have r: "remaining - 1 = of_nat (Suc n)" using Suc.prems(4) by simp
  have "Suc pos + n + 5 \<le> length inp" "Suc n < 2 ^ 32" "p + 1 = int (Suc pos) - int base" "- 32768 \<le> p + 1" "p + 1 + int n < 32768"
    using Suc.prems by simp_all
  from Suc.IH [OF 1(3,5) this(1) r this(2-5)]
  obtain mf' h' where "ht_skip_loop P inp (remaining - 1) (p + 1) mf1 (Suc pos) h1 = Some (mf', h')" "unat h' < 2 ^ 15"
    "ht_entries mf' base (insert pos J \<union> {Suc pos..<Suc pos + Suc n})" by blast
  moreover have "insert pos J \<union> {Suc pos..<Suc pos + Suc n} = J \<union> {pos..<pos + Suc (Suc n)}" by auto
  ultimately show ?case
    using 1 r of_nat_Suc_nonzero [OF \<open>Suc n < 2 ^ 32\<close>] by (subst ht_skip_loop.simps) simp
qed

text \<open>Skipping at most a window.\<close>

lemma ht_skip_bytes_inv:
  assumes inv: "ht_inv mf base pos J" and pos: "pos \<le> base + MATCHFINDER_WINDOW_SIZE" and h: "unat h < 2 ^ 15"
    and n: "0 < n" "n \<le> 32768" "pos \<le> length inp"
  shows "\<exists>mf' base' h'. ht_matchfinder_skip_bytes P inp mf base pos (length inp) (of_nat n) h = Some (mf', base', h') \<and>
    unat h' < 2 ^ 15 \<and>
    (if length inp < pos + n + 5 then mf' = mf \<and> base' = base
     else pos + n \<le> base' + MATCHFINDER_WINDOW_SIZE \<and> ht_inv mf' base' (pos + n) (J \<union> {pos..<pos + n}))"
proof -
  have W: "MATCHFINDER_WINDOW_SIZE = 32768" by (simp add: MATCHFINDER_WINDOW_SIZE_def MATCHFINDER_WINDOW_ORDER_def)
  have b: "base \<le> pos" "J \<subseteq> {..<pos}" "ht_entries mf base J" using inv by (simp_all add: ht_inv_def)
  have u: "unat (of_nat n + of_nat HT_MATCHFINDER_REQUIRED_NBYTES :: u32) = n + 5"
  proof -
    have "(of_nat n + of_nat HT_MATCHFINDER_REQUIRED_NBYTES :: u32) = of_nat (n + 5)" by (simp add: HT_MATCHFINDER_REQUIRED_NBYTES_def)
    moreover have "n + 5 < 2 ^ 32" using n(2) by simp
    ultimately show ?thesis by (simp only: unat_of_nat_u32)
  qed
  have c: "int (length inp) - int pos < int (unat (of_nat n + of_nat HT_MATCHFINDER_REQUIRED_NBYTES :: u32)) \<longleftrightarrow> length inp < pos + n + 5"
    unfolding u using n(3) by linarith
  show ?thesis
  proof (cases "length inp < pos + n + 5")
    case True
    then show ?thesis using h unfolding ht_matchfinder_skip_bytes_def c by simp
  next
    case False
    obtain k where k: "n = Suc k" using n(1) by (cases n) auto
    have len: "pos + k + 5 \<le> length inp" and k32: "Suc k < 2 ^ 32" using False k n(2) by simp_all
    have cur: "unat (word_of_int (int pos - int base) + of_nat n - 1 :: u32) = pos - base + k"
    proof -
      have "(word_of_int (int pos - int base) + of_nat n - 1 :: u32) = of_nat (pos - base + k)"
        using b(1) by (simp add: k of_nat_diff)
      moreover have "pos - base + k < 2 ^ 32" using pos n(2) k W by simp
      ultimately show ?thesis by (simp only: unat_of_nat_u32)
    qed
    define slides where "slides \<longleftrightarrow> MATCHFINDER_WINDOW_SIZE \<le> pos - base + k"
    define base' where "base' = (if slides then base + MATCHFINDER_WINDOW_SIZE else base)"
    define mf1 where "mf1 = (if slides then ht_matchfinder_slide_window mf else mf)"
    have t: "ht_entries mf1 base' J" using b(3) ht_entries_slide by (simp add: mf1_def base'_def)
    have p: "- 32768 \<le> int pos - int base'" "int pos - int base' + int k < 32768" "base' \<le> pos + n" "pos + n \<le> base' + 32768"
    proof -
      have sl: "slides \<longleftrightarrow> base + 32768 \<le> pos + k" using b(1) unfolding slides_def W by linarith
      have "base \<le> pos" "pos \<le> base + 32768" "k \<le> 32767" using b(1) pos n(2) k W by simp_all
      then show "- 32768 \<le> int pos - int base'" "int pos - int base' + int k < 32768" "base' \<le> pos + n" "pos + n \<le> base' + 32768"
        using sl k unfolding base'_def W by (cases slides; simp)+
    qed
    from ht_skip_loop_aux [OF t h len _ k32 refl p(1,2), of "of_nat n" P]
    obtain mf' h' where l: "ht_skip_loop P inp (of_nat n) (int pos - int base') mf1 pos h = Some (mf', h')" "unat h' < 2 ^ 15"
      "ht_entries mf' base' (J \<union> {pos..<pos + n})" using k by auto
    have "ht_matchfinder_skip_bytes P inp mf base pos (length inp) (of_nat n) h = Some (mf', base', h')"
      using l(1) False unfolding ht_matchfinder_skip_bytes_def c Let_def cur
      by (simp add: base'_def mf1_def slides_def W algebra_simps split: if_splits)
    moreover have "J \<union> {pos..<pos + n} \<subseteq> {..<pos + n}" using b(2) by auto
    ultimately show ?thesis using False l(2,3) p(3,4) by (simp add: ht_inv_def W)
  qed
qed

text \<open>C40. A search in the table of the fastest level: from a state whose entries are places that were
  entered before, \<^verbatim>\<open>ht_matchfinder_longest_match\<close> returns no match, or a match of at least four bytes at
  an offset of less than the window at which the input really repeats; and the state stays so.\<close>

theorem ht_longest_match_valid:
  assumes "ht_inv mf base pos J" and "pos \<le> base + MATCHFINDER_WINDOW_SIZE" and "unat h < 2 ^ 15"
    and "5 \<le> max_len" and "pos + max_len \<le> length inp" and "max_len < 2 ^ 32" and "nice_len \<le> max_len"
  shows "\<exists>mf' base' h' len off.
    ht_matchfinder_longest_match P inp mf base pos max_len nice_len h = Some (mf', base', h', len, off) \<and>
    unat h' < 2 ^ 15 \<and> Suc pos \<le> base' + MATCHFINDER_WINDOW_SIZE \<and> ht_inv mf' base' (Suc pos) (insert pos J) \<and>
    (len = 0 \<and> off = 0 \<or>
     4 \<le> len \<and> len \<le> max_len \<and> 0 < off \<and> off < 32768 \<and> off \<le> pos \<and>
       (\<forall>i < len. inp ! (pos - off + i) = inp ! (pos + i)))"
proof -
  obtain mf' base' h' len m where r: "ht_matchfinder_longest_match P inp mf base pos max_len nice_len h =
      Some (mf', base', h', len, pos - m)" "unat h' < 2 ^ 15" "Suc pos \<le> base' + MATCHFINDER_WINDOW_SIZE"
    "ht_inv mf' base' (Suc pos) (insert pos J)"
    "(len, m) = (0, pos) \<or> (4 \<le> len \<and> true_match inp J pos max_len (len, m))"
    by (rule ht_longest_match_aux [OF assms])
  have "len = 0 \<and> pos - m = 0 \<or>
     4 \<le> len \<and> len \<le> max_len \<and> 0 < pos - m \<and> pos - m < 32768 \<and> pos - m \<le> pos \<and>
       (\<forall>i < len. inp ! (pos - (pos - m) + i) = inp ! (pos + i))"
  proof (cases "(len, m) = (0, pos)")
    case False
    then have m: "4 \<le> len" "len \<le> max_len" "m < pos" "pos < m + 32768" "agree inp pos m len"
      using r(5) by (auto simp: true_match_def in_window_def)
    then have "pos - (pos - m) = m" by simp
    then show ?thesis using m by (auto simp: agree_def)
  qed simp
  then show ?thesis using r(1-4) by blast
qed

theorem ht_longest_match_valid_witness:
  "\<exists>mf' base' h' len off.
     ht_matchfinder_longest_match \<lparr>unaligned_fast = False, little_endian = True\<rparr> [1, 2, 3, 1, 2, 3, 1, 2, 3]
       (ht_matchfinder_init (replicate 32768 (0, 0))) 0 0 9 9 0 = Some (mf', base', h', len, off) \<and> ht_inv mf' base' 1 {0}"
proof -
  have "ht_inv (ht_matchfinder_init (replicate 32768 (0, 0))) 0 0 {}" by (rule ht_inv_init) simp
  then have "\<exists>mf' base' h' len off.
    ht_matchfinder_longest_match \<lparr>unaligned_fast = False, little_endian = True\<rparr> [1, 2, 3, 1, 2, 3, 1, 2, 3]
      (ht_matchfinder_init (replicate 32768 (0, 0))) 0 0 9 9 0 = Some (mf', base', h', len, off) \<and>
    unat h' < 2 ^ 15 \<and> Suc 0 \<le> base' + MATCHFINDER_WINDOW_SIZE \<and> ht_inv mf' base' (Suc 0) (insert 0 {}) \<and>
    (len = 0 \<and> off = 0 \<or>
     4 \<le> len \<and> len \<le> 9 \<and> 0 < off \<and> off < 32768 \<and> off \<le> 0 \<and>
       (\<forall>i < len. [1, 2, 3, 1, 2, 3, 1, 2, 3 :: byte] ! (0 - off + i) = [1, 2, 3, 1, 2, 3, 1, 2, 3] ! (0 + i)))"
    by - (rule ht_longest_match_valid, simp_all)
  then show ?thesis by (elim exE conjE) (intro exI conjI, assumption, simp)
qed

end
