(* ===== verification/Deflate_Compress.thy ===== *)
theory Deflate_Compress
  imports Deflate_Output Deflate_Hash_Table
begin

text \<open>
  The compressors of levels 1 to 9 (\<^verbatim>\<open>tools/deflate/lib/deflate_compress.c\<close>): choosing literals and
  matches with a match finder, block by block. The local variables of a compressor that live across its loops
  are a record. A loop that \<^verbatim>\<open>break\<close>s says so with a flag.
  The loops are partial functions; that they return is a theorem.
\<close>

section \<open>The fastest compressor\<close>

record 'h parse =
  p_base :: nat
  p_next :: nat
  p_hash :: 'h
  p_max :: nat
  p_nice :: nat
  p_seq :: nat

definition start_parse :: "'h \<Rightarrow> 'm compressor \<Rightarrow> 'h parse" where
  "start_parse h c =
     \<lparr>p_base = 0, p_next = 0, p_hash = h, p_max = DEFLATE_MAX_MATCH_LEN,
      p_nice = min (nice_match_length c) DEFLATE_MAX_MATCH_LEN, p_seq = 0\<rparr>"

text \<open>\<^verbatim>\<open>deflate_choose_literal(c, *in_next++, ...)\<close>.\<close>

definition literal_step :: "byte list \<Rightarrow> bool \<Rightarrow> 'm compressor \<times> 'h parse \<Rightarrow> ('m compressor \<times> 'h parse) option" where
  "literal_step inp stats = (\<lambda>(c, p).
     do {
       b \<leftarrow> fetch inp (p_next p);
       c \<leftarrow> deflate_choose_literal b stats (p_seq p) c;
       Some (c, p\<lparr>p_next := p_next p + 1\<rparr>) })"

fun last_literals :: "byte list \<Rightarrow> nat \<Rightarrow> 'm compressor \<times> 'h parse \<Rightarrow> ('m compressor \<times> 'h parse) option" where
  "last_literals inp n s = do { s \<leftarrow> literal_step inp False s; if n - 1 \<noteq> 0 then last_literals inp (n - 1) s else Some s }"

declare last_literals.simps [simp del]

type_synonym ht_parse = "ht_matchfinder compressor \<times> u32 parse"

definition table_search :: "platform \<Rightarrow> byte list \<Rightarrow> ht_parse \<Rightarrow> (nat \<times> nat \<times> ht_parse) option" where
  "table_search P inp = (\<lambda>(c, p).
     do {
       (mf, base, hash, len, off) \<leftarrow>
         ht_matchfinder_longest_match P inp (matchfinder c) (p_base p) (p_next p) (p_max p) (p_nice p) (p_hash p);
       Some (len, off, c\<lparr>matchfinder := mf\<rparr>, p\<lparr>p_base := base, p_hash := hash\<rparr>) })"

text \<open>Skipping \<open>n\<close> bytes from the place of the parser on.\<close>

definition table_skip :: "platform \<Rightarrow> byte list \<Rightarrow> nat \<Rightarrow> ht_parse \<Rightarrow> ht_parse option" where
  "table_skip P inp n = (\<lambda>(c, p).
     do {
       (mf, base, hash) \<leftarrow>
         ht_matchfinder_skip_bytes P inp (matchfinder c) (p_base p) (p_next p) (length inp) (of_nat n) (p_hash p);
       Some (c\<lparr>matchfinder := mf\<rparr>, p\<lparr>p_base := base, p_hash := hash, p_next := p_next p + n\<rparr>) })"

definition match_step :: "bool \<Rightarrow> nat \<Rightarrow> nat \<Rightarrow> 'm compressor \<times> 'h parse \<Rightarrow> ('m compressor \<times> 'h parse) option" where
  "match_step stats len off = (\<lambda>(c, p).
     do { (c, sq) \<leftarrow> deflate_choose_match len off stats (p_seq p) c; Some (c, p\<lparr>p_seq := sq\<rparr>) })"

definition advance :: "nat \<Rightarrow> 'm compressor \<times> 'h parse \<Rightarrow> 'm compressor \<times> 'h parse" where
  "advance n = (\<lambda>(c, p). (c, p\<lparr>p_next := p_next p + n\<rparr>))"

text \<open>The flag says that the loop over the block is left.\<close>

definition fastest_step :: "platform \<Rightarrow> byte list \<Rightarrow> ht_parse \<Rightarrow> (bool \<times> ht_parse) option" where
  "fastest_step P inp = (\<lambda>(c, p).
     let remaining = length inp - p_next p;
         few = (remaining < DEFLATE_MAX_MATCH_LEN);
         p = (if few then p\<lparr>p_max := remaining\<rparr> else p)
     in if few \<and> p_max p < HT_MATCHFINDER_REQUIRED_NBYTES
        then map_option (\<lambda>(c, p). (True, c, p\<lparr>p_max := 0\<rparr>)) (last_literals inp (p_max p) (c, p))
        else do {
          let p = (if few then p\<lparr>p_nice := min (p_nice p) (p_max p)\<rparr> else p);
          (len, off, s) \<leftarrow> table_search P inp (c, p);
          if len \<noteq> 0
          then do {
            s \<leftarrow> match_step False len off s;
            s \<leftarrow> table_skip P inp (len - 1) (advance 1 s);
            Some (False, s) }
          else map_option (Pair False) (literal_step inp False s) })"

partial_function (option) fastest_block :: "platform \<Rightarrow> byte list \<Rightarrow> nat \<Rightarrow> ht_parse \<Rightarrow> ht_parse option" where
  "fastest_block P inp max_end s =
     do {
       (left, c, p) \<leftarrow> fastest_step P inp s;
       if \<not> left \<and> p_next p < max_end \<and> p_seq p < FAST_SEQ_STORE_LENGTH then fastest_block P inp max_end (c, p)
       else Some (c, p) }"

partial_function (option) fastest_blocks :: "platform \<Rightarrow> byte list \<Rightarrow> ht_parse \<Rightarrow> ostream \<Rightarrow> (ht_parse \<times> ostream) option" where
  "fastest_blocks P inp s os =
     (case s of (c, p) \<Rightarrow>
      do {
        let start = p_next p;
        let max_end = choose_max_block_end start (length inp) FAST_SOFT_MAX_BLOCK_LENGTH;
        c \<leftarrow> deflate_begin_sequences c;
        (c, p) \<leftarrow> fastest_block P inp max_end (c, p\<lparr>p_seq := 0\<rparr>);
        (c, os) \<leftarrow> deflate_finish_block P inp start (p_next p - start) (p_next p = length inp) c os;
        if p_next p \<noteq> length inp then fastest_blocks P inp (c, p) os else Some ((c, p), os) })"

definition deflate_compress_fastest :: "platform \<Rightarrow> ht_matchfinder compressor \<Rightarrow> byte list \<Rightarrow> ostream \<Rightarrow>
    (ht_parse \<times> ostream) option" where
  "deflate_compress_fastest P c inp os =
     fastest_blocks P inp (c\<lparr>matchfinder := ht_matchfinder_init (matchfinder c)\<rparr>, start_parse 0 c) os"

section \<open>The greedy compressor\<close>

type_synonym hc_parse = "hc_matchfinder compressor \<times> (u32 \<times> u32) parse"

text \<open>The match lengths are adjusted, then the match finder searches for a match longer than \<open>best_len\<close>.\<close>

definition chains_search :: "platform \<Rightarrow> byte list \<Rightarrow> nat \<Rightarrow> u32 \<Rightarrow> hc_parse \<Rightarrow> (nat \<times> nat \<times> hc_parse) option" where
  "chains_search P inp best_len depth = (\<lambda>(c, p).
     let (max_len, nice_len) = adjust_max_and_nice_len (length inp - p_next p) (p_max p, p_nice p) in
     do {
       (mf, base, hash, len, off) \<leftarrow>
         hc_matchfinder_longest_match P inp (matchfinder c) (p_base p) (p_next p) best_len max_len nice_len depth (p_hash p);
       Some (len, off, c\<lparr>matchfinder := mf\<rparr>, p\<lparr>p_base := base, p_hash := hash, p_max := max_len, p_nice := nice_len\<rparr>) })"

definition chains_skip :: "platform \<Rightarrow> byte list \<Rightarrow> nat \<Rightarrow> hc_parse \<Rightarrow> hc_parse option" where
  "chains_skip P inp n = (\<lambda>(c, p).
     do {
       (mf, base, hash) \<leftarrow>
         hc_matchfinder_skip_bytes P inp (matchfinder c) (p_base p) (p_next p) (length inp) (of_nat n) (p_hash p);
       Some (c\<lparr>matchfinder := mf\<rparr>, p\<lparr>p_base := base, p_hash := hash, p_next := p_next p + n\<rparr>) })"

definition greedy_step :: "platform \<Rightarrow> byte list \<Rightarrow> nat \<Rightarrow> hc_parse \<Rightarrow> hc_parse option" where
  "greedy_step P inp min_len s =
     do {
       (len, off, s) \<leftarrow> chains_search P inp (min_len - 1) (max_search_depth (fst s)) s;
       if min_len \<le> len \<and> (DEFLATE_MIN_MATCH_LEN < len \<or> off \<le> 4096)
       then do { s \<leftarrow> match_step True len off s; chains_skip P inp (len - 1) (advance 1 s) }
       else literal_step inp True s }"

text \<open>Is the block to be ended? The check may merge the observations.\<close>

definition block_goes_on :: "byte list \<Rightarrow> nat \<Rightarrow> nat \<Rightarrow> hc_parse \<Rightarrow> bool \<times> hc_parse" where
  "block_goes_on inp start max_end = (\<lambda>(c, p).
     if p_next p < max_end \<and> p_seq p < SEQ_STORE_LENGTH
     then (case should_end_block (split_stats c) start (p_next p) (length inp) of
             (stop, st) \<Rightarrow> (\<not> stop, c\<lparr>split_stats := st\<rparr>, p))
     else (False, c, p))"

partial_function (option) greedy_block :: "platform \<Rightarrow> byte list \<Rightarrow> nat \<Rightarrow> nat \<Rightarrow> nat \<Rightarrow> hc_parse \<Rightarrow> hc_parse option" where
  "greedy_block P inp start max_end min_len s =
     do {
       s \<leftarrow> greedy_step P inp min_len s;
       let (again, s) = block_goes_on inp start max_end s;
       if again then greedy_block P inp start max_end min_len s else Some s }"

definition begin_block :: "byte list \<Rightarrow> nat \<Rightarrow> nat \<Rightarrow> hc_parse \<Rightarrow> (nat \<times> hc_parse) option" where
  "begin_block inp start max_end = (\<lambda>(c, p).
     do {
       c \<leftarrow> deflate_begin_sequences (c\<lparr>split_stats := init_block_split_stats (split_stats c)\<rparr>);
       min_len \<leftarrow> calculate_min_match_len inp start (max_end - start) (max_search_depth c);
       Some (min_len, c, p\<lparr>p_seq := 0\<rparr>) })"

partial_function (option) greedy_blocks :: "platform \<Rightarrow> byte list \<Rightarrow> hc_parse \<Rightarrow> ostream \<Rightarrow> (hc_parse \<times> ostream) option" where
  "greedy_blocks P inp s os =
     do {
       let start = p_next (snd s);
       let max_end = choose_max_block_end start (length inp) SOFT_MAX_BLOCK_LENGTH;
       (min_len, s) \<leftarrow> begin_block inp start max_end s;
       (c, p) \<leftarrow> greedy_block P inp start max_end min_len s;
       (c, os) \<leftarrow> deflate_finish_block P inp start (p_next p - start) (p_next p = length inp) c os;
       if p_next p \<noteq> length inp then greedy_blocks P inp (c, p) os else Some ((c, p), os) }"

definition start_chains :: "hc_matchfinder compressor \<Rightarrow> hc_parse" where
  "start_chains c = (c\<lparr>matchfinder := hc_matchfinder_init (matchfinder c)\<rparr>, start_parse (0, 0) c)"

definition deflate_compress_greedy :: "platform \<Rightarrow> hc_matchfinder compressor \<Rightarrow> byte list \<Rightarrow> ostream \<Rightarrow>
    (hc_parse \<times> ostream) option" where
  "deflate_compress_greedy P c inp os = greedy_blocks P inp (start_chains c) os"

section \<open>The lazy compressors\<close>

definition better :: "nat \<Rightarrow> nat \<Rightarrow> nat \<Rightarrow> nat \<Rightarrow> int \<Rightarrow> bool" where
  "better len2 off2 len off gain \<longleftrightarrow>
     len \<le> len2 \<and> 4 * int (len2 - len) + (int (bsr32 (of_nat off)) - int (bsr32 (of_nat off2))) > gain"

text \<open>The bytes at \<open>n\<close> places before the place of the parser on become literals, \<open>k\<close> of them.\<close>

fun literals_back :: "byte list \<Rightarrow> nat \<Rightarrow> nat \<Rightarrow> hc_parse \<Rightarrow> hc_parse option" where
  "literals_back inp n 0 s = Some s"
| "literals_back inp n (Suc k) s =
     do {
       b \<leftarrow> fetch inp (p_next (snd s) - n);
       c \<leftarrow> deflate_choose_literal b True (p_seq (snd s)) (fst s);
       literals_back inp (n - 1) k (c, snd s) }"

text \<open>\<^verbatim>\<open>have_cur_match\<close>: there is a match of length \<open>len\<close> at the place before the parser's.\<close>

partial_function (option) have_cur_match :: "platform \<Rightarrow> byte list \<Rightarrow> bool \<Rightarrow> nat \<Rightarrow> nat \<Rightarrow> hc_parse \<Rightarrow> hc_parse option" where
  "have_cur_match P inp lazy2 len off s =
     (if p_nice (snd s) \<le> len
      then do { s \<leftarrow> match_step True len off s; chains_skip P inp (len - 1) s }
      else do {
        (len2, off2, s) \<leftarrow> chains_search P inp (len - 1) (drop_bit 1 (max_search_depth (fst s))) s;
        let s = advance 1 s;
        if better len2 off2 len off 2
        then do { s \<leftarrow> literals_back inp 2 1 s; have_cur_match P inp lazy2 len2 off2 s }
        else if lazy2
        then do {
          (len2, off2, s) \<leftarrow> chains_search P inp (len - 1) (drop_bit 2 (max_search_depth (fst s))) s;
          let s = advance 1 s;
          if better len2 off2 len off 6
          then do { s \<leftarrow> literals_back inp 3 2 s; have_cur_match P inp lazy2 len2 off2 s }
          else do {
            s \<leftarrow> match_step True len off s;
            if 3 < len then chains_skip P inp (len - 3) s else Some s } }
        else do { s \<leftarrow> match_step True len off s; chains_skip P inp (len - 2) s } })"

definition lazy_step :: "platform \<Rightarrow> byte list \<Rightarrow> bool \<Rightarrow> nat \<Rightarrow> hc_parse \<Rightarrow> hc_parse option" where
  "lazy_step P inp lazy2 min_len s =
     do {
       (len, off, s) \<leftarrow> chains_search P inp (min_len - 1) (max_search_depth (fst s)) s;
       if len < min_len \<or> (len = DEFLATE_MIN_MATCH_LEN \<and> 8192 < off) then literal_step inp True s
       else have_cur_match P inp lazy2 len off (advance 1 s) }"

text \<open>The minimum length is recalculated from time to time.\<close>

definition recalculate :: "byte list \<Rightarrow> nat \<Rightarrow> hc_parse \<Rightarrow> nat \<times> nat \<Rightarrow> nat \<times> nat" where
  "recalculate inp start = (\<lambda>(c, p) (min_len, recalc).
     if recalc \<le> p_next p
     then (recalculate_min_match_len (freqs c) (max_search_depth c),
           recalc + min (length inp - recalc) (p_next p - start))
     else (min_len, recalc))"

partial_function (option) lazy_block :: "platform \<Rightarrow> byte list \<Rightarrow> bool \<Rightarrow> nat \<Rightarrow> nat \<Rightarrow> nat \<times> nat \<Rightarrow> hc_parse \<Rightarrow> hc_parse option" where
  "lazy_block P inp lazy2 start max_end m s =
     do {
       let m = recalculate inp start s m;
       s \<leftarrow> lazy_step P inp lazy2 (fst m) s;
       let (again, s) = block_goes_on inp start max_end s;
       if again then lazy_block P inp lazy2 start max_end m s else Some s }"

partial_function (option) lazy_blocks :: "platform \<Rightarrow> byte list \<Rightarrow> bool \<Rightarrow> hc_parse \<Rightarrow> ostream \<Rightarrow> (hc_parse \<times> ostream) option" where
  "lazy_blocks P inp lazy2 s os =
     do {
       let start = p_next (snd s);
       let max_end = choose_max_block_end start (length inp) SOFT_MAX_BLOCK_LENGTH;
       (min_len, s) \<leftarrow> begin_block inp start max_end s;
       (c, p) \<leftarrow> lazy_block P inp lazy2 start max_end (min_len, start + min (length inp - start) 10000) s;
       (c, os) \<leftarrow> deflate_finish_block P inp start (p_next p - start) (p_next p = length inp) c os;
       if p_next p \<noteq> length inp then lazy_blocks P inp lazy2 (c, p) os else Some ((c, p), os) }"

definition deflate_compress_lazy_generic :: "platform \<Rightarrow> bool \<Rightarrow> hc_matchfinder compressor \<Rightarrow> byte list \<Rightarrow> ostream \<Rightarrow>
    (hc_parse \<times> ostream) option" where
  "deflate_compress_lazy_generic P lazy2 c inp os = lazy_blocks P inp lazy2 (start_chains c) os"

definition deflate_compress_lazy where "deflate_compress_lazy P = deflate_compress_lazy_generic P False"
definition deflate_compress_lazy2 where "deflate_compress_lazy2 P = deflate_compress_lazy_generic P True"

section \<open>The library's entry points\<close>

datatype parser = None_parser | Fastest | Greedy | Lazy | Lazy2

text \<open>What \<^verbatim>\<open>libdeflate_alloc_compressor_ex\<close> sets for a level: the parser, the depth and the nice length;
  levels 10 to 12 have the near-optimal parser, which is not modelled.\<close>

definition level_parameters :: "nat \<Rightarrow> (parser \<times> u32 option \<times> nat option) option" where
  "level_parameters level =
     (if level = 0 then Some (None_parser, None, None)
      else if level = 1 then Some (Fastest, None, Some 32)
      else if level = 2 then Some (Greedy, Some 6, Some 10)
      else if level = 3 then Some (Greedy, Some 12, Some 14)
      else if level = 4 then Some (Greedy, Some 16, Some 30)
      else if level = 5 then Some (Lazy, Some 16, Some 30)
      else if level = 6 then Some (Lazy, Some 35, Some 65)
      else if level = 7 then Some (Lazy, Some 100, Some 130)
      else if level = 8 then Some (Lazy2, Some 300, Some DEFLATE_MAX_MATCH_LEN)
      else if level = 9 then Some (Lazy2, Some 600, Some DEFLATE_MAX_MATCH_LEN)
      else None)"

text \<open>An allocated compressor \<open>c\<close> gets the parameters of its level and the static codes.\<close>

definition set_level :: "u32 option \<times> nat option \<Rightarrow> 'm compressor \<Rightarrow> 'm compressor option" where
  "set_level = (\<lambda>(depth, nice) c.
     deflate_init_static_codes
       (c\<lparr>max_search_depth := case_option (max_search_depth c) id depth,
         nice_match_length := case_option (nice_match_length c) id nice\<rparr>))"

definition max_passthrough_size :: "nat \<Rightarrow> nat" where
  "max_passthrough_size level = (if level = 0 then 2 ^ 64 - 1 else 55 - level * 4)"

text \<open>\<^verbatim>\<open>c->impl\<close> is a function pointer.\<close>

definition libdeflate_deflate_compress :: "platform \<Rightarrow> nat \<Rightarrow> (byte list \<Rightarrow> ostream \<Rightarrow> ('s \<times> ostream) option) \<Rightarrow>
    byte list \<Rightarrow> byte list \<Rightarrow> (nat \<times> byte list) option" where
  "libdeflate_deflate_compress P passthrough impl inp out =
     (if length inp \<le> passthrough then Some (deflate_compress_none P inp out)
      else if length out \<le> OUTPUT_END_PADDING then Some (0, out)
      else do {
        (s, os) \<leftarrow> impl inp \<lparr>obuf = 0, obits = 0, onext = 0, oend = length out - OUTPUT_END_PADDING, obytes = out\<rparr>;
        if oend os \<le> onext os then Some (0, obytes os)
        else if obits os \<noteq> 0
        then do { out \<leftarrow> store (obytes os) (onext os) (ucast (obuf os)); Some (onext os + 1, out) }
        else Some (onext os, obytes os) })"

declare fastest_block.simps [code] fastest_blocks.simps [code] greedy_block.simps [code] greedy_blocks.simps [code]
  have_cur_match.simps [code] lazy_block.simps [code] lazy_blocks.simps [code]

end
