(* ===== verification/Deflate_Items.thy ===== *)
theory Deflate_Items
  imports Deflate_Compress Deflate_Copy
begin

text \<open>
  What the sequences of a block stand for: a list of literals and matches, and the bytes that it
  expands to by the copies of LZ77. Choosing literals and matches that are real repetitions keeps the
  sequences, the counts of the symbols and the input in step.
\<close>

section \<open>Slots\<close>

text \<open>A table of runs, and a check of every run with its first place.\<close>

definition runs :: "(nat \<times> nat) list \<Rightarrow> nat list" where
  "runs rs = concat (map (\<lambda>(n, s). replicate n s) rs)"

fun all_runs :: "(nat \<Rightarrow> nat \<Rightarrow> nat \<Rightarrow> bool) \<Rightarrow> nat \<Rightarrow> (nat \<times> nat) list \<Rightarrow> bool" where
  "all_runs Q lo [] = True"
| "all_runs Q lo ((n, s) # rs) = (Q lo n s \<and> all_runs Q (lo + n) rs)"

lemma runs_nth:
  "all_runs Q lo rs \<Longrightarrow> i < length (runs rs) \<Longrightarrow> \<exists>lo' n. Q lo' n (runs rs ! i) \<and> lo' \<le> lo + i \<and> lo + i < lo' + n"
proof (induction rs arbitrary: lo i)
  case (Cons r rs)
  obtain n s where r: "r = (n, s)" by fastforce
  show ?case
  proof (cases "i < n")
    case True
    then have "runs (r # rs) ! i = s" using r by (simp add: runs_def nth_append)
    moreover have "Q lo n s" using Cons.prems(1) r by simp
    ultimately show ?thesis using True by (intro exI [of _ lo] exI [of _ n]) simp
  next
    case False
    have "i - n < length (runs rs)" using Cons.prems(2) False r by (simp add: runs_def)
    moreover have "all_runs Q (lo + n) rs" using Cons.prems(1) r by simp
    ultimately obtain lo' m where "Q lo' m (runs rs ! (i - n)) \<and> lo' \<le> lo + n + (i - n) \<and> lo + n + (i - n) < lo' + m"
      using Cons.IH by blast
    then show ?thesis using False r by (auto simp: runs_def nth_append)
  qed
qed (simp add: runs_def)

lemma length_slot_runs:
  "deflate_length_slot = [0, 0, 0] @ runs
     [(1, 0), (1, 1), (1, 2), (1, 3), (1, 4), (1, 5), (1, 6), (1, 7), (2, 8), (2, 9), (2, 10), (2, 11), (4, 12), (4, 13), (4, 14), (4, 15), (8, 16), (8, 17), (8, 18), (8, 19), (16, 20), (16, 21), (16, 22), (16, 23), (32, 24), (32, 25), (32, 26), (31, 27), (1, 28)]"
  by code_simp

lemma small_offset_slot_runs:
  "take 257 deflate_offset_slot = 0 # runs
     [(1, 0), (1, 1), (1, 2), (1, 3), (2, 4), (2, 5), (4, 6), (4, 7), (8, 8), (8, 9), (16, 10), (16, 11), (32, 12), (32, 13), (64, 14), (64, 15)]"
  by code_simp

lemma large_offset_slot_runs:
  "drop 258 deflate_offset_slot = runs
     [(1, 16), (1, 17), (2, 18), (2, 19), (4, 20), (4, 21), (8, 22), (8, 23), (16, 24), (16, 25), (32, 26), (32, 27), (64, 28), (64, 29)]"
  by code_simp

definition in_length_slot :: "nat \<Rightarrow> nat \<Rightarrow> bool" where
  "in_length_slot s len \<longleftrightarrow> s < 29 \<and> deflate_length_slot_base ! s \<le> len \<and>
     len < deflate_length_slot_base ! s + 2 ^ (deflate_extra_length_bits ! s)"

definition in_offset_slot :: "nat \<Rightarrow> nat \<Rightarrow> bool" where
  "in_offset_slot s off \<longleftrightarrow> s < 30 \<and> deflate_offset_slot_base ! s \<le> off \<and>
     off < deflate_offset_slot_base ! s + 2 ^ (deflate_extra_offset_bits ! s)"

lemma length_slot:
  assumes "3 \<le> len" and "len \<le> 258"
  shows "\<exists>s. fetch deflate_length_slot len = Some s \<and> in_length_slot s len"
proof -
  define rs :: "(nat \<times> nat) list" where "rs =
    [(1, 0), (1, 1), (1, 2), (1, 3), (1, 4), (1, 5), (1, 6), (1, 7), (2, 8), (2, 9), (2, 10), (2, 11), (4, 12), (4, 13), (4, 14), (4, 15), (8, 16), (8, 17), (8, 18), (8, 19), (16, 20), (16, 21), (16, 22), (16, 23), (32, 24), (32, 25), (32, 26), (31, 27), (1, 28)]"
  have "all_runs (\<lambda>lo n s. s < 29 \<and> deflate_length_slot_base ! s \<le> lo \<and>
      lo + n \<le> deflate_length_slot_base ! s + 2 ^ (deflate_extra_length_bits ! s)) 3 rs"
    by (simp add: rs_def deflate_length_slot_base_def deflate_extra_length_bits_def)
  moreover have l: "length (runs rs) = 256" by (simp add: runs_def rs_def)
  moreover have "len - 3 < length (runs rs)" using assms l by linarith
  ultimately obtain lo n where "runs rs ! (len - 3) < 29 \<and> deflate_length_slot_base ! (runs rs ! (len - 3)) \<le> lo \<and>
      lo + n \<le> deflate_length_slot_base ! (runs rs ! (len - 3)) + 2 ^ (deflate_extra_length_bits ! (runs rs ! (len - 3)))"
    and "lo \<le> 3 + (len - 3)" "3 + (len - 3) < lo + n"
    using runs_nth by blast
  moreover have "deflate_length_slot ! len = runs rs ! (len - 3)"
    using assms unfolding length_slot_runs rs_def [symmetric] by (simp add: nth_append numeral_3_eq_3)
  moreover have "len < length deflate_length_slot" using assms l unfolding length_slot_runs rs_def [symmetric] by simp
  ultimately show ?thesis using assms unfolding in_length_slot_def fetch_def by fastforce
qed

lemma offset_slot:
  assumes "1 \<le> off" and "off \<le> 32768"
  shows "\<exists>s. deflate_get_offset_slot off = Some s \<and> in_offset_slot s off"
proof (cases "off \<le> 256")
  case True
  define rs :: "(nat \<times> nat) list" where "rs =
    [(1, 0), (1, 1), (1, 2), (1, 3), (2, 4), (2, 5), (4, 6), (4, 7), (8, 8), (8, 9), (16, 10), (16, 11), (32, 12), (32, 13), (64, 14), (64, 15)]"
  have "all_runs (\<lambda>lo n s. s < 30 \<and> deflate_offset_slot_base ! s \<le> lo \<and>
      lo + n \<le> deflate_offset_slot_base ! s + 2 ^ (deflate_extra_offset_bits ! s)) 1 rs"
    by (simp add: rs_def deflate_offset_slot_base_def deflate_extra_offset_bits_def)
  moreover have l: "length (runs rs) = 256" by (simp add: runs_def rs_def)
  moreover have "off - 1 < length (runs rs)" using assms True l by linarith
  ultimately obtain lo n where "runs rs ! (off - 1) < 30 \<and> deflate_offset_slot_base ! (runs rs ! (off - 1)) \<le> lo \<and>
      lo + n \<le> deflate_offset_slot_base ! (runs rs ! (off - 1)) + 2 ^ (deflate_extra_offset_bits ! (runs rs ! (off - 1)))"
    and "lo \<le> 1 + (off - 1)" "1 + (off - 1) < lo + n"
    using runs_nth by blast
  moreover have "deflate_offset_slot ! off = runs rs ! (off - 1)"
  proof -
    have "take 257 deflate_offset_slot ! off = runs rs ! (off - 1)"
      unfolding small_offset_slot_runs rs_def [symmetric] using assms by (simp add: nth_Cons')
    then show ?thesis using True by simp
  qed
  moreover have "length deflate_offset_slot = 512" by code_simp
  ultimately show ?thesis using assms True unfolding in_offset_slot_def fetch_def deflate_get_offset_slot_def by fastforce
next
  case False
  define k where "k = (off - 1) div 128"
  have k: "2 \<le> k" "k < 256" "128 * k + 1 \<le> off" "off \<le> 128 * k + 128" using assms False unfolding k_def by linarith+
  define rs :: "(nat \<times> nat) list" where "rs =
    [(1, 16), (1, 17), (2, 18), (2, 19), (4, 20), (4, 21), (8, 22), (8, 23), (16, 24), (16, 25), (32, 26), (32, 27), (64, 28), (64, 29)]"
  have "all_runs (\<lambda>lo n s. s < 30 \<and> deflate_offset_slot_base ! s \<le> 128 * lo + 1 \<and>
      128 * (lo + n) < deflate_offset_slot_base ! s + 2 ^ (deflate_extra_offset_bits ! s)) 2 rs"
    by (simp add: rs_def deflate_offset_slot_base_def deflate_extra_offset_bits_def)
  moreover have l: "length (runs rs) = 254" by (simp add: runs_def rs_def)
  moreover have "k - 2 < length (runs rs)" using k l by linarith
  ultimately obtain lo n where "runs rs ! (k - 2) < 30 \<and> deflate_offset_slot_base ! (runs rs ! (k - 2)) \<le> 128 * lo + 1 \<and>
      128 * (lo + n) < deflate_offset_slot_base ! (runs rs ! (k - 2)) + 2 ^ (deflate_extra_offset_bits ! (runs rs ! (k - 2)))"
    and kn: "lo \<le> 2 + (k - 2)" "2 + (k - 2) < lo + n"
    using runs_nth by blast
  moreover have "128 * lo + 1 \<le> off" "off \<le> 128 * (lo + n)"
  proof -
    have "lo \<le> k" "k + 1 \<le> lo + n" using kn k(1) by simp_all
    then have "128 * lo \<le> 128 * k" "128 * (k + 1) \<le> 128 * (lo + n)" by (simp_all only: mult_le_mono2)
    then show "128 * lo + 1 \<le> off" "off \<le> 128 * (lo + n)" using k(3,4) by simp_all
  qed
  moreover have "deflate_offset_slot ! (256 + k) = runs rs ! (k - 2)"
  proof -
    have "length deflate_offset_slot = 512" by code_simp
    then have "drop 258 deflate_offset_slot ! (k - 2) = deflate_offset_slot ! (258 + (k - 2))" using k by (intro nth_drop) simp
    moreover have "258 + (k - 2) = 256 + k" using k(1) by simp
    ultimately show ?thesis unfolding large_offset_slot_runs rs_def [symmetric] by simp
  qed
  moreover have "length deflate_offset_slot = 512" by code_simp
  moreover have "drop_bit 7 (off - 1) = k" by (simp add: k_def drop_bit_eq_div)
  ultimately show ?thesis using k False unfolding in_offset_slot_def fetch_def deflate_get_offset_slot_def by (simp del: One_nat_def)
qed

section \<open>Items\<close>

datatype item = Literal byte | Match nat nat

fun valid_match :: "nat \<Rightarrow> nat \<Rightarrow> nat \<Rightarrow> bool" where
  "valid_match len off n \<longleftrightarrow> 3 \<le> len \<and> len \<le> 258 \<and> 1 \<le> off \<and> off \<le> 32768 \<and> off \<le> n"

text \<open>The bytes after \<open>out\<close> that a list of items stands for; a match must reach back into the output.\<close>

fun expand :: "item list \<Rightarrow> byte list \<Rightarrow> byte list option" where
  "expand [] out = Some out"
| "expand (Literal b # its) out = expand its (out @ [b])"
| "expand (Match len off # its) out = (if valid_match len off (length out) then expand its (lz_copy off len out) else None)"

lemma expand_append: "expand (its @ its') out = Option.bind (expand its out) (expand its')"
  by (induction its out rule: expand.induct) simp_all

definition seq_run :: "deflate_sequence \<Rightarrow> nat" where
  "seq_run sq = unat (litrunlen_and_length sq AND SEQ_LITRUNLEN_MASK)"

definition seq_len :: "deflate_sequence \<Rightarrow> nat" where
  "seq_len sq = unat (drop_bit SEQ_LENGTH_SHIFT (litrunlen_and_length sq))"

text \<open>The items of sequences, with the literals from the place \<open>cur\<close> of the input on.\<close>

fun seq_items :: "byte list \<Rightarrow> nat \<Rightarrow> deflate_sequence list \<Rightarrow> item list" where
  "seq_items inp cur [] = []"
| "seq_items inp cur (sq # sqs) =
     map Literal (take (seq_run sq) (drop cur inp)) @
     (if seq_len sq = 0 then []
      else Match (seq_len sq) (unat (seq_offset sq)) # seq_items inp (cur + seq_run sq + seq_len sq) sqs)"

fun seqs_end :: "nat \<Rightarrow> deflate_sequence list \<Rightarrow> nat" where
  "seqs_end cur [] = cur"
| "seqs_end cur (sq # sqs) = seqs_end (cur + seq_run sq + seq_len sq) sqs"

lemma seq_items_append:
  "\<forall>sq \<in> set pre. seq_len sq \<noteq> 0 \<Longrightarrow> seq_items inp cur (pre @ sqs) = seq_items inp cur pre @ seq_items inp (seqs_end cur pre) sqs"
  by (induction pre arbitrary: cur) simp_all

lemma seqs_end_append: "seqs_end cur (pre @ sqs) = seqs_end (seqs_end cur pre) sqs"
  by (induction pre arbitrary: cur) simp_all

lemma seq_mask: "x AND SEQ_LITRUNLEN_MASK = take_bit 23 x"
  by (simp add: SEQ_LITRUNLEN_MASK_def SEQ_LENGTH_SHIFT_def take_bit_eq_mask mask_eq_exp_minus_1 push_bit_eq_mult)

lemma and_push_bit_take_bit: "take_bit n x AND push_bit n y = (0 :: u32)"
  by (rule bit_word_eqI) (auto simp: bit_simps)

text \<open>What the packed field holds.\<close>

lemma packed_run:
  assumes "r < 2 ^ 23" and "len < 2 ^ 9"
  shows "unat ((of_nat r OR push_bit 23 (of_nat len) :: u32) AND SEQ_LITRUNLEN_MASK) = r"
    and "unat (drop_bit 23 (of_nat r OR push_bit 23 (of_nat len) :: u32)) = len"
proof -
  have d: "(of_nat r :: u32) AND push_bit 23 (of_nat len) = 0"
  proof -
    have "of_nat r = take_bit 23 (of_nat r :: u32)" using assms(1) by (simp add: take_bit_of_nat take_bit_nat_eq_self)
    then show ?thesis by (metis and_push_bit_take_bit)
  qed
  have "of_nat r OR push_bit 23 (of_nat len) = (of_nat r + push_bit 23 (of_nat len) :: u32)"
    using d by (simp only: disjunctive_add_eq_or)
  also have "\<dots> = of_nat (r + len * 2 ^ 23)" by (simp add: push_bit_eq_mult mult.commute)
  finally have w: "of_nat r OR push_bit 23 (of_nat len) = (of_nat (r + len * 2 ^ 23) :: u32)" .
  have lt: "r + len * 2 ^ 23 < 2 ^ 32" using assms by simp
  have u: "unat (of_nat (r + len * 2 ^ 23) :: u32) = r + len * 2 ^ 23" using lt by (rule unat_of_nat_u32)
  show "unat ((of_nat r OR push_bit 23 (of_nat len) :: u32) AND SEQ_LITRUNLEN_MASK) = r"
    unfolding w seq_mask unsigned_take_bit_eq u using assms(1) by (simp add: take_bit_eq_mod)
  show "unat (drop_bit 23 (of_nat r OR push_bit 23 (of_nat len) :: u32)) = len"
    unfolding w unat_drop_bit_eq u using assms(1) by (simp add: drop_bit_eq_div)
qed

section \<open>Counting\<close>

definition tally :: "nat \<Rightarrow> nat list \<Rightarrow> u32 list" where
  "tally n ss = map (\<lambda>s. of_nat (count_list ss s)) [0..<n]"

lemma length_tally [simp]: "length (tally n ss) = n"
  by (simp add: tally_def)

lemma tally_nth [simp]: "s < n \<Longrightarrow> tally n ss ! s = of_nat (count_list ss s)"
  by (simp add: tally_def)

lemma incr_tally: "s < n \<Longrightarrow> incr (tally n ss) s = Some (tally n (ss @ [s]))"
  by (auto simp: incr_def fetch_def store_def intro!: nth_equalityI simp: nth_list_update)

fun item_litlen :: "item \<Rightarrow> nat" where
  "item_litlen (Literal b) = unat b"
| "item_litlen (Match len off) = 257 + deflate_length_slot ! len"

fun item_offset :: "item \<Rightarrow> nat list" where
  "item_offset (Literal b) = []"
| "item_offset (Match len off) = [the (deflate_get_offset_slot off)]"

definition counted :: "item list \<Rightarrow> deflate_freqs \<Rightarrow> bool" where
  "counted its fr \<longleftrightarrow>
     litlen_freqs fr = tally 288 (map item_litlen its) \<and> offset_freqs fr = tally 32 (concat (map item_offset its))"

definition stats_ok :: "block_split_stats \<Rightarrow> bool" where
  "stats_ok st \<longleftrightarrow> length (new_observations st) = 10 \<and> length (observations st) = 10"

lemma observe_ok: "stats_ok st \<Longrightarrow> i < 10 \<Longrightarrow> \<exists>st'. observe i st = Some st' \<and> stats_ok st'"
  by (auto simp: observe_def incr_def fetch_def store_def stats_ok_def)

lemma masked_less: "unat ((a AND take_bit 3 x) OR (b AND take_bit 3 y)) < 8" for a b :: byte
proof -
  have "(a AND take_bit 3 x) OR (b AND take_bit 3 y) = take_bit 3 ((a AND take_bit 3 x) OR (b AND take_bit 3 y))"
    by (rule bit_word_eqI) (auto simp: bit_simps)
  then have "unat ((a AND take_bit 3 x) OR (b AND take_bit 3 y)) = take_bit 3 (unat ((a AND take_bit 3 x) OR (b AND take_bit 3 y)))"
    by (metis unsigned_take_bit_eq)
  moreover have "take_bit 3 k < 8" for k :: nat using take_bit_nat_less_exp [of 3 k] by simp
  ultimately show ?thesis by metis
qed

lemma observation_type: "unat ((drop_bit 5 lit AND 0x6) OR (lit AND 1)) < 8" for lit :: byte
  using masked_less [of "drop_bit 5 lit" 6 lit 1] by simp

lemma gather_ok:
  assumes "\<exists>st. obs (split_stats c) = Some st \<and> stats_ok st" and "stats_ok (split_stats c)"
  shows "\<exists>st. gather b obs c = Some (c\<lparr>split_stats := st\<rparr>) \<and> stats_ok st"
  using assms by (auto simp: gather_def intro: exI [of _ "split_stats c"])

lemma gather_literal: "stats_ok (split_stats c) \<Longrightarrow> \<exists>st. gather b (observe_literal lit) c = Some (c\<lparr>split_stats := st\<rparr>) \<and> stats_ok st"
  unfolding observe_literal_def using observation_type [of lit] by (intro gather_ok observe_ok) simp_all

lemma gather_match: "stats_ok (split_stats c) \<Longrightarrow> \<exists>st. gather b (observe_match len) c = Some (c\<lparr>split_stats := st\<rparr>) \<and> stats_ok st"
  unfolding observe_match_def by (intro gather_ok observe_ok) (simp_all add: NUM_LITERAL_OBSERVATION_TYPES_def)

section \<open>Choosing\<close>

text \<open>What choosing changes of a compressor.\<close>

definition only_choices :: "'m compressor \<Rightarrow> 'm compressor \<Rightarrow> bool" where
  "only_choices c c' \<longleftrightarrow>
     (\<exists>fr st sqs. c' = c\<lparr>freqs := fr, split_stats := st, sequences := sqs\<rparr> \<and> length sqs = length (sequences c) \<and>
       (stats_ok (split_stats c) \<longrightarrow> stats_ok st))"

lemma only_choices_refl [simp]: "only_choices c c"
  unfolding only_choices_def by (intro exI [of _ "freqs c"] exI [of _ "split_stats c"] exI [of _ "sequences c"]) simp

lemma only_choices_trans:
  assumes "only_choices a b" and "only_choices b c"
  shows "only_choices a c"
proof -
  obtain fr st sqs where "b = a\<lparr>freqs := fr, split_stats := st, sequences := sqs\<rparr>" "length sqs = length (sequences a)"
    "stats_ok (split_stats a) \<longrightarrow> stats_ok st" using assms(1) by (auto simp: only_choices_def)
  moreover obtain fr' st' sqs' where "c = b\<lparr>freqs := fr', split_stats := st', sequences := sqs'\<rparr>"
    "length sqs' = length (sequences b)" "stats_ok (split_stats b) \<longrightarrow> stats_ok st'" using assms(2) by (auto simp: only_choices_def)
  ultimately show ?thesis
    unfolding only_choices_def by (intro exI [of _ fr'] exI [of _ st'] exI [of _ sqs']) simp
qed

lemma only_choicesI:
  "length sqs = length (sequences c) \<Longrightarrow> stats_ok st \<Longrightarrow> only_choices c (c\<lparr>freqs := fr, split_stats := st, sequences := sqs\<rparr>)"
  by (auto simp: only_choices_def)

lemma only_choicesD:
  assumes "only_choices c c'"
  shows "max_search_depth c' = max_search_depth c" "nice_match_length c' = nice_match_length c" "codes c' = codes c"
    "static_codes c' = static_codes c" "precode c' = precode c" "lengths c' = lengths c" "matchfinder c' = matchfinder c"
    "length (sequences c') = length (sequences c)" "stats_ok (split_stats c) \<Longrightarrow> stats_ok (split_stats c')"
  using assms by (auto simp: only_choices_def)

definition closed_seq :: "deflate_sequence \<Rightarrow> bool" where
  "closed_seq sq \<longleftrightarrow> 3 \<le> seq_len sq \<and> seq_len sq \<le> 258 \<and> 1 \<le> unat (seq_offset sq) \<and> unat (seq_offset sq) \<le> 32768 \<and>
     deflate_get_offset_slot (unat (seq_offset sq)) = Some (unat (seq_offset_slot sq))"

text \<open>The sequences before \<open>sq\<close> have their match, the one at \<open>sq\<close> is a run of literals up to \<open>pos\<close>;
  the items of the block from \<open>start\<close> on are counted, and they expand to the input up to \<open>pos\<close>.\<close>

definition chosen :: "byte list \<Rightarrow> nat \<Rightarrow> 'm compressor \<Rightarrow> nat \<Rightarrow> nat \<Rightarrow> item list \<Rightarrow> bool" where
  "chosen inp start c sq pos its \<longleftrightarrow>
     (\<exists>pre last post. sequences c = pre @ last # post \<and> length pre = sq \<and> (\<forall>s \<in> set pre. closed_seq s) \<and>
       seqs_end start pre \<le> pos \<and> pos \<le> length inp \<and> pos - start < 2 ^ 23 \<and>
       litrunlen_and_length last = of_nat (pos - seqs_end start pre) \<and>
       its = seq_items inp start pre @ map Literal (take (pos - seqs_end start pre) (drop (seqs_end start pre) inp))) \<and>
     expand its (take start inp) = Some (take pos inp) \<and> counted its (freqs c)"

lemma seqs_end_ge: "start \<le> seqs_end start sqs"
  by (induction sqs arbitrary: start) (auto intro: order_trans add_leD1)

lemma incr_counted:
  assumes "counted its fr"
  shows "incr (litlen_freqs fr) (unat b) = Some (tally 288 (map item_litlen (its @ [Literal b])))"
    and "s < 29 \<Longrightarrow> deflate_length_slot ! len = s \<Longrightarrow>
      incr (litlen_freqs fr) (257 + s) = Some (tally 288 (map item_litlen (its @ [Match len off])))"
    and "t < 32 \<Longrightarrow> deflate_get_offset_slot off = Some t \<Longrightarrow>
      incr (offset_freqs fr) t = Some (tally 32 (concat (map item_offset (its @ [Match len off]))))"
proof -
  have "unat b < 2 ^ LENGTH(8)" by (rule unsigned_less)
  then have "unat b < 288" by simp
  then show "incr (litlen_freqs fr) (unat b) = Some (tally 288 (map item_litlen (its @ [Literal b])))"
    using assms by (simp add: counted_def incr_tally)
qed (use assms in \<open>simp_all add: counted_def incr_tally\<close>)

lemma choose_literal_ok:
  assumes ch: "chosen inp start c sq pos its" and st: "stats_ok (split_stats c)" and pos: "pos < length inp" "Suc pos - start < 2 ^ 23"
  shows "\<exists>c'. deflate_choose_literal (inp ! pos) b sq c = Some c' \<and> only_choices c c' \<and>
    chosen inp start c' sq (Suc pos) (its @ [Literal (inp ! pos)])"
proof -
  obtain pre sl post where s: "sequences c = pre @ sl # post" "length pre = sq" "\<forall>s \<in> set pre. closed_seq s"
    "seqs_end start pre \<le> pos" "litrunlen_and_length sl = of_nat (pos - seqs_end start pre)"
    "its = seq_items inp start pre @ map Literal (take (pos - seqs_end start pre) (drop (seqs_end start pre) inp))"
    and e: "expand its (take start inp) = Some (take pos inp)" and co: "counted its (freqs c)"
    using ch by (auto simp: chosen_def)
  let ?lit = "inp ! pos" and ?e = "seqs_end start pre"
  define fr where "fr = (freqs c)\<lparr>litlen_freqs := tally 288 (map item_litlen (its @ [Literal ?lit]))\<rparr>"
  obtain st' where st': "gather b (observe_literal ?lit) (c\<lparr>freqs := fr\<rparr>) = Some (c\<lparr>freqs := fr, split_stats := st'\<rparr>)" "stats_ok st'"
    using gather_literal [of "c\<lparr>freqs := fr\<rparr>" b ?lit] st by auto
  define sl' where "sl' = sl\<lparr>litrunlen_and_length := litrunlen_and_length sl + 1\<rparr>"
  define c' where "c' = c\<lparr>freqs := fr, split_stats := st', sequences := pre @ sl' # post\<rparr>"
  have "deflate_choose_literal ?lit b sq c = Some c'"
    using incr_counted(1) [OF co, of ?lit] st'(1) s(1,2)
    by (simp add: deflate_choose_literal_def count_litlen_def fr_def update_run_def fetch_def store_def c'_def sl'_def list_update_append nth_append)
  moreover have "only_choices c c'" unfolding c'_def using st'(2) s(1) by (intro only_choicesI) simp_all
  moreover have "chosen inp start c' sq (Suc pos) (its @ [Literal ?lit])"
  proof -
    have n: "Suc pos - ?e = Suc (pos - ?e)" using s(4) by simp
    have "take (Suc pos - ?e) (drop ?e inp) = take (pos - ?e) (drop ?e inp) @ [?lit]"
      using s(4) pos(1) unfolding n by (subst take_Suc_conv_app_nth) simp_all
    then have "its @ [Literal ?lit] = seq_items inp start pre @ map Literal (take (Suc pos - ?e) (drop ?e inp))"
      using s(6) by simp
    moreover have "expand (its @ [Literal ?lit]) (take start inp) = Some (take (Suc pos) inp)"
      using e pos(1) by (simp add: expand_append take_Suc_conv_app_nth)
    moreover have "counted (its @ [Literal ?lit]) fr" using co by (simp add: counted_def fr_def)
    moreover have "litrunlen_and_length sl' = of_nat (Suc pos - ?e)" using s(5) n by (simp add: sl'_def)
    moreover have "sequences c' = pre @ sl' # post" "freqs c' = fr" by (simp_all add: c'_def)
    ultimately show ?thesis using s(2-4) pos unfolding chosen_def by (intro conjI exI [of _ pre] exI [of _ sl'] exI [of _ post]) simp_all
  qed
  ultimately show ?thesis by blast
qed

text \<open>A match at \<open>pos\<close>: the input repeats what it had \<open>off\<close> bytes before.\<close>

definition repeats :: "byte list \<Rightarrow> nat \<Rightarrow> nat \<Rightarrow> nat \<Rightarrow> bool" where
  "repeats inp pos len off \<longleftrightarrow>
     valid_match len off pos \<and> pos + len \<le> length inp \<and> (\<forall>i < len. inp ! (pos + i) = inp ! (pos + i - off))"

lemma expand_repeat:
  assumes "repeats inp pos len off"
  shows "expand [Match len off] (take pos inp) = Some (take (pos + len) inp)"
proof -
  have "good off pos (pos + len) inp"
    unfolding good_def
  proof (intro allI impI)
    fix k assume "pos \<le> k \<and> k < pos + len"
    then have "k - pos < len" "pos + (k - pos) = k" by linarith+
    then show "inp ! k = inp ! (k - off)" using assms by (metis repeats_def)
  qed
  then have "lz_copy off len (take pos inp) = take (pos + len) inp"
    using assms by (intro good_lz_copy) (auto simp: repeats_def)
  moreover have "valid_match len off (length (take pos inp))" using assms by (simp add: repeats_def min_absorb2)
  ultimately show ?thesis by simp
qed

lemma choose_match_ok:
  assumes ch: "chosen inp start c sq pos its" and st: "stats_ok (split_stats c)" and m: "repeats inp pos len off"
    and room: "Suc sq < length (sequences c)" "pos + len - start < 2 ^ 23"
  shows "\<exists>c'. deflate_choose_match len off b sq c = Some (c', Suc sq) \<and> only_choices c c' \<and>
    chosen inp start c' (Suc sq) (pos + len) (its @ [Match len off])"
proof -
  obtain pre sl post where s: "sequences c = pre @ sl # post" "length pre = sq" "\<forall>s \<in> set pre. closed_seq s"
    "seqs_end start pre \<le> pos" "litrunlen_and_length sl = of_nat (pos - seqs_end start pre)" "pos - start < 2 ^ 23"
    "its = seq_items inp start pre @ map Literal (take (pos - seqs_end start pre) (drop (seqs_end start pre) inp))"
    and e: "expand its (take start inp) = Some (take pos inp)" and co: "counted its (freqs c)"
    using ch by (auto simp: chosen_def)
  obtain nx post' where post: "post = nx # post'" using room(1) s(1,2) by (cases post) auto
  let ?e = "seqs_end start pre"
  have v: "3 \<le> len" "len \<le> 258" "1 \<le> off" "off \<le> 32768" using m by (simp_all add: repeats_def)
  obtain ls where ls: "fetch deflate_length_slot len = Some ls" "in_length_slot ls len" using length_slot [OF v(1,2)] by blast
  obtain os where os: "deflate_get_offset_slot off = Some os" "in_offset_slot os off" using offset_slot [OF v(3,4)] by blast
  have b: "ls < 29" "deflate_length_slot ! len = ls" "os < 32"
    using ls os by (auto simp: in_length_slot_def in_offset_slot_def fetch_def split: if_splits)
  define fr where "fr = \<lparr>litlen_freqs = tally 288 (map item_litlen (its @ [Match len off])),
    offset_freqs = tally 32 (concat (map item_offset (its @ [Match len off])))\<rparr>"
  obtain st' where st': "gather b (observe_match len) (c\<lparr>freqs := fr\<rparr>) = Some (c\<lparr>freqs := fr, split_stats := st'\<rparr>)" "stats_ok st'"
    using gather_match [of "c\<lparr>freqs := fr\<rparr>" b len] st by auto
  define sl' where "sl' = \<lparr>litrunlen_and_length = litrunlen_and_length sl OR push_bit SEQ_LENGTH_SHIFT (of_nat len),
    seq_offset = of_nat off, seq_offset_slot = of_nat os\<rparr>"
  define nx' where "nx' = nx\<lparr>litrunlen_and_length := 0\<rparr>"
  define c' where "c' = c\<lparr>freqs := fr, split_stats := st', sequences := (pre @ [sl']) @ nx' # post'\<rparr>"
  have "deflate_choose_match len off b sq c = Some (c', Suc sq)"
  proof -
    have "count_litlen (DEFLATE_FIRST_LEN_SYM + ls) c = Some (c\<lparr>freqs := (freqs c)\<lparr>litlen_freqs := litlen_freqs fr\<rparr>\<rparr>)"
      using incr_counted(2) [OF co b(1,2)] by (simp add: count_litlen_def fr_def DEFLATE_FIRST_LEN_SYM_def)
    moreover have "count_offset os (c\<lparr>freqs := (freqs c)\<lparr>litlen_freqs := litlen_freqs fr\<rparr>\<rparr>) = Some (c\<lparr>freqs := fr\<rparr>)"
      using incr_counted(3) [OF co b(3) os(1)] by (simp add: count_offset_def fr_def)
    moreover have "set_match len off os sq (c\<lparr>freqs := fr, split_stats := st'\<rparr>) =
        Some (c\<lparr>freqs := fr, split_stats := st', sequences := pre @ sl' # post\<rparr>)"
      using s(1,2) by (simp add: set_match_def fetch_def store_def list_update_append nth_append sl'_def)
    moreover have "update_run (\<lambda>_. 0) (sq + 1) (c\<lparr>freqs := fr, split_stats := st', sequences := pre @ sl' # post\<rparr>) = Some c'"
      using s(2) by (simp add: update_run_def fetch_def store_def list_update_append nth_append post nx'_def c'_def)
    ultimately show ?thesis using ls(1) os(1) st'(1) by (simp add: deflate_choose_match_def)
  qed
  moreover have "only_choices c c'" unfolding c'_def using st'(2) s(1) post by (intro only_choicesI) simp_all
  moreover have "chosen inp start c' (Suc sq) (pos + len) (its @ [Match len off])"
  proof -
    have r: "pos - ?e < 2 ^ 23" using s(6) seqs_end_ge [of start pre] by linarith
    have l9: "len < 2 ^ 9" using v(2) by simp
    have sr: "seq_run sl' = pos - ?e" "seq_len sl' = len"
      using packed_run [OF r l9] s(5) by (simp_all add: seq_run_def seq_len_def sl'_def SEQ_LENGTH_SHIFT_def)
    have u: "unat (seq_offset sl') = off" "unat (seq_offset_slot sl') = os"
      using v(4) b(3) by (simp_all add: sl'_def unat_of_nat take_bit_nat_eq_self)
    have cl: "closed_seq sl'" using v os(1) unfolding closed_seq_def sr u by simp
    have nz: "\<forall>sq \<in> set pre. seq_len sq \<noteq> 0" using s(3) by (auto simp: closed_seq_def)
    have e2: "seqs_end start (pre @ [sl']) = pos + len" using sr s(4) by (simp add: seqs_end_append)
    have "its @ [Match len off] = seq_items inp start (pre @ [sl'])"
      using s(7) v(1) sr u by (simp add: seq_items_append [OF nz])
    moreover have "expand (its @ [Match len off]) (take start inp) = Some (take (pos + len) inp)"
      using e expand_repeat [OF m] by (simp only: expand_append Option.bind.bind_lunit)
    moreover have "counted (its @ [Match len off]) fr" by (simp add: counted_def fr_def)
    moreover have "sequences c' = (pre @ [sl']) @ nx' # post'" "freqs c' = fr" by (simp_all add: c'_def)
    moreover have "pos + len \<le> length inp" using m by (simp add: repeats_def)
    moreover have "litrunlen_and_length nx' = 0" by (simp add: nx'_def)
    ultimately show ?thesis
      using s(2,3) room(2) e2 cl unfolding chosen_def
      by (intro conjI exI [of _ "pre @ [sl']"] exI [of _ nx'] exI [of _ post']) simp_all
  qed
  ultimately show ?thesis by blast
qed

text \<open>The start of a block.\<close>

lemma begin_sequences_ok:
  assumes "sequences c \<noteq> []" and "length (litlen_freqs (freqs c)) = 288" and "length (offset_freqs (freqs c)) = 32"
    and "stats_ok (split_stats c)" and "start \<le> length inp"
  shows "\<exists>c'. deflate_begin_sequences c = Some c' \<and> only_choices c c' \<and> chosen inp start c' 0 start [] \<and> split_stats c' = split_stats c"
proof -
  obtain sl post where s: "sequences c = sl # post" using assms(1) by (cases "sequences c") auto
  let ?fr = "\<lparr>litlen_freqs = map (\<lambda>_. 0) (litlen_freqs (freqs c)), offset_freqs = map (\<lambda>_. 0) (offset_freqs (freqs c))\<rparr>"
  define c' where "c' = c\<lparr>freqs := ?fr, split_stats := split_stats c, sequences := sl\<lparr>litrunlen_and_length := 0\<rparr> # post\<rparr>"
  have "deflate_begin_sequences c = Some c'"
    using s by (simp add: deflate_begin_sequences_def deflate_reset_symbol_frequencies_def update_run_def fetch_def store_def c'_def)
  moreover have "only_choices c c'" unfolding c'_def using assms(4) s by (intro only_choicesI) simp_all
  moreover have "counted [] ?fr"
    using assms(2,3) by (auto simp: counted_def tally_def intro!: nth_equalityI)
  then have "chosen inp start c' 0 start []"
    using assms(5) by (auto simp: chosen_def c'_def)
  ultimately show ?thesis by (auto simp: c'_def)
qed

end
