(* ===== verification/Deflate_Parse.thy ===== *)
theory Deflate_Parse
  imports Deflate_Items
begin

text \<open>
  The parsers: what they rely on in a match finder is a contract, which both match finders keep; with it every
  block they choose stands for its part of the input.
\<close>

section \<open>The contract of a match finder\<close>

text \<open>\<open>ready pos s\<close> says that the state \<open>s\<close> is ready for a search or for skipping at \<open>pos\<close>. A search yields the
  length it had to beat (or less), or a match at which the input repeats.\<close>

locale match_finder =
  fixes inp :: "byte list"
    and least :: nat
    and ready :: "nat \<Rightarrow> 's \<Rightarrow> bool"
    and search :: "nat \<Rightarrow> nat \<Rightarrow> nat \<Rightarrow> nat \<Rightarrow> u32 \<Rightarrow> 's \<Rightarrow> (nat \<times> nat \<times> 's) option"
    and skip :: "nat \<Rightarrow> nat \<Rightarrow> 's \<Rightarrow> 's option"
  assumes search_ok:
    "ready pos s \<Longrightarrow> pos < length inp \<Longrightarrow> max_len = min 258 (length inp - pos) \<Longrightarrow> least \<le> max_len \<Longrightarrow> nice_len \<le> max_len \<Longrightarrow>
     2 \<le> best \<Longrightarrow>
     \<exists>len off s'. search pos best max_len nice_len depth s = Some (len, off, s') \<and> ready (Suc pos) s' \<and>
       (len \<le> best \<or> repeats inp pos len off)"
    and skip_ok:
    "ready pos s \<Longrightarrow> 0 < n \<Longrightarrow> n < 258 \<Longrightarrow> pos + n \<le> length inp \<Longrightarrow> \<exists>s'. skip pos n s = Some s' \<and> ready (pos + n) s'"
begin

text \<open>After a match of which \<open>k\<close> bytes have been searched, the rest is skipped.\<close>

lemma follow:
  assumes "repeats inp pos len off" and "ready (pos + k) s" and "0 < k" and "k < len"
  shows "\<exists>s'. skip (pos + k) (len - k) s = Some s' \<and> ready (pos + len) s'"
proof -
  have "len \<le> 258" "pos + len \<le> length inp" using assms(1) by (simp_all add: repeats_def)
  then have "\<exists>s'. skip (pos + k) (len - k) s = Some s' \<and> ready (pos + k + (len - k)) s'"
    using assms by (intro skip_ok) simp_all
  then show ?thesis using assms(4) by simp
qed

end

section \<open>Hash chains\<close>

type_synonym 'm finder = "'m \<times> nat \<times> u32"

definition hc_ready :: "byte list \<Rightarrow> nat \<Rightarrow> hc_matchfinder \<times> nat \<times> u32 \<times> u32 \<Rightarrow> bool" where
  "hc_ready inp pos = (\<lambda>(mf, base, h). pos \<le> length inp \<and>
     (length inp < pos + 5 \<or> (\<exists>J. hc_inv mf base pos J \<and> pos \<le> base + MATCHFINDER_WINDOW_SIZE \<and> hashes_ok h)))"

definition hc_find :: "platform \<Rightarrow> byte list \<Rightarrow> nat \<Rightarrow> nat \<Rightarrow> nat \<Rightarrow> nat \<Rightarrow> u32 \<Rightarrow> hc_matchfinder \<times> nat \<times> u32 \<times> u32 \<Rightarrow>
    (nat \<times> nat \<times> hc_matchfinder \<times> nat \<times> u32 \<times> u32) option" where
  "hc_find P inp pos best max_len nice_len depth = (\<lambda>(mf, base, h).
     map_option (\<lambda>(mf, base, h, len, off). (len, off, mf, base, h))
       (hc_matchfinder_longest_match P inp mf base pos best max_len nice_len depth h))"

definition hc_pass :: "platform \<Rightarrow> byte list \<Rightarrow> nat \<Rightarrow> nat \<Rightarrow> hc_matchfinder \<times> nat \<times> u32 \<times> u32 \<Rightarrow>
    (hc_matchfinder \<times> nat \<times> u32 \<times> u32) option" where
  "hc_pass P inp pos n = (\<lambda>(mf, base, h). hc_matchfinder_skip_bytes P inp mf base pos (length inp) (of_nat n) h)"

lemma true_match_repeats:
  assumes "true_match inp J pos max_len (len, m)" and "3 \<le> len" and "max_len \<le> 258" and "pos + max_len \<le> length inp"
  shows "repeats inp pos len (pos - m)"
proof -
  have m: "m < pos" "pos < m + 32768" "len \<le> max_len" "agree inp pos m len"
    using assms(1) by (auto simp: true_match_def in_window_def)
  have "inp ! (pos + i) = inp ! (pos + i - (pos - m))" if "i < len" for i
  proof -
    have "pos + i - (pos - m) = m + i" using m(1) by simp
    then show ?thesis using m(4) that by (simp add: agree_def)
  qed
  moreover have "1 \<le> pos - m" "pos - m \<le> 32768" using m(1,2) by simp_all
  ultimately show ?thesis using m assms(2-4) by (simp add: repeats_def)
qed

lemma hc_find_ok:
  assumes r: "hc_ready inp pos s" and pos: "pos < length inp" and max: "max_len = min 258 (length inp - pos)"
    and nice: "nice_len \<le> max_len" and best: "2 \<le> best"
  shows "\<exists>len off s'. hc_find P inp pos best max_len nice_len depth s = Some (len, off, s') \<and> hc_ready inp (Suc pos) s' \<and>
    (len \<le> best \<or> repeats inp pos len off)"
proof -
  obtain mf base h where s: "s = (mf, base, h)" by (cases s) auto
  show ?thesis
  proof (cases "length inp < pos + 5")
    case True
    then have "max_len < 5" using max by simp
    then have "\<exists>mf' base'. hc_matchfinder_longest_match P inp mf base pos best max_len nice_len depth h = Some (mf', base', h, best, 0)"
      by (auto simp: hc_matchfinder_longest_match_def Let_def split: prod.splits)
    then show ?thesis using True pos by (auto simp: hc_find_def hc_ready_def s)
  next
    case False
    then obtain J where J: "hc_inv mf base pos J" "pos \<le> base + MATCHFINDER_WINDOW_SIZE" "hashes_ok h"
      using r by (auto simp: hc_ready_def s)
    have len: "pos + max_len \<le> length inp" "max_len < 2 ^ 32" "5 \<le> max_len" "max_len \<le> 258" using max pos False by simp_all
    obtain mf' base' h' len m where l: "hc_matchfinder_longest_match P inp mf base pos best max_len nice_len depth h =
        Some (mf', base', h', len, pos - m)" "hashes_ok h'" "Suc pos \<le> base' + MATCHFINDER_WINDOW_SIZE"
      "hc_inv mf' base' (Suc pos) (if 5 \<le> max_len then insert pos J else J)" "improved inp J pos max_len (best, pos) (len, m)"
      by (rule hc_longest_match_aux [OF J len(1,2) nice])
    have "len \<le> best \<or> repeats inp pos len (pos - m)"
    proof (cases "len \<le> best")
      case False
      then have "true_match inp J pos max_len (len, m)" using l(5) by (auto simp: improved_def)
      then show ?thesis using False best len by (intro disjI2 true_match_repeats) simp_all
    qed simp
    moreover have "hc_ready inp (Suc pos) (mf', base', h')" using l(2-4) pos by (auto simp: hc_ready_def)
    ultimately show ?thesis using l(1) by (auto simp: hc_find_def s)
  qed
qed

lemma hc_pass_ok:
  assumes r: "hc_ready inp pos s" and n: "0 < n" "n < 258" "pos + n \<le> length inp"
  shows "\<exists>s'. hc_pass P inp pos n s = Some s' \<and> hc_ready inp (pos + n) s'"
proof -
  obtain mf base h where s: "s = (mf, base, h)" by (cases s) auto
  show ?thesis
  proof (cases "length inp < pos + 5")
    case True
    have lt: "n + 5 < 2 ^ 32" using n(2) by simp
    have "(of_nat n + 5 :: u32) = of_nat (n + 5)" by simp
    then have "unat (of_nat n + 5 :: u32) = n + 5" using lt by (simp only: unat_of_nat_u32)
    then have "hc_pass P inp pos n s = Some s" using True n by (simp add: hc_pass_def hc_matchfinder_skip_bytes_def s)
    then show ?thesis using True n by (auto simp: hc_ready_def s)
  next
    case False
    then obtain J where J: "hc_inv mf base pos J" "pos \<le> base + MATCHFINDER_WINDOW_SIZE" "hashes_ok h"
      using r by (auto simp: hc_ready_def s)
    have "n + 5 < 2 ^ 32" "pos \<le> length inp" using n by simp_all
    from hc_skip_bytes_inv [OF J n(1) this, of P]
    show ?thesis using n by (auto simp: hc_pass_def hc_ready_def s split: if_splits)
  qed
qed

interpretation hc: match_finder inp 0 "hc_ready inp" "hc_find P inp" "hc_pass P inp" for P inp
  by unfold_locales (rule hc_find_ok hc_pass_ok; assumption)+

section \<open>The hash table\<close>

definition ht_ready :: "byte list \<Rightarrow> nat \<Rightarrow> ht_matchfinder \<times> nat \<times> u32 \<Rightarrow> bool" where
  "ht_ready inp pos = (\<lambda>(mf, base, h). pos \<le> length inp \<and>
     (length inp < pos + 5 \<or> (\<exists>J. ht_inv mf base pos J \<and> pos \<le> base + MATCHFINDER_WINDOW_SIZE \<and> unat h < 2 ^ 15)))"

definition ht_find :: "platform \<Rightarrow> byte list \<Rightarrow> nat \<Rightarrow> nat \<Rightarrow> nat \<Rightarrow> nat \<Rightarrow> u32 \<Rightarrow> ht_matchfinder \<times> nat \<times> u32 \<Rightarrow>
    (nat \<times> nat \<times> ht_matchfinder \<times> nat \<times> u32) option" where
  "ht_find P inp pos best max_len nice_len depth = (\<lambda>(mf, base, h).
     map_option (\<lambda>(mf, base, h, len, off). (len, off, mf, base, h))
       (ht_matchfinder_longest_match P inp mf base pos max_len nice_len h))"

definition ht_pass :: "platform \<Rightarrow> byte list \<Rightarrow> nat \<Rightarrow> nat \<Rightarrow> ht_matchfinder \<times> nat \<times> u32 \<Rightarrow> (ht_matchfinder \<times> nat \<times> u32) option" where
  "ht_pass P inp pos n = (\<lambda>(mf, base, h). ht_matchfinder_skip_bytes P inp mf base pos (length inp) (of_nat n) h)"

lemma ht_find_ok:
  assumes r: "ht_ready inp pos s" and pos: "pos < length inp" and max: "max_len = min 258 (length inp - pos)" "5 \<le> max_len"
    and nice: "nice_len \<le> max_len"
  shows "\<exists>len off s'. ht_find P inp pos best max_len nice_len depth s = Some (len, off, s') \<and> ht_ready inp (Suc pos) s' \<and>
    (len = 0 \<or> repeats inp pos len off)"
proof -
  obtain mf base h where s: "s = (mf, base, h)" by (cases s) auto
  obtain J where J: "ht_inv mf base pos J" "pos \<le> base + MATCHFINDER_WINDOW_SIZE" "unat h < 2 ^ 15"
    using r max by (auto simp: ht_ready_def s)
  have len: "pos + max_len \<le> length inp" "max_len < 2 ^ 32" "max_len \<le> 258" using max pos by simp_all
  obtain mf' base' h' len m where l: "ht_matchfinder_longest_match P inp mf base pos max_len nice_len h =
      Some (mf', base', h', len, pos - m)" "unat h' < 2 ^ 15" "Suc pos \<le> base' + MATCHFINDER_WINDOW_SIZE"
    "ht_inv mf' base' (Suc pos) (insert pos J)" "(len, m) = (0, pos) \<or> (4 \<le> len \<and> true_match inp J pos max_len (len, m))"
    by (rule ht_longest_match_aux [OF J max(2) len(1,2) nice])
  have "len = 0 \<or> repeats inp pos len (pos - m)"
    using l(5) len by (auto intro: true_match_repeats)
  moreover have "ht_ready inp (Suc pos) (mf', base', h')" using l(2-4) pos by (auto simp: ht_ready_def)
  ultimately show ?thesis using l(1) by (auto simp: ht_find_def s)
qed

lemma ht_pass_ok:
  assumes r: "ht_ready inp pos s" and n: "0 < n" "n < 258" "pos + n \<le> length inp"
  shows "\<exists>s'. ht_pass P inp pos n s = Some s' \<and> ht_ready inp (pos + n) s'"
proof -
  obtain mf base h where s: "s = (mf, base, h)" by (cases s) auto
  show ?thesis
  proof (cases "length inp < pos + 5")
    case True
    have lt: "n + 5 < 2 ^ 32" using n(2) by simp
    have "(of_nat n + of_nat HT_MATCHFINDER_REQUIRED_NBYTES :: u32) = of_nat (n + 5)" by (simp add: HT_MATCHFINDER_REQUIRED_NBYTES_def)
    then have "unat (of_nat n + of_nat HT_MATCHFINDER_REQUIRED_NBYTES :: u32) = n + 5" using lt by (simp only: unat_of_nat_u32)
    then have "ht_pass P inp pos n s = Some s" using True n by (simp add: ht_pass_def ht_matchfinder_skip_bytes_def s)
    then show ?thesis using True n by (auto simp: ht_ready_def s)
  next
    case False
    then obtain J where J: "ht_inv mf base pos J" "pos \<le> base + MATCHFINDER_WINDOW_SIZE" "unat h < 2 ^ 15"
      using r by (auto simp: ht_ready_def s)
    have "n \<le> 32768" "pos \<le> length inp" using n by simp_all
    from ht_skip_bytes_inv [OF J n(1) this, of P]
    show ?thesis using n by (auto simp: ht_pass_def ht_ready_def s split: if_splits)
  qed
qed

interpretation ht: match_finder inp 5 "ht_ready inp" "ht_find P inp" "ht_pass P inp" for P inp
proof (unfold_locales, goal_cases)
  case (1 pos s max_len nice_len best depth)
  then show ?case using ht_find_ok [of inp pos s max_len nice_len P best depth] by (metis zero_le)
next
  case (2 pos s n)
  then show ?case by (rule ht_pass_ok)
qed

section \<open>The invariant of a parser\<close>

text \<open>What a block leaves as it was.\<close>

definition same_codes :: "'m compressor \<Rightarrow> 'm compressor \<Rightarrow> bool" where
  "same_codes c c' \<longleftrightarrow> codes c' = codes c \<and> static_codes c' = static_codes c \<and> precode c' = precode c \<and>
     lengths c' = lengths c \<and> max_search_depth c' = max_search_depth c \<and> nice_match_length c' = nice_match_length c \<and>
     length (sequences c') = length (sequences c)"

lemma same_codes_refl [simp]: "same_codes c c"
  by (simp add: same_codes_def)

lemma same_codes_choices: "same_codes c0 c \<Longrightarrow> only_choices c c' \<Longrightarrow> same_codes c0 c'"
  by (auto simp: same_codes_def dest: only_choicesD)

definition finder :: "'m compressor \<times> 'h parse \<Rightarrow> 'm \<times> nat \<times> 'h" where
  "finder = (\<lambda>(c, p). (matchfinder c, p_base p, p_hash p))"

text \<open>The items \<open>its\<close> have been chosen from \<open>start\<close> up to \<open>q\<close>; the match finder is ready at the place of the parser.\<close>

definition parse_inv :: "(nat \<Rightarrow> 'm \<times> nat \<times> 'h \<Rightarrow> bool) \<Rightarrow> byte list \<Rightarrow> nat \<Rightarrow> 'm compressor \<Rightarrow> nat \<Rightarrow> item list \<Rightarrow>
    'm compressor \<times> 'h parse \<Rightarrow> bool" where
  "parse_inv ready inp start c0 q its = (\<lambda>(c, p).
     ready (p_next p) (finder (c, p)) \<and> p_next p \<le> length inp \<and> start \<le> q \<and>
     (258 \<le> length inp - p_next p \<longrightarrow> p_max p = 258) \<and> p_nice p \<le> 258 \<and>
     chosen inp start c (p_seq p) q its \<and> stats_ok (split_stats c) \<and> same_codes c0 c)"

lemma parse_invD:
  assumes "parse_inv ready inp start c0 q its (c, p)"
  shows "ready (p_next p) (finder (c, p))" "p_next p \<le> length inp" "start \<le> q"
    "258 \<le> length inp - p_next p \<longrightarrow> p_max p = 258" "p_nice p \<le> 258" "chosen inp start c (p_seq p) q its"
    "stats_ok (split_stats c)" "same_codes c0 c"
  using assms by (auto simp: parse_inv_def)

lemma advance_simps [simp]:
  "fst (advance n s) = fst s" "p_next (snd (advance n s)) = p_next (snd s) + n" "p_seq (snd (advance n s)) = p_seq (snd s)"
  "p_nice (snd (advance n s)) = p_nice (snd s)"
  by (simp_all add: advance_def split: prod.splits)

lemma inv_choices:
  assumes "parse_inv ready inp start c0 q its (c, p)" and "only_choices c c'" and "chosen inp start c' (p_seq p') q' its'"
    and "p_base p' = p_base p" "p_next p' = p_next p" "p_hash p' = p_hash p" "p_max p' = p_max p" "p_nice p' = p_nice p" and "q \<le> q'"
  shows "parse_inv ready inp start c0 q' its' (c', p')"
  using parse_invD [OF assms(1)] assms(2-) only_choicesD [OF assms(2)] same_codes_choices
  by (auto simp: parse_inv_def finder_def)

lemma literal_step_ok:
  assumes inv: "parse_inv ready inp start c0 q its (advance 1 s)" and q: "q = p_next (snd s)" and room: "Suc q - start < 2 ^ 23"
  shows "\<exists>s'. literal_step inp b s = Some s' \<and> parse_inv ready inp start c0 (Suc q) (its @ [Literal (inp ! q)]) s' \<and>
    p_next (snd s') = Suc q \<and> p_seq (snd s') = p_seq (snd s)"
proof -
  obtain c p where s: "s = (c, p)" by (cases s) auto
  note i = parse_invD [OF inv [unfolded s advance_def prod.case]]
  have "q < length inp" using i(2) q s by simp
  have "chosen inp start c (p_seq p) q its" using i(6) by simp
  from choose_literal_ok [OF this i(7) \<open>q < length inp\<close> room, of b]
  obtain c' where c': "deflate_choose_literal (inp ! q) b (p_seq p) c = Some c'" "only_choices c c'"
    "chosen inp start c' (p_seq p) (Suc q) (its @ [Literal (inp ! q)])" by blast
  have "parse_inv ready inp start c0 (Suc q) (its @ [Literal (inp ! q)]) (c', p\<lparr>p_next := p_next p + 1\<rparr>)"
    by (rule inv_choices [OF inv [unfolded s advance_def prod.case] c'(2)]) (use c'(3) in simp_all)
  then show ?thesis using c'(1) q s \<open>q < length inp\<close> by (simp add: literal_step_def fetch_def)
qed

lemma literals_back_ok:
  assumes inv: "parse_inv ready inp start c0 q its s" and q: "p_next (snd s) = q + n" and k: "k < n" and room: "q + k - start < 2 ^ 23"
  shows "\<exists>s' its'. literals_back inp n k s = Some s' \<and> parse_inv ready inp start c0 (q + k) its' s' \<and>
    p_next (snd s') = p_next (snd s) \<and> p_seq (snd s') = p_seq (snd s)"
  using assms
proof (induction k arbitrary: n q its s)
  case (Suc k)
  obtain c p where s: "s = (c, p)" by (cases s) auto
  note i = parse_invD [OF Suc.prems(1) [unfolded s]]
  have q: "p_next p - n = q" "q < length inp" using i(2) Suc.prems(2,3) s by simp_all
  have r1: "Suc q - start < 2 ^ 23" using Suc.prems(4) by simp
  obtain c' where c': "deflate_choose_literal (inp ! q) True (p_seq p) c = Some c'" "only_choices c c'"
    "chosen inp start c' (p_seq p) (Suc q) (its @ [Literal (inp ! q)])"
    using choose_literal_ok [OF i(6,7) q(2) r1, of True] by auto
  have inv': "parse_inv ready inp start c0 (Suc q) (its @ [Literal (inp ! q)]) (c', p)"
    by (rule inv_choices [OF Suc.prems(1) [unfolded s] c'(2,3)]) simp_all
  have "p_next (snd (c', p)) = Suc q + (n - 1)" "k < n - 1" "Suc q + k - start < 2 ^ 23"
    using Suc.prems(2-4) s by simp_all
  from Suc.IH [OF inv' this]
  show ?case using c'(1) q s by (auto simp: fetch_def)
qed auto

lemma match_step_ok:
  assumes inv: "parse_inv ready inp start c0 q its s" and m: "repeats inp q len off"
    and room: "Suc (p_seq (snd s)) < length (sequences c0)" "q + len - start < 2 ^ 23"
  shows "\<exists>s'. match_step b len off s = Some s' \<and> parse_inv ready inp start c0 (q + len) (its @ [Match len off]) s' \<and>
    p_next (snd s') = p_next (snd s) \<and> p_seq (snd s') = Suc (p_seq (snd s))"
proof -
  obtain c p where s: "s = (c, p)" by (cases s) auto
  note i = parse_invD [OF inv [unfolded s]]
  have "Suc (p_seq p) < length (sequences c)" using room(1) i(8) s by (simp add: same_codes_def)
  from choose_match_ok [OF i(6,7) m this room(2), of b]
  obtain c' where c': "deflate_choose_match len off b (p_seq p) c = Some (c', Suc (p_seq p))" "only_choices c c'"
    "chosen inp start c' (Suc (p_seq p)) (q + len) (its @ [Match len off])" by blast
  have "parse_inv ready inp start c0 (q + len) (its @ [Match len off]) (c', p\<lparr>p_seq := Suc (p_seq p)\<rparr>)"
    by (rule inv_choices [OF inv [unfolded s] c'(2)]) (use c'(3) in simp_all)
  then show ?thesis using c'(1) s by (simp add: match_step_def)
qed

section \<open>Searching and skipping\<close>

lemma chosen_matchfinder [simp]: "chosen inp start (c\<lparr>matchfinder := mf\<rparr>) sq q its = chosen inp start c sq q its"
  by (simp add: chosen_def)

lemma chains_search_ok:
  assumes inv: "parse_inv (hc_ready inp) inp start c0 q its s" and pos: "p_next (snd s) < length inp" and best: "2 \<le> best"
  shows "\<exists>len off s'. chains_search P inp best depth s = Some (len, off, s') \<and>
    parse_inv (hc_ready inp) inp start c0 q its (advance 1 s') \<and>
    p_next (snd s') = p_next (snd s) \<and> p_seq (snd s') = p_seq (snd s) \<and> (len \<le> best \<or> repeats inp (p_next (snd s)) len off)"
proof -
  obtain c p where s: "s = (c, p)" by (cases s) auto
  note i = parse_invD [OF inv [unfolded s]]
  obtain max_len nice_len where a: "adjust_max_and_nice_len (length inp - p_next p) (p_max p, p_nice p) = (max_len, nice_len)" by fastforce
  then have m: "max_len = min 258 (length inp - p_next p)" "nice_len \<le> max_len" "nice_len \<le> 258"
    using i(4,5) by (auto simp: adjust_max_and_nice_len_def DEFLATE_MAX_MATCH_LEN_def split: if_splits)
  obtain len off mf base h where f: "hc_find P inp (p_next p) best max_len nice_len depth (finder (c, p)) = Some (len, off, mf, base, h)"
    "hc_ready inp (Suc (p_next p)) (mf, base, h)" "len \<le> best \<or> repeats inp (p_next p) len off"
    using hc.search_ok [OF i(1) _ m(1) _ m(2) best, of P depth] pos s by fastforce
  define s' where "s' = (c\<lparr>matchfinder := mf\<rparr>, p\<lparr>p_base := base, p_hash := h, p_max := max_len, p_nice := nice_len\<rparr>)"
  have "chains_search P inp best depth s = Some (len, off, s')"
    using a f(1) s by (auto simp: chains_search_def hc_find_def finder_def s'_def)
  moreover have "parse_inv (hc_ready inp) inp start c0 q its (advance 1 s')"
    using i f(2) m pos s by (auto simp: parse_inv_def finder_def s'_def advance_def same_codes_def)
  ultimately show ?thesis using f(3) s by (simp add: s'_def)
qed

lemma chains_skip_ok:
  assumes inv: "parse_inv (hc_ready inp) inp start c0 q its s" and n: "0 < n" "n < 258" "p_next (snd s) + n \<le> length inp"
  shows "\<exists>s'. chains_skip P inp n s = Some s' \<and> parse_inv (hc_ready inp) inp start c0 q its s' \<and>
    p_next (snd s') = p_next (snd s) + n \<and> p_seq (snd s') = p_seq (snd s)"
proof -
  obtain c p where s: "s = (c, p)" by (cases s) auto
  note i = parse_invD [OF inv [unfolded s]]
  obtain mf base h where f: "hc_pass P inp (p_next p) n (finder (c, p)) = Some (mf, base, h)" "hc_ready inp (p_next p + n) (mf, base, h)"
    using hc.skip_ok [OF i(1) n(1,2), of P] n(3) s by fastforce
  then show ?thesis
    using i n s by (auto simp: chains_skip_def hc_pass_def finder_def parse_inv_def same_codes_def)
qed

lemma table_search_ok:
  assumes inv: "parse_inv (ht_ready inp) inp start c0 q its (c, p)" and pos: "p_next p < length inp"
    and m: "max_len = min 258 (length inp - p_next p)" "5 \<le> max_len" "nice_len \<le> max_len"
  shows "\<exists>len off s'. table_search P inp (c, p\<lparr>p_max := max_len, p_nice := nice_len\<rparr>) = Some (len, off, s') \<and>
    parse_inv (ht_ready inp) inp start c0 q its (advance 1 s') \<and>
    p_next (snd s') = p_next p \<and> p_seq (snd s') = p_seq p \<and> (len = 0 \<or> repeats inp (p_next p) len off)"
proof -
  note i = parse_invD [OF inv]
  obtain len off mf base h where f: "ht_find P inp (p_next p) 2 max_len nice_len 0 (finder (c, p)) = Some (len, off, mf, base, h)"
    "ht_ready inp (Suc (p_next p)) (mf, base, h)" "len = 0 \<or> repeats inp (p_next p) len off"
    using ht_find_ok [OF i(1) pos m, of P 2 0] by fastforce
  define s' where "s' = (c\<lparr>matchfinder := mf\<rparr>, p\<lparr>p_base := base, p_hash := h, p_max := max_len, p_nice := nice_len\<rparr>)"
  have "table_search P inp (c, p\<lparr>p_max := max_len, p_nice := nice_len\<rparr>) = Some (len, off, s')"
    using f(1) by (auto simp: table_search_def ht_find_def finder_def s'_def)
  moreover have "parse_inv (ht_ready inp) inp start c0 q its (advance 1 s')"
    using i f(2) m pos by (auto simp: parse_inv_def finder_def s'_def advance_def same_codes_def)
  ultimately show ?thesis using f(3) by (simp add: s'_def)
qed

lemma table_skip_ok:
  assumes inv: "parse_inv (ht_ready inp) inp start c0 q its s" and n: "0 < n" "n < 258" "p_next (snd s) + n \<le> length inp"
  shows "\<exists>s'. table_skip P inp n s = Some s' \<and> parse_inv (ht_ready inp) inp start c0 q its s' \<and>
    p_next (snd s') = p_next (snd s) + n \<and> p_seq (snd s') = p_seq (snd s)"
proof -
  obtain c p where s: "s = (c, p)" by (cases s) auto
  note i = parse_invD [OF inv [unfolded s]]
  obtain mf base h where f: "ht_pass P inp (p_next p) n (finder (c, p)) = Some (mf, base, h)" "ht_ready inp (p_next p + n) (mf, base, h)"
    using ht.skip_ok [OF i(1) n(1,2), of P] n(3) s by fastforce
  then show ?thesis
    using i n s by (auto simp: table_skip_def ht_pass_def finder_def parse_inv_def same_codes_def)
qed

end
