(* ===== verification/Deflate_Parse_Blocks.thy ===== *)
theory Deflate_Parse_Blocks
  imports Deflate_Parse
begin

text \<open>
  The blocks of the parsers: the loops of the fastest, the greedy and the lazy parser return, stay inside the
  array of sequences, and the sequences they leave stand for the bytes of the block.
\<close>

section \<open>Greedy\<close>

declare split_paired_Ex [simp del] literals_back.simps [simp del]

lemma match_step_advance: "match_step b len off (advance n s) = map_option (advance n) (match_step b len off s)"
proof -
  have "p\<lparr>p_next := k, p_seq := sq\<rparr> = p\<lparr>p_seq := sq, p_next := k\<rparr>" for p :: "'b parse" and k sq by (cases p) simp
  then show ?thesis
    by (cases s; cases "deflate_choose_match len off b (p_seq (snd s)) (fst s)") (auto simp: match_step_def advance_def)
qed

lemma greedy_step_ok:
  assumes inv: "parse_inv (hc_ready inp) inp start c0 q its s" and q: "q = p_next (snd s)" "q < length inp"
    and room: "Suc (p_seq (snd s)) < length (sequences c0)" "q + 258 - start < 2 ^ 23" and min: "3 \<le> min_len"
  shows "\<exists>s' its'. greedy_step P inp min_len s = Some s' \<and> parse_inv (hc_ready inp) inp start c0 (p_next (snd s')) its' s' \<and>
    q < p_next (snd s') \<and> p_seq (snd s') \<le> Suc (p_seq (snd s))"
proof -
  have best: "2 \<le> min_len - 1" using min by simp
  obtain len off s1 where s1: "chains_search P inp (min_len - 1) (max_search_depth (fst s)) s = Some (len, off, s1)"
    "parse_inv (hc_ready inp) inp start c0 q its (advance 1 s1)" "p_next (snd s1) = q" "p_seq (snd s1) = p_seq (snd s)"
    "len \<le> min_len - 1 \<or> repeats inp q len off"
    using chains_search_ok [OF inv _ best, of P "max_search_depth (fst s)"] q by metis
  show ?thesis
  proof (cases "min_len \<le> len \<and> (DEFLATE_MIN_MATCH_LEN < len \<or> off \<le> 4096)")
    case True
    then have m: "repeats inp q len off" using s1(5) min by auto
    have len: "3 \<le> len" "len \<le> 258" "q + len \<le> length inp" using m by (simp_all add: repeats_def)
    have room': "Suc (p_seq (snd (advance 1 s1))) < length (sequences c0)" "q + len - start < 2 ^ 23"
      using room s1(4) len(2) by simp_all
    obtain s2 where s2: "match_step True len off (advance 1 s1) = Some s2"
      "parse_inv (hc_ready inp) inp start c0 (q + len) (its @ [Match len off]) s2" "p_next (snd s2) = Suc q"
      "p_seq (snd s2) = Suc (p_seq (snd s))"
      using match_step_ok [OF s1(2) m room', of True] s1(3,4) by auto
    have "0 < len - 1" "len - 1 < 258" "p_next (snd s2) + (len - 1) \<le> length inp" using len s2(3) by simp_all
    from chains_skip_ok [OF s2(2) this, of P]
    obtain s3 where s3: "chains_skip P inp (len - 1) s2 = Some s3"
      "parse_inv (hc_ready inp) inp start c0 (q + len) (its @ [Match len off]) s3" "p_next (snd s3) = q + len" "p_seq (snd s3) = Suc (p_seq (snd s))"
      using s2(3,4) len by auto
    have "greedy_step P inp min_len s = Some s3"
      using s1(1) True s2(1) s3(1) by (auto simp: greedy_step_def match_step_advance)
    then show ?thesis using s3(2-4) len(1) by auto
  next
    case False
    have "Suc q - start < 2 ^ 23" using room by simp
    from literal_step_ok [OF s1(2) s1(3) [symmetric] this, of True]
    obtain s2 where s2: "literal_step inp True s1 = Some s2"
      "parse_inv (hc_ready inp) inp start c0 (Suc q) (its @ [Literal (inp ! q)]) s2" "p_next (snd s2) = Suc q" "p_seq (snd s2) = p_seq (snd s)"
      using s1(4) by auto
    then show ?thesis using s1(1) False by (auto simp: greedy_step_def)
  qed
qed

lemma should_end_block_ok: "stats_ok st \<Longrightarrow> stats_ok (snd (should_end_block st start cur fin))"
  by (auto simp: should_end_block_def do_end_block_check_def merge_new_observations_def stats_ok_def)

lemma block_goes_on_ok:
  assumes inv: "parse_inv ready inp start c0 q its s" and b: "block_goes_on inp start max_end s = (again, s')"
  shows "parse_inv ready inp start c0 q its s'" and "p_next (snd s') = p_next (snd s)" and "p_seq (snd s') = p_seq (snd s)"
    and "again \<Longrightarrow> p_next (snd s) < max_end \<and> p_seq (snd s) < SEQ_STORE_LENGTH"
proof -
  obtain c p where s: "s = (c, p)" by (cases s) auto
  note i = parse_invD [OF inv [unfolded s]]
  obtain stop st where e: "should_end_block (split_stats c) start (p_next p) (length inp) = (stop, st)" by (rule prod.exhaust)
  have st: "stats_ok st" using should_end_block_ok [OF i(7), of start "p_next p" "length inp"] e by simp
  have "only_choices c (c\<lparr>split_stats := st\<rparr>)"
    using only_choicesI [of "sequences c" c st "freqs c"] st by simp
  then have "parse_inv ready inp start c0 q its (c\<lparr>split_stats := st\<rparr>, p)"
    by (rule inv_choices [OF inv [unfolded s]]) (use i(6) in \<open>simp_all add: chosen_def\<close>)
  then show "parse_inv ready inp start c0 q its s'" "p_next (snd s') = p_next (snd s)" "p_seq (snd s') = p_seq (snd s)"
    "again \<Longrightarrow> p_next (snd s) < max_end \<and> p_seq (snd s) < SEQ_STORE_LENGTH"
    using b e inv s by (auto simp: block_goes_on_def split: if_splits)
qed

lemma greedy_block_ok:
  assumes "parse_inv (hc_ready inp) inp start c0 (p_next (snd s)) its s" and "p_next (snd s) < max_end" and "max_end \<le> length inp"
    and "p_seq (snd s) < SEQ_STORE_LENGTH" and "length (sequences c0) = SEQ_STORE_LENGTH + 1" and "max_end + 258 - start < 2 ^ 23"
    and "3 \<le> min_len"
  shows "\<exists>s' its'. greedy_block P inp start max_end min_len s = Some s' \<and>
    parse_inv (hc_ready inp) inp start c0 (p_next (snd s')) its' s' \<and> p_next (snd s) < p_next (snd s')"
  using assms(1,2,4)
proof (induction "length inp - p_next (snd s)" arbitrary: s its rule: less_induct)
  case less
  have room: "Suc (p_seq (snd s)) < length (sequences c0)" "p_next (snd s) + 258 - start < 2 ^ 23" "p_next (snd s) < length inp"
    using less.prems assms by simp_all
  obtain s1 its1 where s1: "greedy_step P inp min_len s = Some s1" "parse_inv (hc_ready inp) inp start c0 (p_next (snd s1)) its1 s1"
    "p_next (snd s) < p_next (snd s1)" "p_seq (snd s1) \<le> Suc (p_seq (snd s))"
    using greedy_step_ok [OF less.prems(1) refl room(3,1,2) assms(7)] by blast
  obtain again s2 where b: "block_goes_on inp start max_end s1 = (again, s2)" by (rule prod.exhaust)
  note g = block_goes_on_ok [OF s1(2) b]
  show ?case
  proof (cases again)
    case True
    have "length inp - p_next (snd s2) < length inp - p_next (snd s)" using g(2) s1(3) room(3) by simp
    moreover have "parse_inv (hc_ready inp) inp start c0 (p_next (snd s2)) its1 s2" using g(1,2) by simp
    moreover have "p_next (snd s2) < max_end" "p_seq (snd s2) < SEQ_STORE_LENGTH" using g True by simp_all
    ultimately obtain s' its' where "greedy_block P inp start max_end min_len s2 = Some s'"
      "parse_inv (hc_ready inp) inp start c0 (p_next (snd s')) its' s'" "p_next (snd s2) < p_next (snd s')"
      using less.hyps by blast
    then show ?thesis using s1 g(2) b True by (subst greedy_block.simps) auto
  next
    case False
    then have "greedy_block P inp start max_end min_len s = Some s2" using s1(1) b by (subst greedy_block.simps) simp
    then show ?thesis using g s1(3) by (intro exI [of _ s2] exI [of _ its1]) simp
  qed
qed

section \<open>Fastest\<close>

lemma last_literals_ok:
  assumes "parse_inv (ht_ready inp) inp start c0 q its s" and "q = p_next (snd s)" and "0 < n" and "q + n = length inp" and "n < 5"
    and "length inp - start < 2 ^ 23"
  shows "\<exists>s' its'. last_literals inp n s = Some s' \<and> parse_inv (ht_ready inp) inp start c0 (length inp) its' s' \<and>
    p_next (snd s') = length inp \<and> p_seq (snd s') = p_seq (snd s)"
  using assms
proof (induction n arbitrary: q its s)
  case (Suc n)
  obtain c p where s: "s = (c, p)" by (cases s) auto
  note i = parse_invD [OF Suc.prems(1) [unfolded s]]
  have near: "ht_ready inp (Suc q) (finder (c, p))"
    using Suc.prems s by (cases "finder (c, p)") (simp add: ht_ready_def)
  have "parse_inv (ht_ready inp) inp start c0 q its (advance 1 s)"
    using i near Suc.prems s by (auto simp: parse_inv_def advance_def finder_def)
  moreover have "Suc q - start < 2 ^ 23" using Suc.prems by simp
  ultimately obtain s1 where s1: "literal_step inp False s = Some s1"
    "parse_inv (ht_ready inp) inp start c0 (Suc q) (its @ [Literal (inp ! q)]) s1" "p_next (snd s1) = Suc q" "p_seq (snd s1) = p_seq (snd s)"
    using literal_step_ok [OF _ Suc.prems(2)] by blast
  show ?case
  proof (cases n)
    case 0
    then show ?thesis using s1 Suc.prems(4) by (subst last_literals.simps) auto
  next
    case (Suc m)
    then obtain s' its' where "last_literals inp n s1 = Some s'" "parse_inv (ht_ready inp) inp start c0 (length inp) its' s'"
      "p_next (snd s') = length inp" "p_seq (snd s') = p_seq (snd s1)"
      using Suc.IH [OF s1(2) s1(3) [symmetric]] Suc.prems by auto
    then show ?thesis using s1 Suc by (subst last_literals.simps) auto
  qed
qed simp

lemma fastest_step_ok:
  assumes inv: "parse_inv (ht_ready inp) inp start c0 q its s" and q: "q = p_next (snd s)" "q < length inp"
    and room: "Suc (p_seq (snd s)) < length (sequences c0)" "q + 258 - start < 2 ^ 23"
  shows "\<exists>left s' its'. fastest_step P inp s = Some (left, s') \<and> parse_inv (ht_ready inp) inp start c0 (p_next (snd s')) its' s' \<and>
    q < p_next (snd s') \<and> p_seq (snd s') \<le> Suc (p_seq (snd s))"
proof -
  obtain c p where s: "s = (c, p)" by (cases s) auto
  note i = parse_invD [OF inv [unfolded s]]
  define remaining where "remaining = length inp - q"
  have rq: "remaining = length inp - p_next p" "0 < remaining" using q s by (simp_all add: remaining_def)
  show ?thesis
  proof (cases "remaining < 5")
    case True
    have p': "parse_inv (ht_ready inp) inp start c0 q its (c, p\<lparr>p_max := remaining\<rparr>)"
      using i True rq by (auto simp: parse_inv_def finder_def)
    obtain s' its' where s': "last_literals inp remaining (c, p\<lparr>p_max := remaining\<rparr>) = Some s'"
      "parse_inv (ht_ready inp) inp start c0 (length inp) its' s'" "p_next (snd s') = length inp" "p_seq (snd s') = p_seq p"
    proof -
      have "q = p_next (snd (c, p\<lparr>p_max := remaining\<rparr>))" "q + remaining = length inp" using q s by (simp_all add: remaining_def)
      moreover have "length inp - start < 2 ^ 23" using room(2) True unfolding remaining_def by linarith
      ultimately show thesis using last_literals_ok [OF p' _ rq(2) _ True] that by auto
    qed
    define s2 where "s2 = (fst s', (snd s')\<lparr>p_max := 0\<rparr>)"
    have "fastest_step P inp s = Some (True, s2)"
      using s'(1) s rq True
      by (auto simp: fastest_step_def Let_def DEFLATE_MAX_MATCH_LEN_def HT_MATCHFINDER_REQUIRED_NBYTES_def s2_def split_beta)
    moreover have "parse_inv (ht_ready inp) inp start c0 (length inp) its' s2"
      using s'(2,3) by (auto simp: parse_inv_def s2_def finder_def split_beta)
    ultimately show ?thesis using s'(3,4) q(2) s by (intro exI [of _ True] exI [of _ s2] exI [of _ its']) (simp add: s2_def)
  next
    case False
    define max_len where "max_len = min 258 remaining"
    define nice where "nice = (if remaining < 258 then min (p_nice p) remaining else p_nice p)"
    have m: "max_len = min 258 (length inp - p_next p)" "5 \<le> max_len" "nice \<le> max_len"
      using False rq i(5) by (auto simp: max_len_def nice_def)
    have pos: "p_next p < length inp" using q s by simp
    obtain len off s1 where s1: "table_search P inp (c, p\<lparr>p_max := max_len, p_nice := nice\<rparr>) = Some (len, off, s1)"
      "parse_inv (ht_ready inp) inp start c0 q its (advance 1 s1)" "p_next (snd s1) = q" "p_seq (snd s1) = p_seq p"
      "len = 0 \<or> repeats inp q len off"
      using table_search_ok [OF inv [unfolded s] pos m, of P] q s by auto
    have p_eq: "(let p' = if remaining < 258 then p\<lparr>p_max := remaining\<rparr> else p
        in if remaining < 258 then p'\<lparr>p_nice := min (p_nice p') (p_max p')\<rparr> else p') = p\<lparr>p_max := max_len, p_nice := nice\<rparr>"
    proof (cases "remaining < 258")
      case True
      then show ?thesis by (simp add: max_len_def nice_def)
    next
      case big: False
      then have "p_max p = 258" using i(4) rq by simp
      then have "p\<lparr>p_max := 258, p_nice := p_nice p\<rparr> = p" by (cases p) simp
      then show ?thesis using big by (simp add: max_len_def nice_def)
    qed
    have step: "fastest_step P inp s =
        (if len \<noteq> 0
         then do { t \<leftarrow> match_step False len off s1; t \<leftarrow> table_skip P inp (len - 1) (advance 1 t); Some (False, t) }
         else map_option (Pair False) (literal_step inp False s1))"
      using s1(1) p_eq False s rq(1)
      by (cases "remaining < 258") (simp_all add: fastest_step_def Let_def DEFLATE_MAX_MATCH_LEN_def HT_MATCHFINDER_REQUIRED_NBYTES_def)
    show ?thesis
    proof (cases "len = 0")
      case True
      have "Suc q - start < 2 ^ 23" using room by simp
      from literal_step_ok [OF s1(2) s1(3) [symmetric] this, of False]
      show ?thesis using s1(4) step True s by auto
    next
      case nz: False
      then have r: "repeats inp q len off" using s1(5) by simp
      have len: "3 \<le> len" "len \<le> 258" "q + len \<le> length inp" using r by (simp_all add: repeats_def)
      have room': "Suc (p_seq (snd (advance 1 s1))) < length (sequences c0)" "q + len - start < 2 ^ 23"
        using room s1(4) len(2) s by simp_all
      obtain s2 where s2: "match_step False len off (advance 1 s1) = Some s2"
        "parse_inv (ht_ready inp) inp start c0 (q + len) (its @ [Match len off]) s2" "p_next (snd s2) = Suc q"
        "p_seq (snd s2) = Suc (p_seq p)"
        using match_step_ok [OF s1(2) r room', of False] s1(3,4) by auto
      have "0 < len - 1" "len - 1 < 258" "p_next (snd s2) + (len - 1) \<le> length inp" using len s2(3) by simp_all
      from table_skip_ok [OF s2(2) this, of P]
      obtain s3 where s3: "table_skip P inp (len - 1) s2 = Some s3"
        "parse_inv (ht_ready inp) inp start c0 (q + len) (its @ [Match len off]) s3" "p_next (snd s3) = q + len" "p_seq (snd s3) = Suc (p_seq p)"
        using s2(3,4) len by auto
      have "fastest_step P inp s = Some (False, s3)" using step nz s2(1) s3(1) by (auto simp: match_step_advance)
      then show ?thesis using s3(2-4) len(1) s by auto
    qed
  qed
qed

lemma fastest_block_ok:
  assumes "parse_inv (ht_ready inp) inp start c0 (p_next (snd s)) its s" and "p_next (snd s) < max_end" and "max_end \<le> length inp"
    and "p_seq (snd s) < FAST_SEQ_STORE_LENGTH" and "length (sequences c0) = FAST_SEQ_STORE_LENGTH + 1" and "max_end + 258 - start < 2 ^ 23"
  shows "\<exists>s' its'. fastest_block P inp max_end s = Some s' \<and>
    parse_inv (ht_ready inp) inp start c0 (p_next (snd s')) its' s' \<and> p_next (snd s) < p_next (snd s')"
  using assms(1,2,4)
proof (induction "length inp - p_next (snd s)" arbitrary: s its rule: less_induct)
  case less
  have room: "Suc (p_seq (snd s)) < length (sequences c0)" "p_next (snd s) + 258 - start < 2 ^ 23" "p_next (snd s) < length inp"
    using less.prems assms by simp_all
  obtain left s1 its1 where s1: "fastest_step P inp s = Some (left, s1)" "parse_inv (ht_ready inp) inp start c0 (p_next (snd s1)) its1 s1"
    "p_next (snd s) < p_next (snd s1)" "p_seq (snd s1) \<le> Suc (p_seq (snd s))"
    using fastest_step_ok [OF less.prems(1) refl room(3,1,2)] by blast
  obtain c1 p1 where e: "s1 = (c1, p1)" by (rule prod.exhaust)
  show ?case
  proof (cases "\<not> left \<and> p_next p1 < max_end \<and> p_seq p1 < FAST_SEQ_STORE_LENGTH")
    case True
    have "length inp - p_next (snd s1) < length inp - p_next (snd s)" using s1(3) room(3) by simp
    then obtain s' its' where "fastest_block P inp max_end s1 = Some s'"
      "parse_inv (ht_ready inp) inp start c0 (p_next (snd s')) its' s'" "p_next (snd s1) < p_next (snd s')"
      using less.hyps [OF _ s1(2)] True e by auto
    then show ?thesis using s1 e True by (subst fastest_block.simps) auto
  next
    case False
    then have "fastest_block P inp max_end s = Some s1" using s1(1) e by (subst fastest_block.simps) auto
    then show ?thesis using s1 by blast
  qed
qed

section \<open>Lazy\<close>

lemma bsr32_le: "bsr32 v \<le> 31"
proof (cases "v = 0")
  case True
  then show ?thesis by (simp add: bsr32_def) (subst bsr_loop.simps, simp)
next
  case False
  then obtain k where k: "bsr32 v = k" "2 ^ k \<le> unat v" using bsr_loop_bounds [of v 0] by (auto simp: bsr32_def)
  have "unat v < 2 ^ 32" using unsigned_less [of v] by simp
  then have "(2 :: nat) ^ k < 2 ^ 32" using k(2) by linarith
  then have "k < 32" by (simp only: power_strict_increasing_iff)
  then show ?thesis using k(1) by simp
qed

text \<open>How much better a match can still become; every better match uses some of it up.\<close>

definition budget :: "nat \<Rightarrow> nat \<Rightarrow> int" where
  "budget len off = 1063 - (4 * int len - int (bsr32 (of_nat off)))"

lemma budget_bounds: "len \<le> 258 \<Longrightarrow> 31 \<le> budget len off" "budget len off \<le> 1094"
  using bsr32_le [of "of_nat off"] by (simp_all add: budget_def)

lemma better_budget: "better len2 off2 len off gain \<Longrightarrow> budget len2 off2 + gain < budget len off"
  by (auto simp: better_def budget_def)

lemma skip_rest_ok:
  assumes inv: "parse_inv (hc_ready inp) inp start c0 q its s" and m: "repeats inp q len off" and k: "p_next (snd s) = q + k" "0 < k" "k < len"
    and room: "Suc (p_seq (snd s)) < length (sequences c0)" "q + 258 - start < 2 ^ 23"
  shows "\<exists>s' its'. do { s \<leftarrow> match_step True len off s; chains_skip P inp (len - k) s } = Some s' \<and>
    parse_inv (hc_ready inp) inp start c0 (p_next (snd s')) its' s' \<and> p_next (snd s') = q + len \<and> p_seq (snd s') = Suc (p_seq (snd s))"
proof -
  have len: "len \<le> 258" "q + len \<le> length inp" using m by (simp_all add: repeats_def)
  have "q + len - start < 2 ^ 23" using room(2) len(1) by simp
  from match_step_ok [OF inv m room(1) this, of True]
  obtain s2 where s2: "match_step True len off s = Some s2"
    "parse_inv (hc_ready inp) inp start c0 (q + len) (its @ [Match len off]) s2" "p_next (snd s2) = q + k" "p_seq (snd s2) = Suc (p_seq (snd s))"
    using k(1) by auto
  have "0 < len - k" "len - k < 258" "p_next (snd s2) + (len - k) \<le> length inp" using len k s2(3) by simp_all
  from chains_skip_ok [OF s2(2) this, of P] show ?thesis using s2 k(3) by auto
qed

lemma have_cur_match_ok:
  assumes "parse_inv (hc_ready inp) inp start c0 q its s" and "p_next (snd s) = Suc q" and "repeats inp q len off"
    and "Suc (p_seq (snd s)) < length (sequences c0)" and "int q + budget len off + 258 < int start + 2 ^ 23"
  shows "\<exists>s' its'. have_cur_match P inp lazy2 len off s = Some s' \<and> parse_inv (hc_ready inp) inp start c0 (p_next (snd s')) its' s' \<and>
    q < p_next (snd s') \<and> p_seq (snd s') = Suc (p_seq (snd s))"
  using assms
proof (induction "length inp - q" arbitrary: q its s len off rule: less_induct)
  case less
  note inv = less.prems(1) and pos = less.prems(2) and m = less.prems(3)
  have len: "3 \<le> len" "len \<le> 258" "q + len \<le> length inp" using m by (simp_all add: repeats_def)
  have "int q + 258 < int start + 2 ^ 23" using less.prems(5) budget_bounds(1) [OF len(2), of off] by linarith
  then have room: "q + 258 - start < 2 ^ 23" by simp
  have more: "q + 2 - start < 2 ^ 23" using room by simp
  show ?case
  proof (cases "p_nice (snd s) \<le> len")
    case True
    have "p_next (snd s) = q + 1" "(1 :: nat) < len" using pos len(1) by simp_all
    from skip_rest_ok [OF inv m this(1) _ this(2) less.prems(4) room, of P]
    show ?thesis using True len(1) by (subst have_cur_match.simps) auto
  next
    case False
    have best: "2 \<le> len - 1" and p1: "p_next (snd s) < length inp" using len pos by simp_all
    obtain len1 off1 s1 where s1: "chains_search P inp (len - 1) (drop_bit 1 (max_search_depth (fst s))) s = Some (len1, off1, s1)"
      "parse_inv (hc_ready inp) inp start c0 q its (advance 1 s1)" "p_next (snd s1) = Suc q" "p_seq (snd s1) = p_seq (snd s)"
      "len1 \<le> len - 1 \<or> repeats inp (Suc q) len1 off1"
      using chains_search_ok [OF inv p1 best, of P "drop_bit 1 (max_search_depth (fst s))"] pos by metis
    let ?t = "advance 1 s1"
    have t: "p_next (snd ?t) = q + 2" "p_seq (snd ?t) = p_seq (snd s)" using s1(3,4) by simp_all
    show ?thesis
    proof (cases "better len1 off1 len off 2")
      case True
      then have r1: "repeats inp (Suc q) len1 off1" using s1(5) len(1) by (auto simp: better_def)
      have "(1 :: nat) < 2" "q + 1 - start < 2 ^ 23" using more by simp_all
      from literals_back_ok [OF s1(2) t(1) this]
      obtain s2 its2 where l2: "literals_back inp 2 1 ?t = Some s2" "parse_inv (hc_ready inp) inp start c0 (q + 1) its2 s2"
        "p_next (snd s2) = p_next (snd ?t)" "p_seq (snd s2) = p_seq (snd ?t)" by blast
      then have s2: "literals_back inp 2 1 ?t = Some s2" "parse_inv (hc_ready inp) inp start c0 (Suc q) its2 s2"
        "p_next (snd s2) = Suc (Suc q)" "p_seq (snd s2) = p_seq (snd s)" using t by simp_all
      have "length inp - Suc q < length inp - q" using len by simp
      moreover have "Suc (p_seq (snd s2)) < length (sequences c0)" using s2(4) less.prems(4) by simp
      moreover have "int (Suc q) + budget len1 off1 + 258 < int start + 2 ^ 23"
        using better_budget [OF True] less.prems(5) by simp
      ultimately obtain s' its' where "have_cur_match P inp lazy2 len1 off1 s2 = Some s'"
        "parse_inv (hc_ready inp) inp start c0 (p_next (snd s')) its' s'" "Suc q < p_next (snd s')" "p_seq (snd s') = Suc (p_seq (snd s2))"
        using less.hyps [OF _ s2(2,3) r1] by blast
      then show ?thesis using False True s1(1) s2 by (subst have_cur_match.simps) auto
    next
      case nb: False
      show ?thesis
      proof (cases lazy2)
        case l1: False
        have "p_next (snd ?t) = q + 2" "(2 :: nat) < len" "Suc (p_seq (snd ?t)) < length (sequences c0)"
          using t len(1) less.prems(4) by simp_all
        from skip_rest_ok [OF s1(2) m this(1) _ this(2,3) room, of P]
        show ?thesis using False nb l1 s1(1,4) len(1) by (subst have_cur_match.simps) auto
      next
        case l2: True
        have p2: "p_next (snd ?t) < length inp" using t len by simp
        obtain len2 off2 s2 where s2: "chains_search P inp (len - 1) (drop_bit 2 (max_search_depth (fst ?t))) ?t = Some (len2, off2, s2)"
          "parse_inv (hc_ready inp) inp start c0 q its (advance 1 s2)" "p_next (snd s2) = q + 2" "p_seq (snd s2) = p_seq (snd s)"
          "len2 \<le> len - 1 \<or> repeats inp (q + 2) len2 off2"
          using chains_search_ok [OF s1(2) p2 best, of P "drop_bit 2 (max_search_depth (fst ?t))"] t by metis
        let ?u = "advance 1 s2"
        have u: "p_next (snd ?u) = q + 3" "p_seq (snd ?u) = p_seq (snd s)" using s2(3,4) by simp_all
        show ?thesis
        proof (cases "better len2 off2 len off 6")
          case True
          then have r2: "repeats inp (q + 2) len2 off2" using s2(5) len(1) by (auto simp: better_def)
          have "(2 :: nat) < 3" by simp
          from literals_back_ok [OF s2(2) u(1) this more]
          obtain s3 its3 where l3: "literals_back inp 3 2 ?u = Some s3" "parse_inv (hc_ready inp) inp start c0 (q + 2) its3 s3"
            "p_next (snd s3) = p_next (snd ?u)" "p_seq (snd s3) = p_seq (snd ?u)" by blast
          then have s3: "literals_back inp 3 2 ?u = Some s3" "parse_inv (hc_ready inp) inp start c0 (q + 2) its3 s3"
            "p_next (snd s3) = Suc (q + 2)" "p_seq (snd s3) = p_seq (snd s)" using u by simp_all
          have "length inp - (q + 2) < length inp - q" using len by simp
          moreover have "Suc (p_seq (snd s3)) < length (sequences c0)" using s3(4) less.prems(4) by simp
          moreover have "int (q + 2) + budget len2 off2 + 258 < int start + 2 ^ 23"
            using better_budget [OF True] less.prems(5) by simp
          ultimately obtain s' its' where "have_cur_match P inp lazy2 len2 off2 s3 = Some s'"
            "parse_inv (hc_ready inp) inp start c0 (p_next (snd s')) its' s'" "q + 2 < p_next (snd s')" "p_seq (snd s') = Suc (p_seq (snd s3))"
            using less.hyps [OF _ s3(2,3) r2] by blast
          then show ?thesis using False True nb l2 s1(1) s2(1) s3 by (subst have_cur_match.simps) auto
        next
          case nb2: False
          have room3: "Suc (p_seq (snd ?u)) < length (sequences c0)" using u less.prems(4) by simp
          show ?thesis
          proof (cases "3 < len")
            case True
            from skip_rest_ok [OF s2(2) m u(1) _ True room3 room, of P]
            show ?thesis using False nb l2 nb2 True s1(1) s2(1,4) by (subst have_cur_match.simps) auto
          next
            case l3: False
            have "q + len - start < 2 ^ 23" using room len(2) by simp
            from match_step_ok [OF s2(2) m room3 this, of True]
            obtain s3 where s3: "match_step True len off ?u = Some s3" "parse_inv (hc_ready inp) inp start c0 (q + len) (its @ [Match len off]) s3"
              "p_next (snd s3) = q + len" "p_seq (snd s3) = Suc (p_seq (snd s))"
              using u l3 len(1) by auto
            then show ?thesis using False nb l2 nb2 l3 s1(1) s2(1) len(1) by (subst have_cur_match.simps) auto
          qed
        qed
      qed
    qed
  qed
qed

lemma lazy_step_ok:
  assumes inv: "parse_inv (hc_ready inp) inp start c0 q its s" and q: "q = p_next (snd s)" "q < length inp"
    and room: "Suc (p_seq (snd s)) < length (sequences c0)" "q + 1400 - start < 2 ^ 23" and min: "3 \<le> min_len"
  shows "\<exists>s' its'. lazy_step P inp lazy2 min_len s = Some s' \<and> parse_inv (hc_ready inp) inp start c0 (p_next (snd s')) its' s' \<and>
    q < p_next (snd s') \<and> p_seq (snd s') \<le> Suc (p_seq (snd s))"
proof -
  have best: "2 \<le> min_len - 1" using min by simp
  obtain len off s1 where s1: "chains_search P inp (min_len - 1) (max_search_depth (fst s)) s = Some (len, off, s1)"
    "parse_inv (hc_ready inp) inp start c0 q its (advance 1 s1)" "p_next (snd s1) = q" "p_seq (snd s1) = p_seq (snd s)"
    "len \<le> min_len - 1 \<or> repeats inp q len off"
    using chains_search_ok [OF inv _ best, of P "max_search_depth (fst s)"] q by metis
  show ?thesis
  proof (cases "len < min_len \<or> (len = DEFLATE_MIN_MATCH_LEN \<and> 8192 < off)")
    case True
    have "Suc q - start < 2 ^ 23" using room by simp
    from literal_step_ok [OF s1(2) s1(3) [symmetric] this, of True]
    obtain s2 where "literal_step inp True s1 = Some s2"
      "parse_inv (hc_ready inp) inp start c0 (Suc q) (its @ [Literal (inp ! q)]) s2" "p_next (snd s2) = Suc q" "p_seq (snd s2) = p_seq (snd s)"
      using s1(4) by auto
    then show ?thesis using s1(1) True by (auto simp: lazy_step_def)
  next
    case False
    then have r: "repeats inp q len off" using s1(5) min by auto
    have "p_next (snd (advance 1 s1)) = Suc q" "Suc (p_seq (snd (advance 1 s1))) < length (sequences c0)"
      using s1(3,4) room by simp_all
    moreover have "int q + budget len off + 258 < int start + 2 ^ 23"
    proof -
      have "int q + 1400 < int start + 2 ^ 23" using room(2) by simp
      then show ?thesis using budget_bounds(2) [of len off] by linarith
    qed
    ultimately obtain s' its' where "have_cur_match P inp lazy2 len off (advance 1 s1) = Some s'"
      "parse_inv (hc_ready inp) inp start c0 (p_next (snd s')) its' s'" "q < p_next (snd s')" "p_seq (snd s') = Suc (p_seq (snd s))"
      using have_cur_match_ok [OF s1(2) _ r] s1(4) by (metis advance_simps(3))
    then show ?thesis using s1(1) False by (auto simp: lazy_step_def)
  qed
qed

lemma choose_min_match_len_ge: "3 \<le> choose_min_match_len n depth"
proof -
  have "list_all (\<lambda>l. 4 \<le> l) min_lens" by (simp add: min_lens_def)
  then have "n < length min_lens \<Longrightarrow> 4 \<le> min_lens ! n" by (simp add: list_all_length)
  then show ?thesis by (auto simp: choose_min_match_len_def Let_def)
qed

lemma lazy_block_ok:
  assumes "parse_inv (hc_ready inp) inp start c0 (p_next (snd s)) its s" and "p_next (snd s) < max_end" and "max_end \<le> length inp"
    and "p_seq (snd s) < SEQ_STORE_LENGTH" and "length (sequences c0) = SEQ_STORE_LENGTH + 1" and "max_end + 1400 - start < 2 ^ 23"
    and "3 \<le> fst m"
  shows "\<exists>s' its'. lazy_block P inp lazy2 start max_end m s = Some s' \<and>
    parse_inv (hc_ready inp) inp start c0 (p_next (snd s')) its' s' \<and> p_next (snd s) < p_next (snd s')"
  using assms(1,2,4,7)
proof (induction "length inp - p_next (snd s)" arbitrary: s its m rule: less_induct)
  case less
  have room: "Suc (p_seq (snd s)) < length (sequences c0)" "p_next (snd s) + 1400 - start < 2 ^ 23" "p_next (snd s) < length inp"
    using less.prems assms by simp_all
  define m1 where "m1 = recalculate inp start s m"
  have min: "3 \<le> fst m1"
    using less.prems(4) choose_min_match_len_ge
    by (auto simp: m1_def recalculate_def recalculate_min_match_len_def Let_def split: prod.splits)
  obtain s1 its1 where s1: "lazy_step P inp lazy2 (fst m1) s = Some s1" "parse_inv (hc_ready inp) inp start c0 (p_next (snd s1)) its1 s1"
    "p_next (snd s) < p_next (snd s1)" "p_seq (snd s1) \<le> Suc (p_seq (snd s))"
    using lazy_step_ok [OF less.prems(1) refl room(3,1,2) min] by blast
  obtain again s2 where b: "block_goes_on inp start max_end s1 = (again, s2)" by (rule prod.exhaust)
  note g = block_goes_on_ok [OF s1(2) b]
  show ?case
  proof (cases again)
    case True
    have "length inp - p_next (snd s2) < length inp - p_next (snd s)" using g(2) s1(3) room(3) by simp
    moreover have "parse_inv (hc_ready inp) inp start c0 (p_next (snd s2)) its1 s2" using g(1,2) by simp
    moreover have "p_next (snd s2) < max_end" "p_seq (snd s2) < SEQ_STORE_LENGTH" using g True by simp_all
    ultimately obtain s' its' where "lazy_block P inp lazy2 start max_end m1 s2 = Some s'"
      "parse_inv (hc_ready inp) inp start c0 (p_next (snd s')) its' s'" "p_next (snd s2) < p_next (snd s')"
      using less.hyps min by blast
    then show ?thesis using s1 g(2) b True by (subst lazy_block.simps) (auto simp: m1_def [symmetric])
  next
    case False
    then have "lazy_block P inp lazy2 start max_end m s = Some s2" using s1(1) b by (subst lazy_block.simps) (simp add: m1_def [symmetric])
    then show ?thesis using g s1(3) by (intro exI [of _ s2] exI [of _ its1]) simp
  qed
qed

end
