(* ===== verification/Deflate_Blocks.thy ===== *)
theory Deflate_Blocks
  imports Deflate_Parse_Blocks
begin

text \<open>
  Blocks from beginning to end: a compressor whose arrays have their sizes and whose match finder is ready can
  choose a block, whichever parser it has, and is then ready for the next one.
\<close>

declare split_paired_Ex [simp del]

section \<open>Between two blocks\<close>

text \<open>The compressor has room for \<open>n\<close> sequences and the sentinel, its counters have their sizes, and the
  match finder is ready at the place of the parser.\<close>

definition block_ready :: "(nat \<Rightarrow> 'm \<times> nat \<times> 'h \<Rightarrow> bool) \<Rightarrow> byte list \<Rightarrow> nat \<Rightarrow> 'm compressor \<times> 'h parse \<Rightarrow> bool" where
  "block_ready ready inp n s \<longleftrightarrow>
     ready (p_next (snd s)) (finder s) \<and> p_next (snd s) \<le> length inp \<and>
     (258 \<le> length inp - p_next (snd s) \<longrightarrow> p_max (snd s) = 258) \<and> p_nice (snd s) \<le> 258 \<and>
     length (sequences (fst s)) = n + 1 \<and> length (litlen_freqs (freqs (fst s))) = 288 \<and>
     length (offset_freqs (freqs (fst s))) = 32 \<and> stats_ok (split_stats (fst s))"

text \<open>A block has been chosen between the states \<open>s\<close> and \<open>s'\<close>: the parser has gone on, the sequences stand for
  \<open>its\<close>, and these are counted and expand to the input up to the place of the parser.\<close>

definition block_chosen :: "(nat \<Rightarrow> 'm \<times> nat \<times> 'h \<Rightarrow> bool) \<Rightarrow> byte list \<Rightarrow> nat \<Rightarrow> 'm compressor \<times> 'h parse \<Rightarrow>
    'm compressor \<times> 'h parse \<Rightarrow> item list \<Rightarrow> bool" where
  "block_chosen ready inp n s s' its \<longleftrightarrow>
     p_next (snd s) < p_next (snd s') \<and> p_seq (snd s') \<le> n \<and>
     chosen inp (p_next (snd s)) (fst s') (p_seq (snd s')) (p_next (snd s')) its \<and> block_ready ready inp n s'"

lemma chosen_seq_less: "chosen inp start c sq pos its \<Longrightarrow> sq < length (sequences c)"
  by (auto simp: chosen_def)

lemma chosen_arrays:
  "chosen inp start c sq pos its \<Longrightarrow> length (litlen_freqs (freqs c)) = 288 \<and> length (offset_freqs (freqs c)) = 32"
  by (simp add: chosen_def counted_def)

lemma block_chosenI:
  assumes "parse_inv ready inp start c0 (p_next (snd s')) its s'" and "start = p_next (snd s)" and "p_next (snd s) < p_next (snd s')"
    and "length (sequences c0) = n + 1"
  shows "block_chosen ready inp n s s' its"
proof -
  obtain c p where s': "s' = (c, p)" by (rule prod.exhaust)
  note i = parse_invD [OF assms(1) [unfolded s']]
  have "length (sequences c) = n + 1" using i(8) assms(4) by (simp add: same_codes_def)
  then show ?thesis
    using i assms(2,3) s' chosen_seq_less [OF i(6)] chosen_arrays [OF i(6)] by (auto simp: block_chosen_def block_ready_def)
qed

text \<open>The state in which a block is parsed, once the sequences are begun.\<close>

lemma begin_parse_inv:
  assumes ready: "block_ready ready inp n (c, p)"
    and c': "only_choices c c'" "chosen inp (p_next p) c' 0 (p_next p) []"
  shows "parse_inv ready inp (p_next p) c' (p_next p) [] (c', p\<lparr>p_seq := 0\<rparr>)"
    and "length (sequences c') = n + 1"
  using assms only_choicesD [OF c'(1)]
  by (auto simp: block_ready_def parse_inv_def finder_def)

lemma max_block_end:
  assumes "start < n"
  shows "start < choose_max_block_end start n soft \<or> soft = 0" and "choose_max_block_end start n soft \<le> n"
    and "choose_max_block_end start n soft < start + soft + 5000"
  using assms by (auto simp: choose_max_block_end_def MIN_BLOCK_LENGTH_def)

section \<open>The parsers on hash chains\<close>

lemma begin_block_ok:
  assumes ready: "block_ready (hc_ready inp) inp n (c, p)" and m: "p_next p \<le> max_end" "max_end \<le> length inp"
  shows "\<exists>k c'. begin_block inp (p_next p) max_end (c, p) = Some (k, c', p\<lparr>p_seq := 0\<rparr>) \<and> 3 \<le> k \<and>
    length (sequences c') = n + 1 \<and>
    parse_inv (hc_ready inp) inp (p_next p) c' (p_next p) [] (c', p\<lparr>p_seq := 0\<rparr>)"
proof -
  define d where "d = c\<lparr>split_stats := init_block_split_stats (split_stats c)\<rparr>"
  have d: "block_ready (hc_ready inp) inp n (d, p)"
    using ready by (auto simp: block_ready_def finder_def d_def stats_ok_def init_block_split_stats_def
        NUM_OBSERVATION_TYPES_def NUM_LITERAL_OBSERVATION_TYPES_def NUM_MATCH_OBSERVATION_TYPES_def)
  then have "sequences d \<noteq> []" "length (litlen_freqs (freqs d)) = 288" "length (offset_freqs (freqs d)) = 32"
    "stats_ok (split_stats d)" "p_next p \<le> length inp"
    by (auto simp: block_ready_def)
  then obtain c' where c': "deflate_begin_sequences d = Some c'" "only_choices d c'" "chosen inp (p_next p) c' 0 (p_next p) []"
    using begin_sequences_ok by blast
  have "p_next p + min (max_end - p_next p) 4096 \<le> length inp" using m by simp
  then obtain k where k: "calculate_min_match_len inp (p_next p) (max_end - p_next p) (max_search_depth c') = Some k" "3 \<le> k"
    using choose_min_match_len_ge by (auto simp: calculate_min_match_len_def Let_def)
  show ?thesis
    using c'(1) k begin_parse_inv [OF d c'(2,3)]
    by (intro exI [of _ k] exI [of _ c']) (simp add: begin_block_def d_def)
qed

lemma chains_block:
  assumes ready: "block_ready (hc_ready inp) inp SEQ_STORE_LENGTH s" and more: "p_next (snd s) < length inp"
  defines "start \<equiv> p_next (snd s)"
  defines "max_end \<equiv> choose_max_block_end start (length inp) SOFT_MAX_BLOCK_LENGTH"
  shows "\<exists>k s1. begin_block inp start max_end s = Some (k, s1) \<and>
    (\<exists>s' its. greedy_block P inp start max_end k s1 = Some s' \<and> block_chosen (hc_ready inp) inp SEQ_STORE_LENGTH s s' its) \<and>
    (\<exists>s' its. lazy_block P inp lazy2 start max_end (k, start + min (length inp - start) 10000) s1 = Some s' \<and>
       block_chosen (hc_ready inp) inp SEQ_STORE_LENGTH s s' its)"
proof -
  obtain c p where s: "s = (c, p)" by (rule prod.exhaust)
  have st: "start = p_next p" "start < length inp" using more s by (simp_all add: start_def)
  note e = max_block_end [OF st(2), of SOFT_MAX_BLOCK_LENGTH, folded max_end_def]
  have m: "start < max_end" "max_end \<le> length inp" "max_end + 1400 - start < 2 ^ 23" "max_end + 258 - start < 2 ^ 23"
    using e by (simp_all add: SOFT_MAX_BLOCK_LENGTH_def)
  obtain k c' where b: "begin_block inp start max_end (c, p) = Some (k, c', p\<lparr>p_seq := 0\<rparr>)" "3 \<le> k"
    "length (sequences c') = SEQ_STORE_LENGTH + 1"
    "parse_inv (hc_ready inp) inp start c' start [] (c', p\<lparr>p_seq := 0\<rparr>)"
    using begin_block_ok [OF ready [unfolded s], of max_end] m st(1) by auto
  let ?s1 = "(c', p\<lparr>p_seq := 0\<rparr>)"
  have at: "parse_inv (hc_ready inp) inp start c' (p_next (snd ?s1)) [] ?s1" "p_next (snd ?s1) < max_end"
    "p_seq (snd ?s1) < SEQ_STORE_LENGTH"
    using b(4) st(1) m(1) by (simp_all add: SEQ_STORE_LENGTH_def)
  have ends: "block_chosen (hc_ready inp) inp SEQ_STORE_LENGTH s s' its"
    if "parse_inv (hc_ready inp) inp start c' (p_next (snd s')) its s'" "p_next (snd ?s1) < p_next (snd s')" for s' its
    using that b(3) s st(1) by (intro block_chosenI [OF that(1)]) simp_all
  obtain s2 its2 where g: "greedy_block P inp start max_end k ?s1 = Some s2"
    "parse_inv (hc_ready inp) inp start c' (p_next (snd s2)) its2 s2" "p_next (snd ?s1) < p_next (snd s2)"
    using greedy_block_ok [OF at(1,2) m(2) at(3) b(3) m(4) b(2)] by blast
  have min: "3 \<le> fst (k, start + min (length inp - start) 10000)" using b(2) by simp
  obtain s3 its3 where l: "lazy_block P inp lazy2 start max_end (k, start + min (length inp - start) 10000) ?s1 = Some s3"
    "parse_inv (hc_ready inp) inp start c' (p_next (snd s3)) its3 s3" "p_next (snd ?s1) < p_next (snd s3)"
    using lazy_block_ok [OF at(1,2) m(2) at(3) b(3) m(3) min] by blast
  show ?thesis
    using b(1) s g(1) ends [OF g(2,3)] l(1) ends [OF l(2,3)] by blast
qed

section \<open>The fastest parser\<close>

lemma table_block:
  assumes ready: "block_ready (ht_ready inp) inp FAST_SEQ_STORE_LENGTH s" and more: "p_next (snd s) < length inp"
  defines "start \<equiv> p_next (snd s)"
  defines "max_end \<equiv> choose_max_block_end start (length inp) FAST_SOFT_MAX_BLOCK_LENGTH"
  shows "\<exists>c s' its. deflate_begin_sequences (fst s) = Some c \<and>
    fastest_block P inp max_end (c, (snd s)\<lparr>p_seq := 0\<rparr>) = Some s' \<and>
    block_chosen (ht_ready inp) inp FAST_SEQ_STORE_LENGTH s s' its"
proof -
  obtain c p where s: "s = (c, p)" by (rule prod.exhaust)
  have st: "start = p_next p" "start < length inp" using more s by (simp_all add: start_def)
  note e = max_block_end [OF st(2), of FAST_SOFT_MAX_BLOCK_LENGTH, folded max_end_def]
  have m: "start < max_end" "max_end \<le> length inp" "max_end + 258 - start < 2 ^ 23"
    using e by (simp_all add: FAST_SOFT_MAX_BLOCK_LENGTH_def)
  have "sequences c \<noteq> []" "length (litlen_freqs (freqs c)) = 288" "length (offset_freqs (freqs c)) = 32"
    "stats_ok (split_stats c)" "start \<le> length inp"
    using ready st s by (auto simp: block_ready_def)
  then obtain c' where c': "deflate_begin_sequences c = Some c'" "only_choices c c'" "chosen inp start c' 0 start []"
    using begin_sequences_ok by blast
  note b = begin_parse_inv [OF ready [unfolded s] c'(2,3) [unfolded st(1)]]
  let ?s1 = "(c', p\<lparr>p_seq := 0\<rparr>)"
  have at: "parse_inv (ht_ready inp) inp start c' (p_next (snd ?s1)) [] ?s1" "p_next (snd ?s1) < max_end"
    "p_seq (snd ?s1) < FAST_SEQ_STORE_LENGTH"
    using b(1) st(1) m(1) by (simp_all add: FAST_SEQ_STORE_LENGTH_def)
  obtain s2 its2 where f: "fastest_block P inp max_end ?s1 = Some s2"
    "parse_inv (ht_ready inp) inp start c' (p_next (snd s2)) its2 s2" "p_next (snd ?s1) < p_next (snd s2)"
    using fastest_block_ok [OF at(1,2) m(2) at(3) b(2) m(3)] by blast
  have "block_chosen (ht_ready inp) inp FAST_SEQ_STORE_LENGTH s s2 its2"
    using f(3) b(2) s st(1) by (intro block_chosenI [OF f(2)]) simp_all
  then show ?thesis using c'(1) f(1) s by (auto intro!: exI [of _ c'] exI [of _ s2] exI [of _ its2])
qed

section \<open>Every parser\<close>

text \<open>C26. A block of the compressor, at levels 1 to 9: the greedy parser, the lazy ones (with one and with two
  places looked ahead) and the fastest one return, have moved on in the input, and have stayed within the
  array of sequences. The sequences they leave are a list of literals and matches, each match of 3 to 258
  bytes, at most 32768 bytes back and inside the data before it, with its offset slot; expanding the list
  after the data before the block gives the data up to the new place, and the counters hold how often
  each symbol is needed. The match finder is then ready for the next block.\<close>

theorem blocks_stand_for_input:
  assumes "block_ready (hc_ready inp) inp SEQ_STORE_LENGTH s" and "p_next (snd s) < length inp"
    and "block_ready (ht_ready inp) inp FAST_SEQ_STORE_LENGTH t" and "p_next (snd t) < length inp"
  shows "(\<exists>k s1. begin_block inp (p_next (snd s))
      (choose_max_block_end (p_next (snd s)) (length inp) SOFT_MAX_BLOCK_LENGTH) s = Some (k, s1) \<and>
    (\<exists>s' its. greedy_block P inp (p_next (snd s))
        (choose_max_block_end (p_next (snd s)) (length inp) SOFT_MAX_BLOCK_LENGTH) k s1 = Some s' \<and>
      block_chosen (hc_ready inp) inp SEQ_STORE_LENGTH s s' its) \<and>
    (\<exists>s' its. lazy_block P inp lazy2 (p_next (snd s))
        (choose_max_block_end (p_next (snd s)) (length inp) SOFT_MAX_BLOCK_LENGTH)
        (k, p_next (snd s) + min (length inp - p_next (snd s)) 10000) s1 = Some s' \<and>
      block_chosen (hc_ready inp) inp SEQ_STORE_LENGTH s s' its)) \<and>
    (\<exists>c t' its. deflate_begin_sequences (fst t) = Some c \<and>
      fastest_block P inp (choose_max_block_end (p_next (snd t)) (length inp) FAST_SOFT_MAX_BLOCK_LENGTH)
        (c, (snd t)\<lparr>p_seq := 0\<rparr>) = Some t' \<and>
      block_chosen (ht_ready inp) inp FAST_SEQ_STORE_LENGTH t t' its)"
  using chains_block [OF assms(1,2)] table_block [OF assms(3,4)] by blast

section \<open>The first block\<close>

text \<open>A compressor with arrays of the right sizes is ready for its first block.\<close>

definition arrays_ok :: "nat \<Rightarrow> 'm compressor \<Rightarrow> bool" where
  "arrays_ok n c \<longleftrightarrow> length (sequences c) = n + 1 \<and> length (litlen_freqs (freqs c)) = 288 \<and>
     length (offset_freqs (freqs c)) = 32 \<and> stats_ok (split_stats c)"

lemma start_chains_ready:
  assumes "arrays_ok n c" and "length (hash3_tab (matchfinder c)) = 32768" and "length (hash4_tab (matchfinder c)) = 65536"
    and "length (next_tab (matchfinder c)) = 32768"
  shows "block_ready (hc_ready inp) inp n (start_chains c)"
proof -
  have "hc_inv (hc_matchfinder_init (matchfinder c)) 0 0 {}" by (rule hc_inv_init) (use assms(2-4) in simp_all)
  then have "hc_ready inp 0 (hc_matchfinder_init (matchfinder c), 0, 0, 0)"
    by (auto simp: hc_ready_def hashes_ok_def)
  then show ?thesis
    using assms(1) by (simp add: block_ready_def arrays_ok_def start_chains_def start_parse_def finder_def DEFLATE_MAX_MATCH_LEN_def)
qed

lemma start_table_ready:
  assumes "arrays_ok n c" and "length (matchfinder c) = 32768"
  shows "block_ready (ht_ready inp) inp n (c\<lparr>matchfinder := ht_matchfinder_init (matchfinder c)\<rparr>, start_parse 0 c)"
proof -
  have "ht_inv (ht_matchfinder_init (matchfinder c)) 0 0 {}" by (rule ht_inv_init) (use assms(2) in simp)
  then have "ht_ready inp 0 (ht_matchfinder_init (matchfinder c), 0, 0)" by (auto simp: ht_ready_def)
  then show ?thesis
    using assms(1) by (simp add: block_ready_def arrays_ok_def start_parse_def finder_def DEFLATE_MAX_MATCH_LEN_def)
qed

definition demo_compressor :: "nat \<Rightarrow> 'm \<Rightarrow> 'm compressor" where
  "demo_compressor n mf =
     \<lparr>max_search_depth = 300, nice_match_length = 258,
      freqs = \<lparr>litlen_freqs = replicate 288 0, offset_freqs = replicate 32 0\<rparr>,
      split_stats = \<lparr>new_observations = replicate 10 0, observations = replicate 10 0, num_new_observations = 0,
        num_observations = 0\<rparr>,
      codes = \<lparr>litlen_codewords = [], offset_codewords = [], litlen_lens = [], offset_lens = []\<rparr>,
      static_codes = \<lparr>litlen_codewords = [], offset_codewords = [], litlen_lens = [], offset_lens = []\<rparr>,
      precode = \<lparr>pre_freqs = [], pre_codewords = [], pre_lens = [], pre_items = [], num_litlen_syms = 0,
        num_offset_syms = 0, num_explicit_lens = 0, num_items = 0\<rparr>,
      lengths = \<lparr>len_codewords = [], len_lens = []\<rparr>, matchfinder = mf,
      sequences = replicate (n + 1) \<lparr>litrunlen_and_length = 0, seq_offset = 0, seq_offset_slot = 0\<rparr>\<rparr>"

lemma demo_compressor_arrays: "arrays_ok n (demo_compressor n mf)"
  by (simp add: arrays_ok_def demo_compressor_def stats_ok_def)

lemma demo_compressor_matchfinder [simp]: "matchfinder (demo_compressor n mf) = mf"
  by (simp add: demo_compressor_def)

definition demo_chains :: hc_parse where
  "demo_chains = start_chains (demo_compressor SEQ_STORE_LENGTH
     \<lparr>hash3_tab = replicate 32768 0, hash4_tab = replicate 65536 0, next_tab = replicate 32768 0\<rparr>)"

definition demo_table :: ht_parse where
  "demo_table =
     (let c = demo_compressor FAST_SEQ_STORE_LENGTH (replicate 32768 (0, 0) :: ht_matchfinder)
      in (c\<lparr>matchfinder := ht_matchfinder_init (matchfinder c)\<rparr>, start_parse 0 c))"

lemma demo_parsers_ready:
  "block_ready (hc_ready inp) inp SEQ_STORE_LENGTH demo_chains" "p_next (snd demo_chains) = 0"
  "block_ready (ht_ready inp) inp FAST_SEQ_STORE_LENGTH demo_table" "p_next (snd demo_table) = 0"
proof -
  show "block_ready (hc_ready inp) inp SEQ_STORE_LENGTH demo_chains"
    unfolding demo_chains_def by (rule start_chains_ready [OF demo_compressor_arrays]) simp_all
  show "block_ready (ht_ready inp) inp FAST_SEQ_STORE_LENGTH demo_table"
    unfolding demo_table_def Let_def by (rule start_table_ready [OF demo_compressor_arrays]) simp
qed (simp_all add: demo_chains_def demo_table_def Let_def start_chains_def start_parse_def)

theorem blocks_stand_for_input_witness:
  "\<exists>k s1 s' its c t' its'. begin_block [1, 2, 3, 1, 2, 3, 1, 2, 3] 0 9 demo_chains = Some (k, s1) \<and>
     lazy_block \<lparr>unaligned_fast = True, little_endian = True\<rparr> [1, 2, 3, 1, 2, 3, 1, 2, 3] True 0 9 (k, 9) s1 = Some s' \<and>
     0 < p_next (snd s') \<and> expand its [] = Some (take (p_next (snd s')) [1, 2, 3, 1, 2, 3, 1, 2, 3]) \<and>
     fastest_block \<lparr>unaligned_fast = True, little_endian = True\<rparr> [1, 2, 3, 1, 2, 3, 1, 2, 3] 9
       (c, (snd demo_table)\<lparr>p_seq := 0\<rparr>) = Some t' \<and>
     0 < p_next (snd t') \<and> expand its' [] = Some (take (p_next (snd t')) [1, 2, 3, 1, 2, 3, 1, 2, 3])"
proof -
  let ?inp = "[1, 2, 3, 1, 2, 3, 1, 2, 3] :: byte list" and ?P = "\<lparr>unaligned_fast = True, little_endian = True\<rparr>"
  note d = demo_parsers_ready(1) [of ?inp] demo_parsers_ready(2) demo_parsers_ready(3) [of ?inp] demo_parsers_ready(4)
  have e: "choose_max_block_end 0 (length ?inp) SOFT_MAX_BLOCK_LENGTH = 9"
    "choose_max_block_end 0 (length ?inp) FAST_SOFT_MAX_BLOCK_LENGTH = 9"
    by (simp_all add: choose_max_block_end_def SOFT_MAX_BLOCK_LENGTH_def FAST_SOFT_MAX_BLOCK_LENGTH_def MIN_BLOCK_LENGTH_def)
  have l: "p_next (snd demo_chains) < length ?inp" "p_next (snd demo_table) < length ?inp"
    "0 + min (length ?inp - 0) 10000 = 9"
    using d(2,4) by simp_all
  note b = blocks_stand_for_input [OF d(1) l(1) d(3) l(2), of ?P True, unfolded d(2,4) e l(3)]
  then obtain k s1 s' its c t' its' where r: "begin_block ?inp 0 9 demo_chains = Some (k, s1)"
    "lazy_block ?P ?inp True 0 9 (k, 9) s1 = Some s'"
    "fastest_block ?P ?inp 9 (c, (snd demo_table)\<lparr>p_seq := 0\<rparr>) = Some t'"
    and chosen: "block_chosen (hc_ready ?inp) ?inp SEQ_STORE_LENGTH demo_chains s' its"
      "block_chosen (ht_ready ?inp) ?inp FAST_SEQ_STORE_LENGTH demo_table t' its'"
    by blast
  have "0 < p_next (snd s') \<and> expand its [] = Some (take (p_next (snd s')) ?inp)"
    "0 < p_next (snd t') \<and> expand its' [] = Some (take (p_next (snd t')) ?inp)"
    using chosen d(2,4) by (simp_all add: block_chosen_def chosen_def)
  with r show ?thesis by blast
qed

end
