(* ===== verification/Spec2Isabelle.thy ===== *)
theory Spec2Isabelle
  imports Lock_Safety Thread Image_Boot Deflate_Copy Deflate_Stored Deflate_Huffman_Code Deflate_Blocks
begin

text \<open>
  A verification library for a teaching operating system kernel for RISC-V (one hart,
  supervisor mode on top of a firmware), for the tool that builds its disk image, and for the
  DEFLATE library that is kept with it.

  \<^bold>\<open>The program.\<close> \<^verbatim>\<open>tools/createimage.c\<close> puts the kernel and the tasks into an image. \<^verbatim>\<open>init/main.c\<close>
  loads the tasks of the image, builds a process control block and
  two stacks for each of them, puts them on the ready queue and enables the timer. From then on
  the kernel runs in traps: \<^verbatim>\<open>arch/riscv/kernel/entry.S\<close> saves the interrupted context on the
  kernel stack of the current task (register \<^verbatim>\<open>tp\<close>), \<^verbatim>\<open>kernel/irq/irq.c\<close> and
  \<^verbatim>\<open>kernel/syscall/syscall.c\<close> dispatch, the calls of \<^verbatim>\<open>kernel/sched\<close>, \<^verbatim>\<open>kernel/locking\<close> and
  \<^verbatim>\<open>drivers/screen.c\<close> do the work, and \<^verbatim>\<open>switch_to\<close> exchanges the kernel stacks of two tasks.
  \<^verbatim>\<open>tools/deflate\<close> compresses and decompresses.

  \<^bold>\<open>The kernel's theories.\<close>
  \<^item> \<open>Prelude\<close>: the machine types, \<^verbatim>\<open>divu\<close>, lemmas on small words, lists and families of
    sequences.
  \<^item> \<open>Queue_Interface\<close>: the contract between the lists and their clients, a locale.
  \<^item> \<open>Kernel_List\<close>: \<^verbatim>\<open>include/os/list.h\<close>, \<^verbatim>\<open>kernel/list/list.c\<close> on a store of next and previous
    pointers; \<open>rep h Q\<close> says that the store \<open>h\<close> holds the disjoint rings \<open>Q\<close>, and the
    interpretation \<open>kq\<close> discharges the contract.
  \<^item> \<open>Machine\<close>: the assembly routines of \<^verbatim>\<open>entry.S\<close> and \<^verbatim>\<open>trap.S\<close> as lists of instructions, with the
    round trips of \<^verbatim>\<open>switch_to\<close> and of the trap entry and exit.
  \<^item> \<open>Memory_Alloc\<close>: \<^verbatim>\<open>kernel/mm/mm.c\<close>, with the contract of a page allocator interpreted for both
    allocators.
  \<^item> \<open>Kernel_State\<close>: the state the kernel components share. \<open>Scheduler\<close>: \<^verbatim>\<open>kernel/sched/time.c\<close>
    and \<^verbatim>\<open>sched.c\<close>. \<open>Scheduler_Spec\<close>: the abstract scheduler, the invariant \<open>sched_inv\<close> of the
    queues, and the effect of the scheduler's pass. \<open>Scheduler_Ops\<close>: what the calls promise.
    \<open>Demo_System\<close>: freshly initialised systems, and a concrete one.
  \<^item> \<open>Lock\<close>: \<^verbatim>\<open>kernel/locking/lock.c\<close>; \<open>Lock_Spec\<close>: the refinement of acquiring and releasing;
    \<open>Lock_Safety\<close>: the step relation of the locking and scheduling calls and mutual exclusion.
  \<^item> \<open>Thread\<close>: \<^verbatim>\<open>kernel/sched/thread.c\<close> and how a new task first reaches its code.
  \<^item> \<open>Kernel_String\<close>: \<^verbatim>\<open>libs/string.c\<close> and the same routines of \<^verbatim>\<open>tiny_libc\<close>, on byte memory.
    \<open>Bios\<close>: the calls of the firmware (\<^verbatim>\<open>arch/riscv/bios/common.c\<close>) and the jump table.
    \<open>Format\<close>: the formatter of \<^verbatim>\<open>libs/printk.c\<close>. \<open>Screen\<close>: \<^verbatim>\<open>printk\<close> and \<^verbatim>\<open>drivers/screen.c\<close>: the
    calls of the firmware a refresh makes.
  \<^item> \<open>Syscall\<close>: \<^verbatim>\<open>kernel/irq/irq.c\<close>, \<^verbatim>\<open>kernel/syscall/syscall.c\<close> and the tables; \<open>Syscall_Spec\<close>: which
    handler a trap reaches, and what it does to the abstract scheduler and to the task.
  \<^item> \<open>Loader\<close>: \<^verbatim>\<open>kernel/loader/loader.c\<close>. \<open>Boot\<close>: \<^verbatim>\<open>init/main.c\<close>; \<open>Boot_Spec\<close>: start-up establishes the
    invariant of the scheduler with the tasks of the disk in the ready queue; \<open>Boot_Demo\<close>: a disk with one task.
  \<^item> \<open>Image\<close>: \<^verbatim>\<open>tools/createimage.c\<close>; \<open>Image_Spec\<close>: it writes the reference image; \<open>Image_Boot\<close>: the
    kernel loads from such an image the bytes of the files that were put in.

  \<^bold>\<open>The theories of the DEFLATE library.\<close>
  \<^item> \<open>Deflate_Common\<close>: \<^verbatim>\<open>common_defs.h\<close>, byte order and unaligned accesses. \<open>Counting_Sort\<close> and
    \<open>Canonical_Code\<close>: the two algorithms that both directions use, on plain lists.
  \<^item> Decompression (\<^verbatim>\<open>lib/deflate_decompress.c\<close>, \<^verbatim>\<open>lib/decompress_template.h\<close>): \<open>Deflate_Table\<close> builds the
    decode tables, \<open>Deflate_Stream\<close> is the state and the bit buffer, \<open>Deflate_Decompress\<close> the whole
    routine. \<open>Deflate_Bits\<close>: the reader is at a position of the bit string of its input. \<open>Deflate_Copy\<close>: the
    copies are those of LZ77.
  \<^item> Compression (\<^verbatim>\<open>lib/deflate_compress.c\<close>): \<open>Deflate_Stored\<close> is level 0 and the bound on the size.
    \<open>Deflate_Huffman\<close> is the construction of the Huffman codes; \<open>Deflate_Heap_Sort\<close>,
    \<open>Deflate_Sort_Symbols\<close>, \<open>Deflate_Huffman_Tree\<close>, \<open>Deflate_Length_Counts\<close>, \<open>Deflate_Codewords\<close> and
    \<open>Deflate_Huffman_Code\<close> show step by step that it yields a complete prefix code in canonical form within the
    limit on the lengths. \<open>Deflate_Match\<close>, \<open>Deflate_Hash_Chains\<close> and \<open>Deflate_Hash_Table\<close> are
    \<^verbatim>\<open>matchfinder_common.h\<close>, \<^verbatim>\<open>hc_matchfinder.h\<close> and \<^verbatim>\<open>ht_matchfinder.h\<close>: the matches they return are real repetitions
    within the window, and their state keeps its invariant over searching, skipping and sliding.
    \<open>Deflate_Sequences\<close> is the state of a compressor, the choice of literals and matches and the statistics that
    split blocks, \<open>Deflate_Output\<close> the output of a block (header, items and their costs), \<open>Deflate_Compress\<close>
    the loops of the fastest, greedy and lazy compressors and the parameters of their levels. \<open>Deflate_Items\<close>
    says which literals and matches the sequences of a block stand for, \<open>Deflate_Parse\<close> what a parser relies on in
    its match finder (a locale, interpreted for the hash chains and the hash table) and the invariant of a parser;
    \<open>Deflate_Parse_Blocks\<close> and \<open>Deflate_Blocks\<close> show that the loops over a block return and that
    what they choose expands to the bytes of the block. That the output of such a block is decompressed to it is not shown.

  \<^bold>\<open>State.\<close> Memory is kept field by field: each field of each kind of structure is a function of the
  structure's address. List nodes are in a store of their own, indexed by address, so that the
  aliasing of nodes is real. What the assembly reads is in the doubleword memory of the machine, and
  what the string routines and the loader touch is byte memory.
  The addresses of the globals are a parameter (\<open>layout\<close>), and \<open>wf_layout\<close> says that the queue
  heads differ. \<^verbatim>\<open>rdtime\<close> is an input stream. In the DEFLATE library an array is a list, and a pointer
  into the input or output is an index; an access outside is \<open>None\<close>, so that a theorem that a
  routine yields \<open>Some\<close> says that it stays inside its arrays. The platform (byte order,
  \<^verbatim>\<open>UNALIGNED_ACCESS_IS_FAST\<close>) is a parameter; \<^verbatim>\<open>size_t\<close> has 64 bits on all of them.

  \<^bold>\<open>Control.\<close> A call that ends in \<^verbatim>\<open>switch_to\<close> does not return to its caller: \<open>Switched\<close> says
  so, and the code after it runs when the task is switched back to. Loops over linked lists may
  not end on a corrupt store, so they return an option (\<open>None\<close> for a run that does not end), as do
  the loops that need a terminator; the loops of the DEFLATE library are functions with a
  measure, or have a bound that the code gives (the number of symbols, the search depth, the
  bytes that remain), or are partial functions (the loops over blocks) that are shown to return. Faults (an index outside a table, a call through an empty entry) are values of a sum type.

  \<^bold>\<open>Not modelled.\<close> Start-up assembly before the C code runs; the C stack frames of the kernel
  (the registers at a call of \<^verbatim>\<open>switch_to\<close> are those of the machine state); the firmware and the
  device it talks to, which are parameters; the test programs. Of the DEFLATE library, the near-optimal parser and
  the binary tree match finder that only it uses; feature tests of other
  compilers and processors, the bit reversal in ARM assembly among them.
\<close>

end
